(* ===== verification/Prelude.thy ===== *)
theory Prelude
  imports Main "HOL-Library.Word"
begin

text \<open>
  Shared vocabulary of the development: the fixed-width integer types of the kernel, the
  flat 32-bit address space, the outcome of code that may call \<open>kernel_panic\<close>, array
  filling loops, and the list, option and word lemmas the component theories use.

  The kernel is compiled for i386 with 4-byte pointers, so a pointer is a 32-bit word and
  pointer arithmetic wraps.  \<open>kernel_panic\<close> (src/src/kernel/panic/panic.c) never returns:
  code that reaches it has the value \<open>Inl\<close> of the panic that was raised, code that does not
  has the value \<open>Inr\<close> of its result.
\<close>

section \<open>Machine types\<close>

type_synonym u8 = "8 word"
type_synonym u16 = "16 word"
type_synonym u32 = "32 word"
type_synonym u64 = "64 word"
type_synonym addr = "32 word"

text \<open>Byte-addressed memory and memory seen as 32-bit cells at 4-byte aligned addresses.\<close>

type_synonym bytemem = "addr \<Rightarrow> u8"
type_synonym wordmem = "addr \<Rightarrow> u32"

named_theorems layout_defs \<open>numeric constants of the memory layout\<close>
named_theorems word_bounds \<open>facts that move word arithmetic to nat below overflow\<close>

section \<open>Panics\<close>

datatype panic =
    PanicListCorruption
  | PanicHeapBounds addr
  | PanicDoubleFree addr
  | PanicHeapCorrupt addr
  | PanicFrameAlreadyFree addr
  | PanicMapUnaligned addr
  | PanicMapUnallocated addr
  | PanicNullPageDirectory
  | PanicOutOfFrames

type_synonym 'a kres = "panic + 'a"

definition kbind :: "'a kres \<Rightarrow> ('a \<Rightarrow> 'b kres) \<Rightarrow> 'b kres" where
  "kbind r f = (case r of Inl p \<Rightarrow> Inl p | Inr x \<Rightarrow> f x)"

text \<open>The same for operations that also may not return: \<open>None\<close> is a call that never comes back.\<close>

definition kobind :: "'a kres option \<Rightarrow> ('a \<Rightarrow> 'b kres option) \<Rightarrow> 'b kres option" where
  "kobind r f = Option.bind r (\<lambda>x. case x of Inl p \<Rightarrow> Some (Inl p) | Inr y \<Rightarrow> f y)"

section \<open>Loops that fill an array\<close>

text \<open>The loop \<open>for (i = 0; i < n; i++) a[i] = f(i)\<close> on an array seen as a function.\<close>

primrec fill_with :: "nat \<Rightarrow> (nat \<Rightarrow> 'a) \<Rightarrow> (nat \<Rightarrow> 'a) \<Rightarrow> (nat \<Rightarrow> 'a)" where
  "fill_with 0 f a = a"
| "fill_with (Suc n) f a = (fill_with n f a)(n := f n)"

section \<open>Generic lemmas\<close>

lemma unat_u32_eq: "unat (x :: u32) = unat y \<longleftrightarrow> x = y"
  by (metis word_unat_eq_iff)

lemma unat_u32_image: "unat (x :: u32) \<in> unat ` (A :: u32 set) \<longleftrightarrow> x \<in> A"
  by (auto simp: unat_u32_eq)

lemma kobind_simps [simp]:
  "kobind (Some (Inr x)) f = f x" "kobind (Some (Inl p)) f = Some (Inl p)" "kobind None f = None"
  by (simp_all add: kobind_def)

lemma kobind_Inr_iff:
  "kobind r f = Some (Inr y) \<longleftrightarrow> (\<exists>x. r = Some (Inr x) \<and> f x = Some (Inr y))"
  by (cases r) (auto simp: kobind_def split: sum.splits)

lemma kobind_mono [partial_function_mono]:
  assumes "mono_option B" "\<And>y. mono_option (\<lambda>f. C y f)"
  shows "mono_option (\<lambda>f. kobind (B f) (\<lambda>y. C y f))"
proof -
  have "mono_option (\<lambda>f. case x of Inl p \<Rightarrow> Some (Inl p) | Inr y \<Rightarrow> C y f)" for x
    using assms(2) by (cases x) (auto simp: monotone_def option.leq_refl)
  then show ?thesis unfolding kobind_def by (intro bind_mono assms(1))
qed

lemma kbind_simps [simp]:
  "kbind (Inl p) f = Inl p"
  "kbind (Inr x) f = f x"
  by (simp_all add: kbind_def)

lemma kbind_Inr_conv: "kbind r f = Inr y \<longleftrightarrow> (\<exists>x. r = Inr x \<and> f x = Inr y)"
  by (cases r) auto

lemma fill_with_apply [simp]:
  "fill_with n f a i = (if i < n then f i else a i)"
  by (induction n) auto

lemma unat_of_nat_u32 [word_bounds]: "n < 2 ^ 32 \<Longrightarrow> unat (of_nat n :: u32) = n"
  by (simp add: unat_of_nat take_bit_nat_eq_self)

lemma unat_plus_u32 [word_bounds]:
  "unat a + unat b < 2 ^ 32 \<Longrightarrow> unat (a + b :: u32) = unat a + unat b"
  by (simp add: unat_word_ariths)

lemma unat_minus_u32 [word_bounds]:
  "unat b \<le> unat a \<Longrightarrow> unat (a - b :: u32) = unat a - unat b"
  by (simp add: unat_sub_if')

lemma unat_lt_u32 [simp]: "unat (a :: u32) < 4294967296"
  using unsigned_less [of a] by simp

lemma unat_le_u32 [simp]: "unat (a :: u32) \<le> 4294967296"
  using unat_lt_u32 [of a] by linarith

lemma unat_lt_u16 [simp]: "unat (a :: u16) < 65536"
  using unsigned_less [of a] by simp

lemma unat_lt_u8 [simp]: "unat (a :: u8) < 256"
  using unsigned_less [of a] by simp

lemma less_16_cases:
  "(d :: nat) < 16 \<Longrightarrow> d \<in> {0, 1, 2, 3, 4, 5, 6, 7, 8, 9, 10, 11, 12, 13, 14, 15}"
  by (auto simp: less_Suc_eq numeral_eq_Suc)

section \<open>Alignment\<close>

text \<open>Clearing the low bits rounds down to a multiple of a power of two.\<close>

unbundle bit_operations_syntax

lemma and_not_mask_eq: "(x :: u32) AND NOT (mask j) = x - take_bit j x"
proof -
  have "x = (x AND NOT (mask j)) OR (x AND mask j)"
    by (rule bit_eqI) (auto simp: bit_simps)
  also have "\<dots> = (x AND NOT (mask j)) + (x AND mask j)"
    by (rule disjunctive_add [symmetric]) (auto simp: bit_simps)
  finally show ?thesis by (metis add_diff_cancel_right' take_bit_eq_mask)
qed

lemma unat_align_down: "unat ((x :: u32) AND NOT (mask j)) = unat x - unat x mod 2 ^ j"
proof -
  have t: "unat (take_bit j x) = unat x mod 2 ^ j"
    by (metis unsigned_take_bit_eq take_bit_eq_mod)
  then have "unat (take_bit j x) \<le> unat x" by simp
  then have "unat (x - take_bit j x) = unat x - unat (take_bit j x)" by (simp add: unat_sub_if')
  then show ?thesis unfolding and_not_mask_eq by (simp only: t)
qed

lemma pow2_nat: "0 < n \<Longrightarrow> n AND (n - 1) = (0::nat) \<Longrightarrow> \<exists>k. n = 2 ^ k"
proof (induction n rule: less_induct)
  case (less n)
  show ?case
  proof (cases "odd n")
    case True
    then obtain y where y: "n = 2 * y + 1" by (metis oddE)
    have "n AND (n - 1) = 2 * (y AND y)" unfolding y by (subst and_rec) simp
    with less.prems y have "n = 2 ^ 0" by simp
    then show ?thesis by blast
  next
    case False
    then obtain y where y: "n = 2 * y" by blast
    then have "0 < y" using less.prems by simp
    have "(2 * y - 1) div 2 = y - 1" by simp
    moreover have "n AND (n - 1) = 2 * ((2 * y) div 2 AND (2 * y - 1) div 2)"
      unfolding y by (subst and_rec) simp
    ultimately have "y AND (y - 1) = 0" using less.prems by simp
    then obtain k where "y = 2 ^ k" using less.IH [of y] \<open>0 < y\<close> y by auto
    then have "n = 2 ^ Suc k" using y by simp
    then show ?thesis by blast
  qed
qed

lemma pow2_u32:
  assumes "(x :: u32) \<noteq> 0" "x AND (x - 1) = 0"
  shows "\<exists>k < 32. unat x = 2 ^ k \<and> x - 1 = mask k"
proof -
  have pos: "0 < unat x" using assms(1) by (simp add: unat_gt_0)
  then have m: "unat (x - 1) = unat x - 1" by (simp add: unat_sub_if')
  have "unat x AND (unat x - 1) = unat (x AND (x - 1))" by (simp only: unsigned_and_eq m)
  then obtain k where k: "unat x = 2 ^ k" using pow2_nat [OF pos] assms(2) by auto
  have "(2 :: nat) ^ k < 2 ^ 32" using unsigned_less [of x, where ?'a = nat] unfolding k by simp
  then have "k < 32" by (simp only: power_strict_increasing_iff)
  moreover have "x - 1 = mask k"
    by (metis k mask_eq_exp_minus_1 of_nat_unat ucast_id of_nat_power of_nat_numeral)
  ultimately show ?thesis using k by blast
qed

end
