(* ===== verification/Klib_String.thy ===== *)
theory Klib_String
  imports Prelude
begin

text \<open>
  The kernel's string library, src/src/klib/string.c, on a flat byte-addressed memory:
  a pointer is a 32-bit address and every access goes through the memory, so overlapping
  buffers behave as the byte loops of the source make them behave.  Loops bounded by a
  counter are total; the loops that only stop at a NUL byte are partial functions whose
  value \<open>None\<close> stands for a loop that never ends.
\<close>

section \<open>The operations\<close>

fun memcpy_loop :: "bytemem \<Rightarrow> addr \<Rightarrow> addr \<Rightarrow> nat \<Rightarrow> nat \<Rightarrow> bytemem" where
  "memcpy_loop m dest src i 0 = m"
| "memcpy_loop m dest src i (Suc n) =
     memcpy_loop (m(dest + of_nat i := m (src + of_nat i))) dest src (Suc i) n"

definition memcpy :: "bytemem \<Rightarrow> addr \<Rightarrow> addr \<Rightarrow> u32 \<Rightarrow> bytemem" where
  "memcpy m dest src count = memcpy_loop m dest src 0 (unat count)"

fun memset_loop :: "bytemem \<Rightarrow> addr \<Rightarrow> u8 \<Rightarrow> nat \<Rightarrow> nat \<Rightarrow> bytemem" where
  "memset_loop m dest val i 0 = m"
| "memset_loop m dest val i (Suc n) =
     memset_loop (m(dest + of_nat i := val)) dest val (Suc i) n"

definition memset :: "bytemem \<Rightarrow> addr \<Rightarrow> u8 \<Rightarrow> u32 \<Rightarrow> bytemem" where
  "memset m dest val count = memset_loop m dest val 0 (unat count)"

text \<open>\<open>memsetw\<close> stores 16-bit units, low byte first.\<close>

fun memsetw_loop :: "bytemem \<Rightarrow> addr \<Rightarrow> u16 \<Rightarrow> nat \<Rightarrow> nat \<Rightarrow> bytemem" where
  "memsetw_loop m dest val i 0 = m"
| "memsetw_loop m dest val i (Suc n) =
     memsetw_loop (m(dest + 2 * of_nat i := ucast val,
                     dest + 2 * of_nat i + 1 := ucast (drop_bit 8 val))) dest val (Suc i) n"

definition memsetw :: "bytemem \<Rightarrow> addr \<Rightarrow> u16 \<Rightarrow> u32 \<Rightarrow> bytemem" where
  "memsetw m dest val count = memsetw_loop m dest val 0 (unat count)"

partial_function (option) strlen_loop :: "bytemem \<Rightarrow> addr \<Rightarrow> u32 \<Rightarrow> u32 option" where
  "strlen_loop m str len =
     (if m (str + len) \<noteq> 0 then strlen_loop m str (len + 1) else Some len)"

definition strlen :: "bytemem \<Rightarrow> addr \<Rightarrow> u32 option" where
  "strlen m str = strlen_loop m str 0"

partial_function (option) strcmp :: "bytemem \<Rightarrow> addr \<Rightarrow> addr \<Rightarrow> int option" where
  "strcmp m s1 s2 =
     (if m s1 \<noteq> 0 \<and> m s1 = m s2 then strcmp m (s1 + 1) (s2 + 1)
      else Some (uint (m s1) - uint (m s2)))"

fun memcmp_loop :: "bytemem \<Rightarrow> addr \<Rightarrow> addr \<Rightarrow> nat \<Rightarrow> nat \<Rightarrow> int" where
  "memcmp_loop m s1 s2 i 0 = 0"
| "memcmp_loop m s1 s2 i (Suc n) =
     (if m (s1 + of_nat i) \<noteq> m (s2 + of_nat i) then 1 else memcmp_loop m s1 s2 (Suc i) n)"

text \<open>The count of \<open>memcmp\<close> and \<open>strncpy\<close> is a signed int: a negative count runs no iteration.\<close>

definition memcmp :: "bytemem \<Rightarrow> addr \<Rightarrow> addr \<Rightarrow> int \<Rightarrow> int" where
  "memcmp m s1 s2 count = memcmp_loop m s1 s2 0 (nat count)"

partial_function (option) strcpy_loop :: "bytemem \<Rightarrow> addr \<Rightarrow> addr \<Rightarrow> bytemem option" where
  "strcpy_loop m dest src =
     (if m src \<noteq> 0 then strcpy_loop (m(dest := m src)) (dest + 1) (src + 1)
      else Some (m(dest := 0)))"

definition strcpy :: "bytemem \<Rightarrow> addr \<Rightarrow> addr \<Rightarrow> (bytemem \<times> addr) option" where
  "strcpy m dest src = map_option (\<lambda>m'. (m', dest)) (strcpy_loop m dest src)"

fun strncpy_pad :: "bytemem \<Rightarrow> addr \<Rightarrow> nat \<Rightarrow> nat \<Rightarrow> bytemem" where
  "strncpy_pad m dest i 0 = m"
| "strncpy_pad m dest i (Suc k) = strncpy_pad (m(dest + of_nat i := 0)) dest (Suc i) k"

fun strncpy_loop :: "bytemem \<Rightarrow> addr \<Rightarrow> addr \<Rightarrow> nat \<Rightarrow> nat \<Rightarrow> bytemem" where
  "strncpy_loop m dest src i 0 = m"
| "strncpy_loop m dest src i (Suc k) =
     (if m (src + of_nat i) \<noteq> 0
      then strncpy_loop (m(dest + of_nat i := m (src + of_nat i))) dest src (Suc i) k
      else strncpy_pad m dest i (Suc k))"

definition strncpy :: "bytemem \<Rightarrow> addr \<Rightarrow> addr \<Rightarrow> int \<Rightarrow> bytemem" where
  "strncpy m dest src n = strncpy_loop m dest src 0 (nat n)"

section \<open>NUL-terminated strings in memory\<close>

text \<open>
  \<open>bytes_at m p bs\<close>: the bytes \<open>bs\<close> lie at \<open>p\<close>.  \<open>cstr m p s\<close>: at \<open>p\<close> there is the
  C string with the (non-NUL) characters \<open>s\<close>.
\<close>

primrec bytes_at :: "bytemem \<Rightarrow> addr \<Rightarrow> u8 list \<Rightarrow> bool" where
  "bytes_at m p [] = True"
| "bytes_at m p (b # bs) = (m p = b \<and> bytes_at m (p + 1) bs)"

definition cstr :: "bytemem \<Rightarrow> addr \<Rightarrow> u8 list \<Rightarrow> bool" where
  "cstr m p s \<longleftrightarrow> 0 \<notin> set s \<and> bytes_at m p (s @ [0])"

text \<open>The \<open>n\<close> bytes of the buffer at \<open>p\<close>.\<close>

definition buf :: "addr \<Rightarrow> nat \<Rightarrow> addr set" where
  "buf p n = (\<lambda>i. p + of_nat i) ` {..<n}"

section \<open>Addresses and buffers\<close>

lemma bytes_at_nth: "bytes_at m p bs \<longleftrightarrow> (\<forall>i < length bs. m (p + of_nat i) = bs ! i)"
proof (induction bs arbitrary: p)
  case (Cons b bs)
  have "(\<forall>i < length (b # bs). m (p + of_nat i) = (b # bs) ! i) \<longleftrightarrow>
        m p = b \<and> (\<forall>i < length bs. m (p + 1 + of_nat i) = bs ! i)"
    by (auto simp: less_Suc_eq_0_disj add.assoc nth_Cons split: nat.splits)
  with Cons show ?case by simp
qed simp

lemma bytes_at_append:
  "bytes_at m p (xs @ ys) \<longleftrightarrow> bytes_at m p xs \<and> bytes_at m (p + of_nat (length xs)) ys"
  by (induction xs arbitrary: p) (auto simp: add.assoc)

lemma offset_eq_iff:
  assumes "n < 2 ^ 32"
  shows "x = p + of_nat n \<longleftrightarrow> unat (x - p :: u32) = n"
proof
  assume "x = p + of_nat n"
  then show "unat (x - p) = n" using assms by (simp add: word_bounds)
next
  assume "unat (x - p) = n"
  then have "x - p = of_nat n" by auto
  then show "x = p + of_nat n" by (simp add: algebra_simps)
qed

text \<open>
  Two offsets into buffers at \<open>d\<close> and \<open>s\<close> name the same byte only if the distance of the
  buffers is the difference of the offsets: the arithmetic behind every forward copy.
\<close>

lemma forward_copy_disjoint:
  assumes "d + of_nat i = s + k" and "i < unat (k :: u32)"
  shows "d \<noteq> s \<and> unat (d - s) \<le> unat k"
proof -
  have "i < 2 ^ 32" using assms(2) less_trans [OF assms(2) unat_lt_u32] by simp
  then have i: "unat (of_nat i :: u32) = i" by (rule unat_of_nat_u32)
  have "d - s = k - of_nat i" using assms(1) by (simp add: algebra_simps)
  then have u: "unat (d - s) = unat k - i"
    using assms(2) i by (simp add: word_bounds)
  then show ?thesis using assms(2) by auto
qed

section \<open>Memory blocks\<close>

lemma memcpy_loop_apply:
  assumes "i + n \<le> 2 ^ 32" and "dest = src \<or> i + n \<le> unat (dest - src)"
  shows "memcpy_loop m dest src i n x =
     (if i \<le> unat (x - dest) \<and> unat (x - dest) < i + n then m (src + (x - dest)) else m x)"
  using assms
proof (induction n arbitrary: i m)
  case (Suc n)
  let ?m = "m(dest + of_nat i := m (src + of_nat i))"
  have i: "i < 2 ^ 32" using Suc.prems(1) by simp
  have IH: "memcpy_loop ?m dest src (Suc i) n x =
      (if Suc i \<le> unat (x - dest) \<and> unat (x - dest) < Suc i + n
       then ?m (src + (x - dest)) else ?m x)"
    by (rule Suc.IH) (use Suc.prems in auto)
  have keep: "?m (src + (x - dest)) = m (src + (x - dest))"
    if "i < unat (x - dest)" "unat (x - dest) < Suc i + n"
    using forward_copy_disjoint [of dest i src "x - dest"] that Suc.prems(2) by auto
  have here: "x = dest + of_nat i \<longleftrightarrow> unat (x - dest) = i"
    using i by (rule offset_eq_iff)
  show ?case using IH keep here by auto
qed auto

lemma memcpy_apply:
  assumes "dest = src \<or> count \<le> dest - src"
  shows "memcpy m dest src count x =
     (if x - dest < count then m (src + (x - dest)) else m x)"
proof -
  have "dest = src \<or> 0 + unat count \<le> unat (dest - src)"
    using assms by (auto simp: word_le_nat_alt)
  then show ?thesis
    unfolding memcpy_def
    by (subst memcpy_loop_apply) (auto simp: word_less_nat_alt)
qed

lemma memset_loop_apply:
  "i + n \<le> 2 ^ 32 \<Longrightarrow> memset_loop m dest val i n x =
     (if i \<le> unat (x - dest) \<and> unat (x - dest) < i + n then val else m x)"
proof (induction n arbitrary: i m)
  case (Suc n)
  have "x = dest + of_nat i \<longleftrightarrow> unat (x - dest) = i"
    using Suc.prems by (intro offset_eq_iff) simp
  with Suc show ?case by auto
qed auto

lemma memset_apply:
  "memset m dest val count x = (if x - dest < count then val else m x)"
  unfolding memset_def
  by (subst memset_loop_apply) (auto simp: word_less_nat_alt)

lemma memcmp_loop_zero:
  "memcmp_loop m s1 s2 i n = 0 \<longleftrightarrow>
     (\<forall>j. i \<le> j \<and> j < i + n \<longrightarrow> m (s1 + of_nat j) = m (s2 + of_nat j))"
proof (induction n arbitrary: i)
  case (Suc n)
  have "(\<forall>j. i \<le> j \<and> j < i + Suc n \<longrightarrow> P j) \<longleftrightarrow>
        P i \<and> (\<forall>j. Suc i \<le> j \<and> j < Suc i + n \<longrightarrow> P j)" for P
    by (auto simp: Suc_le_eq le_eq_less_or_eq [of i])
  then show ?case by (simp add: Suc)
qed auto

section \<open>Strings\<close>

lemma strlen_loop_cstr:
  "0 \<notin> set s \<Longrightarrow> bytes_at m (p + len) (s @ [0]) \<Longrightarrow>
   strlen_loop m p len = Some (len + of_nat (length s))"
proof (induction s arbitrary: len)
  case Nil
  then show ?case by (simp add: strlen_loop.simps)
next
  case (Cons b s)
  then have "strlen_loop m p (len + 1) = Some (len + 1 + of_nat (length s))"
    by (intro Cons.IH) (auto simp: add.assoc)
  with Cons.prems show ?case by (subst strlen_loop.simps) (auto simp: add.assoc)
qed

lemma strlen_cstr: "cstr m p s \<Longrightarrow> strlen m p = Some (of_nat (length s))"
  unfolding strlen_def cstr_def using strlen_loop_cstr [of s m p 0] by simp

lemma cstr_Cons: "cstr m p (b # s) \<longleftrightarrow> b \<noteq> 0 \<and> m p = b \<and> cstr m (p + 1) s"
  by (auto simp: cstr_def)

lemma cstr_Nil: "cstr m p [] \<longleftrightarrow> m p = 0"
  by (simp add: cstr_def)

lemma strcmp_cstr:
  "cstr m p s \<Longrightarrow> cstr m q t \<Longrightarrow>
   \<exists>r. strcmp m p q = Some r \<and> (r = 0 \<longleftrightarrow> s = t) \<and> (r < 0 \<longleftrightarrow> ord_class.lexordp s t)"
proof (induction s arbitrary: p q t)
  case Nil
  then show ?case
  proof (cases t)
    case (Cons c t')
    with Nil have "m p = 0" "m q \<noteq> 0" by (auto simp: cstr_Nil cstr_Cons)
    moreover from this have "0 < uint (m q)"
      by (metis uint_0_iff uint_nonnegative order_le_less)
    ultimately show ?thesis using Cons by (subst strcmp.simps) simp
  qed (auto simp: strcmp.simps [of m p q] cstr_Nil)
next
  case (Cons b s)
  then have b: "b \<noteq> 0" "m p = b" "cstr m (p + 1) s" by (auto simp: cstr_Cons)
  show ?case
  proof (cases t)
    case Nil
    with Cons.prems have "m q = 0" by (simp add: cstr_Nil)
    moreover have "0 < uint b" using b(1)
      by (metis uint_0_iff uint_nonnegative order_le_less)
    ultimately show ?thesis using b Nil by (subst strcmp.simps) auto
  next
    case t: (Cons c t')
    with Cons.prems have c: "m q = c" "cstr m (q + 1) t'" by (auto simp: cstr_Cons)
    show ?thesis
    proof (cases "b = c")
      case True
      with Cons.IH [OF b(3) c(2)] t b c show ?thesis
        by (subst strcmp.simps) auto
    next
      case False
      then have "uint b \<noteq> uint c" by (simp add: word_uint_eq_iff)
      with False t b c show ?thesis
        by (subst strcmp.simps) (auto simp: word_less_def)
    qed
  qed
qed

lemma strcpy_loop_cstr:
  "cstr m src s \<Longrightarrow> length s < 2 ^ 32 \<Longrightarrow> dest = src \<or> length s < unat (dest - src) \<Longrightarrow>
   \<exists>m'. strcpy_loop m dest src = Some m' \<and>
     (\<forall>x. m' x = (if unat (x - dest) \<le> length s then (s @ [0]) ! unat (x - dest) else m x))"
proof (induction s arbitrary: m dest src)
  case Nil
  then have "m src = 0" by (simp add: cstr_Nil)
  then show ?case by (subst strcpy_loop.simps) (auto simp: unat_eq_0)
next
  case (Cons b s)
  then have b: "b \<noteq> 0" "m src = b" "cstr m (src + 1) s" by (auto simp: cstr_Cons)
  let ?m = "m(dest := b)"
  have far: "dest \<noteq> src + 1 + of_nat j" if "j \<le> length s" for j
  proof
    assume "dest = src + 1 + of_nat j"
    then have "dest + of_nat 0 = src + of_nat (Suc j)" by simp
    moreover have "unat (of_nat (Suc j) :: u32) = Suc j"
      using that Cons.prems(2) by (intro unat_of_nat_u32) simp
    ultimately show False
      using forward_copy_disjoint [of dest 0 src "of_nat (Suc j)"] that Cons.prems(3) by auto
  qed
  have "?m (src + 1 + of_nat j) = m (src + 1 + of_nat j)" if "j < length (s @ [0])" for j
    using far [of j] that by auto
  then have c: "cstr ?m (src + 1) s"
    using b(3) unfolding cstr_def bytes_at_nth by auto
  have "length s < 2 ^ 32" "dest + 1 = src + 1 \<or> length s < unat (dest + 1 - (src + 1))"
    using Cons.prems(2,3) by auto
  from Cons.IH [OF c this] obtain m' where m': "strcpy_loop ?m (dest + 1) (src + 1) = Some m'"
    and ap: "\<And>x. m' x = (if unat (x - (dest + 1)) \<le> length s
                            then (s @ [0]) ! unat (x - (dest + 1)) else ?m x)"
    by blast
  have step: "m' x = (if unat (x - dest) \<le> length (b # s)
                  then ((b # s) @ [0]) ! unat (x - dest) else m x)" for x
  proof (cases "x = dest")
    case True
    have "unat (- 1 :: u32) > length s"
      using Cons.prems(2) by (simp add: unsigned_minus_1_eq_mask mask_eq_exp_minus_1)
    with True show ?thesis by (simp add: ap)
  next
    case False
    then have "x - dest \<noteq> 0" by simp
    then have "unat (x - dest) = Suc (unat (x - dest - 1))"
      by (metis Suc_pred' unat_gt_0 unat_minus_one)
    with False show ?thesis by (simp add: ap algebra_simps)
  qed
  show ?case using m' step b by (subst strcpy_loop.simps) simp
qed

lemma strncpy_pad_apply:
  "i + n \<le> 2 ^ 32 \<Longrightarrow> strncpy_pad m dest i n x =
     (if i \<le> unat (x - dest) \<and> unat (x - dest) < i + n then 0 else m x)"
proof (induction n arbitrary: i m)
  case (Suc n)
  have "x = dest + of_nat i \<longleftrightarrow> unat (x - dest) = i"
    using Suc.prems by (intro offset_eq_iff) simp
  with Suc show ?case by auto
qed auto

text \<open>
  \<open>strncpy\<close> writes exactly \<open>n\<close> bytes: the characters of the source and then zeros.  A
  source longer than \<open>n\<close> leaves the destination without a terminator.
\<close>

lemma strncpy_loop_apply:
  assumes "\<forall>j < i + n. j < L \<longrightarrow> f j \<noteq> 0" and "\<forall>j. i \<le> j \<and> j \<le> L \<longrightarrow> m (src + of_nat j) = f j"
    and "f L = 0" and "i \<le> L" and "L < 2 ^ 32" and "i + n \<le> 2 ^ 32" and "dest = src \<or> L < unat (dest - src)"
  shows "strncpy_loop m dest src i n x =
     (if i \<le> unat (x - dest) \<and> unat (x - dest) < i + n
      then (if unat (x - dest) < L then f (unat (x - dest)) else 0) else m x)"
  using assms
proof (induction n arbitrary: i m)
  case (Suc n)
  show ?case
  proof (cases "i = L")
    case True
    then have "m (src + of_nat i) = 0" using Suc.prems by auto
    then show ?thesis
      using True Suc.prems(6) strncpy_pad_apply [of i "Suc n" m dest x] by auto
  next
    case False
    then have i: "i < L" using Suc.prems(4) by simp
    have mi: "m (src + of_nat i) = f i" "f i \<noteq> 0" using i Suc.prems(1,2,4) by auto
    let ?m = "m(dest + of_nat i := f i)"
    have far: "?m (src + of_nat j) = m (src + of_nat j)" if "Suc i \<le> j" "j \<le> L" for j
    proof -
      have "unat (of_nat j :: u32) = j" using that Suc.prems(5) by (intro unat_of_nat_u32) simp
      then show ?thesis
        using forward_copy_disjoint [of dest i src "of_nat j"] that Suc.prems(7) by auto
    qed
    have "strncpy_loop ?m dest src (Suc i) n x =
       (if Suc i \<le> unat (x - dest) \<and> unat (x - dest) < Suc i + n
        then (if unat (x - dest) < L then f (unat (x - dest)) else 0) else ?m x)"
      by (rule Suc.IH) (use Suc.prems far i in auto)
    moreover have "x = dest + of_nat i \<longleftrightarrow> unat (x - dest) = i"
      using Suc.prems(6) by (intro offset_eq_iff) simp
    ultimately show ?thesis using mi i by auto
  qed
qed auto

lemma cstr_nth:
  "cstr m p s \<longleftrightarrow> (\<forall>i < length s. s ! i \<noteq> 0) \<and>
     (\<forall>i \<le> length s. m (p + of_nat i) = (s @ [0]) ! i)"
  by (auto simp: cstr_def bytes_at_nth less_Suc_eq_le in_set_conv_nth)

section \<open>Properties\<close>

text \<open>
  \<open>strcpy\<close> returns its destination after copying the string and its terminator: the
  destination then holds the source's string, \<open>strlen\<close> of it is the length of the string
  and no byte outside the \<open>length s + 1\<close> bytes of the destination changes.  The buffers
  may overlap as long as the destination does not start inside the source string.
\<close>

theorem strcpy_copies_string:
  assumes "cstr m src s" and "length s < 2 ^ 32 - 1"
    and "dest = src \<or> length s < unat (dest - src)"
  shows "\<exists>m'. strcpy m dest src = Some (m', dest) \<and> cstr m' dest s \<and>
     strlen m' dest = Some (of_nat (length s)) \<and>
     (\<forall>x. length s < unat (x - dest) \<longrightarrow> m' x = m x)"
proof -
  have len: "length s < 2 ^ 32" using assms(2) by simp
  from strcpy_loop_cstr [OF assms(1) len assms(3)] obtain m'
    where m': "strcpy_loop m dest src = Some m'"
    and ap: "\<And>x. m' x = (if unat (x - dest) \<le> length s
                            then (s @ [0]) ! unat (x - dest) else m x)"
    by blast
  have off: "unat (of_nat i :: u32) = i" if "i \<le> length s" for i
    using that len by (intro unat_of_nat_u32) simp
  have c: "cstr m' dest s"
    using assms(1) off by (auto simp: cstr_nth ap)
  from c have "strlen m' dest = Some (of_nat (length s))" by (rule strlen_cstr)
  with m' c ap show ?thesis by (auto simp: strcpy_def)
qed

theorem strcpy_copies_string_witness:
  "\<exists>m'. strcpy ((\<lambda>_. 7)(100 := 72, 101 := 105, 102 := 0)) 101 101 = Some (m', 101) \<and>
     cstr m' 101 [105] \<and> strlen m' 101 = Some (of_nat (length [105 :: u8])) \<and>
     (\<forall>x. length [105 :: u8] < unat (x - 101) \<longrightarrow>
        m' x = ((\<lambda>_. 7)(100 := 72, 101 := 105, 102 := 0)) x)"
  by (rule strcpy_copies_string) (simp_all add: cstr_def)

text \<open>
  \<open>strcmp\<close> on two C strings returns, with the value 0 exactly when the strings are equal
  and a negative value exactly when the first precedes the second lexicographically as
  sequences of unsigned bytes.
\<close>

theorem strcmp_orders_strings:
  assumes "cstr m p s" and "cstr m q t"
  shows "\<exists>r. strcmp m p q = Some r \<and> (r = 0 \<longleftrightarrow> s = t) \<and> (r < 0 \<longleftrightarrow> ord_class.lexordp s t)"
  using assms by (rule strcmp_cstr)

theorem strcmp_orders_strings_witness:
  "\<exists>r. strcmp ((\<lambda>_. 0)(100 := 97, 200 := 200, 201 := 98)) 100 200 = Some r \<and>
     (r = 0 \<longleftrightarrow> [97 :: u8] = [200, 98]) \<and> (r < 0 \<longleftrightarrow> ord_class.lexordp [97 :: u8] [200, 98])"
  by (rule strcmp_orders_strings) (simp_all add: cstr_def)

text \<open>
  \<open>memcpy\<close> gives the destination the bytes the source had before the call and changes no
  other byte, provided the destination does not start strictly inside the source block (the
  byte loop runs forward, so a destination that does is filled with repeated bytes).
\<close>

theorem memcpy_copies_block:
  assumes "dest = src \<or> count \<le> dest - src"
  shows "memcpy m dest src count x =
     (if x - dest < count then m (src + (x - dest)) else m x)"
  using assms by (rule memcpy_apply)

theorem memcpy_copies_block_witness:
  "memcpy ((\<lambda>_. 0)(10 := 1, 11 := 2)) 9 10 2 10 =
     (if (10 :: u32) - 9 < 2 then ((\<lambda>_. 0)(10 := 1, 11 := 2 :: u8)) (10 + (10 - 9 :: u32))
      else ((\<lambda>_. 0)(10 := 1, 11 := 2)) (10 :: u32))"
  by (rule memcpy_copies_block) simp

end
