(* ===== verification/Klib_Stdlib.thy ===== *)
theory Klib_Stdlib
  imports Prelude "HOL-Library.Signed_Division"
begin

text \<open>
  Number conversion of the kernel library, src/src/klib/stdlib.c: \<open>reverse\<close>, \<open>itoa\<close>,
  \<open>atoi\<close> and \<open>itoh\<close>, and \<open>sleep\<close>.  A \<open>char\<close> array is a function from indices to bytes.  A C \<open>int\<close> is an
  integer whose arithmetic is brought back to 32 bits by \<open>s32\<close>, and \<open>/\<close> and \<open>%\<close> truncate
  towards zero.
\<close>

unbundle bit_operations_syntax

type_synonym chararr = "nat \<Rightarrow> u8"

section \<open>The operations\<close>

text \<open>Two's complement wrap-around of a 32-bit \<open>int\<close>.\<close>

definition s32 :: "int \<Rightarrow> int" where
  "s32 n = signed_take_bit 31 n"

partial_function (option) reverse_end :: "chararr \<Rightarrow> nat \<Rightarrow> nat option" where
  "reverse_end s j = (if s j \<noteq> 0 then reverse_end s (Suc j) else Some j)"

function reverse_swap :: "chararr \<Rightarrow> int \<Rightarrow> int \<Rightarrow> chararr" where
  "reverse_swap s i j =
     (if i < j then reverse_swap (s(nat i := s (nat j), nat j := s (nat i))) (i + 1) (j - 1)
      else s)"
  by pat_completeness auto
termination
  by (relation "measure (\<lambda>(s, i, j). nat (j - i))") auto

definition reverse :: "chararr \<Rightarrow> chararr option" where
  "reverse s = map_option (\<lambda>j. reverse_swap s 0 (int j - 1)) (reverse_end s 0)"

text \<open>The \<open>do ... while ((n /= 10) > 0)\<close> loop of \<open>itoa\<close>; it returns the final index.\<close>

function itoa_digits :: "int \<Rightarrow> nat \<Rightarrow> chararr \<Rightarrow> nat \<times> chararr" where
  "itoa_digits n i str =
     (let str' = str(i := of_int (n smod 10 + 48)); n' = n sdiv 10
      in if n' > 0 then itoa_digits n' (Suc i) str' else (Suc i, str'))"
  by pat_completeness auto
termination
proof (relation "measure (\<lambda>(n, i, str). nat n)")
  fix n :: int and i :: nat and str x xa
  assume "x = str(i := of_int (n smod 10 + 48))" "xa = n sdiv 10" "0 < xa"
  then show "((xa, Suc i, x), n, i, str) \<in> measure (\<lambda>(n, i, str). nat n)"
    by (cases "n \<ge> 0") (auto simp: signed_divide_int_def sgn_if split: if_splits)
qed simp

definition itoa :: "int \<Rightarrow> chararr \<Rightarrow> chararr option" where
  "itoa n str =
     (let sign = n;
          n1 = (if sign < 0 then s32 (- n) else n);
          (i, str1) = itoa_digits n1 0 str;
          (i2, str2) = (if sign < 0 then (Suc i, str1(i := 45)) else (i, str1))
      in reverse (str2(i2 := 0)))"

partial_function (option) atoi_loop :: "chararr \<Rightarrow> nat \<Rightarrow> int \<Rightarrow> int option" where
  "atoi_loop str idx res =
     (if str idx = 0 then Some res
      else if sint (str idx) < 48 \<or> sint (str idx) > 57 then Some res
      else atoi_loop str (Suc idx) (s32 (s32 (res * 10) + (sint (str idx) - 48))))"

definition atoi :: "chararr \<Rightarrow> int option" where
  "atoi str =
     (let sign = (if str 0 = 45 then -1 else 1);
          idx = (if str 0 = 45 then 1 else 0)
      in map_option (\<lambda>res. s32 (sign * res)) (atoi_loop str idx 0))"

definition itoh_char :: "u32 \<Rightarrow> nat \<Rightarrow> u8" where
  "itoh_char n i =
     (let digit = sint (signed_drop_bit ((7 - i) * 4) n AND 0xF)
      in if digit < 10 then of_int (48 + digit) else of_int (65 + (digit - 10)))"

function itoh_trim :: "chararr \<Rightarrow> nat \<Rightarrow> nat" where
  "itoh_trim str start =
     (if str start = 48 \<and> start < 7 then itoh_trim str (Suc start) else start)"
  by pat_completeness auto
termination
  by (relation "measure (\<lambda>(str, start). 7 - start)") auto

text \<open>\<open>itoh\<close> returns the eight digits with their terminator and the index of the first one to show.\<close>

definition itoh :: "u32 \<Rightarrow> chararr \<Rightarrow> chararr \<times> nat" where
  "itoh n str =
     (let str1 = (fill_with 8 (itoh_char n) str)(8 := 0)
      in (str1, itoh_trim str1 0))"

declare reverse_swap.simps [simp del] itoa_digits.simps [simp del] itoh_trim.simps [simp del]

section \<open>Reference definitions\<close>

text \<open>\<open>arr_str str xs\<close>: the array holds the C string \<open>xs\<close> at index 0.\<close>

definition arr_str :: "chararr \<Rightarrow> u8 list \<Rightarrow> bool" where
  "arr_str str xs \<longleftrightarrow> (\<forall>k < length xs. str k = xs ! k \<and> xs ! k \<noteq> 0) \<and> str (length xs) = 0"

text \<open>Decimal digits of a natural number, least significant first, and their characters.\<close>

fun rdigits :: "nat \<Rightarrow> nat list" where
  "rdigits n = (if n < 10 then [n] else n mod 10 # rdigits (n div 10))"

definition dchar :: "nat \<Rightarrow> u8" where
  "dchar d = of_nat (48 + d)"

definition decimal :: "int \<Rightarrow> u8 list" where
  "decimal n = (if n < 0 then [45] else []) @ map dchar (rev (rdigits (nat \<bar>n\<bar>)))"

declare rdigits.simps [simp del]

section \<open>reverse\<close>

lemma reverse_end_arr_str:
  assumes "arr_str s xs" and "j \<le> length xs"
  shows "reverse_end s j = Some (length xs)"
  using assms(2)
proof (induction "length xs - j" arbitrary: j)
  case 0
  with assms(1) show ?case by (subst reverse_end.simps) (auto simp: arr_str_def)
next
  case (Suc d)
  then have "reverse_end s (Suc j) = Some (length xs)" by simp
  with Suc assms(1) show ?case by (subst reverse_end.simps) (auto simp: arr_str_def)
qed

lemma reverse_swap_apply:
  "0 \<le> i \<Longrightarrow> reverse_swap s i j k =
     (if i \<le> int k \<and> int k \<le> j then s (nat (i + j - int k)) else s k)"
proof (induction "nat (j - i)" arbitrary: s i j rule: less_induct)
  case less
  show ?case
  proof (cases "i < j")
    case True
    let ?s = "s(nat i := s (nat j), nat j := s (nat i))"
    have "nat (j - 1 - (i + 1)) < nat (j - i)" "0 \<le> i + 1" using True less.prems by auto
    from less.hyps [OF this, of ?s] have IH: "reverse_swap ?s (i + 1) (j - 1) k =
      (if i + 1 \<le> int k \<and> int k \<le> j - 1 then ?s (nat (i + j - int k)) else ?s k)"
      by (simp add: algebra_simps)
    have "reverse_swap s i j = reverse_swap ?s (i + 1) (j - 1)"
      using True by (subst reverse_swap.simps) simp
    with IH True less.prems show ?thesis by (auto simp: nat_eq_iff)
  next
    case False
    then have "nat (i + j - int k) = k" if "i \<le> int k" "int k \<le> j" using that by simp
    with False show ?thesis by (subst reverse_swap.simps) auto
  qed
qed

lemma reverse_arr_str:
  assumes "arr_str s xs"
  shows "\<exists>s'. reverse s = Some s' \<and> arr_str s' (rev xs) \<and> (\<forall>k > length xs. s' k = s k)"
proof -
  let ?s' = "reverse_swap s 0 (int (length xs) - 1)"
  have "reverse s = Some ?s'"
    using reverse_end_arr_str [OF assms, of 0] by (simp add: reverse_def)
  moreover have "arr_str ?s' (rev xs)"
    using assms by (auto simp: arr_str_def reverse_swap_apply rev_nth nat_minus_as_int algebra_simps)
  ultimately show ?thesis by (auto simp: reverse_swap_apply)
qed

section \<open>Decimal digits\<close>

lemma rdigits_not_Nil [simp]: "rdigits n \<noteq> []"
  by (subst rdigits.simps) simp

lemma rdigits_less: "d \<in> set (rdigits n) \<Longrightarrow> d < 10"
proof (induction n rule: rdigits.induct)
  case (1 n)
  then show ?case by (subst (asm) rdigits.simps) (auto split: if_splits)
qed

lemma rdigits_value: "foldr (\<lambda>d acc. d + 10 * acc) (rdigits n) 0 = n"
proof (induction n rule: rdigits.induct)
  case (1 n)
  then show ?case by (subst rdigits.simps) auto
qed

lemma rdigits_length: "n < 10 ^ Suc k \<Longrightarrow> length (rdigits n) \<le> Suc k"
proof (induction k arbitrary: n)
  case 0
  then show ?case by (subst rdigits.simps) simp
next
  case (Suc k)
  then have "n div 10 < 10 ^ Suc k" by (simp add: less_mult_imp_div_less)
  with Suc.IH show ?case by (subst rdigits.simps) auto
qed

lemma dchar_digit:
  assumes "d < 10"
  shows "dchar d \<noteq> 0" and "sint (dchar d) = int d + 48" and "dchar d \<noteq> 45"
proof -
  have "d \<in> {0,1,2,3,4,5,6,7,8,9}" using assms by auto
  then show "dchar d \<noteq> 0" and "sint (dchar d) = int d + 48" and "dchar d \<noteq> 45"
    by (auto simp: dchar_def)
qed

section \<open>itoa\<close>

lemma s32_id: "- (2 ^ 31) \<le> n \<Longrightarrow> n < 2 ^ 31 \<Longrightarrow> s32 n = n"
  by (simp add: s32_def signed_take_bit_int_eq_self)

text \<open>The effect of the digit loop: the digits, least significant first, from index \<open>i\<close> on.\<close>

definition put_chars :: "chararr \<Rightarrow> nat \<Rightarrow> u8 list \<Rightarrow> chararr" where
  "put_chars str i cs = (\<lambda>k. if i \<le> k \<and> k < i + length cs then cs ! (k - i) else str k)"

lemma put_chars_Cons: "put_chars (str(i := c)) (Suc i) cs = put_chars str i (c # cs)"
  by (auto simp: put_chars_def fun_eq_iff nth_Cons Suc_diff_Suc [symmetric] Suc_le_eq)

lemma put_chars_single: "put_chars str i [c] = str(i := c)"
  by (auto simp: put_chars_def fun_eq_iff)

lemma itoa_digits_nonneg:
  "0 \<le> n \<Longrightarrow> itoa_digits n i str =
     (i + length (rdigits (nat n)), put_chars str i (map dchar (rdigits (nat n))))"
proof (induction "nat n" arbitrary: n i str rule: less_induct)
  case less
  let ?c = "of_int (n smod 10 + 48) :: u8"
  have sm: "n smod 10 = n mod 10" "n sdiv 10 = n div 10"
    using less.prems by (auto simp: signed_modulo_int_def signed_divide_int_def sgn_if)
  obtain N where N: "n = int N" using less.prems nonneg_int_cases by blast
  have "n mod 10 + 48 = int (48 + N mod 10)" by (simp add: N zmod_int)
  then have c: "?c = dchar (N mod 10)" by (simp only: sm dchar_def of_int_of_nat_eq)
  show ?case
  proof (cases "n < 10")
    case True
    have r: "rdigits (nat n) = [N]" using True N by (subst rdigits.simps) simp
    have "itoa_digits n i str = (Suc i, str(i := ?c))"
      using True less.prems sm by (subst itoa_digits.simps) (simp add: Let_def)
    then have "itoa_digits n i str = (Suc i, put_chars str i [dchar (N mod 10)])"
      by (simp only: c put_chars_single)
    then show ?thesis unfolding r using True N by simp
  next
    case False
    then have d: "nat (n div 10) < nat n" "0 \<le> n div 10" by auto
    have r: "rdigits (nat n) = (N mod 10) # rdigits (nat (n div 10))"
      using False N by (subst rdigits.simps) (simp add: nat_div_distrib)
    have "0 < n div 10" using False by (simp add: pos_imp_zdiv_pos_iff)
    then have "itoa_digits n i str = itoa_digits (n div 10) (Suc i) (str(i := ?c))"
      using sm by (subst itoa_digits.simps) (simp add: Let_def)
    then show ?thesis unfolding c r by (simp add: less.hyps [OF d] put_chars_Cons)
  qed
qed

lemma arr_str_put_chars:
  "0 \<notin> set cs \<Longrightarrow> arr_str ((put_chars str 0 cs)(length cs := 0)) cs"
  by (auto simp: arr_str_def put_chars_def) (metis nth_mem)

lemma put_chars_snoc: "put_chars str i (cs @ [c]) = (put_chars str i cs)(i + length cs := c)"
  by (auto simp: put_chars_def fun_eq_iff nth_append less_Suc_eq)

lemma itoa_decimal:
  assumes "- (2 ^ 31) < n" and "n < 2 ^ 31"
  shows "\<exists>str'. itoa n str = Some str' \<and> arr_str str' (decimal n) \<and>
     (\<forall>k > length (decimal n). str' k = str k)"
proof -
  let ?cs = "map dchar (rdigits (nat \<bar>n\<bar>)) @ (if n < 0 then [45] else [])"
  let ?s = "(put_chars str 0 ?cs)(length ?cs := 0)"
  have n1: "(if n < 0 then s32 (- n) else n) = \<bar>n\<bar>" using assms by (auto simp: s32_id)
  have "itoa n str = reverse ?s"
    by (auto simp: itoa_def n1 Let_def itoa_digits_nonneg put_chars_snoc)
  moreover have "0 \<notin> set ?cs" using dchar_digit(1) rdigits_less by fastforce
  then have "arr_str ?s ?cs" by (rule arr_str_put_chars)
  from reverse_arr_str [OF this] obtain s' where "reverse ?s = Some s'" "arr_str s' (rev ?cs)"
    "\<forall>k > length ?cs. s' k = ?s k" by blast
  moreover have "rev ?cs = decimal n" by (simp add: decimal_def rev_map)
  moreover have "length (decimal n) = length ?cs" by (simp add: decimal_def)
  moreover have "?s k = str k" if "k > length ?cs" for k using that by (auto simp: put_chars_def)
  ultimately show ?thesis by auto
qed

section \<open>atoi\<close>

lemma atoi_loop_digits:
  assumes "\<forall>k < length ds. str (idx + k) = dchar (ds ! k) \<and> ds ! k < 10"
    and "str (idx + length ds) = 0" and "0 \<le> res"
    and "foldl (\<lambda>r d. r * 10 + int d) res ds < 2 ^ 31"
  shows "atoi_loop str idx res = Some (foldl (\<lambda>r d. r * 10 + int d) res ds)"
  using assms
proof (induction ds arbitrary: idx res)
  case Nil
  then show ?case by (subst atoi_loop.simps) simp
next
  case (Cons d ds)
  have d: "str idx = dchar d" "d < 10" using Cons.prems(1) by force+
  have mono: "r \<le> foldl (\<lambda>r d. r * 10 + int d) r ds" if "0 \<le> r" for r
    using that by (induction ds arbitrary: r) (auto, smt (verit) of_nat_0_le_iff)
  have b: "res * 10 + int d < 2 ^ 31"
    using mono [of "res * 10 + int d"] Cons.prems(3,4) by simp
  then have s: "s32 (s32 (res * 10) + (sint (str idx) - 48)) = res * 10 + int d"
    using Cons.prems(3) d dchar_digit(2) by (simp add: s32_id)
  have "atoi_loop str (Suc idx) (res * 10 + int d) =
      Some (foldl (\<lambda>r d. r * 10 + int d) (res * 10 + int d) ds)"
    by (rule Cons.IH) (use Cons.prems in \<open>force+\<close>)
  with s d dchar_digit [OF d(2)] show ?case by (subst atoi_loop.simps) simp
qed

lemma atoi_decimal:
  assumes "arr_str str (decimal n)" and "- (2 ^ 31) < n" and "n < 2 ^ 31"
  shows "atoi str = Some n"
proof -
  let ?ds = "rev (rdigits (nat \<bar>n\<bar>))"
  let ?i = "if n < 0 then 1 else 0"
  have val: "foldl (\<lambda>r d. r * 10 + int d) 0 ?ds = \<bar>n\<bar>"
  proof -
    have "foldl (\<lambda>r d. r * 10 + int d) 0 (rev ds) = int (foldr (\<lambda>d acc. d + 10 * acc) ds 0)" for ds
      by (induction ds) auto
    then show ?thesis by (simp add: rdigits_value)
  qed
  have at: "str (?i + k) = dchar (?ds ! k) \<and> ?ds ! k < 10" if "k < length ?ds" for k
  proof -
    have "?ds ! k \<in> set ?ds" using that by (rule nth_mem)
    then have "?ds ! k < 10" using rdigits_less by simp
    moreover have "decimal n ! (?i + k) = map dchar ?ds ! k" by (simp add: decimal_def nth_append)
    moreover have "?i + k < length (decimal n)"
      using that by (auto simp: decimal_def abs_if split: if_splits)
    ultimately show ?thesis using assms(1) that by (simp add: arr_str_def)
  qed
  have fin: "str (?i + length ?ds) = 0"
    using assms(1) by (auto simp: arr_str_def decimal_def split: if_splits)
  have sgn: "str 0 = 45 \<longleftrightarrow> n < 0"
  proof (cases "n < 0")
    case False
    have "0 < length ?ds" by simp
    from at [OF this] False dchar_digit(3) show ?thesis by auto
  qed (use assms(1) in \<open>auto simp: arr_str_def decimal_def\<close>)
  have "atoi_loop str ?i 0 = Some \<bar>n\<bar>"
    using atoi_loop_digits [of ?ds str ?i 0] at fin val assms by auto
  then show ?thesis using sgn assms by (auto simp: atoi_def s32_id)
qed

section \<open>itoh\<close>

definition hex_digit :: "u8 \<Rightarrow> nat" where
  "hex_digit c = (if c < 58 then unat c - 48 else unat c - 55)"

definition hex_value :: "u8 list \<Rightarrow> nat" where
  "hex_value cs = foldl (\<lambda>r c. r * 16 + hex_digit c) 0 cs"

lemma nibble_of_word:
  assumes "k \<le> 28"
  shows "signed_drop_bit k n AND 0xF = of_nat (unat (n :: u32) div 2 ^ k mod 16)"
proof -
  have "signed_drop_bit k n AND mask 4 = take_bit 4 (drop_bit k n)"
    using assms by (intro bit_word_eqI)
      (auto simp: bit_simps bit_signed_drop_bit_iff)
  moreover have "unat (take_bit 4 (drop_bit k n)) = unat n div 2 ^ k mod 16"
    unfolding unsigned_take_bit_eq unat_drop_bit_eq
    by (simp add: take_bit_eq_mod drop_bit_eq_div)
  then have "take_bit 4 (drop_bit k n) = of_nat (unat n div 2 ^ k mod 16)"
    by (metis of_nat_unat ucast_id)
  ultimately show ?thesis by (simp add: mask_eq_exp_minus_1)
qed

lemma sint_nibble: "d < 16 \<Longrightarrow> sint (of_nat d :: u32) = int d"
proof -
  assume "d < 16"
  from less_16_cases [OF this] show ?thesis by auto
qed

lemma hex_digit_itoh_char:
  assumes "i < 8"
  shows "hex_digit (itoh_char n i) = unat n div 16 ^ (7 - i) mod 16"
    and "itoh_char n i \<in> {48..57} \<union> {65..70}"
proof -
  define d where "d = unat n div 16 ^ (7 - i) mod 16"
  have p: "(2 :: nat) ^ ((7 - i) * 4) = 16 ^ (7 - i)"
    by (simp add: power_mult mult.commute [of _ 4])
  have "signed_drop_bit ((7 - i) * 4) n AND 0xF = of_nat d"
    using nibble_of_word [of "(7 - i) * 4" n] assms by (simp only: p d_def)
  then have c: "itoh_char n i =
      (if int d < 10 then of_int (48 + int d) else of_int (65 + (int d - 10)))"
    using sint_nibble [of d] by (simp add: itoh_char_def Let_def d_def)
  have "d < 16" by (simp add: d_def)
  from less_16_cases [OF this]
  show "hex_digit (itoh_char n i) = d" and "itoh_char n i \<in> {48..57} \<union> {65..70}"
    by (auto simp: c hex_digit_def)
qed

lemma hex_value_prefix:
  "i \<le> 8 \<Longrightarrow> hex_value (map (itoh_char n) [0..<i]) = unat (n :: u32) div 16 ^ (8 - i)"
proof (induction i)
  case 0
  then show ?case using unat_lt_u32 [of n] by (simp add: hex_value_def)
next
  case (Suc i)
  then have "8 - i = Suc (7 - i)" by simp
  then have e: "unat n div 16 ^ (8 - i) = unat n div 16 ^ (7 - i) div 16"
    by (simp add: div_mult2_eq [symmetric] mult.commute)
  have "hex_value (map (itoh_char n) [0..<Suc i]) =
      unat n div 16 ^ (7 - i) div 16 * 16 + unat n div 16 ^ (7 - i) mod 16"
    using Suc e by (simp add: hex_value_def hex_digit_itoh_char)
  then show ?case by simp
qed

lemma itoh_trim_bounds:
  "start \<le> 7 \<Longrightarrow> start \<le> itoh_trim str start \<and> itoh_trim str start \<le> 7 \<and>
     (\<forall>k. start \<le> k \<and> k < itoh_trim str start \<longrightarrow> str k = 48) \<and>
     (itoh_trim str start < 7 \<longrightarrow> str (itoh_trim str start) \<noteq> 48)"
proof (induction "7 - start" arbitrary: start)
  case 0
  then show ?case by (subst (1 2 3 4 5) itoh_trim.simps) auto
next
  case (Suc d)
  show ?case
  proof (cases "str start = 48")
    case True
    have "start < 7" using Suc.hyps(2) by simp
    with True have e: "itoh_trim str start = itoh_trim str (Suc start)"
      by (subst itoh_trim.simps) simp
    from Suc have "Suc start \<le> 7" "d = 7 - Suc start" by auto
    from Suc.hyps(1) [OF this(2,1)] True show ?thesis
      unfolding e by (auto simp: le_eq_less_or_eq [of start])
  next
    case False
    then have "itoh_trim str start = start" by (subst itoh_trim.simps) simp
    with False Suc show ?thesis by auto
  qed
qed

section \<open>Properties\<close>

text \<open>
  \<open>itoa\<close> and \<open>atoi\<close> are inverse to each other on every \<open>int\<close> except \<open>INT_MIN\<close>: \<open>itoa\<close>
  returns a buffer holding the decimal representation, \<open>atoi\<close> reads the number back, and
  only the first twelve bytes of the buffer (the size of the caller's array in
  \<open>print_int\<close>) are written.
\<close>

theorem atoi_itoa_roundtrip:
  assumes "- (2 ^ 31) < n" and "n < 2 ^ 31"
  shows "\<exists>str'. itoa n str = Some str' \<and> arr_str str' (decimal n) \<and> atoi str' = Some n \<and>
     (\<forall>k \<ge> 12. str' k = str k)"
proof -
  from itoa_decimal [OF assms] obtain str' where s: "itoa n str = Some str'"
    "arr_str str' (decimal n)" "\<forall>k > length (decimal n). str' k = str k" by blast
  have "nat \<bar>n\<bar> < 10 ^ Suc 9" using assms by auto
  from rdigits_length [OF this] have "length (decimal n) \<le> 11" by (auto simp: decimal_def)
  with s atoi_decimal [OF s(2) assms] show ?thesis by auto
qed

theorem atoi_itoa_roundtrip_witness:
  "- (2 ^ 31) < (-1337 :: int) \<and> (\<exists>str'. itoa (-1337) (\<lambda>_. 1) = Some str' \<and>
     arr_str str' (decimal (-1337)) \<and> atoi str' = Some (-1337) \<and> (\<forall>k \<ge> 12. str' k = 1))"
  using atoi_itoa_roundtrip [of "-1337" "\<lambda>_. 1"] by simp

text \<open>
  at \<open>INT_MIN\<close> the negation of \<open>itoa\<close> overflows back to \<open>INT_MIN\<close>, the digit loop runs
  once on a negative remainder, and the buffer ends up holding the two characters \<open>-(\<close>: the
  decimal representation is not produced and \<open>atoi\<close> of the result is 0.
\<close>

theorem itoa_int_min_garbled:
  "\<exists>str'. itoa (- (2 ^ 31)) str = Some str' \<and> arr_str str' [45, 40] \<and>
     \<not> arr_str str' (decimal (- (2 ^ 31))) \<and> atoi str' = Some 0"
proof -
  let ?s = "str(0 := 40, Suc 0 := 45, Suc (Suc 0) := 0)"
  have "s32 (2 ^ 31) = - (2 ^ 31)" by (simp add: s32_def signed_take_bit_eq_take_bit_minus take_bit_eq_mod)
  then have "itoa (- (2 ^ 31)) str = reverse ?s"
    by (simp add: itoa_def itoa_digits.simps Let_def signed_divide_int_def signed_modulo_int_def)
  moreover have "arr_str ?s [40, 45]" by (auto simp: arr_str_def less_Suc_eq)
  from reverse_arr_str [OF this] obtain s' where s': "reverse ?s = Some s'" "arr_str s' [45, 40]"
    by auto
  moreover from s'(2) have at: "s' 0 = 45" "s' 1 = 40" "s' (Suc 0) = 40"
    by (auto simp: arr_str_def)
  then have "atoi s' = Some 0" by (simp add: atoi_def atoi_loop.simps s32_def)
  moreover have "\<not> arr_str s' (decimal (- (2 ^ 31)))"
  proof
    assume "arr_str s' (decimal (- (2 ^ 31)))"
    moreover have "decimal (- (2 ^ 31)) = [45, 50, 49, 52, 55, 52, 56, 51, 54, 52, 56]"
      by (simp add: decimal_def rdigits.simps dchar_def)
    ultimately show False using at by (auto simp: arr_str_def)
  qed
  ultimately show ?thesis by auto
qed

text \<open>
  \<open>itoh\<close> writes eight hexadecimal digits whose value is the argument read as an unsigned
  32-bit number, then a terminator; the start index skips exactly the leading zeros but
  always leaves one digit.
\<close>

theorem itoh_hexadecimal:
  "case itoh n str of (str', start) \<Rightarrow>
     hex_value (map str' [0..<8]) = unat n \<and> (\<forall>k < 8. str' k \<in> {48..57} \<union> {65..70}) \<and>
     str' 8 = 0 \<and> start \<le> 7 \<and> (\<forall>k < start. str' k = 48) \<and> (start < 7 \<longrightarrow> str' start \<noteq> 48)"
proof -
  define s where "s = (fill_with 8 (itoh_char n) str)(8 := 0)"
  have s: "s 8 = 0" "\<And>k. k < 8 \<Longrightarrow> s k = itoh_char n k" by (simp_all add: s_def)
  have m: "map s [0..<8] = map (itoh_char n) [0..<8]" by (simp add: s(2))
  have "hex_value (map s [0..<8]) = unat n"
    unfolding m using hex_value_prefix [of 8 n] by simp
  moreover have "\<forall>k < 8. s k \<in> {48..57} \<union> {65..70}" using hex_digit_itoh_char(2) s(2) by simp
  moreover have "itoh n str = (s, itoh_trim s 0)" by (simp add: itoh_def s_def Let_def)
  ultimately show ?thesis
    using itoh_trim_bounds [of 0 s] s(1) by simp
qed

theorem itoh_hexadecimal_witness:
  "case itoh 0x1A2B (\<lambda>_. 0) of (str, start) \<Rightarrow> hex_value (map str [0..<8]) = 0x1A2B \<and> str 8 = 0 \<and> start \<le> 7"
  using itoh_hexadecimal [of "0x1A2B" "\<lambda>_. 0"] by (simp add: case_prod_beta)

section \<open>Waiting\<close>

text \<open>
  The tick counter is changed by the timer interrupt: \<open>ticks n\<close> is what the n-th read of it sees, the first
  read being that of \<open>firstTick\<close>.  The result is the number of reads.
\<close>

partial_function (option) sleep_loop :: "u32 \<Rightarrow> u32 \<Rightarrow> (nat \<Rightarrow> u32) \<Rightarrow> nat \<Rightarrow> nat option" where
  "sleep_loop firstTick ms ticks n = (if firstTick + ms div 10 \<ge> ticks n then sleep_loop firstTick ms ticks (Suc n) else Some (Suc n))"

definition sleep :: "u32 \<Rightarrow> (nat \<Rightarrow> u32) \<Rightarrow> nat option" where
  "sleep ms ticks = sleep_loop (ticks 0) ms ticks 1"

lemma sleep_loop_first:
  assumes "n \<le> k" "ticks k > first + ms div 10" "\<And>i. n \<le> i \<Longrightarrow> i < k \<Longrightarrow> ticks i \<le> first + ms div 10"
  shows "sleep_loop first ms ticks n = Some (Suc k)"
  using assms
proof (induction "k - n" arbitrary: n)
  case 0
  then show ?case by (subst sleep_loop.simps) (simp add: not_le [symmetric])
next
  case (Suc d)
  then have "ticks n \<le> first + ms div 10" "sleep_loop first ms ticks (Suc n) = Some (Suc k)" by (auto intro: Suc.hyps)
  then show ?case by (subst sleep_loop.simps) simp
qed

text \<open>
  \<open>sleep\<close> returns at the first read that is more than \<open>ms / 10\<close> ticks after the start; when the end of the
  wait is the largest counter value no read ever is, and the loop runs forever.
\<close>

lemma sleep_waits:
  assumes "unat (ticks 0) + unat ms div 10 < 2 ^ 32" "1 \<le> k" "unat (ticks k) > unat (ticks 0) + unat ms div 10"
    and "\<And>i. 1 \<le> i \<Longrightarrow> i < k \<Longrightarrow> unat (ticks i) \<le> unat (ticks 0) + unat ms div 10"
  shows "sleep ms ticks = Some (Suc k)"
proof -
  have u: "unat (ticks 0 + ms div 10) = unat (ticks 0) + unat ms div 10"
    using assms(1) by (subst unat_plus_u32) (simp_all add: unat_div)
  show ?thesis unfolding sleep_def by (rule sleep_loop_first) (use assms(2-) u in \<open>simp_all add: word_less_nat_alt word_le_nat_alt\<close>)
qed

lemma sleep_forever:
  assumes "ticks 0 + ms div 10 = 0xFFFFFFFF"
  shows "sleep ms ticks = None"
proof -
  have "f + d div 10 \<noteq> 0xFFFFFFFF" if "sleep_loop f d t n = Some r" for f d t n r
  proof (rule sleep_loop.raw_induct [OF _ that, where P = "\<lambda>f d t n r. f + d div 10 \<noteq> 0xFFFFFFFF"])
    fix loop :: "u32 \<Rightarrow> u32 \<Rightarrow> (nat \<Rightarrow> u32) \<Rightarrow> nat \<Rightarrow> nat option" and f d t n r
    assume a: "\<And>f d t n r. loop f d t n = Some r \<Longrightarrow> f + d div 10 \<noteq> 0xFFFFFFFF"
      "(if f + d div 10 \<ge> t n then loop f d t (Suc n) else Some (Suc n)) = Some r"
    have "t n \<le> 0xFFFFFFFF" using unat_lt_u32 [of "t n"] unfolding word_le_nat_alt by (simp del: unat_lt_u32)
    then show "f + d div 10 \<noteq> 0xFFFFFFFF" using a(2) a(1) [of f d t "Suc n" r] by (auto split: if_splits)
  qed
  then show ?thesis using assms unfolding sleep_def by (cases "sleep_loop (ticks 0) ms ticks 1") auto
qed

end
