(* ===== verification/Klib_List.thy ===== *)
theory Klib_List
  imports Prelude
begin

text \<open>
  The intrusive circular doubly linked lists of src/src/klib/list.h.  The links of all nodes
  in memory are two functions from node addresses to node addresses, so every node, the list
  heads included, is an address, and an operation is a sequence of writes to these links in
  the order of the source.  The abstraction \<open>clist\<close> reads off the nodes between two visits
  of the head; the lemmas give the effect of every operation on it, and that lists on other
  nodes do not change.
\<close>

section \<open>The operations\<close>

record list_mem =
  l_next :: "addr \<Rightarrow> addr"
  l_prev :: "addr \<Rightarrow> addr"

definition set_next :: "addr \<Rightarrow> addr \<Rightarrow> list_mem \<Rightarrow> list_mem" where
  "set_next p v s = s\<lparr>l_next := (l_next s)(p := v)\<rparr>"

definition set_prev :: "addr \<Rightarrow> addr \<Rightarrow> list_mem \<Rightarrow> list_mem" where
  "set_prev p v s = s\<lparr>l_prev := (l_prev s)(p := v)\<rparr>"

definition list_init :: "addr \<Rightarrow> list_mem \<Rightarrow> list_mem" where
  "list_init l s = set_prev l l (set_next l l s)"

definition list_add_between :: "addr \<Rightarrow> addr \<Rightarrow> addr \<Rightarrow> list_mem \<Rightarrow> list_mem" where
  "list_add_between new_node prev nxt s =
     (let s1 = set_prev nxt new_node s;
          s2 = set_next new_node nxt s1;
          s3 = set_prev new_node prev s2
      in set_next prev new_node s3)"

definition list_add_tail :: "addr \<Rightarrow> addr \<Rightarrow> list_mem \<Rightarrow> list_mem" where
  "list_add_tail new_node head s = list_add_between new_node (l_prev s head) head s"

definition list_add :: "addr \<Rightarrow> addr \<Rightarrow> list_mem \<Rightarrow> list_mem" where
  "list_add new_node head s = list_add_between new_node head (l_next s head) s"

definition list_del :: "addr \<Rightarrow> list_mem \<Rightarrow> list_mem kres" where
  "list_del entry s =
     (if l_prev s (l_next s entry) \<noteq> entry \<or> l_next s (l_prev s entry) \<noteq> entry
      then Inl PanicListCorruption
      else
        (let s1 = set_next (l_prev s entry) (l_next s entry) s;
             s2 = set_prev (l_next s1 entry) (l_prev s1 entry) s1;
             s3 = set_next entry 0 s2
         in Inr (set_prev entry 0 s3)))"

definition list_empty :: "addr \<Rightarrow> list_mem \<Rightarrow> bool" where
  "list_empty head s \<longleftrightarrow> l_next s head = head"

text \<open>
  The positions \<open>list_for_each\<close> visits when its body leaves the links alone; a list that
  never comes back to its head gives \<open>None\<close>.
\<close>

partial_function (option) list_for_each_from :: "list_mem \<Rightarrow> addr \<Rightarrow> addr \<Rightarrow> addr list option" where
  "list_for_each_from s head pos =
     (if pos = head then Some []
      else Option.bind (list_for_each_from s head (l_next s pos)) (\<lambda>ps. Some (pos # ps)))"

definition list_for_each :: "list_mem \<Rightarrow> addr \<Rightarrow> addr list option" where
  "list_for_each s head = list_for_each_from s head (l_next s head)"

definition container_of :: "addr \<Rightarrow> u32 \<Rightarrow> addr" where
  "container_of ptr offset = ptr - offset"

definition list_first_entry :: "list_mem \<Rightarrow> addr \<Rightarrow> u32 \<Rightarrow> addr" where
  "list_first_entry s head offset = container_of (l_next s head) offset"

section \<open>Lists in memory\<close>

text \<open>\<open>lseg s p xs q\<close>: following the links from \<open>p\<close> one meets the nodes \<open>xs\<close> and then \<open>q\<close>.\<close>

primrec lseg :: "list_mem \<Rightarrow> addr \<Rightarrow> addr list \<Rightarrow> addr \<Rightarrow> bool" where
  "lseg s p [] q = (l_next s p = q \<and> l_prev s q = p)"
| "lseg s p (x # xs) q = (l_next s p = x \<and> l_prev s x = p \<and> lseg s x xs q)"

definition clist :: "list_mem \<Rightarrow> addr \<Rightarrow> addr list \<Rightarrow> bool" where
  "clist s head xs \<longleftrightarrow> distinct (head # xs) \<and> lseg s head xs head"

lemma set_links [simp]:
  "l_next (set_next p v s) = (l_next s)(p := v)" "l_prev (set_next p v s) = l_prev s"
  "l_prev (set_prev p v s) = (l_prev s)(p := v)" "l_next (set_prev p v s) = l_next s"
  by (simp_all add: set_next_def set_prev_def)

lemma lseg_append:
  "lseg s p (xs @ y # ys) q \<longleftrightarrow> lseg s p xs y \<and> lseg s y ys q"
  by (induction xs arbitrary: p) auto

lemma lseg_frame:
  assumes "lseg s p xs q"
    and "\<And>x. x \<in> insert p (set xs) \<Longrightarrow> l_next s' x = l_next s x"
    and "\<And>x. x \<in> insert q (set xs) \<Longrightarrow> l_prev s' x = l_prev s x"
  shows "lseg s' p xs q"
  using assms by (induction xs arbitrary: p) auto

text \<open>A list whose nodes keep their links stays the same list.\<close>

lemma clist_frame:
  assumes "clist s head xs"
    and "\<And>x. x \<in> insert head (set xs) \<Longrightarrow> l_next s' x = l_next s x \<and> l_prev s' x = l_prev s x"
  shows "clist s' head xs"
  using assms lseg_frame [of s head xs head s'] by (auto simp: clist_def)

lemma lseg_first: "lseg s p xs q \<Longrightarrow> l_next s p = hd (xs @ [q])"
  by (cases xs) auto

lemma lseg_last: "lseg s p xs q \<Longrightarrow> l_prev s q = last (p # xs)"
  by (induction xs arbitrary: p) auto

lemma lseg_unique:
  "lseg s p xs q \<Longrightarrow> lseg s p ys q \<Longrightarrow> q \<notin> set xs \<Longrightarrow> q \<notin> set ys \<Longrightarrow> xs = ys"
proof (induction xs arbitrary: p ys)
  case Nil
  then show ?case by (cases ys) auto
next
  case (Cons x xs)
  then show ?case by (cases ys) auto
qed

section \<open>Effect of the operations\<close>

lemma clist_init: "clist (list_init l s) l []"
  by (simp add: clist_def list_init_def)

lemma clist_add_tail:
  assumes "clist s head xs" and "n \<notin> set (head # xs)"
  shows "clist (list_add_tail n head s) head (xs @ [n])"
proof -
  let ?s = "list_add_tail n head s"
  have d: "distinct (head # xs)" and l: "lseg s head xs head" using assms(1) by (auto simp: clist_def)
  have last: "l_prev s head = last (head # xs)" using l by (rule lseg_last)
  have "lseg ?s head xs n"
  proof (cases xs rule: rev_cases)
    case Nil
    then show ?thesis using last assms(2)
      by (simp add: list_add_tail_def list_add_between_def Let_def)
  next
    case (snoc ys y)
    with l have ly: "lseg s head ys y" "l_next s y = head" "l_prev s head = y"
      by (auto simp: lseg_append)
    have "lseg ?s head ys y"
      using ly(1) by (rule lseg_frame)
        (use snoc d assms(2) ly(3) in \<open>auto simp: list_add_tail_def list_add_between_def Let_def\<close>)
    moreover have "lseg ?s y [] n"
      using snoc d assms(2) ly(3) by (simp add: list_add_tail_def list_add_between_def Let_def)
    ultimately show ?thesis using snoc by (simp only: lseg_append)
  qed
  moreover have "lseg ?s n [] head"
    using assms(2) last by (auto simp: list_add_tail_def list_add_between_def Let_def)
  ultimately show ?thesis using d assms(2) by (auto simp: clist_def lseg_append)
qed

lemma clist_add:
  assumes "clist s head xs" and "n \<notin> set (head # xs)"
  shows "clist (list_add n head s) head (n # xs)"
proof -
  let ?s = "list_add n head s"
  have d: "distinct (head # xs)" and l: "lseg s head xs head" using assms(1) by (auto simp: clist_def)
  have "lseg ?s n xs head"
  proof (cases xs)
    case Nil
    then show ?thesis using l assms(2)
      by (simp add: list_add_def list_add_between_def Let_def)
  next
    case (Cons y ys)
    with l have ly: "l_next s head = y" "lseg s y ys head" by auto
    have "lseg ?s y ys head"
      using ly(2) by (rule lseg_frame)
        (use Cons d assms(2) ly(1) in \<open>auto simp: list_add_def list_add_between_def Let_def\<close>)
    then show ?thesis
      using Cons d assms(2) ly(1) by (auto simp: list_add_def list_add_between_def Let_def)
  qed
  moreover have "l_next ?s head = n" "l_prev ?s n = head"
    using assms(2) by (auto simp: list_add_def list_add_between_def Let_def)
  ultimately show ?thesis using d assms(2) by (auto simp: clist_def)
qed

lemma clist_del:
  assumes "clist s head (xs @ e # ys)"
  shows "\<exists>s'. list_del e s = Inr s' \<and> clist s' head (xs @ ys) \<and> l_next s' e = 0 \<and> l_prev s' e = 0 \<and>
     (\<forall>x. x \<notin> insert head (set (xs @ e # ys)) \<longrightarrow> l_next s' x = l_next s x \<and> l_prev s' x = l_prev s x)"
proof -
  let ?p = "last (head # xs)" and ?n = "hd (ys @ [head])"
  have d: "distinct (head # xs @ e # ys)" and l: "lseg s head xs e" "lseg s e ys head"
    using assms by (auto simp: clist_def lseg_append)
  have pe: "l_prev s e = ?p" using l(1) by (rule lseg_last)
  have ne: "l_next s e = ?n" using l(2) by (rule lseg_first)
  have np: "l_next s ?p = e"
    using l(1) by (cases xs rule: rev_cases) (auto simp: lseg_append)
  have pn: "l_prev s ?n = e" using l(2) by (cases ys) auto
  have in_p: "?p \<in> insert head (set xs)" by (cases xs rule: rev_cases) auto
  have in_n: "?n \<in> insert head (set ys)" by (cases ys) auto
  have e: "e \<noteq> ?p" "e \<noteq> ?n" using d in_p in_n by auto
  define s' where "s' = s\<lparr>l_next := (l_next s)(?p := ?n, e := 0), l_prev := (l_prev s)(?n := ?p, e := 0)\<rparr>"
  have del: "list_del e s = Inr s'"
    using e pe ne np pn by (simp add: list_del_def Let_def s'_def set_next_def set_prev_def)
  have seg: "lseg s' head (xs @ ys) head"
  proof (cases ys)
    case Nil
    then have n: "?n = head" by simp
    show ?thesis
    proof (cases xs rule: rev_cases)
      case Nil
      then show ?thesis using n \<open>ys = []\<close> e by (simp add: s'_def)
    next
      case (snoc zs z)
      with l have lz: "lseg s head zs z" by (auto simp: lseg_append)
      have "lseg s' head zs z" using lz by (rule lseg_frame) (use d snoc n in \<open>auto simp: s'_def\<close>)
      moreover have "lseg s' z [] head" using snoc n d by (auto simp: s'_def)
      ultimately show ?thesis using snoc \<open>ys = []\<close> by (simp add: lseg_append)
    qed
  next
    case (Cons y zs)
    with l have ly: "lseg s y zs head" by auto
    have n: "?n = y" using Cons by simp
    have l2: "lseg s' y zs head" using ly by (rule lseg_frame) (use d Cons n in_p in \<open>auto simp: s'_def\<close>)
    have "lseg s' head xs y"
    proof (cases xs rule: rev_cases)
      case Nil
      then show ?thesis using n e d Cons by (simp add: s'_def)
    next
      case (snoc ws w)
      with l have lw: "lseg s head ws w" by (auto simp: lseg_append)
      have "lseg s' head ws w" using lw by (rule lseg_frame) (use d snoc n Cons in \<open>auto simp: s'_def\<close>)
      moreover have "lseg s' w [] y" using snoc n d Cons by (auto simp: s'_def)
      ultimately show ?thesis using snoc by (simp only: lseg_append)
    qed
    with l2 show ?thesis using Cons by (simp add: lseg_append)
  qed
  have frame: "l_next s' x = l_next s x \<and> l_prev s' x = l_prev s x"
    if "x \<notin> insert head (set (xs @ e # ys))" for x
    using that in_p in_n by (auto simp: s'_def)
  have "clist s' head (xs @ ys)" using seg d by (auto simp: clist_def)
  with del frame show ?thesis by (auto simp: s'_def)
qed

lemma list_empty_clist: "clist s head xs \<Longrightarrow> list_empty head s \<longleftrightarrow> xs = []"
  by (cases xs) (auto simp: clist_def list_empty_def)

lemma list_for_each_from_lseg:
  "lseg s p xs head \<Longrightarrow> head \<notin> set xs \<Longrightarrow> list_for_each_from s head (l_next s p) = Some xs"
proof (induction xs arbitrary: p)
  case Nil
  then show ?case by (subst list_for_each_from.simps) simp
next
  case (Cons x xs)
  then show ?case by (subst list_for_each_from.simps) auto
qed

lemma list_for_each_clist: "clist s head xs \<Longrightarrow> list_for_each s head = Some xs"
  using list_for_each_from_lseg by (auto simp: clist_def list_for_each_def)

text \<open>The operations touch only the nodes of the list they work on.\<close>

lemma list_add_tail_frame:
  assumes "clist s head xs" and "x \<notin> insert n (insert head (set xs))"
  shows "l_next (list_add_tail n head s) x = l_next s x \<and> l_prev (list_add_tail n head s) x = l_prev s x"
proof -
  have "l_prev s head \<in> insert head (set xs)"
    using assms(1) lseg_last [of s head xs head] by (auto simp: clist_def)
  with assms(2) show ?thesis by (auto simp: list_add_tail_def list_add_between_def Let_def)
qed

lemma list_init_frame:
  "x \<noteq> l \<Longrightarrow> l_next (list_init l s) x = l_next s x \<and> l_prev (list_init l s) x = l_prev s x"
  by (simp add: list_init_def)

lemma clist_add_tail_other:
  assumes "clist s h' ys" and "clist s head xs" and "set (h' # ys) \<inter> set (head # xs) = {}"
    and "n \<notin> set (h' # ys)"
  shows "clist (list_add_tail n head s) h' ys"
  using assms(1)
proof (rule clist_frame)
  fix x assume "x \<in> insert h' (set ys)"
  with assms(3,4) have "x \<notin> insert n (insert head (set xs))" by auto
  with assms(2) show "l_next (list_add_tail n head s) x = l_next s x \<and>
      l_prev (list_add_tail n head s) x = l_prev s x" by (rule list_add_tail_frame)
qed

lemma clist_del_other:
  assumes "clist s h' zs" and "clist s head (xs @ e # ys)" and "set (h' # zs) \<inter> set (head # xs @ e # ys) = {}"
    and "list_del e s = Inr s'"
  shows "clist s' h' zs"
  using assms(1) by (rule clist_frame) (use assms clist_del [OF assms(2)] in auto)

section \<open>The interface of a queue of nodes\<close>

text \<open>
  What clients of the lists rely on: a queue holds a list of nodes, \<open>put\<close> appends a node
  that is not queued, \<open>take\<close> removes a queued node.  The scheduler's round-robin argument is
  proved from these laws alone.
\<close>

locale node_queue =
  fixes items :: "'m \<Rightarrow> 'n \<Rightarrow> 'n list \<Rightarrow> bool"
    and put :: "'n \<Rightarrow> 'n \<Rightarrow> 'm \<Rightarrow> 'm"
    and take_out :: "'n \<Rightarrow> 'm \<Rightarrow> 'm kres"
    and first :: "'m \<Rightarrow> 'n \<Rightarrow> 'n"
  assumes items_unique: "items m h xs \<Longrightarrow> items m h ys \<Longrightarrow> xs = ys"
    and items_distinct: "items m h xs \<Longrightarrow> distinct (h # xs)"
    and put_items: "items m h xs \<Longrightarrow> n \<notin> set (h # xs) \<Longrightarrow> items (put n h m) h (xs @ [n])"
    and take_items: "items m h (xs @ e # ys) \<Longrightarrow> \<exists>m'. take_out e m = Inr m' \<and> items m' h (xs @ ys)"
    and first_items: "items m h (x # xs) \<Longrightarrow> first m h = x"
begin

text \<open>
  One turn of a round robin: the first node is removed and queued again at the end.  No
  node is lost or duplicated and the order rotates by one.
\<close>

lemma rotate_once:
  assumes "items m h (x # xs)"
  shows "\<exists>m'. take_out (first m h) m = Inr m' \<and> items (put x h m') h (xs @ [x])"
proof -
  from take_items [of m h "[]" x xs] assms obtain m' where m': "take_out x m = Inr m'" "items m' h xs"
    by auto
  have "x \<notin> set (h # xs)" using items_distinct [OF assms] by auto
  from put_items [OF m'(2) this] m'(1) show ?thesis by (auto simp: first_items [OF assms])
qed

end

lemma clist_unique: "clist s h xs \<Longrightarrow> clist s h ys \<Longrightarrow> xs = ys"
  using lseg_unique by (auto simp: clist_def)

interpretation lq: node_queue clist list_add_tail list_del l_next
proof
  fix m h xs ys assume "clist m h xs" "clist m h ys"
  then show "xs = ys" by (rule clist_unique)
next
  fix m h xs e ys assume "clist m h (xs @ e # ys)"
  from clist_del [OF this] show "\<exists>m'. list_del e m = Inr m' \<and> clist m' h (xs @ ys)" by blast
next
  fix m h xs n assume "clist m h xs" "n \<notin> set (h # xs)"
  then show "clist (list_add_tail n h m) h (xs @ [n])" by (rule clist_add_tail)
qed (auto simp: clist_def)

section \<open>Properties\<close>

text \<open>
  \<open>list_add_tail\<close> of a node that is not on the list appends it: the circular list stays
  well formed in both directions and \<open>list_for_each\<close> then visits the old nodes in order and
  the new one last.
\<close>

theorem list_add_tail_appends:
  assumes "clist s head xs" and "n \<notin> set (head # xs)"
  shows "clist (list_add_tail n head s) head (xs @ [n]) \<and>
     list_for_each (list_add_tail n head s) head = Some (xs @ [n])"
  using clist_add_tail [OF assms] list_for_each_clist by blast

theorem list_add_tail_appends_witness:
  "clist (list_add_tail 8 16 (list_init 16 \<lparr>l_next = (\<lambda>_. 0), l_prev = (\<lambda>_. 0)\<rparr>)) 16 ([] @ [8]) \<and>
   list_for_each (list_add_tail 8 16 (list_init 16 \<lparr>l_next = (\<lambda>_. 0), l_prev = (\<lambda>_. 0)\<rparr>)) 16
     = Some ([] @ [8])"
  by (rule list_add_tail_appends) (simp_all add: clist_init)

text \<open>
  \<open>list_del\<close> of a node on a well-formed list never panics; it unlinks exactly that node,
  clears its two pointers and leaves the links of every node outside the list alone.
\<close>

theorem list_del_unlinks:
  assumes "clist s head (xs @ e # ys)"
  shows "\<exists>s'. list_del e s = Inr s' \<and> clist s' head (xs @ ys) \<and> l_next s' e = 0 \<and> l_prev s' e = 0 \<and>
     (\<forall>x. x \<notin> insert head (set (xs @ e # ys)) \<longrightarrow> l_next s' x = l_next s x \<and> l_prev s' x = l_prev s x)"
  using assms by (rule clist_del)

theorem list_del_unlinks_witness:
  "\<exists>s'. list_del 8 (list_add_tail 8 16 (list_init 16 \<lparr>l_next = (\<lambda>_. 0), l_prev = (\<lambda>_. 0)\<rparr>)) = Inr s' \<and>
     clist s' 16 ([] @ []) \<and> l_next s' 8 = 0 \<and> l_prev s' 8 = 0 \<and>
     (\<forall>x. x \<notin> insert 16 (set ([] @ 8 # [])) \<longrightarrow>
        l_next s' x = l_next (list_add_tail 8 16 (list_init 16 \<lparr>l_next = (\<lambda>_. 0), l_prev = (\<lambda>_. 0)\<rparr>)) x \<and>
        l_prev s' x = l_prev (list_add_tail 8 16 (list_init 16 \<lparr>l_next = (\<lambda>_. 0), l_prev = (\<lambda>_. 0)\<rparr>)) x)"
  by (rule list_del_unlinks)
    (simp add: clist_def list_add_tail_def list_add_between_def list_init_def)

text \<open>
  the hardening check of \<open>list_del\<close>: it panics exactly when a neighbour does not point
  back at the entry.  In particular deleting a node twice panics, because \<open>list_del\<close> leaves
  null pointers, unless the cells at address 0 happen to name that node.
\<close>

theorem list_del_detects_corruption:
  "list_del e s = Inl PanicListCorruption \<longleftrightarrow>
     \<not> (l_prev s (l_next s e) = e \<and> l_next s (l_prev s e) = e)"
  by (auto simp: list_del_def Let_def)

end
