(* ===== verification/Pmm.thy ===== *)
theory Pmm
  imports Prelude
begin

text \<open>
  The physical memory manager, src/src/memory/pmm/pmm.c: a bitmap with one bit per 4 KB frame
  of the 4 GB physical address space, a summary bitmap with one bit per bitmap word, and the
  count of free frames.  The two C arrays are functions from indices; every index the code
  forms is below the array's bound because each access is guarded by \<open>frame < total_frames\<close>
  or by a loop bound.

  The abstraction is the set of free frames.  The lemmas give the effect of each operation
  on that set; the invariant says that the summary bitmap and the counter agree with the
  bitmap.
\<close>

unbundle bit_operations_syntax

section \<open>State and operations\<close>

record pmm_state =
  bitmap :: "nat \<Rightarrow> u32"
  summary_bitmap :: "nat \<Rightarrow> u32"
  free_frame_count :: u32

record memorymap_entry =
  mm_base :: u64
  mm_length :: u64
  mm_type :: u32
  mm_acpi_ext :: u32

definition total_frames :: u32 where
  "total_frames = 1048576"

definition pmm_is_frame_free :: "u32 \<Rightarrow> pmm_state \<Rightarrow> bool" where
  "pmm_is_frame_free frame s =
     (if frame \<ge> total_frames then False
      else let w = frame div 32; b = frame mod 32
           in bitmap s (unat w) AND push_bit (unat b) 1 = 0)"

definition pmm_mark_used :: "u32 \<Rightarrow> pmm_state \<Rightarrow> pmm_state" where
  "pmm_mark_used frame s =
     (if frame \<ge> total_frames then s
      else let w = frame div 32; b = frame mod 32;
               s1 = s\<lparr>bitmap := (bitmap s)(unat w := bitmap s (unat w) OR push_bit (unat b) 1)\<rparr>
           in if bitmap s1 (unat w) = 0xFFFFFFFF
              then let sw = w div 32; sb = w mod 32
                   in s1\<lparr>summary_bitmap := (summary_bitmap s1)
                          (unat sw := summary_bitmap s1 (unat sw) OR push_bit (unat sb) 1)\<rparr>
              else s1)"

definition pmm_mark_free :: "u32 \<Rightarrow> pmm_state \<Rightarrow> pmm_state" where
  "pmm_mark_free frame s =
     (if frame \<ge> total_frames then s
      else let w = frame div 32; b = frame mod 32;
               s1 = s\<lparr>bitmap := (bitmap s)(unat w := bitmap s (unat w) AND NOT (push_bit (unat b) 1))\<rparr>;
               sw = w div 32; sb = w mod 32
           in s1\<lparr>summary_bitmap := (summary_bitmap s1)
                  (unat sw := summary_bitmap s1 (unat sw) AND NOT (push_bit (unat sb) 1))\<rparr>)"

definition incr_count :: "pmm_state \<Rightarrow> pmm_state" where
  "incr_count s = s\<lparr>free_frame_count := free_frame_count s + 1\<rparr>"

definition decr_count :: "pmm_state \<Rightarrow> pmm_state" where
  "decr_count s = s\<lparr>free_frame_count := free_frame_count s - 1\<rparr>"

text \<open>The loops over the frames of a block, from frame \<open>start + i\<close> on, \<open>n\<close> more times.\<close>

fun pmm_release_region :: "u32 \<Rightarrow> nat \<Rightarrow> nat \<Rightarrow> pmm_state \<Rightarrow> pmm_state" where
  "pmm_release_region start i 0 s = s"
| "pmm_release_region start i (Suc n) s =
     (let frame = start + of_nat i
      in pmm_release_region start (Suc i) n
           (if frame < total_frames then incr_count (pmm_mark_free frame s) else s))"

fun pmm_reserve_loop :: "u32 \<Rightarrow> nat \<Rightarrow> nat \<Rightarrow> pmm_state \<Rightarrow> pmm_state" where
  "pmm_reserve_loop start i 0 s = s"
| "pmm_reserve_loop start i (Suc n) s =
     (let current_frame = start + of_nat i
      in pmm_reserve_loop start (Suc i) n
           (if pmm_is_frame_free current_frame s then decr_count (pmm_mark_used current_frame s) else s))"

definition pmm_reserve_block :: "u32 \<Rightarrow> u32 \<Rightarrow> pmm_state \<Rightarrow> pmm_state" where
  "pmm_reserve_block physical_address nbytes s =
     (let starting_frame = physical_address div 4096; num_frames = (nbytes + 4095) div 4096
      in pmm_reserve_loop starting_frame 0 (unat num_frames) s)"

fun pmm_free_loop :: "u32 \<Rightarrow> nat \<Rightarrow> nat \<Rightarrow> pmm_state \<Rightarrow> pmm_state" where
  "pmm_free_loop start i 0 s = s"
| "pmm_free_loop start i (Suc n) s =
     (let current_frame = start + of_nat i
      in pmm_free_loop start (Suc i) n
           (if pmm_is_frame_free current_frame s then s else incr_count (pmm_mark_free current_frame s)))"

definition pmm_free_block :: "u32 \<Rightarrow> u32 \<Rightarrow> pmm_state \<Rightarrow> pmm_state kres" where
  "pmm_free_block physical_address num_frames s =
     (let starting_frame = physical_address div 4096
      in if pmm_is_frame_free starting_frame s then Inl (PanicFrameAlreadyFree physical_address)
         else Inr (pmm_free_loop starting_frame 0 (unat num_frames) s))"

text \<open>
  The scan of the firmware's memory map, an array of entries at 0x5000 that ends with an
  entry of length 0; without such an entry the loop has no end.
\<close>

definition pmm_init_entry :: "memorymap_entry \<Rightarrow> pmm_state \<Rightarrow> pmm_state" where
  "pmm_init_entry e s =
     (if mm_type e = 1
      then let length_32 = ucast (mm_length e) :: u32; base_32 = ucast (mm_base e) :: u32;
               starting_frame_index = base_32 div 4096; num_frames = length_32 div 4096
           in pmm_release_region starting_frame_index 0 (unat num_frames) s
      else s)"

partial_function (option) pmm_init_scan ::
  "(nat \<Rightarrow> memorymap_entry) \<Rightarrow> nat \<Rightarrow> pmm_state \<Rightarrow> pmm_state option" where
  "pmm_init_scan entries k s =
     (if mm_length (entries k) > 0 then pmm_init_scan entries (Suc k) (pmm_init_entry (entries k) s)
      else Some s)"

definition pmm_init_fill :: "pmm_state \<Rightarrow> pmm_state" where
  "pmm_init_fill s = s\<lparr>bitmap := fill_with 32768 (\<lambda>_. 0xFFFFFFFF) (bitmap s),
     summary_bitmap := fill_with 1024 (\<lambda>_. 0xFFFFFFFF) (summary_bitmap s), free_frame_count := 0\<rparr>"

definition pmm_init_reserve :: "addr \<Rightarrow> pmm_state \<Rightarrow> pmm_state" where
  "pmm_init_reserve kernel_end s =
     (let s1 = pmm_reserve_block 0x00000000 0x100000 s;
          s2 = (if kernel_end > 0x100000 then pmm_reserve_block 0x100000 (kernel_end - 0x100000) s1 else s1)
      in pmm_reserve_block 0x00400000 0x00400000 s2)"

definition pmm_init :: "addr \<Rightarrow> (nat \<Rightarrow> memorymap_entry) \<Rightarrow> pmm_state \<Rightarrow> pmm_state option" where
  "pmm_init kernel_end entries s =
     map_option (pmm_init_reserve kernel_end) (pmm_init_scan entries 0 (pmm_init_fill s))"

text \<open>The two nested loops of \<open>pmm_alloc_frame\<close>: the bits of one word, and the words.\<close>

function pmm_alloc_bits :: "u32 \<Rightarrow> nat \<Rightarrow> nat \<Rightarrow> nat option" where
  "pmm_alloc_bits x w b =
     (if b < 32
      then if x AND push_bit b 1 = 0 \<and> w * 32 + b \<noteq> 0 then Some (w * 32 + b)
           else pmm_alloc_bits x w (Suc b)
      else None)"
  by pat_completeness auto
termination
  by (relation "measure (\<lambda>(x, w, b). 32 - b)") auto

function pmm_alloc_scan :: "(nat \<Rightarrow> u32) \<Rightarrow> nat \<Rightarrow> nat option" where
  "pmm_alloc_scan bm w =
     (if w < 32768
      then if bm w \<noteq> 0xFFFFFFFF
           then (case pmm_alloc_bits (bm w) w 0 of Some f \<Rightarrow> Some f | None \<Rightarrow> pmm_alloc_scan bm (Suc w))
           else pmm_alloc_scan bm (Suc w)
      else None)"
  by pat_completeness auto
termination
  by (relation "measure (\<lambda>(bm, w). 32768 - w)") auto

declare pmm_alloc_bits.simps [simp del] pmm_alloc_scan.simps [simp del]

definition pmm_alloc_frame :: "pmm_state \<Rightarrow> u32 \<times> pmm_state" where
  "pmm_alloc_frame s =
     (case pmm_alloc_scan (bitmap s) 0 of
        Some frame \<Rightarrow> (of_nat frame * 4096, decr_count (pmm_mark_used (of_nat frame) s))
      | None \<Rightarrow> (0, s))"

definition pmm_get_stats :: "pmm_state \<Rightarrow> u32 \<times> u32 \<times> u32" where
  "pmm_get_stats s = (total_frames, free_frame_count s, total_frames - free_frame_count s)"

section \<open>Abstraction and invariant\<close>

definition free_frames :: "pmm_state \<Rightarrow> nat set" where
  "free_frames s = {f. f < 1048576 \<and> \<not> bit (bitmap s (f div 32)) (f mod 32)}"

definition summary_ok :: "pmm_state \<Rightarrow> bool" where
  "summary_ok s \<longleftrightarrow> (\<forall>w < 32768. bit (summary_bitmap s (w div 32)) (w mod 32) \<longleftrightarrow> bitmap s w = 0xFFFFFFFF)"

definition pmm_inv :: "pmm_state \<Rightarrow> bool" where
  "pmm_inv s \<longleftrightarrow> summary_ok s \<and> unat (free_frame_count s) = card (free_frames s)"

section \<open>Bits\<close>

lemma and_push_bit_eq_0: "n < 32 \<Longrightarrow> (x :: u32) AND 2 ^ n = 0 \<longleftrightarrow> \<not> bit x n"
  by (simp add: bit_iff_and_push_bit_not_eq_0)

lemma bit_or_push_bit: "n < 32 \<Longrightarrow> bit ((x :: u32) OR 2 ^ n) k \<longleftrightarrow> bit x k \<or> k = n"
  by (auto simp: bit_simps)

lemma bit_and_not_push_bit:
  "n < 32 \<Longrightarrow> k < 32 \<Longrightarrow> bit ((x :: u32) AND NOT (2 ^ n)) k \<longleftrightarrow> bit x k \<and> k \<noteq> n"
  by (auto simp: bit_simps)

lemma all_ones_iff: "(x :: u32) = 0xFFFFFFFF \<longleftrightarrow> (\<forall>b < 32. bit x b)"
proof -
  have "(0xFFFFFFFF :: u32) = - 1" by simp
  then show ?thesis by (auto simp: bit_eq_iff)
qed

lemma finite_free_frames [simp]: "finite (free_frames s)"
  by (rule finite_subset [of _ "{..<1048576}"]) (auto simp: free_frames_def)

lemma free_frames_card_le: "card (free_frames s) \<le> 1048576"
proof -
  have "free_frames s \<subseteq> {..<1048576}" by (auto simp: free_frames_def)
  from card_mono [OF _ this] show ?thesis by simp
qed

lemma frame_index:
  "unat ((frame :: u32) div 32) = unat frame div 32" "unat (frame mod 32) = unat frame mod 32"
  by (simp_all add: unat_div unat_mod)

lemma in_range:
  "frame < total_frames \<longleftrightarrow> unat frame < 1048576"
  "total_frames \<le> frame \<longleftrightarrow> \<not> unat frame < 1048576"
  by (simp_all add: total_frames_def word_less_nat_alt word_le_nat_alt not_less)

lemma is_frame_free_iff: "pmm_is_frame_free frame s \<longleftrightarrow> unat frame \<in> free_frames s"
  by (auto simp: pmm_is_frame_free_def free_frames_def Let_def frame_index and_push_bit_eq_0
      in_range)

lemma same_bit_iff: "(f :: nat) div 32 = g div 32 \<and> f mod 32 = g mod 32 \<longleftrightarrow> f = g"
  by (metis div_mult_mod_eq)

lemma free_frames_mark_used:
  "free_frames (pmm_mark_used frame s) = free_frames s - {unat frame}"
proof (cases "frame < total_frames")
  case True
  have "bitmap (pmm_mark_used frame s) = (bitmap s)(unat frame div 32 :=
      bitmap s (unat frame div 32) OR 2 ^ (unat frame mod 32))"
    using True by (auto simp: pmm_mark_used_def Let_def frame_index in_range)
  then show ?thesis
    using same_bit_iff by (auto simp: free_frames_def bit_or_push_bit)
next
  case False
  then show ?thesis by (auto simp: pmm_mark_used_def in_range free_frames_def)
qed

lemma free_frames_mark_free:
  "free_frames (pmm_mark_free frame s) =
     (if frame < total_frames then insert (unat frame) (free_frames s) else free_frames s)"
proof (cases "frame < total_frames")
  case True
  have "bitmap (pmm_mark_free frame s) = (bitmap s)(unat frame div 32 :=
      bitmap s (unat frame div 32) AND NOT (2 ^ (unat frame mod 32)))"
    using True by (auto simp: pmm_mark_free_def Let_def frame_index in_range)
  then show ?thesis
    using True same_bit_iff by (auto simp: free_frames_def bit_and_not_push_bit in_range)
qed (simp add: pmm_mark_free_def in_range)

lemma count_simps [simp]:
  "free_frames (incr_count s) = free_frames s" "free_frames (decr_count s) = free_frames s"
  "summary_ok (incr_count s) = summary_ok s" "summary_ok (decr_count s) = summary_ok s"
  "free_frame_count (incr_count s) = free_frame_count s + 1"
  "free_frame_count (decr_count s) = free_frame_count s - 1"
  "bitmap (incr_count s) = bitmap s" "bitmap (decr_count s) = bitmap s"
  by (simp_all add: incr_count_def decr_count_def free_frames_def summary_ok_def)

lemma mark_count [simp]:
  "free_frame_count (pmm_mark_used frame s) = free_frame_count s"
  "free_frame_count (pmm_mark_free frame s) = free_frame_count s"
  by (simp_all add: pmm_mark_used_def pmm_mark_free_def Let_def)

section \<open>The summary bitmap\<close>

lemma summary_mark_used:
  assumes "summary_ok s"
  shows "summary_ok (pmm_mark_used frame s)"
proof (cases "frame < total_frames")
  case True
  let ?w = "unat frame div 32" and ?b = "unat frame mod 32"
  let ?x = "bitmap s ?w OR 2 ^ ?b"
  have wr: "?w < 32768" using True by (simp add: in_range)
  have bm: "bitmap (pmm_mark_used frame s) = (bitmap s)(?w := ?x)"
    using True by (auto simp: pmm_mark_used_def Let_def frame_index in_range)
  have sm: "summary_bitmap (pmm_mark_used frame s) = (if ?x = 0xFFFFFFFF
      then (summary_bitmap s)(?w div 32 := summary_bitmap s (?w div 32) OR 2 ^ (?w mod 32))
      else summary_bitmap s)"
    using True by (auto simp: pmm_mark_used_def Let_def frame_index in_range)
  have grow: "bitmap s ?w = 0xFFFFFFFF \<Longrightarrow> ?x = 0xFFFFFFFF"
    by (simp add: all_ones_iff bit_or_push_bit)
  show ?thesis unfolding summary_ok_def
  proof (intro allI impI)
    fix w :: nat assume w: "w < 32768"
    show "bit (summary_bitmap (pmm_mark_used frame s) (w div 32)) (w mod 32) \<longleftrightarrow>
        bitmap (pmm_mark_used frame s) w = 0xFFFFFFFF"
      using assms w grow same_bit_iff [of w ?w]
      by (auto simp: bm sm bit_or_push_bit summary_ok_def)
  qed
qed (use assms in \<open>simp add: pmm_mark_used_def in_range\<close>)

lemma summary_mark_free:
  assumes "summary_ok s"
  shows "summary_ok (pmm_mark_free frame s)"
proof (cases "frame < total_frames")
  case True
  let ?w = "unat frame div 32" and ?b = "unat frame mod 32"
  let ?x = "bitmap s ?w AND NOT (2 ^ ?b)"
  have bm: "bitmap (pmm_mark_free frame s) = (bitmap s)(?w := ?x)"
    using True by (auto simp: pmm_mark_free_def Let_def frame_index in_range)
  have sm: "summary_bitmap (pmm_mark_free frame s) =
      (summary_bitmap s)(?w div 32 := summary_bitmap s (?w div 32) AND NOT (2 ^ (?w mod 32)))"
    using True by (auto simp: pmm_mark_free_def Let_def frame_index in_range)
  have "\<not> bit ?x ?b" by (simp add: bit_and_not_push_bit)
  then have nf: "?x \<noteq> 0xFFFFFFFF" unfolding all_ones_iff by force
  show ?thesis unfolding summary_ok_def
  proof (intro allI impI)
    fix w :: nat assume w: "w < 32768"
    show "bit (summary_bitmap (pmm_mark_free frame s) (w div 32)) (w mod 32) \<longleftrightarrow>
        bitmap (pmm_mark_free frame s) w = 0xFFFFFFFF"
      using assms w nf same_bit_iff [of w ?w]
      by (auto simp: bm sm bit_and_not_push_bit summary_ok_def)
  qed
qed (use assms in \<open>simp add: pmm_mark_free_def in_range\<close>)

section \<open>Single frames keep the invariant\<close>

lemma pmm_inv_use:
  assumes "pmm_inv s" and "unat frame \<in> free_frames s"
  shows "pmm_inv (decr_count (pmm_mark_used frame s))"
proof -
  have c: "card (free_frames s) > 0" using assms(2) by (auto simp: card_gt_0_iff)
  then have "unat (free_frame_count s - 1) = card (free_frames s) - 1"
    using assms(1) by (auto simp: pmm_inv_def unat_sub_if')
  then show ?thesis using assms summary_mark_used
    by (simp add: pmm_inv_def free_frames_mark_used)
qed

lemma pmm_inv_release:
  assumes "pmm_inv s" and "unat frame \<notin> free_frames s" and "frame < total_frames"
  shows "pmm_inv (incr_count (pmm_mark_free frame s))"
proof -
  have "unat (free_frame_count s + 1) = card (free_frames s) + 1"
    using assms(1) free_frames_card_le [of s] by (simp add: pmm_inv_def unat_word_ariths)
  then show ?thesis using assms summary_mark_free
    by (simp add: pmm_inv_def free_frames_mark_free)
qed

section \<open>Allocation\<close>

lemma pmm_alloc_bits_Some:
  "pmm_alloc_bits x w b = Some f \<longleftrightarrow> (\<exists>k. b \<le> k \<and> k < 32 \<and> f = w * 32 + k \<and> f \<noteq> 0 \<and> \<not> bit x k \<and>
     (\<forall>j. b \<le> j \<and> j < k \<longrightarrow> bit x j \<or> w * 32 + j = 0))"
proof (induction "32 - b" arbitrary: b)
  case 0
  then show ?case by (subst pmm_alloc_bits.simps) auto
next
  case (Suc d)
  then have b: "b < 32" and IH: "\<And>P. pmm_alloc_bits x w (Suc b) = Some f \<longleftrightarrow>
     (\<exists>k. Suc b \<le> k \<and> k < 32 \<and> f = w * 32 + k \<and> f \<noteq> 0 \<and> \<not> bit x k \<and>
       (\<forall>j. Suc b \<le> j \<and> j < k \<longrightarrow> bit x j \<or> w * 32 + j = 0))"
    by auto
  show ?case
  proof (cases "\<not> bit x b \<and> w * 32 + b \<noteq> 0")
    case True
    then have "pmm_alloc_bits x w b = Some (w * 32 + b)"
      using b by (subst pmm_alloc_bits.simps) (simp add: and_push_bit_eq_0)
    with True b show ?thesis by (auto simp: le_eq_less_or_eq)
  next
    case False
    then have "pmm_alloc_bits x w b = pmm_alloc_bits x w (Suc b)"
      using b by (subst pmm_alloc_bits.simps) (auto simp: and_push_bit_eq_0)
    with False IH b show ?thesis by (auto simp: Suc_le_eq le_eq_less_or_eq [of b])
  qed
qed

lemma pmm_alloc_bits_None:
  assumes "pmm_alloc_bits x w b = None" and "b \<le> k" and "k < 32"
  shows "bit x k \<or> w * 32 + k = 0"
proof (rule ccontr)
  let ?P = "\<lambda>k. b \<le> k \<and> \<not> bit x k \<and> w * 32 + k \<noteq> 0"
  assume "\<not> (bit x k \<or> w * 32 + k = 0)"
  then have k: "?P k" using assms(2) by simp
  let ?m = "Least ?P"
  have "?P ?m" using k by (rule LeastI)
  moreover have "?m \<le> k" using k by (rule Least_le)
  moreover have "bit x j \<or> w * 32 + j = 0" if "b \<le> j" "j < ?m" for j
    using not_less_Least [OF that(2)] that(1) by auto
  ultimately have "pmm_alloc_bits x w b = Some (w * 32 + ?m)"
    unfolding pmm_alloc_bits_Some using assms(3) by (intro exI [of _ ?m]) auto
  with assms(1) show False by simp
qed

text \<open>A frame the allocator may hand out: free in the bitmap and not frame 0.\<close>

definition allocatable :: "(nat \<Rightarrow> u32) \<Rightarrow> nat \<Rightarrow> bool" where
  "allocatable bm f \<longleftrightarrow> f \<noteq> 0 \<and> \<not> bit (bm (f div 32)) (f mod 32)"

lemma not_allocatable_full:
  assumes "bm w = 0xFFFFFFFF" and "g div 32 = w"
  shows "\<not> allocatable bm g"
  using assms by (auto simp: allocatable_def all_ones_iff)

lemma pmm_alloc_scan_correct:
  "case pmm_alloc_scan bm w of
     Some f \<Rightarrow> w * 32 \<le> f \<and> f < 1048576 \<and> allocatable bm f \<and> (\<forall>g. w * 32 \<le> g \<and> g < f \<longrightarrow> \<not> allocatable bm g)
   | None \<Rightarrow> \<forall>g. w * 32 \<le> g \<and> g < 1048576 \<longrightarrow> \<not> allocatable bm g"
proof (induction "32768 - w" arbitrary: w)
  case 0
  then show ?case by (subst pmm_alloc_scan.simps) auto
next
  case (Suc d)
  then have w: "w < 32768" and IH: "case pmm_alloc_scan bm (Suc w) of
     Some f \<Rightarrow> Suc w * 32 \<le> f \<and> f < 1048576 \<and> allocatable bm f \<and>
        (\<forall>g. Suc w * 32 \<le> g \<and> g < f \<longrightarrow> \<not> allocatable bm g)
   | None \<Rightarrow> \<forall>g. Suc w * 32 \<le> g \<and> g < 1048576 \<longrightarrow> \<not> allocatable bm g"
    by auto
  have word: "g div 32 = w" if "w * 32 \<le> g" "\<not> Suc w * 32 \<le> g" for g
    using that by (metis div_nat_eqI mult.commute not_le)
  show ?case
  proof (cases "pmm_alloc_bits (bm w) w 0")
    case (Some f)
    then obtain k where k: "k < 32" "f = w * 32 + k" "f \<noteq> 0" "\<not> bit (bm w) k"
      and least: "\<forall>j < k. bit (bm w) j \<or> w * 32 + j = 0"
      by (auto simp: pmm_alloc_bits_Some)
    then have "bm w \<noteq> 0xFFFFFFFF" by (auto simp: all_ones_iff)
    then have e: "pmm_alloc_scan bm w = Some f"
      using w Some by (subst pmm_alloc_scan.simps) simp
    have "\<not> allocatable bm g" if "w * 32 \<le> g" "g < f" for g
    proof -
      have g: "g div 32 = w" using that k(1,2) by (intro word) auto
      have "w * 32 + g mod 32 = g" using div_mult_mod_eq [of g 32] g by simp
      moreover from this have "g mod 32 < k" using that k(2) by linarith
      ultimately show ?thesis using least g by (auto simp: allocatable_def)
    qed
    then show ?thesis using e k w by (auto simp: allocatable_def)
  next
    case None
    have none: "\<not> allocatable bm g" if "w * 32 \<le> g" "\<not> Suc w * 32 \<le> g" for g
    proof -
      have g: "g div 32 = w" using that by (rule word)
      have "w * 32 + g mod 32 = g" using div_mult_mod_eq [of g 32] g by simp
      then show ?thesis using pmm_alloc_bits_None [OF None, of "g mod 32"] g
        by (auto simp: allocatable_def)
    qed
    have "pmm_alloc_scan bm w = pmm_alloc_scan bm (Suc w)"
      using w None by (subst pmm_alloc_scan.simps) simp
    with IH none show ?thesis by (auto split: option.splits)
  qed
qed

lemma allocatable_iff: "f < 1048576 \<Longrightarrow> allocatable (bitmap s) f \<longleftrightarrow> f \<in> free_frames s - {0}"
  by (auto simp: allocatable_def free_frames_def)

lemma pmm_alloc_frame_Some:
  assumes "free_frames s - {0} \<noteq> {}"
  shows "pmm_alloc_frame s = (of_nat (Min (free_frames s - {0})) * 4096,
     decr_count (pmm_mark_used (of_nat (Min (free_frames s - {0}))) s))"
proof -
  let ?A = "free_frames s - {0}"
  from assms obtain g where g: "g \<in> ?A" by blast
  then have "g < 1048576" by (auto simp: free_frames_def)
  with g pmm_alloc_scan_correct [where bm = "bitmap s" and w = 0]
  obtain f where f: "pmm_alloc_scan (bitmap s) 0 = Some f"
    by (auto simp: allocatable_iff split: option.splits)
  with pmm_alloc_scan_correct [where bm = "bitmap s" and w = 0]
  have fa: "f < 1048576" "allocatable (bitmap s) f" "\<forall>g < f. \<not> allocatable (bitmap s) g" by auto
  have "Min ?A = f"
  proof (rule Min_eqI)
    show "f \<le> y" if "y \<in> ?A" for y
    proof (rule ccontr)
      assume "\<not> f \<le> y"
      then have "y < f" by simp
      with fa(1) that have "allocatable (bitmap s) y" by (simp add: allocatable_iff)
      with fa(3) \<open>y < f\<close> show False by blast
    qed
    show "f \<in> ?A" using fa(1,2) by (simp add: allocatable_iff)
  qed simp
  with f show ?thesis by (simp add: pmm_alloc_frame_def)
qed

lemma pmm_alloc_frame_None:
  assumes "free_frames s - {0} = {}"
  shows "pmm_alloc_frame s = (0, s)"
proof -
  have "pmm_alloc_scan (bitmap s) 0 = None"
    using pmm_alloc_scan_correct [where bm = "bitmap s" and w = 0] assms
    by (cases "pmm_alloc_scan (bitmap s) 0") (auto simp: allocatable_iff)
  then show ?thesis by (simp add: pmm_alloc_frame_def)
qed

text \<open>A frame number and its physical address.\<close>

definition frame_addr :: "nat \<Rightarrow> addr" where
  "frame_addr f = of_nat f * 4096"

lemma frame_addr_div:
  assumes "f < 1048576"
  shows "frame_addr f div 4096 = of_nat f" and "unat (frame_addr f) = f * 4096"
    and "unat (of_nat f :: u32) = f"
proof -
  show f: "unat (of_nat f :: u32) = f" using assms by (intro unat_of_nat_u32) simp
  show u: "unat (frame_addr f) = f * 4096"
    using assms f by (simp add: frame_addr_def unat_word_ariths)
  have "unat (frame_addr f div 4096) = f" by (simp add: unat_div u)
  then show "frame_addr f div 4096 = of_nat f" using f by (metis word_unat_eq_iff)
qed

lemma frame_addr_eq_0: "f < 1048576 \<Longrightarrow> frame_addr f = 0 \<longleftrightarrow> f = 0"
  using frame_addr_div(2) [of f] by (auto simp: frame_addr_def)

lemma frame_addr_inject: "f < 1048576 \<Longrightarrow> g < 1048576 \<Longrightarrow> frame_addr f = frame_addr g \<longleftrightarrow> f = g"
  using frame_addr_div(2) by (metis mult_cancel2 zero_neq_numeral)

lemma free_frames_lt: "f \<in> free_frames s \<Longrightarrow> f < 1048576"
  by (simp add: free_frames_def)

section \<open>The interface of a frame allocator\<close>

text \<open>
  What the virtual memory manager relies on: allocation hands out the address of a frame
  that was available and takes it out of the available frames, it returns 0 only when
  nothing but frame 0 is left, and releasing a frame makes it available again.
\<close>

locale frame_allocator =
  fixes avail :: "'s \<Rightarrow> nat set"
    and invar :: "'s \<Rightarrow> bool"
    and alloc :: "'s \<Rightarrow> u32 \<times> 's"
    and release :: "u32 \<Rightarrow> 's \<Rightarrow> 's kres"
  assumes avail_range: "avail s \<subseteq> {..<1048576}"
    and alloc_some: "invar s \<Longrightarrow> avail s - {0} \<noteq> {} \<Longrightarrow>
      \<exists>f s'. alloc s = (frame_addr f, s') \<and> f \<in> avail s \<and> f \<noteq> 0 \<and> avail s' = avail s - {f} \<and> invar s'"
    and alloc_none: "avail s - {0} = {} \<Longrightarrow> alloc s = (0, s)"
    and release_ok: "invar s \<Longrightarrow> f < 1048576 \<Longrightarrow> f \<notin> avail s \<Longrightarrow>
      \<exists>s'. release (frame_addr f) s = Inr s' \<and> avail s' = insert f (avail s) \<and> invar s'"
    and release_twice: "f \<in> avail s \<Longrightarrow> release (frame_addr f) s = Inl (PanicFrameAlreadyFree (frame_addr f))"
begin

lemma alloc_invar: "invar s \<Longrightarrow> invar (snd (alloc s))"
  using alloc_some alloc_none by (cases "avail s - {0} = {}") fastforce+

lemma alloc_nonzero:
  assumes "invar s" and "alloc s = (p, s')" and "p \<noteq> 0"
  shows "\<exists>f. p = frame_addr f \<and> f < 1048576 \<and> f \<noteq> 0 \<and> f \<in> avail s \<and> avail s' = avail s - {f} \<and> invar s'"
proof -
  have "avail s - {0} \<noteq> {}" using alloc_none assms(2,3) by force
  from alloc_some [OF assms(1) this] assms(2) avail_range show ?thesis by auto
qed

lemma alloc_zero: "invar s \<Longrightarrow> alloc s = (0, s') \<Longrightarrow> avail s - {0} = {} \<and> s' = s"
proof -
  assume a: "invar s" "alloc s = (0, s')"
  have "avail s - {0} = {}"
  proof (rule ccontr)
    assume "avail s - {0} \<noteq> {}"
    from alloc_some [OF a(1) this] a(2) obtain f where "frame_addr f = 0" "f \<in> avail s" "f \<noteq> 0"
      by auto
    then show False using avail_range frame_addr_eq_0 by blast
  qed
  with alloc_none a(2) show ?thesis by auto
qed

text \<open>Two successive allocations never return the same frame.\<close>

lemma alloc_distinct:
  assumes "invar s" and "alloc s = (p, s1)" and "alloc s1 = (q, s2)" and "p \<noteq> 0" and "q \<noteq> 0"
  shows "p \<noteq> q"
proof -
  from alloc_nonzero [OF assms(1,2,4)] obtain f where f: "p = frame_addr f" "f < 1048576"
    "avail s1 = avail s - {f}" "invar s1" by blast
  from alloc_nonzero [OF f(4) assms(3,5)] obtain g where "q = frame_addr g" "g < 1048576" "g \<in> avail s1"
    by blast
  with f show ?thesis by (auto simp: frame_addr_inject)
qed

text \<open>Releasing what was just allocated restores the available frames.\<close>

lemma alloc_release:
  assumes "invar s" and "alloc s = (p, s1)" and "p \<noteq> 0"
  shows "\<exists>s2. release p s1 = Inr s2 \<and> avail s2 = avail s \<and> invar s2"
proof -
  from alloc_nonzero [OF assms] obtain f where f: "p = frame_addr f" "f < 1048576" "f \<in> avail s"
    "avail s1 = avail s - {f}" "invar s1" by blast
  have "f \<notin> avail s1" using f(4) by simp
  from release_ok [OF f(5,2) this] f show ?thesis by (auto simp: insert_absorb)
qed

end

lemma pmm_free_one:
  assumes "pmm_inv s" and "f < 1048576" and "f \<notin> free_frames s"
  shows "\<exists>s'. pmm_free_block (frame_addr f) 1 s = Inr s' \<and> free_frames s' = insert f (free_frames s) \<and> pmm_inv s'"
proof -
  note fa = frame_addr_div [OF assms(2)]
  have "pmm_free_block (frame_addr f) 1 s = Inr (incr_count (pmm_mark_free (of_nat f) s))"
    using assms(3) by (simp add: pmm_free_block_def fa(1,3) is_frame_free_iff)
  moreover have "pmm_inv (incr_count (pmm_mark_free (of_nat f) s))"
    using assms fa by (intro pmm_inv_release) (auto simp: in_range)
  ultimately show ?thesis using assms(2) fa(3) by (simp add: free_frames_mark_free in_range)
qed

interpretation frames: frame_allocator free_frames pmm_inv pmm_alloc_frame "\<lambda>p. pmm_free_block p 1"
proof
  fix s :: pmm_state
  show "free_frames s \<subseteq> {..<1048576}" by (auto simp: free_frames_def)
  show "pmm_alloc_frame s = (0, s)" if "free_frames s - {0} = {}"
    using that by (rule pmm_alloc_frame_None)
  show "\<exists>f s'. pmm_alloc_frame s = (frame_addr f, s') \<and> f \<in> free_frames s \<and> f \<noteq> 0 \<and>
      free_frames s' = free_frames s - {f} \<and> pmm_inv s'"
    if "pmm_inv s" and ne: "free_frames s - {0} \<noteq> {}"
  proof -
    let ?f = "Min (free_frames s - {0})"
    have m: "?f \<in> free_frames s - {0}" using ne by (intro Min_in) auto
    then have u: "unat (of_nat ?f :: u32) = ?f"
      using free_frames_lt frame_addr_div(3) by blast
    then have "pmm_inv (decr_count (pmm_mark_used (of_nat ?f) s))"
      using that(1) m by (intro pmm_inv_use) auto
    then show ?thesis using m u pmm_alloc_frame_Some [OF ne]
      by (auto simp: frame_addr_def free_frames_mark_used)
  qed
next
  fix s :: pmm_state and f :: nat assume "f \<in> free_frames s"
  then show "pmm_free_block (frame_addr f) 1 s = Inl (PanicFrameAlreadyFree (frame_addr f))"
    using frame_addr_div [OF free_frames_lt] by (simp add: pmm_free_block_def is_frame_free_iff)
qed (rule pmm_free_one)

section \<open>Blocks of frames\<close>

lemma unat_block_frame:
  "unat start + j < 2 ^ 32 \<Longrightarrow> unat (start + of_nat j :: u32) = unat start + j"
  by (simp add: unat_plus_u32 unat_of_nat_u32)

lemma pmm_reserve_loop_effect:
  assumes "unat start + i + n \<le> 2 ^ 32"
  shows "free_frames (pmm_reserve_loop start i n s) = free_frames s - {unat start + i ..< unat start + i + n} \<and>
     (pmm_inv s \<longrightarrow> pmm_inv (pmm_reserve_loop start i n s))"
  using assms
proof (induction n arbitrary: i s)
  case (Suc n)
  let ?f = "start + of_nat i"
  let ?s = "if pmm_is_frame_free ?f s then decr_count (pmm_mark_used ?f s) else s"
  have f: "unat ?f = unat start + i" using Suc.prems by (intro unat_block_frame) simp
  have s: "free_frames ?s = free_frames s - {unat start + i}"
    using f by (auto simp: is_frame_free_iff free_frames_mark_used)
  have inv: "pmm_inv s \<Longrightarrow> pmm_inv ?s" by (auto simp: is_frame_free_iff pmm_inv_use)
  have set: "{unat start + i ..< unat start + i + Suc n} =
      insert (unat start + i) {unat start + Suc i ..< unat start + Suc i + n}" by auto
  have "free_frames (pmm_reserve_loop start (Suc i) n ?s) =
      free_frames ?s - {unat start + Suc i ..< unat start + Suc i + n} \<and>
      (pmm_inv ?s \<longrightarrow> pmm_inv (pmm_reserve_loop start (Suc i) n ?s))"
    by (rule Suc.IH) (use Suc.prems in simp)
  then show ?case using s inv unfolding set by (auto simp: Let_def)
qed simp

lemma pmm_free_loop_effect:
  assumes "unat start + i + n \<le> 1048576"
  shows "free_frames (pmm_free_loop start i n s) = free_frames s \<union> {unat start + i ..< unat start + i + n} \<and>
     (pmm_inv s \<longrightarrow> pmm_inv (pmm_free_loop start i n s))"
  using assms
proof (induction n arbitrary: i s)
  case (Suc n)
  let ?f = "start + of_nat i"
  let ?s = "if pmm_is_frame_free ?f s then s else incr_count (pmm_mark_free ?f s)"
  have f: "unat ?f = unat start + i" using Suc.prems by (intro unat_block_frame) simp
  have r: "?f < total_frames" using f Suc.prems by (simp add: in_range)
  have s: "free_frames ?s = insert (unat start + i) (free_frames s)"
    using f r by (auto simp: is_frame_free_iff free_frames_mark_free)
  have inv: "pmm_inv s \<Longrightarrow> pmm_inv ?s" using r by (auto simp: is_frame_free_iff pmm_inv_release)
  have set: "{unat start + i ..< unat start + i + Suc n} =
      insert (unat start + i) {unat start + Suc i ..< unat start + Suc i + n}" by auto
  have "free_frames (pmm_free_loop start (Suc i) n ?s) =
      free_frames ?s \<union> {unat start + Suc i ..< unat start + Suc i + n} \<and>
      (pmm_inv ?s \<longrightarrow> pmm_inv (pmm_free_loop start (Suc i) n ?s))"
    by (rule Suc.IH) (use Suc.prems in simp)
  then show ?case using s inv unfolding set by (auto simp: Let_def)
qed simp

lemma pmm_release_region_effect:
  assumes "unat start + i + n \<le> 1048576"
    and "{unat start + i ..< unat start + i + n} \<inter> free_frames s = {}"
  shows "free_frames (pmm_release_region start i n s) = free_frames s \<union> {unat start + i ..< unat start + i + n} \<and>
     (pmm_inv s \<longrightarrow> pmm_inv (pmm_release_region start i n s))"
  using assms
proof (induction n arbitrary: i s)
  case (Suc n)
  let ?f = "start + of_nat i"
  let ?s = "incr_count (pmm_mark_free ?f s)"
  have f: "unat ?f = unat start + i" using Suc.prems(1) by (intro unat_block_frame) simp
  have r: "?f < total_frames" using f Suc.prems(1) by (simp add: in_range)
  have s: "free_frames ?s = insert (unat start + i) (free_frames s)"
    using f r by (auto simp: free_frames_mark_free)
  have set: "{unat start + i ..< unat start + i + Suc n} =
      insert (unat start + i) {unat start + Suc i ..< unat start + Suc i + n}" by auto
  have "unat ?f \<notin> free_frames s" using Suc.prems(2) unfolding set f by auto
  then have inv: "pmm_inv s \<Longrightarrow> pmm_inv ?s" using r by (intro pmm_inv_release)
  have "free_frames (pmm_release_region start (Suc i) n ?s) =
      free_frames ?s \<union> {unat start + Suc i ..< unat start + Suc i + n} \<and>
      (pmm_inv ?s \<longrightarrow> pmm_inv (pmm_release_region start (Suc i) n ?s))"
    by (rule Suc.IH) (use Suc.prems s set in auto)
  then show ?case using s inv r unfolding set by (auto simp: Let_def)
qed simp

lemma pmm_reserve_block_effect:
  assumes "unat a + unat n + 4095 < 2 ^ 32"
  shows "free_frames (pmm_reserve_block a n s) =
       free_frames s - {unat a div 4096 ..< unat a div 4096 + (unat n + 4095) div 4096}"
    and "pmm_inv s \<Longrightarrow> pmm_inv (pmm_reserve_block a n s)"
proof -
  have n: "unat (n + 4095) = unat n + 4095" using assms by (simp add: unat_word_ariths)
  have "unat a div 4096 + (unat n + 4095) div 4096 \<le> (unat a + unat n + 4095) div 4096"
    by simp
  also have "\<dots> \<le> 2 ^ 32" using assms by simp
  finally have b: "unat (a div 4096) + 0 + unat ((n + 4095) div 4096) \<le> 2 ^ 32"
    by (simp add: unat_div n)
  from pmm_reserve_loop_effect [OF b, of s]
  show "free_frames (pmm_reserve_block a n s) =
       free_frames s - {unat a div 4096 ..< unat a div 4096 + (unat n + 4095) div 4096}"
    and "pmm_inv s \<Longrightarrow> pmm_inv (pmm_reserve_block a n s)"
    by (simp_all add: pmm_reserve_block_def Let_def unat_div n)
qed

lemma pmm_free_block_effect:
  assumes "unat a div 4096 + unat n \<le> 1048576" and "unat a div 4096 \<notin> free_frames s"
  shows "\<exists>s'. pmm_free_block a n s = Inr s' \<and>
     free_frames s' = free_frames s \<union> {unat a div 4096 ..< unat a div 4096 + unat n} \<and>
     (pmm_inv s \<longrightarrow> pmm_inv s')"
  using pmm_free_loop_effect [of "a div 4096" 0 "unat n" s] assms
  by (simp add: pmm_free_block_def Let_def is_frame_free_iff unat_div)

section \<open>Initialisation\<close>

text \<open>The frames a memory map entry declares usable.\<close>

definition region_frames :: "memorymap_entry \<Rightarrow> nat set" where
  "region_frames e = (if mm_type e = 1
     then {unat (mm_base e) div 4096 ..< unat (mm_base e) div 4096 + unat (mm_length e) div 4096} else {})"

definition below_4g :: "memorymap_entry \<Rightarrow> bool" where
  "below_4g e \<longleftrightarrow> unat (mm_length e) < 2 ^ 32 \<and> unat (mm_base e) + unat (mm_length e) \<le> 2 ^ 32"

lemma pmm_init_fill_effect: "free_frames (pmm_init_fill s) = {}" "pmm_inv (pmm_init_fill s)"
proof -
  show e: "free_frames (pmm_init_fill s) = {}"
    using all_ones_iff [of "0xFFFFFFFF"] by (auto simp: free_frames_def pmm_init_fill_def)
  have "summary_ok (pmm_init_fill s)"
    using all_ones_iff [of "0xFFFFFFFF"] by (auto simp: summary_ok_def pmm_init_fill_def)
  then show "pmm_inv (pmm_init_fill s)"
    unfolding pmm_inv_def e by (simp add: pmm_init_fill_def)
qed

lemma unat_ucast_u32: "unat (x :: u64) < 2 ^ 32 \<Longrightarrow> unat (ucast x :: u32) = unat x"
  by (simp add: unsigned_ucast_eq take_bit_nat_eq_self)

lemma pmm_init_entry_effect:
  assumes "mm_type e = 1 \<longrightarrow> 0 < mm_length e \<and> below_4g e" and "region_frames e \<inter> free_frames s = {}"
  shows "free_frames (pmm_init_entry e s) = free_frames s \<union> region_frames e"
    and "pmm_inv s \<Longrightarrow> pmm_inv (pmm_init_entry e s)"
proof -
  have "free_frames (pmm_init_entry e s) = free_frames s \<union> region_frames e \<and>
      (pmm_inv s \<longrightarrow> pmm_inv (pmm_init_entry e s))"
  proof (cases "mm_type e = 1")
    case True
    have len: "unat (mm_length e) < 2 ^ 32" and pos: "0 < unat (mm_length e)"
      and sum: "unat (mm_base e) + unat (mm_length e) \<le> 2 ^ 32"
      using True assms(1) by (auto simp: below_4g_def word_less_nat_alt)
    have l: "unat (ucast (mm_length e) :: u32) = unat (mm_length e)" using len by (rule unat_ucast_u32)
    have b: "unat (ucast (mm_base e) :: u32) = unat (mm_base e)"
      using pos sum by (intro unat_ucast_u32) simp
    have "unat (mm_base e) div 4096 + unat (mm_length e) div 4096
        \<le> (unat (mm_base e) + unat (mm_length e)) div 4096" by simp
    also have "\<dots> \<le> 2 ^ 32 div 4096" using sum by (intro div_le_mono)
    finally have r: "unat ((ucast (mm_base e) :: u32) div 4096) + 0
        + unat ((ucast (mm_length e) :: u32) div 4096) \<le> 1048576"
      by (simp add: unat_div l b)
    show ?thesis using pmm_release_region_effect [OF r, of s] assms(2) True
      by (simp add: pmm_init_entry_def region_frames_def Let_def unat_div l b)
  qed (simp add: pmm_init_entry_def region_frames_def)
  then show "free_frames (pmm_init_entry e s) = free_frames s \<union> region_frames e"
    and "pmm_inv s \<Longrightarrow> pmm_inv (pmm_init_entry e s)" by auto
qed

lemma pmm_init_scan_effect:
  assumes "k \<le> n" and "\<forall>j < n. 0 < mm_length (entries j)" and "mm_length (entries n) = 0"
    and "\<forall>j < n. below_4g (entries j)"
    and "\<forall>i j. i < j \<and> j < n \<longrightarrow> region_frames (entries i) \<inter> region_frames (entries j) = {}"
    and "\<forall>j. k \<le> j \<and> j < n \<longrightarrow> free_frames s \<inter> region_frames (entries j) = {}" and "pmm_inv s"
  shows "\<exists>s'. pmm_init_scan entries k s = Some s' \<and> pmm_inv s' \<and>
     free_frames s' = free_frames s \<union> (\<Union>j \<in> {k..<n}. region_frames (entries j))"
  using assms(1,6,7)
proof (induction "n - k" arbitrary: k s)
  case 0
  then show ?case using assms(3) by (subst pmm_init_scan.simps) auto
next
  case (Suc d)
  let ?s = "pmm_init_entry (entries k) s"
  have k: "k < n" using Suc.hyps(2) by simp
  have ok: "mm_type (entries k) = 1 \<longrightarrow> 0 < mm_length (entries k) \<and> below_4g (entries k)"
    "region_frames (entries k) \<inter> free_frames s = {}"
    using assms(2,4) k Suc.prems(2) by auto
  note eff = pmm_init_entry_effect [OF ok]
  have "free_frames ?s \<inter> region_frames (entries j) = {}" if "Suc k \<le> j" "j < n" for j
  proof -
    have "region_frames (entries k) \<inter> region_frames (entries j) = {}" using assms(5) that by simp
    moreover have "free_frames s \<inter> region_frames (entries j) = {}" using Suc.prems(2) that by simp
    ultimately show ?thesis using eff(1) by blast
  qed
  then have "\<exists>s'. pmm_init_scan entries (Suc k) ?s = Some s' \<and> pmm_inv s' \<and>
      free_frames s' = free_frames ?s \<union> (\<Union>j \<in> {Suc k..<n}. region_frames (entries j))"
    using Suc k eff(2) by (intro Suc.hyps(1)) auto
  moreover have "{k..<n} = insert k {Suc k..<n}" using k by auto
  ultimately show ?case using assms(2) k eff(1) by (subst pmm_init_scan.simps) auto
qed

definition reserved_frames :: "addr \<Rightarrow> nat set" where
  "reserved_frames kernel_end = {..<256} \<union> {256 ..< 256 + (unat kernel_end - 1048576 + 4095) div 4096}
     \<union> {1024..<2048}"

lemma pmm_init_reserve_effect:
  assumes "kernel_end \<le> 0x80000000" and "pmm_inv s"
  shows "free_frames (pmm_init_reserve kernel_end s) = free_frames s - reserved_frames kernel_end"
    and "pmm_inv (pmm_init_reserve kernel_end s)"
proof -
  have k: "unat kernel_end \<le> 2147483648" using assms(1) by (simp add: word_le_nat_alt)
  have c: "kernel_end > 0x100000 \<longleftrightarrow> 1048576 < unat kernel_end" by (simp add: word_less_nat_alt)
  have d: "1048576 < unat kernel_end \<Longrightarrow> unat (kernel_end - 0x100000) = unat kernel_end - 1048576"
    by (simp add: unat_sub_if')
  have z: "{0 ..< 256 :: nat} = {..<256}" by auto
  show "free_frames (pmm_init_reserve kernel_end s) = free_frames s - reserved_frames kernel_end"
    using k by (auto simp: pmm_init_reserve_def Let_def pmm_reserve_block_effect(1) reserved_frames_def c d z)
  show "pmm_inv (pmm_init_reserve kernel_end s)"
    using k assms(2) by (auto simp: pmm_init_reserve_def Let_def c d intro!: pmm_reserve_block_effect(2))
qed

text \<open>A firmware memory map the code handles as meant: terminated, below 4 GB, without overlaps.\<close>

definition memory_map_ok :: "(nat \<Rightarrow> memorymap_entry) \<Rightarrow> nat \<Rightarrow> bool" where
  "memory_map_ok entries n \<longleftrightarrow> (\<forall>j < n. 0 < mm_length (entries j)) \<and> mm_length (entries n) = 0 \<and>
     (\<forall>j < n. below_4g (entries j)) \<and>
     (\<forall>i j. i < j \<and> j < n \<longrightarrow> region_frames (entries i) \<inter> region_frames (entries j) = {})"

lemma pmm_init_effect:
  assumes "memory_map_ok entries n" and "kernel_end \<le> 0x80000000"
  shows "\<exists>s'. pmm_init kernel_end entries s = Some s' \<and> pmm_inv s' \<and>
     free_frames s' = (\<Union>j < n. region_frames (entries j)) - reserved_frames kernel_end"
proof -
  have "\<exists>s1. pmm_init_scan entries 0 (pmm_init_fill s) = Some s1 \<and> pmm_inv s1 \<and>
     free_frames s1 = free_frames (pmm_init_fill s) \<union> (\<Union>j \<in> {0..<n}. region_frames (entries j))"
    using assms(1) unfolding memory_map_ok_def
    by (intro pmm_init_scan_effect) (auto simp: pmm_init_fill_effect)
  then obtain s1 where s1: "pmm_init_scan entries 0 (pmm_init_fill s) = Some s1" "pmm_inv s1"
    "free_frames s1 = (\<Union>j \<in> {0..<n}. region_frames (entries j))"
    by (auto simp: pmm_init_fill_effect)
  show ?thesis using s1 pmm_init_reserve_effect [OF assms(2) s1(2)]
    by (auto simp: pmm_init_def lessThan_atLeast0)
qed

section \<open>Reachable states\<close>

text \<open>
  The states the manager can be in after boot: any interleaving of allocations,
  reservations and releases of blocks of frames that exist.
\<close>

inductive pmm_step :: "pmm_state \<Rightarrow> pmm_state \<Rightarrow> bool" where
  step_alloc: "pmm_step s (snd (pmm_alloc_frame s))"
| step_reserve: "unat a + unat n + 4095 < 2 ^ 32 \<Longrightarrow> pmm_step s (pmm_reserve_block a n s)"
| step_free: "unat a div 4096 + unat n \<le> 1048576 \<Longrightarrow> pmm_free_block a n s = Inr s' \<Longrightarrow> pmm_step s s'"

inductive pmm_reachable :: "pmm_state \<Rightarrow> bool" where
  boot: "memory_map_ok entries n \<Longrightarrow> kernel_end \<le> 0x80000000 \<Longrightarrow>
     pmm_init kernel_end entries s0 = Some s \<Longrightarrow> pmm_reachable s"
| step: "pmm_reachable s \<Longrightarrow> pmm_step s s' \<Longrightarrow> pmm_reachable s'"

inductive_cases pmm_stepE: "pmm_step s s'"

lemma pmm_step_inv: "pmm_step s s' \<Longrightarrow> pmm_inv s \<Longrightarrow> pmm_inv s'"
proof (erule pmm_stepE)
  fix a n assume "unat a div 4096 + unat n \<le> 1048576" and f: "pmm_free_block a n s = Inr s'" and "pmm_inv s"
  moreover from f have "unat a div 4096 \<notin> free_frames s"
    by (auto simp: pmm_free_block_def Let_def is_frame_free_iff unat_div split: if_splits)
  ultimately show "pmm_inv s'" using pmm_free_block_effect [of a n s] by auto
qed (auto intro: frames.alloc_invar pmm_reserve_block_effect(2))

lemma pmm_reachable_inv: "pmm_reachable s \<Longrightarrow> pmm_inv s"
proof (induction rule: pmm_reachable.induct)
  case (boot entries n kernel_end s0 s)
  then show ?case using pmm_init_effect [of entries n kernel_end s0] by auto
next
  case (step s s')
  then show ?case using pmm_step_inv by blast
qed

section \<open>Properties\<close>

text \<open>
  C21: \<open>pmm_alloc_frame\<close> is complete and exact.  It returns 0 and changes nothing exactly when
  no frame other than frame 0 is free; otherwise it returns the page-aligned address of the
  lowest free frame above 0, and that frame is the only one that stops being free.
\<close>

theorem pmm_alloc_frame_lowest:
  assumes "pmm_inv s"
  shows "(free_frames s - {0} = {} \<longrightarrow> pmm_alloc_frame s = (0, s)) \<and>
     (free_frames s - {0} \<noteq> {} \<longrightarrow> (\<exists>s'. let f = Min (free_frames s - {0}) in
        pmm_alloc_frame s = (frame_addr f, s') \<and> frame_addr f \<noteq> 0 \<and> unat (frame_addr f) mod 4096 = 0 \<and>
        free_frames s' = free_frames s - {f} \<and> pmm_inv s'))"
proof (cases "free_frames s - {0} = {}")
  case False
  define f where "f = Min (free_frames s - {0})"
  have m: "f \<in> free_frames s - {0}" unfolding f_def using False by (intro Min_in) auto
  then have r: "f < 1048576" using free_frames_lt by blast
  then have a: "frame_addr f \<noteq> 0" "unat (frame_addr f) mod 4096 = 0"
    using m by (simp_all add: frame_addr_eq_0 frame_addr_div(2))
  obtain s' where s': "pmm_alloc_frame s = (frame_addr f, s')"
    using pmm_alloc_frame_Some [OF False] by (simp add: frame_addr_def f_def)
  from frames.alloc_nonzero [OF assms s' a(1)] obtain g where g: "frame_addr f = frame_addr g"
    "g < 1048576" "free_frames s' = free_frames s - {g}" "pmm_inv s'" by blast
  from g(1) have "f = g" using frame_addr_inject [OF r g(2)] by blast
  with g a s' have "pmm_alloc_frame s = (frame_addr f, s') \<and> frame_addr f \<noteq> 0 \<and>
      unat (frame_addr f) mod 4096 = 0 \<and> free_frames s' = free_frames s - {f} \<and> pmm_inv s'" by simp
  then show ?thesis using False unfolding f_def [symmetric] Let_def by (intro conjI impI exI [of _ s']) simp_all
qed (simp add: pmm_alloc_frame_None)

theorem pmm_alloc_frame_lowest_witness:
  "let s = incr_count (pmm_mark_free 5 (pmm_init_fill
        \<lparr>bitmap = (\<lambda>_. 0), summary_bitmap = (\<lambda>_. 0), free_frame_count = 0\<rparr>))
   in pmm_inv s \<and> free_frames s = {5} \<and> fst (pmm_alloc_frame s) = 0x5000"
proof -
  define s where "s = incr_count (pmm_mark_free 5 (pmm_init_fill
        \<lparr>bitmap = (\<lambda>_. 0), summary_bitmap = (\<lambda>_. 0), free_frame_count = 0\<rparr>))"
  have inv: "pmm_inv s" unfolding s_def
    by (rule pmm_inv_release) (simp_all add: pmm_init_fill_effect total_frames_def)
  have f: "free_frames s = {5}" unfolding s_def
    by (simp add: free_frames_mark_free pmm_init_fill_effect total_frames_def)
  have "fst (pmm_alloc_frame s) = 0x5000"
    using pmm_alloc_frame_lowest [OF inv] unfolding f by (auto simp: frame_addr_def)
  with inv f show ?thesis unfolding s_def Let_def by blast
qed

text \<open>
  Releasing the frame that was just allocated restores the set of free frames and the
  invariant; releasing it a second time panics.
\<close>

theorem pmm_alloc_free_roundtrip:
  assumes "pmm_inv s" and "pmm_alloc_frame s = (p, s1)" and "p \<noteq> 0"
  shows "\<exists>s2. pmm_free_block p 1 s1 = Inr s2 \<and> free_frames s2 = free_frames s \<and> pmm_inv s2 \<and>
     pmm_free_block p 1 s2 = Inl (PanicFrameAlreadyFree p)"
proof -
  from frames.alloc_release [OF assms] obtain s2 where s2: "pmm_free_block p 1 s1 = Inr s2"
    "free_frames s2 = free_frames s" "pmm_inv s2" by blast
  from frames.alloc_nonzero [OF assms] obtain f where "p = frame_addr f" "f \<in> free_frames s" by blast
  with s2 frames.release_twice [of f s2] show ?thesis by auto
qed

theorem pmm_alloc_free_roundtrip_witness:
  "\<exists>s p s1 s2. pmm_alloc_frame s = (p, s1) \<and> p = 0x7000 \<and> pmm_free_block p 1 s1 = Inr s2 \<and>
     free_frames s2 = {7} \<and> pmm_free_block p 1 s2 = Inl (PanicFrameAlreadyFree p)"
proof -
  let ?i = "pmm_init_fill \<lparr>bitmap = (\<lambda>_. 0), summary_bitmap = (\<lambda>_. 0), free_frame_count = 0\<rparr>"
  let ?s = "incr_count (pmm_mark_free 7 ?i)"
  have inv: "pmm_inv ?s"
    by (rule pmm_inv_release) (simp_all add: pmm_init_fill_effect total_frames_def)
  have f: "free_frames ?s = {7}"
    by (simp add: free_frames_mark_free pmm_init_fill_effect total_frames_def)
  have "pmm_alloc_frame ?s = (0x7000, snd (pmm_alloc_frame ?s))"
    using pmm_alloc_frame_Some [of ?s] unfolding f by simp
  from pmm_alloc_free_roundtrip [OF inv this] this f show ?thesis by auto
qed

text \<open>
  C22: after boot on a well-formed memory map, exactly the usable frames outside the first
  megabyte, the kernel image and the kernel heap are free, and the summary bitmap and the
  counter agree with the bitmap.
\<close>

theorem pmm_init_frees_usable_memory:
  assumes "memory_map_ok entries n" and "kernel_end \<le> 0x80000000"
  shows "\<exists>s'. pmm_init kernel_end entries s = Some s' \<and> pmm_inv s' \<and>
     free_frames s' = (\<Union>j < n. region_frames (entries j)) - reserved_frames kernel_end"
  using assms by (rule pmm_init_effect)

theorem pmm_init_frees_usable_memory_witness:
  "\<exists>s'. pmm_init 0x120000 ((\<lambda>_. \<lparr>mm_base = 0, mm_length = 0, mm_type = 0, mm_acpi_ext = 0\<rparr>)
       (0 := \<lparr>mm_base = 0x100000, mm_length = 0x700000, mm_type = 1, mm_acpi_ext = 0\<rparr>))
       \<lparr>bitmap = (\<lambda>_. 0), summary_bitmap = (\<lambda>_. 0), free_frame_count = 0\<rparr> = Some s' \<and> pmm_inv s' \<and>
     free_frames s' = {288..<1024}"
proof -
  let ?e = "(\<lambda>_. \<lparr>mm_base = 0, mm_length = 0, mm_type = 0, mm_acpi_ext = 0\<rparr>)
       (0 := \<lparr>mm_base = 0x100000, mm_length = 0x700000, mm_type = 1, mm_acpi_ext = 0\<rparr>) :: nat \<Rightarrow> memorymap_entry"
  have ok: "memory_map_ok ?e 1" by (simp add: memory_map_ok_def below_4g_def)
  have "(\<Union>j < 1. region_frames (?e j)) - reserved_frames 0x120000 = {288..<1024}"
    by (auto simp: region_frames_def reserved_frames_def)
  with pmm_init_frees_usable_memory [OF ok, of "0x120000"] show ?thesis by auto
qed

text \<open>
  C20: in every state reachable after boot the free-frame counter is the number of free
  frames, the summary bit of a bitmap word is set exactly when the word is full, and the
  statistics add up.
\<close>

theorem pmm_reachable_consistent:
  assumes "pmm_reachable s"
  shows "summary_ok s \<and> unat (free_frame_count s) = card (free_frames s) \<and>
     (case pmm_get_stats s of (t, f, u) \<Rightarrow> unat t = 1048576 \<and> unat f + unat u = unat t)"
proof -
  have inv: "pmm_inv s" using assms by (rule pmm_reachable_inv)
  then have "unat (free_frame_count s) \<le> 1048576" using free_frames_card_le by (simp add: pmm_inv_def)
  then have "unat (free_frame_count s) + unat (total_frames - free_frame_count s) = 1048576"
    by (simp add: total_frames_def unat_minus_u32)
  then show ?thesis using inv by (simp add: pmm_inv_def pmm_get_stats_def total_frames_def)
qed

theorem pmm_reachable_consistent_witness:
  "\<exists>s. pmm_reachable (snd (pmm_alloc_frame s)) \<and> summary_ok (snd (pmm_alloc_frame s))"
proof -
  let ?e = "\<lambda>_. \<lparr>mm_base = 0, mm_length = 0, mm_type = 0, mm_acpi_ext = 0\<rparr>"
  have ok: "memory_map_ok ?e 0" by (simp add: memory_map_ok_def)
  obtain s where "pmm_init 0 ?e \<lparr>bitmap = (\<lambda>_. 0), summary_bitmap = (\<lambda>_. 0), free_frame_count = 0\<rparr> = Some s"
    using pmm_init_effect [OF ok, of 0] by auto
  with ok have "pmm_reachable s" by (intro pmm_reachable.boot) auto
  then have "pmm_reachable (snd (pmm_alloc_frame s))" by (blast intro: pmm_reachable.step pmm_step.step_alloc)
  from pmm_reachable_consistent [OF this] this show ?thesis by blast
qed

text \<open>
  a memory map entry for RAM above 4 GB is truncated to its low 32 bits: a usable region
  at 4 GB makes the frames at physical address 0 free again and counts them.
\<close>

theorem pmm_init_entry_truncates_high_memory:
  "{0, 1} \<subseteq> free_frames (pmm_init_entry
      \<lparr>mm_base = 0x100000000, mm_length = 0x2000, mm_type = 1, mm_acpi_ext = 0\<rparr> s)"
proof -
  have "unat (ucast (0x2000 :: u64) div 4096 :: u32) = Suc (Suc 0)" "ucast (0x100000000 :: u64) = (0 :: u32)"
    by simp_all
  then show ?thesis
    by (simp only: pmm_init_entry_def Let_def memorymap_entry.select_convs pmm_release_region.simps)
      (simp add: free_frames_mark_free total_frames_def)
qed

text \<open>
  \<open>pmm_free_block\<close> counts frames beyond the last physical frame as released although there
  is nothing to mark: releasing a block of two frames at the top of memory frees one frame but
  adds two to the counter, so the counter no longer matches the bitmap.
\<close>

theorem pmm_free_block_past_end_miscounts:
  assumes "pmm_inv s" and "1048575 \<notin> free_frames s"
  shows "\<exists>s'. pmm_free_block 0xFFFFF000 2 s = Inr s' \<and>
     card (free_frames s') = card (free_frames s) + 1 \<and>
     unat (free_frame_count s') = card (free_frames s) + 2 \<and> \<not> pmm_inv s'"
proof -
  have nf: "\<not> pmm_is_frame_free 1048575 s" "\<not> pmm_is_frame_free 1048576 s'" for s'
    using assms(2) free_frames_lt [of 1048576] by (auto simp: is_frame_free_iff)
  let ?s = "incr_count (pmm_mark_free 1048576 (incr_count (pmm_mark_free 1048575 s)))"
  have e: "pmm_free_block 0xFFFFF000 2 s = Inr ?s"
  proof -
    have "unat (2 :: u32) = Suc (Suc 0)" "(0xFFFFF000 :: u32) div 4096 = 1048575" by simp_all
    then show ?thesis using nf
      by (simp only: pmm_free_block_def Let_def pmm_free_loop.simps) simp
  qed
  have f: "free_frames ?s = insert 1048575 (free_frames s)"
    by (simp add: free_frames_mark_free total_frames_def)
  have c: "unat (free_frame_count ?s) = card (free_frames s) + 2"
    using assms(1) free_frames_card_le [of s] by (simp add: pmm_inv_def unat_word_ariths add.assoc)
  show ?thesis using e f c assms(2) by (auto simp: pmm_inv_def)
qed

theorem pmm_free_block_past_end_miscounts_witness:
  "\<exists>s s'. pmm_inv s \<and> pmm_free_block 0xFFFFF000 2 s = Inr s' \<and>
     card (free_frames s') = card (free_frames s) + 1 \<and>
     unat (free_frame_count s') = card (free_frames s) + 2 \<and> \<not> pmm_inv s'"
proof -
  let ?i = "pmm_init_fill \<lparr>bitmap = (\<lambda>_. 0), summary_bitmap = (\<lambda>_. 0), free_frame_count = 0\<rparr>"
  have "pmm_inv ?i" "1048575 \<notin> free_frames ?i" by (simp_all add: pmm_init_fill_effect)
  from pmm_free_block_past_end_miscounts [OF this] this(1) show ?thesis by blast
qed

end
