(* ===== verification/Ports.thy ===== *)
theory Ports
  imports Prelude
begin

text \<open>
  The inline helpers of src/src/cpu/ports/ports.h that save and restore the interrupt flag.
  The CPU's EFLAGS register is a 32-bit word whose bit 9 enables interrupts; \<open>irq_save\<close>
  returns the register and clears that bit (\<open>pushfd; pop; cli\<close>), \<open>irq_restore\<close> loads a saved
  value (\<open>push; popf\<close>).
\<close>

unbundle bit_operations_syntax

definition interrupt_flag :: u32 where
  "interrupt_flag = 0x200"

definition irq_save :: "u32 \<Rightarrow> u32 \<times> u32" where
  "irq_save eflags = (eflags, eflags AND NOT interrupt_flag)"

definition irq_restore :: "u32 \<Rightarrow> u32 \<Rightarrow> u32" where
  "irq_restore flags eflags = flags"

definition interrupts_on :: "u32 \<Rightarrow> bool" where
  "interrupts_on eflags \<longleftrightarrow> eflags AND interrupt_flag \<noteq> 0"

lemma irq_save_off: "irq_save e = (flags, e') \<Longrightarrow> \<not> interrupts_on e' \<and> flags = e"
  by (auto simp: irq_save_def interrupts_on_def and.assoc)

lemma irq_save_restore: "irq_save e = (flags, e') \<Longrightarrow> irq_restore flags e'' = e"
  by (simp add: irq_save_def irq_restore_def)

text \<open>Sections protected by \<open>irq_save\<close> nest: the inner pair leaves interrupts off, the outer restores them.\<close>

lemma irq_nested:
  assumes "irq_save e = (f1, e1)" and "irq_save e1 = (f2, e2)"
  shows "\<not> interrupts_on (irq_restore f2 e2) \<and> irq_restore f1 (irq_restore f2 e2) = e"
  using assms irq_save_off [OF assms(1)] by (auto simp: irq_save_def irq_restore_def)

end
