(* ===== verification/Kheap.thy ===== *)
theory Kheap
  imports Ports
begin

text \<open>
  The kernel heap, src/src/memory/heap/heap.c: a singly linked list of blocks, each behind an
  8-byte header holding its size with a free bit and the address of the next header, laid out
  in the 4 MB from 0x400000 on.  Memory is read and written in 32-bit cells at 4-byte aligned
  addresses, the headers and the payload in the same memory, so that an allocator that wrote
  into a payload would be seen to do so.  The two list walks are partial functions: on a
  corrupted list they may not end.

  The abstraction of the heap is the list of its blocks (size and free bit), which must tile
  the heap; \<open>kmalloc\<close> and \<open>kfree\<close> are shown to refine first-fit allocation and coalescing
  deallocation on that list.
\<close>

unbundle bit_operations_syntax

section \<open>State and operations\<close>

definition HEAP_START :: addr where "HEAP_START = 0x400000"
definition HEAP_SIZE :: u32 where "HEAP_SIZE = 0x400000"
definition HEAP_END :: addr where "HEAP_END = 0x800000"

record heap_state =
  hmem :: wordmem
  eflags :: u32

text \<open>The header fields of the block at an address.\<close>

abbreviation (input) size_and_free :: "wordmem \<Rightarrow> addr \<Rightarrow> u32" where
  "size_and_free m p \<equiv> m p"

abbreviation (input) next_block :: "wordmem \<Rightarrow> addr \<Rightarrow> addr" where
  "next_block m p \<equiv> m (p + 4)"

definition heap_init :: "heap_state \<Rightarrow> heap_state" where
  "heap_init s = s\<lparr>hmem := (hmem s)(HEAP_START := (HEAP_SIZE - 8) OR 1, HEAP_START + 4 := 0)\<rparr>"

definition align_request :: "u32 \<Rightarrow> u32" where
  "align_request requested_size =
     (if requested_size mod 4 \<noteq> 0 then requested_size + (4 - requested_size mod 4) else requested_size)"

definition kmalloc_take :: "wordmem \<Rightarrow> u32 \<Rightarrow> addr \<Rightarrow> wordmem" where
  "kmalloc_take m requested_size current =
     (let current_size = size_and_free m current AND NOT 1;
          m1 = m(current := size_and_free m current AND NOT 1)
      in if current_size - requested_size \<ge> 24
         then let new_block = current + requested_size + 8;
                  m2 = m1(new_block := (current_size - requested_size - 8) OR 1);
                  m3 = m2(new_block + 4 := next_block m2 current);
                  m4 = m3(current := requested_size)
              in m4(current + 4 := new_block)
         else m1)"

partial_function (option) kmalloc_loop :: "wordmem \<Rightarrow> u32 \<Rightarrow> addr \<Rightarrow> (addr \<times> wordmem) option" where
  "kmalloc_loop m requested_size current =
     (if current \<noteq> 0
      then let current_size = size_and_free m current AND NOT 1
           in if size_and_free m current AND 1 \<noteq> 0 \<and> current_size \<ge> requested_size
              then Some (current + 8, kmalloc_take m requested_size current)
              else kmalloc_loop m requested_size (next_block m current)
      else Some (0, m))"

definition kmalloc :: "u32 \<Rightarrow> heap_state \<Rightarrow> (addr \<times> heap_state) option" where
  "kmalloc requested_size s =
     (let (flags, e1) = irq_save (eflags s)
      in map_option (\<lambda>(p, m). (p, s\<lparr>hmem := m, eflags := irq_restore flags e1\<rparr>))
           (kmalloc_loop (hmem s) (align_request requested_size) HEAP_START))"

definition kfree_forward :: "wordmem \<Rightarrow> addr \<Rightarrow> wordmem" where
  "kfree_forward m header =
     (let nb = next_block m header
      in if nb \<noteq> 0 \<and> size_and_free m nb AND 1 \<noteq> 0
         then let header_size = size_and_free m header AND NOT 1;
                  next_size = size_and_free m nb AND NOT 1;
                  m1 = m(header := (header_size + next_size + 8) OR 1)
              in m1(header + 4 := next_block m1 nb)
         else m)"

partial_function (option) kfree_backward :: "wordmem \<Rightarrow> addr \<Rightarrow> addr \<Rightarrow> wordmem option" where
  "kfree_backward m header current =
     (if current \<noteq> 0 \<and> next_block m current \<noteq> 0
      then if next_block m current = header
           then if size_and_free m current AND 1 \<noteq> 0
                then let current_size = size_and_free m current AND NOT 1;
                         header_size = size_and_free m header AND NOT 1;
                         m1 = m(current := (current_size + header_size + 8) OR 1)
                     in Some (m1(current + 4 := next_block m1 header))
                else Some m
           else kfree_backward m header (next_block m current)
      else Some m)"

definition kfree :: "addr \<Rightarrow> heap_state \<Rightarrow> heap_state kres option" where
  "kfree ptr s =
     (if ptr = 0 then Some (Inr s)
      else let (flags, e1) = irq_save (eflags s); header = ptr - 8; m = hmem s
           in if header < HEAP_START \<or> header \<ge> HEAP_END then Some (Inl (PanicHeapBounds ptr))
              else if size_and_free m header AND 1 \<noteq> 0 then Some (Inl (PanicDoubleFree ptr))
              else if size_and_free m header AND NOT 1 = 0 then Some (Inl (PanicHeapCorrupt ptr))
              else let m1 = kfree_forward (m(header := size_and_free m header OR 1)) header
                   in map_option (\<lambda>m2. Inr (s\<lparr>hmem := m2, eflags := irq_restore flags e1\<rparr>))
                        (kfree_backward m1 header HEAP_START))"

definition kmalloc_aligned :: "u32 \<Rightarrow> u32 \<Rightarrow> heap_state \<Rightarrow> (addr \<times> heap_state) option" where
  "kmalloc_aligned nbytes alignment s =
     (if alignment = 0 \<or> alignment AND (alignment - 1) \<noteq> 0 then Some (0, s)
      else let offset = alignment + 4
           in Option.bind (kmalloc (nbytes + offset) s) (\<lambda>(raw_ptr, s1).
                if raw_ptr = 0 then Some (0, s1)
                else let aligned_addr = (raw_ptr + offset - 1) AND NOT (alignment - 1)
                     in Some (aligned_addr, s1\<lparr>hmem := (hmem s1)(aligned_addr - 4 := raw_ptr)\<rparr>)))"

definition kfree_aligned :: "addr \<Rightarrow> heap_state \<Rightarrow> heap_state kres option" where
  "kfree_aligned ptr s =
     (if ptr = 0 then Some (Inr s) else kfree (hmem s (ptr - 4)) s)"

section \<open>Abstraction: the list of blocks\<close>

text \<open>A block is its payload size and its free bit; \<open>hdr\<close> is the header word that encodes it.\<close>

type_synonym block = "nat \<times> bool"

definition hdr :: "nat \<Rightarrow> bool \<Rightarrow> u32" where
  "hdr n f = of_nat n + (if f then 1 else 0)"

primrec blocks_at :: "wordmem \<Rightarrow> nat \<Rightarrow> block list \<Rightarrow> bool" where
  "blocks_at m a [] \<longleftrightarrow> a = 0x800000"
| "blocks_at m a (b # bs) \<longleftrightarrow> 4 dvd fst b \<and> m (of_nat a) = hdr (fst b) (snd b) \<and>
     m (of_nat (a + 4)) = (if bs = [] then 0 else of_nat (a + 8 + fst b)) \<and>
     blocks_at m (a + 8 + fst b) bs"

definition heap_blocks :: "wordmem \<Rightarrow> block list \<Rightarrow> bool" where
  "heap_blocks m bs \<longleftrightarrow> bs \<noteq> [] \<and> blocks_at m 0x400000 bs"

text \<open>No two neighbours are free.\<close>

fun coalesced :: "block list \<Rightarrow> bool" where
  "coalesced ((n, f) # (n', f') # bs) \<longleftrightarrow> \<not> (f \<and> f') \<and> coalesced ((n', f') # bs)"
| "coalesced bs \<longleftrightarrow> True"

text \<open>The payload address and size of the blocks in use.\<close>

primrec used_blocks :: "nat \<Rightarrow> block list \<Rightarrow> (nat \<times> nat) set" where
  "used_blocks a [] = {}"
| "used_blocks a (b # bs) = (if snd b then {} else {(a + 8, fst b)}) \<union> used_blocks (a + 8 + fst b) bs"

text \<open>First fit on the abstract list: the header address of the block taken and the new list.\<close>

fun alloc_blocks :: "nat \<Rightarrow> nat \<Rightarrow> block list \<Rightarrow> (nat \<times> block list) option" where
  "alloc_blocks req a [] = None"
| "alloc_blocks req a ((n, f) # bs) =
     (if f \<and> req \<le> n
      then Some (a, if n - req \<ge> 24 then (req, False) # (n - req - 8, True) # bs else (n, False) # bs)
      else map_option (\<lambda>(p, bs'). (p, (n, f) # bs')) (alloc_blocks req (a + 8 + n) bs))"

text \<open>Freeing the block after \<open>xs\<close>: merge it with a free successor and a free predecessor.\<close>

definition merge_next :: "nat \<Rightarrow> block list \<Rightarrow> block list" where
  "merge_next n ys = (case ys of (k, True) # ys' \<Rightarrow> (n + k + 8, True) # ys' | _ \<Rightarrow> (n, True) # ys)"

definition merge_prev :: "block list \<Rightarrow> block list \<Rightarrow> block list" where
  "merge_prev xs zs =
     (if xs \<noteq> [] \<and> snd (last xs) then butlast xs @ (fst (last xs) + fst (hd zs) + 8, True) # tl zs
      else xs @ zs)"

definition free_blocks :: "block list \<Rightarrow> nat \<Rightarrow> block list \<Rightarrow> block list" where
  "free_blocks xs n ys = merge_prev xs (merge_next n ys)"


text \<open>The bytes a run of blocks takes, and the memory outside a set of payloads left alone.\<close>

definition span :: "block list \<Rightarrow> nat" where
  "span bs = (\<Sum>b\<leftarrow>bs. 8 + fst b)"

definition kept_cell :: "nat \<Rightarrow> (nat \<times> nat) set \<Rightarrow> addr \<Rightarrow> bool" where
  "kept_cell a U x \<longleftrightarrow> unat x < a \<or> 0x800000 \<le> unat x \<or>
     (\<exists>r \<in> U. fst r \<le> unat x \<and> unat x < fst r + snd r)"

definition payloads_kept :: "wordmem \<Rightarrow> wordmem \<Rightarrow> nat \<Rightarrow> (nat \<times> nat) set \<Rightarrow> bool" where
  "payloads_kept m m' a U \<longleftrightarrow> (\<forall>x. kept_cell a U x \<longrightarrow> m' x = m x)"

section \<open>Header words\<close>

lemma and_not_1_eq: "(x :: u32) AND NOT 1 = x - x mod 2"
proof -
  have "unset_bit 0 x = x AND NOT (push_bit 0 1)" by (rule unset_bit_eq_and_not)
  then have "unset_bit 0 x = x AND NOT 1"
    by (subst (asm) push_bit_0_id) (subst (asm) id_apply, assumption)
  then have "x AND NOT 1 = unset_bit 0 x" by (rule sym)
  also have "\<dots> = 2 * (x div 2)" by (rule unset_bit_0)
  also have "\<dots> = x - x mod 2" by (rule minus_mod_eq_mult_div [symmetric])
  finally show ?thesis .
qed

lemma even_of_nat_4: "4 dvd n \<Longrightarrow> even (of_nat n :: u32)"
  by (auto elim!: dvdE)

lemma and_minus_2_eq: "(x :: u32) AND - 2 = x - x mod 2"
  using and_not_1_eq [of x] by simp

lemma hdr_size [simp]: "4 dvd n \<Longrightarrow> hdr n f AND - 2 = of_nat n"
  using even_of_nat_4 [of n] by (simp add: hdr_def and_minus_2_eq mod_2_eq_odd)

lemma hdr_free [simp]: "4 dvd n \<Longrightarrow> hdr n f AND 1 = (if f then 1 else 0)"
  using even_of_nat_4 [of n] by (simp add: hdr_def and_one_eq mod_2_eq_odd)

lemma hdr_or_1 [simp]: "4 dvd n \<Longrightarrow> hdr n f OR 1 = hdr n True"
  using even_of_nat_4 [of n] by (simp add: hdr_def or_one_eq)

lemma of_nat_or_1: "4 dvd n \<Longrightarrow> of_nat n OR 1 = hdr n True"
  using hdr_or_1 [of n False] by (simp add: hdr_def)

lemma hdr_False: "hdr n False = of_nat n"
  by (simp add: hdr_def)

section \<open>Runs of blocks\<close>

lemma span_simps [simp]:
  "span [] = 0"
  "span (b # bs) = 8 + fst b + span bs"
  "span (xs @ ys) = span xs + span ys"
  by (simp_all add: span_def)

lemma blocks_at_end: "blocks_at m a bs \<Longrightarrow> a + span bs = 0x800000"
  by (induction bs arbitrary: a) (fastforce simp: add.assoc)+

lemma blocks_at_cong:
  assumes "\<And>x. a \<le> unat x \<Longrightarrow> unat x < 0x800000 \<Longrightarrow> m' x = m x"
  shows "blocks_at m' a bs \<longleftrightarrow> blocks_at m a bs"
  using assms
proof (induction bs arbitrary: a)
  case Nil
  show ?case by simp
next
  case (Cons b bs)
  have IH: "blocks_at m' (a + 8 + fst b) bs \<longleftrightarrow> blocks_at m (a + 8 + fst b) bs"
    by (rule Cons.IH) (simp add: Cons.prems)
  show ?case
  proof (cases "blocks_at m (a + 8 + fst b) bs")
    case True
    from blocks_at_end [OF True] have "a + 8 \<le> 0x800000" by simp
    then have "m' (of_nat a) = m (of_nat a)" "m' (of_nat (a + 4)) = m (of_nat (a + 4))"
      by (intro Cons.prems; simp add: unat_of_nat_u32 del: of_nat_add)+
    with IH show ?thesis by simp
  qed (simp add: IH)
qed

lemma used_blocks_bounds:
  "(q, k) \<in> used_blocks a bs \<Longrightarrow> a + 8 \<le> q \<and> q + k \<le> a + span bs"
  by (induction bs arbitrary: a) (fastforce split: if_splits)+

lemma used_blocks_append:
  "used_blocks a (xs @ ys) = used_blocks a xs \<union> used_blocks (a + span xs) ys"
  by (induction xs arbitrary: a) (auto simp: add.assoc)

lemma used_avoids_header:
  assumes "(q, k) \<in> used_blocks a (xs @ b # ys)"
  shows "q + k \<le> a + span xs \<or> a + span xs + 8 \<le> q"
  using assms
  by (auto simp: used_blocks_append dest!: used_blocks_bounds split: if_splits)

lemma used_disjoint:
  assumes "(q, k) \<in> used_blocks a bs" "(q', k') \<in> used_blocks a bs" "(q, k) \<noteq> (q', k')"
  shows "q + k \<le> q' \<or> q' + k' \<le> q"
  using assms
proof (induction bs arbitrary: a)
  case (Cons b bs)
  then show ?case
    using used_blocks_bounds [of q k "a + 8 + fst b" bs] used_blocks_bounds [of q' k' "a + 8 + fst b" bs]
    by (cases "snd b") fastforce+
qed simp

lemma payloads_kept_refl [simp]: "payloads_kept m m a U"
  by (simp add: payloads_kept_def)

lemma payloads_keptI: "(\<And>x. kept_cell a U x \<Longrightarrow> m' x = m x) \<Longrightarrow> payloads_kept m m' a U"
  by (simp add: payloads_kept_def)

lemma payloads_keptD: "payloads_kept m m' a U \<Longrightarrow> kept_cell a U x \<Longrightarrow> m' x = m x"
  by (simp add: payloads_kept_def)

lemma kept_cell_mono: "kept_cell a U x \<Longrightarrow> U \<subseteq> U' \<Longrightarrow> kept_cell a U' x"
  unfolding kept_cell_def by blast

lemma kept_cell_outside: "unat x < a \<or> 0x800000 \<le> unat x \<Longrightarrow> kept_cell a U x"
  unfolding kept_cell_def by blast

lemma payloads_kept_mono:
  "payloads_kept m m' a U \<Longrightarrow> U' \<subseteq> U \<Longrightarrow> payloads_kept m m' a U'"
  by (blast intro: payloads_keptI dest: payloads_keptD kept_cell_mono)

lemma payloads_kept_trans:
  assumes "payloads_kept m m' a U" "payloads_kept m' m'' a U'" "U'' \<subseteq> U" "U'' \<subseteq> U'"
  shows "payloads_kept m m'' a U''"
proof (rule payloads_keptI)
  fix x
  assume "kept_cell a U'' x"
  then have "kept_cell a U x" "kept_cell a U' x" using assms(3,4) by (simp_all add: kept_cell_mono)
  then show "m'' x = m x" using assms(1,2) by (simp add: payloads_kept_def)
qed

lemma kept_cell_avoids_header:
  assumes "kept_cell a (used_blocks a (xs @ b # ys)) x" and "a + span (xs @ b # ys) = 0x800000"
  shows "x \<noteq> of_nat (a + span xs)" and "x \<noteq> of_nat (a + span xs + 4)"
proof -
  have "unat x < a + span xs \<or> a + span xs + 8 \<le> unat x"
    using assms used_avoids_header [of _ _ a xs b ys] by (fastforce simp: kept_cell_def)
  moreover have "unat (of_nat (a + span xs) :: u32) = a + span xs"
    "unat (of_nat (a + span xs + 4) :: u32) = a + span xs + 4"
    using assms(2) by (simp_all add: unat_of_nat_u32 del: of_nat_add)
  ultimately show "x \<noteq> of_nat (a + span xs)" and "x \<noteq> of_nat (a + span xs + 4)" by auto
qed

lemma payloads_kept_header:
  assumes "a + span (xs @ b # ys) = 0x800000"
  shows "payloads_kept m (m(of_nat (a + span xs) := v, of_nat (a + span xs + 4) := w)) a
           (used_blocks a (xs @ b # ys))"
  using kept_cell_avoids_header [OF _ assms] by (intro payloads_keptI) auto


section \<open>Initialisation and allocation\<close>

lemma heap_init_blocks: "heap_blocks (hmem (heap_init s)) [(0x3FFFF8, True)]"
  by (simp add: heap_blocks_def heap_init_def HEAP_START_def HEAP_SIZE_def hdr_def)

text \<open>Taking a block at the head of a run.\<close>

lemma of_nat_u32_inj:
  "k \<le> 0x800000 \<Longrightarrow> l \<le> 0x800000 \<Longrightarrow> (of_nat k :: u32) = of_nat l \<longleftrightarrow> k = l"
proof -
  assume "k \<le> 0x800000" "l \<le> 0x800000"
  then have "unat (of_nat k :: u32) = k" "unat (of_nat l :: u32) = l" by (simp_all add: unat_of_nat_u32)
  then show ?thesis by metis
qed

lemma kmalloc_take_split:
  assumes m0: "m (of_nat a) = hdr n True" and n: "4 dvd n" and req: "4 dvd req"
    and sz: "req + 24 \<le> n" and e: "a + 8 + n \<le> 0x800000"
  shows "kmalloc_take m (of_nat req) (of_nat a) =
           m(of_nat (a + req + 8) := hdr (n - req - 8) True, of_nat (a + req + 12) := m (of_nat (a + 4)),
             of_nat a := of_nat req, of_nat (a + 4) := of_nat (a + req + 8))"
proof -
  have ge: "(24 :: u32) \<le> of_nat n - of_nat req"
    using unat_of_nat_u32 [of "n - req"] sz e by (simp add: word_le_nat_alt)
  have new: "of_nat n - of_nat req - (8 :: u32) OR 1 = hdr (n - req - 8) True"
    using of_nat_or_1 [of "n - req - 8"] sz n req by (simp add: of_nat_diff diff_diff_eq)
  have addr: "of_nat a + of_nat req + (8 :: u32) = of_nat (a + req + 8)"
    "of_nat (a + req + 8) + (4 :: u32) = of_nat (a + req + 12)" "of_nat a + (4 :: u32) = of_nat (a + 4)"
    by simp_all
  have "(of_nat (a + 4) :: u32) \<noteq> of_nat a" "(of_nat (a + 4) :: u32) \<noteq> of_nat (a + req + 8)"
    "(of_nat a :: u32) \<noteq> of_nat (a + req + 8)" "(of_nat a :: u32) \<noteq> of_nat (a + req + 12)"
    "(of_nat (a + 4) :: u32) \<noteq> of_nat (a + req + 12)"
    using sz e by (simp_all only: of_nat_u32_inj)
  then show ?thesis
    using ge by (auto simp: kmalloc_take_def Let_def m0 n new addr fun_eq_iff simp del: of_nat_add)
qed

lemma kmalloc_take_whole:
  assumes m0: "m (of_nat a) = hdr n True" and n: "4 dvd n"
    and sz: "req \<le> n" "n < req + 24" and e: "a + 8 + n \<le> 0x800000"
  shows "kmalloc_take m (of_nat req) (of_nat a) = m(of_nat a := of_nat n)"
proof -
  have "\<not> (24 :: u32) \<le> of_nat n - of_nat req"
    using unat_of_nat_u32 [of "n - req"] sz e by (simp add: word_le_nat_alt flip: of_nat_diff)
  then show ?thesis by (simp add: kmalloc_take_def Let_def m0 n)
qed

lemma kmalloc_take_frame:
  assumes "m (of_nat a) = hdr n True" "4 dvd n" "4 dvd req" "req \<le> n" "a + 8 + n \<le> 0x800000"
    and x: "unat x < a \<or> a + 8 + n \<le> unat x"
  shows "kmalloc_take m (of_nat req) (of_nat a) x = m x"
proof -
  have cell: "x \<noteq> of_nat k" if "a \<le> k" "k < a + 8 + n" for k
    using that x assms(5) unat_of_nat_u32 [of k] by auto
  show ?thesis
  proof (cases "req + 24 \<le> n")
    case True
    have "x \<noteq> of_nat a" "x \<noteq> of_nat (a + 4)" "x \<noteq> of_nat (a + req + 8)" "x \<noteq> of_nat (a + req + 12)"
      using True by (intro cell; simp)+
    then show ?thesis using kmalloc_take_split [of m a n req] assms True by simp
  next
    case False
    then show ?thesis using kmalloc_take_whole [of m a n req] assms cell [of a] by simp
  qed
qed

lemma kmalloc_take_blocks:
  assumes bl: "blocks_at m a ((n, True) # bs)" and req: "4 dvd req" "req \<le> n"
  shows "blocks_at (kmalloc_take m (of_nat req) (of_nat a)) a
           (if n - req \<ge> 24 then (req, False) # (n - req - 8, True) # bs else (n, False) # bs)"
proof -
  let ?m = "kmalloc_take m (of_nat req) (of_nat a)"
  have e: "a + 8 + n + span bs = 0x800000" using blocks_at_end [OF bl] by simp
  have n: "4 dvd n" and m0: "m (of_nat a) = hdr n True"
    and m4: "m (of_nat (a + 4)) = (if bs = [] then 0 else of_nat (a + 8 + n))"
    and tl: "blocks_at m (a + 8 + n) bs" using bl by simp_all
  have "blocks_at ?m (a + 8 + n) bs \<longleftrightarrow> blocks_at m (a + 8 + n) bs"
    by (rule blocks_at_cong) (rule kmalloc_take_frame [of m a n req]; use e m0 n req in simp)
  then have tl': "blocks_at ?m (a + 8 + n) bs" using tl by simp
  show ?thesis
  proof (cases "req + 24 \<le> n")
    case True
    have eq: "?m = m(of_nat (a + req + 8) := hdr (n - req - 8) True,
        of_nat (a + req + 12) := m (of_nat (a + 4)), of_nat a := of_nat req,
        of_nat (a + 4) := of_nat (a + req + 8))"
      using kmalloc_take_split [of m a n req] m0 n req True e by simp
    have le: "a \<le> 0x800000" "a + 4 \<le> 0x800000" "a + req + 8 \<le> 0x800000" "a + req + 12 \<le> 0x800000"
      using e True by simp_all
    have c: "?m (of_nat a) = of_nat req" "?m (of_nat (a + 4)) = of_nat (a + req + 8)"
      "?m (of_nat (a + req + 8)) = hdr (n - req - 8) True" "?m (of_nat (a + req + 12)) = m (of_nat (a + 4))"
      unfolding eq by (simp_all add: of_nat_u32_inj le del: of_nat_add)
    have s: "a + 8 + req = a + req + 8" "a + req + 8 + 4 = a + req + 12"
      "a + req + 8 + 8 + (n - req - 8) = a + 8 + n" using True by simp_all
    have "4 dvd n - req - 8" using n req True by simp
    then have "blocks_at ?m a ((req, False) # (n - req - 8, True) # bs)"
      unfolding blocks_at.simps fst_conv snd_conv s c using tl' req(1) m4 by (simp add: hdr_False)
    moreover have "24 \<le> n - req" using True by simp
    ultimately show ?thesis by (simp only: if_True)
  next
    case False
    then have eq: "?m = m(of_nat a := of_nat n)" using kmalloc_take_whole [of m a n req] m0 n req e by simp
    have "?m (of_nat (a + 4)) = m (of_nat (a + 4))"
      unfolding eq using e by (simp add: of_nat_u32_inj del: of_nat_add)
    moreover have "?m (of_nat a) = of_nat n" unfolding eq by simp
    ultimately have "blocks_at ?m a ((n, False) # bs)"
      unfolding blocks_at.simps fst_conv snd_conv using tl' m4 n by (simp add: hdr_False)
    moreover have "\<not> 24 \<le> n - req" using False by simp
    ultimately show ?thesis by (simp only: if_False)
  qed
qed

text \<open>
  The walk takes the first block that fits.  The result is stated as a relation between the
  outcome of the abstract first fit and the outcome of the loop.
\<close>

definition kmalloc_refines :: "wordmem \<Rightarrow> nat \<Rightarrow> block list \<Rightarrow> (nat \<times> block list) option \<Rightarrow>
    (addr \<times> wordmem) option \<Rightarrow> bool" where
  "kmalloc_refines m a bs spec res =
     (case spec of
        None \<Rightarrow> res = Some (0, m)
      | Some (p, bs') \<Rightarrow> \<exists>m'. res = Some (of_nat (p + 8), m') \<and> blocks_at m' a bs' \<and>
          payloads_kept m m' a (used_blocks a bs))"

lemma alloc_blocks_nonempty: "alloc_blocks req a bs = Some (p, bs') \<Longrightarrow> bs' \<noteq> [] \<and> bs \<noteq> []"
  by (cases bs) (auto split: if_splits)

lemma kmalloc_loop_null [simp]: "kmalloc_loop m req 0 = Some (0, m)"
  by (simp add: kmalloc_loop.simps)

lemma kmalloc_loop_step:
  assumes "blocks_at m a ((n, f) # bs)" "0x400000 \<le> a"
  shows "kmalloc_loop m req (of_nat a) =
           (if f \<and> unat req \<le> n then Some (of_nat (a + 8), kmalloc_take m (of_nat (unat req)) (of_nat a))
            else kmalloc_loop m req (if bs = [] then 0 else of_nat (a + 8 + n)))"
proof -
  have e: "a + 8 + n + span bs = 0x800000" using blocks_at_end [OF assms(1)] by simp
  then have "unat (of_nat a :: u32) = a" by (simp add: unat_of_nat_u32)
  then have "(of_nat a :: u32) \<noteq> 0" using assms(2) by auto
  moreover have "req \<le> of_nat n \<longleftrightarrow> unat req \<le> n" using e by (simp add: word_le_nat_alt unat_of_nat_u32)
  ultimately show ?thesis using assms(1) by (subst kmalloc_loop.simps) (simp add: Let_def)
qed

lemma kmalloc_take_kept:
  assumes "blocks_at m a ((n, True) # bs)" "4 dvd req" "req \<le> n"
  shows "payloads_kept m (kmalloc_take m (of_nat req) (of_nat a)) a (used_blocks a ((n, True) # bs))"
proof (rule payloads_keptI)
  fix x
  have e: "a + 8 + n + span bs = 0x800000" using blocks_at_end [OF assms(1)] by simp
  assume "kept_cell a (used_blocks a ((n, True) # bs)) x"
  then have "unat x < a \<or> a + 8 + n \<le> unat x"
    using e used_blocks_bounds [of _ _ "a + 8 + n" bs] by (fastforce simp: kept_cell_def)
  then show "kmalloc_take m (of_nat req) (of_nat a) x = m x"
    using kmalloc_take_frame [of m a n req x] assms e by simp
qed

text \<open>A change in the tail of a run, seen from its head.\<close>

lemma blocks_at_tail_change:
  assumes bl: "blocks_at m a ((n, f) # bs)" "bs \<noteq> []"
    and m': "blocks_at m' (a + 8 + n) bs'" "bs' \<noteq> []"
    and kept: "payloads_kept m m' (a + 8 + n) (used_blocks (a + 8 + n) U)"
  shows "blocks_at m' a ((n, f) # bs')" and "payloads_kept m m' a (used_blocks a ((n, f) # U))"
proof -
  have e: "a + 8 + n + span bs = 0x800000" using blocks_at_end [OF bl(1)] by simp
  have low: "m' x = m x" if "unat x < a + 8 + n" for x
    using payloads_keptD [OF kept] that by (simp add: kept_cell_outside)
  have "m' (of_nat a) = m (of_nat a)" "m' (of_nat (a + 4)) = m (of_nat (a + 4))"
    using e by (intro low; simp add: unat_of_nat_u32 del: of_nat_add)+
  then show "blocks_at m' a ((n, f) # bs')" using bl m' by simp
  show "payloads_kept m m' a (used_blocks a ((n, f) # U))"
  proof (rule payloads_keptI)
    fix x
    assume x: "kept_cell a (used_blocks a ((n, f) # U)) x"
    show "m' x = m x"
    proof (cases "unat x < a + 8 + n")
      case False
      with x have "kept_cell (a + 8 + n) (used_blocks (a + 8 + n) U) x"
        by (auto simp: kept_cell_def split: if_splits)
      then show ?thesis by (rule payloads_keptD [OF kept])
    qed (rule low)
  qed
qed

lemma kmalloc_loop_refines:
  assumes "blocks_at m a bs" "bs \<noteq> []" "0x400000 \<le> a" "4 dvd unat req"
  shows "kmalloc_refines m a bs (alloc_blocks (unat req) a bs) (kmalloc_loop m req (of_nat a))"
  using assms(1-3)
proof (induction bs arbitrary: a)
  case (Cons b bs)
  obtain n f where b: "b = (n, f)" by fastforce
  note step = kmalloc_loop_step [OF Cons.prems(1) [unfolded b] Cons.prems(3), of req]
  consider (fit) "f \<and> unat req \<le> n" | (last) "\<not> (f \<and> unat req \<le> n)" "bs = []"
    | (later) "\<not> (f \<and> unat req \<le> n)" "bs \<noteq> []" by blast
  then show ?case
  proof cases
    case fit
    then show ?thesis
      using kmalloc_take_kept [of m a n bs "unat req"] kmalloc_take_blocks [of m a n bs "unat req"]
        Cons.prems(1) b step assms(4) by (simp add: kmalloc_refines_def)
  next
    case last
    then show ?thesis using b step by (auto simp: kmalloc_refines_def)
  next
    case later
    have "blocks_at m (a + 8 + n) bs" using Cons.prems(1) b by simp
    note IH = Cons.IH [OF this later(2)]
    show ?thesis
    proof (cases "alloc_blocks (unat req) (a + 8 + n) bs")
      case None
      with IH step later Cons.prems(3) b show ?thesis by (auto simp: kmalloc_refines_def)
    next
      case (Some pb)
      obtain p bs' where pb: "pb = (p, bs')" by fastforce
      from IH Some pb Cons.prems(3) obtain m' where
        m': "kmalloc_loop m req (of_nat (a + 8 + n)) = Some (of_nat (p + 8), m')"
        "blocks_at m' (a + 8 + n) bs'" "payloads_kept m m' (a + 8 + n) (used_blocks (a + 8 + n) bs)"
        by (auto simp: kmalloc_refines_def)
      have "bs' \<noteq> []" using alloc_blocks_nonempty [OF Some [unfolded pb]] by simp
      note tail = blocks_at_tail_change [OF Cons.prems(1) [unfolded b] later(2) m'(2) this m'(3)]
      have spec: "alloc_blocks (unat req) a ((n, f) # bs) = Some (p, (n, f) # bs')"
        using later(1) Some pb by auto
      have res: "kmalloc_loop m req (of_nat a) = Some (of_nat (p + 8), m')"
        using step later m'(1) by (simp only: if_False)
      show ?thesis unfolding kmalloc_refines_def b spec res option.case prod.case using tail by blast
    qed
  qed
qed simp

text \<open>The request is rounded up to a multiple of four; only the last three values wrap.\<close>

lemma align_request_dvd: "4 dvd unat (align_request r)"
proof -
  have "4 dvd (unat r + (4 - unat r mod 4)) mod 2 ^ 32" if "unat r mod 4 \<noteq> 0"
    by (subst dvd_mod_iff) (simp, presburger)
  moreover have "unat (4 - r mod 4) = 4 - unat r mod 4"
    by (subst unat_minus_u32) (simp_all add: unat_mod less_imp_le)
  moreover have "r mod 4 = 0 \<longleftrightarrow> unat r mod 4 = 0"
    by (simp add: word_unat_eq_iff unat_mod)
  ultimately show ?thesis
    by (auto simp: align_request_def unat_word_ariths)
qed

lemma align_request_ge:
  assumes "unat r \<le> 0xFFFFFFFC"
  shows "unat r \<le> unat (align_request r)" and "unat (align_request r) < unat r + 4"
proof -
  have z: "r mod 4 = 0 \<longleftrightarrow> unat r mod 4 = 0" by (simp add: word_unat_eq_iff unat_mod)
  have d: "unat (4 - r mod 4) = 4 - unat r mod 4"
    by (subst unat_minus_u32) (simp_all add: unat_mod less_imp_le)
  have "unat r + (4 - unat r mod 4) < 2 ^ 32" if "unat r mod 4 \<noteq> 0"
  proof -
    have "unat r \<noteq> 0xFFFFFFFC" using that by (intro notI) simp
    then show ?thesis using that assms by simp
  qed
  then have eq: "unat (align_request r) = (if unat r mod 4 = 0 then unat r else unat r + (4 - unat r mod 4))"
    by (simp add: align_request_def z unat_word_ariths d)
  show "unat r \<le> unat (align_request r)"
    unfolding eq by (cases "unat r mod 4 = 0") (simp_all only: if_True if_False le_add1 order_refl simp_thms)
  show "unat (align_request r) < unat r + 4" unfolding eq by simp
qed

text \<open>What first fit does to the list of blocks.\<close>

lemma alloc_blocks_used:
  assumes "alloc_blocks req a bs = Some (p, bs')"
  shows "\<exists>n \<ge> req. used_blocks a bs' = insert (p + 8, n) (used_blocks a bs) \<and>
           (p + 8, n) \<notin> used_blocks a bs \<and> a \<le> p"
  using assms
proof (induction req a bs arbitrary: bs' rule: alloc_blocks.induct)
  case (2 req a n f bs)
  show ?case
  proof (cases "f \<and> req \<le> n")
    case True
    have "(a + 8, k) \<notin> used_blocks (a + 8 + n) bs" for k
      using used_blocks_bounds [of "a + 8" k "a + 8 + n" bs] by auto
    with 2(2) True show ?thesis by (auto simp: add.assoc split: if_splits)
  next
    case False
    with 2(2) obtain bs'' where r: "alloc_blocks req (a + 8 + n) bs = Some (p, bs'')" "bs' = (n, f) # bs''"
      by auto
    from 2(1) [OF False r(1)] obtain k where "k \<ge> req"
      "used_blocks (a + 8 + n) bs'' = insert (p + 8, k) (used_blocks (a + 8 + n) bs)"
      "(p + 8, k) \<notin> used_blocks (a + 8 + n) bs" "a + 8 + n \<le> p" by auto
    then show ?thesis using r(2) by (intro exI [of _ k]) auto
  qed
qed simp

lemma alloc_blocks_None_iff:
  "alloc_blocks req a bs = None \<longleftrightarrow> (\<forall>b \<in> set bs. snd b \<longrightarrow> fst b < req)"
  by (induction req a bs rule: alloc_blocks.induct) auto

lemma coalesced_Cons:
  "coalesced ((n, f) # bs) \<longleftrightarrow> (bs \<noteq> [] \<longrightarrow> \<not> (f \<and> snd (hd bs))) \<and> coalesced bs"
  by (cases bs) auto

lemma alloc_blocks_coalesced:
  assumes "alloc_blocks req a bs = Some (p, bs')" "coalesced bs"
  shows "coalesced bs' \<and> (snd (hd bs') \<longrightarrow> snd (hd bs))"
  using assms
proof (induction req a bs arbitrary: bs' rule: alloc_blocks.induct)
  case (2 req a n f bs)
  show ?case
  proof (cases "f \<and> req \<le> n")
    case True
    with 2(2,3) show ?thesis by (auto simp: coalesced_Cons split: if_splits)
  next
    case False
    with 2(2) obtain bs'' where r: "alloc_blocks req (a + 8 + n) bs = Some (p, bs'')" "bs' = (n, f) # bs''"
      by auto
    with 2(1) [OF False r(1)] 2(3) alloc_blocks_nonempty [OF r(1)] show ?thesis
      by (auto simp: coalesced_Cons)
  qed
qed simp

text \<open>A memory determines its list of blocks.\<close>

lemma hdr_inj:
  assumes "hdr n f = hdr k g" "4 dvd n" "4 dvd k" "n \<le> 0x800000" "k \<le> 0x800000"
  shows "n = k \<and> f = g"
  using arg_cong [OF assms(1), of "\<lambda>x. x AND - 2"] arg_cong [OF assms(1), of "\<lambda>x. x AND 1"] assms(2-)
  by (auto simp: of_nat_u32_inj split: if_splits)

lemma blocks_at_unique:
  "\<lbrakk>blocks_at m a bs; blocks_at m a cs; bs = [] \<longleftrightarrow> cs = []; 0 < a\<rbrakk> \<Longrightarrow> bs = cs"
proof (induction bs arbitrary: a cs)
  case (Cons b bs)
  then obtain c cs' where cs: "cs = c # cs'" by (cases cs) auto
  have e: "a + 8 + fst b + span bs = 0x800000" "a + 8 + fst c + span cs' = 0x800000"
    using blocks_at_end [OF Cons.prems(1)] blocks_at_end [OF Cons.prems(2)] cs by simp_all
  have "hdr (fst b) (snd b) = hdr (fst c) (snd c)" "4 dvd fst b" "4 dvd fst c"
    using Cons.prems cs by auto
  then have bc: "fst b = fst c \<and> snd b = snd c" using e by (intro hdr_inj) simp_all
  then have "b = c" by (simp add: prod_eq_iff)
  have "(of_nat (a + 8 + fst b) :: u32) \<noteq> 0"
    using of_nat_u32_inj [of "a + 8 + fst b" 0] e by simp
  then have "bs = [] \<longleftrightarrow> cs' = []" using Cons.prems(1,2) cs bc by (auto split: if_splits)
  with Cons.IH [of "a + 8 + fst b" cs'] Cons.prems cs \<open>b = c\<close> show ?case by simp
qed simp

section \<open>Deallocation\<close>

text \<open>Two neighbours, the second free, become one block.\<close>

lemma blocks_at_merge:
  assumes bl: "blocks_at m a ((n, f) # (k, True) # ys)"
  shows "blocks_at (m(of_nat a := hdr (n + k + 8) True, of_nat (a + 4) := m (of_nat (a + 8 + n + 4)))) a
           ((n + k + 8, True) # ys)"
proof -
  let ?m = "m(of_nat a := hdr (n + k + 8) True, of_nat (a + 4) := m (of_nat (a + 8 + n + 4)))"
  have e: "a + 8 + n + 8 + k + span ys = 0x800000" using blocks_at_end [OF bl] by simp
  have "blocks_at ?m (a + 8 + n + 8 + k) ys \<longleftrightarrow> blocks_at m (a + 8 + n + 8 + k) ys"
  proof (rule blocks_at_cong)
    fix x :: addr
    assume "a + 8 + n + 8 + k \<le> unat x"
    moreover have "unat (of_nat a :: u32) = a" "unat (of_nat (a + 4) :: u32) = a + 4"
      using e by (simp_all add: unat_of_nat_u32 del: of_nat_add)
    ultimately have "x \<noteq> of_nat a" "x \<noteq> of_nat (a + 4)" by auto
    then show "?m x = m x" by simp
  qed
  moreover have "?m (of_nat a) = hdr (n + k + 8) True"
    using e of_nat_u32_inj [of a "a + 4"] by simp
  moreover have "?m (of_nat (a + 4)) = (if ys = [] then 0 else of_nat (a + 8 + (n + k + 8)))"
    using bl by (simp add: algebra_simps)
  moreover have "4 dvd n + k + 8" using bl by simp
  moreover have "a + 8 + (n + k + 8) = a + 8 + n + 8 + k" by simp
  ultimately show ?thesis using bl unfolding blocks_at.simps fst_conv snd_conv by metis
qed

lemma fun_upd_twice_same: "\<exists>v w. m = m(x := v, y := w)"
  by (intro exI [of _ "m x"] exI [of _ "m y"]) simp

lemma kfree_forward_head:
  assumes bl: "blocks_at m a ((n, True) # ys)" and a: "0x400000 \<le> a"
  shows "blocks_at (kfree_forward m (of_nat a)) a (merge_next n ys)"
    and "\<exists>v w. kfree_forward m (of_nat a) = m(of_nat a := v, of_nat (a + 4) := w)"
proof -
  have e: "a + 8 + n + span ys = 0x800000" using blocks_at_end [OF bl] by simp
  have n: "4 dvd n" "m (of_nat a) = hdr n True" using bl by simp_all
  note same = fun_upd_twice_same [of m "of_nat a" "of_nat (a + 4)"]
  have "blocks_at (kfree_forward m (of_nat a)) a (merge_next n ys) \<and>
    (\<exists>v w. kfree_forward m (of_nat a) = m(of_nat a := v, of_nat (a + 4) := w))"
  proof (cases ys)
    case Nil
    then have "kfree_forward m (of_nat a) = m" using bl by (simp add: kfree_forward_def Let_def)
    then show ?thesis using bl Nil same by (simp add: merge_next_def del: fun_upd_apply)
  next
    case (Cons y ys')
    obtain k f where y: "y = (k, f)" by fastforce
    have le: "a \<le> 0x800000" "a + 8 + n \<le> 0x800000" "a + 8 + n + 4 \<le> 0x800000" "a + 4 \<le> 0x800000"
      using e Cons by simp_all
    have nb: "m (of_nat (a + 4)) = of_nat (a + 8 + n)" "(of_nat (a + 8 + n) :: u32) \<noteq> 0"
      "m (of_nat (a + 8 + n)) = hdr k f" "4 dvd k"
      using bl Cons y of_nat_u32_inj [of "a + 8 + n" 0] le by simp_all
    have addr: "of_nat a + (4 :: u32) = of_nat (a + 4)" "of_nat (a + 8 + n) + (4 :: u32) = of_nat (a + 8 + n + 4)"
      by simp_all
    show ?thesis
    proof (cases f)
      case False
      then have "kfree_forward m (of_nat a) = m" using nb by (simp add: kfree_forward_def Let_def addr del: of_nat_add)
      then show ?thesis using bl Cons y False same by (simp add: merge_next_def del: of_nat_add blocks_at.simps)
    next
      case True
      have "4 dvd n + k + 8" using n(1) nb(4) by simp
      from of_nat_or_1 [OF this] have v: "of_nat n + of_nat k + (8 :: u32) OR 1 = hdr (n + k + 8) True" by simp
      have eq: "kfree_forward m (of_nat a) =
          m(of_nat a := hdr (n + k + 8) True, of_nat (a + 4) := m (of_nat (a + 8 + n + 4)))"
        using nb n True v le by (simp add: kfree_forward_def Let_def addr of_nat_u32_inj del: of_nat_add)
      have "blocks_at (kfree_forward m (of_nat a)) a (merge_next n ys)"
        using blocks_at_merge [of m a n True k ys'] bl Cons y True unfolding eq by (simp only: merge_next_def list.case prod.case bool.case)
      then show ?thesis using eq by blast
    qed
  qed
  then show "blocks_at (kfree_forward m (of_nat a)) a (merge_next n ys)"
    and "\<exists>v w. kfree_forward m (of_nat a) = m(of_nat a := v, of_nat (a + 4) := w)" by simp_all
qed

lemma kfree_backward_step:
  assumes bl: "blocks_at m a ((n, f) # bs)" and a: "0x400000 \<le> a" and h: "h \<le> 0x800000"
  shows "kfree_backward m (of_nat h) (of_nat a) =
           (if bs = [] then Some m
            else if a + 8 + n = h
            then (if f then Some (m(of_nat a := hdr (n + fst (hd bs) + 8) True,
                                    of_nat (a + 4) := m (of_nat (a + 8 + n + 4))))
                  else Some m)
            else kfree_backward m (of_nat h) (of_nat (a + 8 + n)))"
proof -
  have e: "a + 8 + n + span bs = 0x800000" using blocks_at_end [OF bl] by simp
  have c: "(of_nat a :: u32) \<noteq> 0" "(of_nat (a + 8 + n) :: u32) \<noteq> 0"
    "(of_nat (a + 8 + n) :: u32) = of_nat h \<longleftrightarrow> a + 8 + n = h"
    using of_nat_u32_inj [of a 0] of_nat_u32_inj [of "a + 8 + n" 0] of_nat_u32_inj [of "a + 8 + n" h]
      a h e by simp_all
  have next_a: "m (of_nat (a + 4)) = (if bs = [] then 0 else of_nat (a + 8 + n))"
    and n: "4 dvd n" "m (of_nat a) = hdr n f" using bl by simp_all
  have addr: "of_nat a + (4 :: u32) = of_nat (a + 4)" "of_nat (a + 8 + n) + (4 :: u32) = of_nat (a + 8 + n + 4)"
    by simp_all
  show ?thesis
  proof (cases bs)
    case Nil
    then show ?thesis using next_a by (subst kfree_backward.simps) (simp add: addr del: of_nat_add)
  next
    case (Cons y ys)
    have k: "4 dvd fst y" "m (of_nat (a + 8 + n)) = hdr (fst y) (snd y)" using bl Cons by simp_all
    have "4 dvd n + fst y + 8" using n(1) k(1) by simp
    from of_nat_or_1 [OF this]
    have v: "of_nat n + of_nat (fst y) + (8 :: u32) OR 1 = hdr (n + fst y + 8) True" by simp
    have "(of_nat a :: u32) \<noteq> of_nat (a + 8 + n + 4)"
      using e Cons of_nat_u32_inj [of a "a + 8 + n + 4"] by simp
    then show ?thesis
      using next_a n k v c Cons
      by (subst kfree_backward.simps) (auto simp: addr Let_def simp del: of_nat_add)
  qed
qed

lemma kfree_backward_past:
  assumes "blocks_at m a bs" "bs \<noteq> []" "0x400000 \<le> a" "h \<le> a" "a \<le> 0x800000"
  shows "kfree_backward m (of_nat h) (of_nat a) = Some m"
  using assms
proof (induction bs arbitrary: a)
  case (Cons b bs)
  obtain n f where b: "b = (n, f)" by fastforce
  have e: "a + 8 + n + span bs = 0x800000" using blocks_at_end [OF Cons.prems(1)] b by simp
  have "kfree_backward m (of_nat h) (of_nat (a + 8 + n)) = Some m" if "bs \<noteq> []"
    using Cons.IH [of "a + 8 + n"] Cons.prems that b e by simp
  then show ?case
    using kfree_backward_step [of m a n f bs h] Cons.prems b by simp
qed simp

lemma merge_prev_Cons:
  "xs \<noteq> [] \<Longrightarrow> merge_prev (x # xs) zs = x # merge_prev xs zs"
  by (simp add: merge_prev_def)

lemma kfree_backward_refines:
  assumes "blocks_at m a (xs @ (k, True) # zs)" "0x400000 \<le> a"
  shows "\<exists>m'. kfree_backward m (of_nat (a + span xs)) (of_nat a) = Some m' \<and>
           blocks_at m' a (merge_prev xs ((k, True) # zs)) \<and>
           payloads_kept m m' a (used_blocks a (xs @ (k, True) # zs)) \<and>
           m' (of_nat (a + span xs)) = m (of_nat (a + span xs))"
  using assms
proof (induction xs arbitrary: a)
  case Nil
  then have "a \<le> 0x800000" using blocks_at_end [of m a "[] @ (k, True) # zs"] by simp
  with Nil show ?case using kfree_backward_past [of m a "(k, True) # zs" a] by (simp add: merge_prev_def)
next
  case (Cons x xs)
  obtain n f where x: "x = (n, f)" by fastforce
  let ?bs = "xs @ (k, True) # zs" and ?h = "a + span (x # xs)"
  have bl: "blocks_at m a ((n, f) # ?bs)" using Cons.prems x by simp
  have e: "a + 8 + n + span ?bs = 0x800000" using blocks_at_end [OF bl] by simp
  have h: "?h \<le> 0x800000" using e x by simp
  note step = kfree_backward_step [OF bl Cons.prems(2) h]
  show ?case
  proof (cases "xs = []")
    case True
    let ?m = "m(of_nat a := hdr (n + k + 8) True, of_nat (a + 4) := m (of_nat (a + 8 + n + 4)))"
    have res: "kfree_backward m (of_nat ?h) (of_nat a) = Some (if f then ?m else m)"
      using step True x by simp
    have "blocks_at (if f then ?m else m) a (merge_prev [(n, f)] ((k, True) # zs))"
      using blocks_at_merge [of m a n f k zs] bl True
      by (cases f) (simp_all add: merge_prev_def del: blocks_at.simps of_nat_add)
    moreover have "payloads_kept m (if f then ?m else m) a (used_blocks a ([] @ (n, f) # ?bs))"
      using payloads_kept_header [of a "[]" "(n, f)" ?bs] e by (cases f) simp_all
    moreover have "?m (of_nat (a + 8 + n)) = m (of_nat (a + 8 + n))"
      using of_nat_u32_inj [of "a + 8 + n" a] of_nat_u32_inj [of "a + 8 + n" "a + 4"] e by simp
    ultimately show ?thesis using res x True by (cases f) (simp_all add: add.assoc)
  next
    case False
    have "blocks_at m (a + 8 + n) ?bs" using bl by simp
    from Cons.IH [OF this] Cons.prems(2) obtain m' where
      m': "kfree_backward m (of_nat (a + 8 + n + span xs)) (of_nat (a + 8 + n)) = Some m'"
      "blocks_at m' (a + 8 + n) (merge_prev xs ((k, True) # zs))"
      "payloads_kept m m' (a + 8 + n) (used_blocks (a + 8 + n) ?bs)"
      "m' (of_nat (a + 8 + n + span xs)) = m (of_nat (a + 8 + n + span xs))" by auto
    have "merge_prev xs ((k, True) # zs) \<noteq> []" by (simp add: merge_prev_def)
    note tail = blocks_at_tail_change [OF bl _ m'(2) this m'(3)]
    have "span xs \<noteq> 0" using False by (cases xs) simp_all
    then have "kfree_backward m (of_nat ?h) (of_nat a) = Some m'"
      using step m'(1) x by (simp add: add.assoc)
    then show ?thesis using tail m'(4) x False by (simp add: merge_prev_Cons add.assoc)
  qed
qed

lemma blocks_at_suffix: "blocks_at m a (xs @ bs) \<Longrightarrow> blocks_at m (a + span xs) bs"
proof (induction xs arbitrary: a)
  case (Cons x xs)
  then have "blocks_at m (a + 8 + fst x + span xs) bs" by simp
  then show ?case by (simp add: add.assoc)
qed simp

lemma blocks_at_suffix_change:
  assumes "blocks_at m a (xs @ bs)" "bs \<noteq> []" "bs' \<noteq> []"
    and "blocks_at m' (a + span xs) bs'" "payloads_kept m m' (a + span xs) (used_blocks (a + span xs) U)"
  shows "blocks_at m' a (xs @ bs') \<and> payloads_kept m m' a (used_blocks a (xs @ U))"
  using assms
proof (induction xs arbitrary: a)
  case (Cons x xs)
  obtain n f where x: "x = (n, f)" by fastforce
  have "blocks_at m' (a + 8 + n) (xs @ bs') \<and>
      payloads_kept m m' (a + 8 + n) (used_blocks (a + 8 + n) (xs @ U))"
    using Cons.prems x by (intro Cons.IH) (simp_all add: add.assoc)
  then show ?case
    using blocks_at_tail_change [of m a n f "xs @ bs" m' "xs @ bs'" "xs @ U"] Cons.prems x by simp
qed simp

lemma merge_next_free: "\<exists>k zs. merge_next n ys = (k, True) # zs"
  by (auto simp: merge_next_def split: list.splits bool.splits)

text \<open>The block is marked free and merged forwards.\<close>

lemma kfree_mark_forward:
  assumes bl: "blocks_at m h ((n, False) # ys)" and h: "0x400000 \<le> h"
  defines "m2 \<equiv> kfree_forward (m(of_nat h := m (of_nat h) OR 1)) (of_nat h)"
  shows "blocks_at m2 h (merge_next n ys) \<and> payloads_kept m m2 h (used_blocks h ((n, False) # ys))"
proof -
  let ?m1 = "m(of_nat h := m (of_nat h) OR 1)"
  have e: "h + 8 + n + span ys = 0x800000" using blocks_at_end [OF bl] by simp
  have u: "unat (of_nat h :: u32) = h" using e by (simp add: unat_of_nat_u32)
  have "blocks_at ?m1 (h + 8 + n) ys \<longleftrightarrow> blocks_at m (h + 8 + n) ys"
    using u by (intro blocks_at_cong) auto
  moreover have "?m1 (of_nat (h + 4)) = m (of_nat (h + 4))"
    using of_nat_u32_inj [of "h + 4" h] e by simp
  ultimately have m1: "blocks_at ?m1 h ((n, True) # ys)" using bl by simp
  from kfree_forward_head(2) [OF m1 h] obtain v w where
    "m2 = m(of_nat h := v, of_nat (h + 4) := w)" unfolding m2_def by auto
  then have "payloads_kept m m2 h (used_blocks h ([] @ (n, False) # ys))"
    using payloads_kept_header [of h "[]" "(n, False)" ys m v w] e by simp
  with kfree_forward_head(1) [OF m1 h] show ?thesis by (simp add: m2_def)
qed

lemma used_merge_next: "used_blocks a (merge_next n ys) = used_blocks (a + 8 + n) ys"
  by (auto simp: merge_next_def ac_simps split: list.splits bool.splits)

lemma used_merge_prev:
  "used_blocks a (merge_prev xs ((k, True) # zs)) = used_blocks a (xs @ (k, True) # zs)"
proof (cases "xs \<noteq> [] \<and> snd (last xs)")
  case True
  then obtain ws n where "xs = ws @ [(n, True)]" by (metis append_butlast_last_id prod.collapse)
  then show ?thesis by (auto simp: merge_prev_def used_blocks_append ac_simps)
qed (auto simp: merge_prev_def)

lemma used_free_blocks:
  "used_blocks a (free_blocks xs n ys) = used_blocks a xs \<union> used_blocks (a + span xs + 8 + n) ys"
proof -
  obtain k zs where kz: "merge_next n ys = (k, True) # zs" using merge_next_free by metis
  have "used_blocks a (free_blocks xs n ys) = used_blocks a (xs @ merge_next n ys)"
    unfolding free_blocks_def kz by (rule used_merge_prev)
  then show ?thesis by (simp add: used_blocks_append used_merge_next)
qed

lemma used_free_blocks_remove:
  "used_blocks a (free_blocks xs n ys) = used_blocks a (xs @ (n, False) # ys) - {(a + span xs + 8, n)}"
proof -
  have "(a + span xs + 8, n) \<notin> used_blocks a xs" "(a + span xs + 8, n) \<notin> used_blocks (a + span xs + 8 + n) ys"
    using used_blocks_bounds [of "a + span xs + 8" n a xs]
      used_blocks_bounds [of "a + span xs + 8" n "a + span xs + 8 + n" ys] by auto
  then show ?thesis by (auto simp: used_free_blocks used_blocks_append)
qed

lemma kfree_refines:
  assumes "heap_blocks (hmem s) (xs @ (n, False) # ys)" "0 < n"
  shows "\<exists>m'. kfree (of_nat (0x400000 + span xs + 8)) s = Some (Inr (s\<lparr>hmem := m'\<rparr>)) \<and>
           heap_blocks m' (free_blocks xs n ys) \<and>
           payloads_kept (hmem s) m' 0x400000 (used_blocks 0x400000 (free_blocks xs n ys)) \<and>
           m' (of_nat (0x400000 + span xs)) AND 1 \<noteq> 0"
proof -
  let ?a = "0x400000 :: nat" and ?m = "hmem s"
  let ?h = "?a + span xs" and ?bs = "xs @ (n, False) # ys"
  let ?m1 = "kfree_forward (?m(of_nat ?h := ?m (of_nat ?h) OR 1)) (of_nat ?h)"
  have bl: "blocks_at ?m ?a ?bs" using assms(1) by (simp add: heap_blocks_def)
  have e: "?h + 8 + n + span ys = 0x800000" using blocks_at_end [OF bl] by simp
  have tl: "blocks_at ?m ?h ((n, False) # ys)" by (rule blocks_at_suffix [OF bl])
  have n: "?m (of_nat ?h) = hdr n False" "4 dvd n" using tl by simp_all
  have m1: "blocks_at ?m1 ?h (merge_next n ys) \<and> payloads_kept ?m ?m1 ?h (used_blocks ?h ((n, False) # ys))"
    by (rule kfree_mark_forward [OF tl]) simp
  obtain k zs where kz: "merge_next n ys = (k, True) # zs" using merge_next_free by metis
  have m1': "blocks_at ?m1 ?a (xs @ (k, True) # zs)" "payloads_kept ?m ?m1 ?a (used_blocks ?a ?bs)"
    using blocks_at_suffix_change [of ?m ?a xs "(n, False) # ys" "merge_next n ys" ?m1 "(n, False) # ys"] bl m1 kz
    by simp_all
  from kfree_backward_refines [OF m1'(1)] obtain m' where
    m': "kfree_backward ?m1 (of_nat ?h) (of_nat ?a) = Some m'" "blocks_at m' ?a (free_blocks xs n ys)"
    "payloads_kept ?m1 m' ?a (used_blocks ?a (xs @ (k, True) # zs))"
    "m' (of_nat ?h) = ?m1 (of_nat ?h)"
    unfolding free_blocks_def kz by blast
  have hdrp: "of_nat (?h + 8) - (8 :: u32) = of_nat ?h" "(of_nat (?h + 8) :: u32) \<noteq> 0"
    using of_nat_u32_inj [of "?h + 8" 0] e by simp_all
  have u: "unat (of_nat ?h :: u32) = ?h" using e by (subst unat_of_nat_u32) simp_all
  have bounds: "\<not> of_nat ?h < HEAP_START" "\<not> HEAP_END \<le> of_nat ?h"
    using u e assms(2) by (simp_all add: HEAP_START_def HEAP_END_def word_less_nat_alt word_le_nat_alt)
  have nz: "(of_nat n :: u32) \<noteq> 0" using of_nat_u32_inj [of n 0] e assms(2) by simp
  have "kfree (of_nat (?h + 8)) s = Some (Inr (s\<lparr>hmem := m'\<rparr>))"
    using m'(1) n nz hdrp bounds
    by (simp add: kfree_def Let_def irq_save_def irq_restore_def HEAP_START_def del: of_nat_add)
  moreover have "payloads_kept ?m m' ?a (used_blocks ?a (free_blocks xs n ys))"
    using used_free_blocks_remove [of ?a xs n ys] used_merge_prev [of ?a xs k zs]
    by (intro payloads_kept_trans [OF m1'(2) m'(3)]) (auto simp: free_blocks_def kz)
  moreover have "free_blocks xs n ys \<noteq> []" by (simp add: free_blocks_def merge_prev_def kz)
  moreover have "m' (of_nat ?h) AND 1 \<noteq> 0" using m1 m'(4) kz by simp
  ultimately show ?thesis using m'(2) unfolding heap_blocks_def by blast
qed

lemma coalesced_append:
  "coalesced (xs @ ys) \<longleftrightarrow> coalesced xs \<and> coalesced ys \<and>
     (xs \<noteq> [] \<and> ys \<noteq> [] \<longrightarrow> \<not> (snd (last xs) \<and> snd (hd ys)))"
proof (induction xs)
  case (Cons x xs)
  obtain n f where "x = (n, f)" by fastforce
  then show ?case using Cons by (cases xs) (auto simp: coalesced_Cons)
qed simp

lemma free_blocks_coalesced:
  assumes "coalesced (xs @ (n, False) # ys)"
  shows "coalesced (free_blocks xs n ys)"
proof -
  obtain k zs where kz: "merge_next n ys = (k, True) # zs" using merge_next_free by metis
  have ys: "coalesced ys" and xs: "coalesced xs" using assms by (auto simp: coalesced_append coalesced_Cons)
  have zs: "coalesced ((k, True) # zs)"
    unfolding kz [symmetric] using ys
    by (auto simp: merge_next_def coalesced_Cons split: list.splits bool.splits)
  show ?thesis
  proof (cases "xs \<noteq> [] \<and> snd (last xs)")
    case True
    then obtain ws l where ws: "xs = ws @ [(l, True)]" by (metis append_butlast_last_id prod.collapse)
    then show ?thesis using xs zs
      by (auto simp: free_blocks_def kz merge_prev_def coalesced_append coalesced_Cons)
  next
    case False
    then show ?thesis using xs zs by (auto simp: free_blocks_def kz merge_prev_def coalesced_append)
  qed
qed

section \<open>The allocator as its clients see it\<close>

text \<open>The invariant, and the regions (address and size) handed out and not yet returned.\<close>

definition heap_ok :: "heap_state \<Rightarrow> bool" where
  "heap_ok s \<longleftrightarrow> (\<exists>bs. heap_blocks (hmem s) bs \<and> coalesced bs)"

definition live_regions :: "heap_state \<Rightarrow> (nat \<times> nat) set" where
  "live_regions s = {r. \<exists>bs. heap_blocks (hmem s) bs \<and> r \<in> used_blocks 0x400000 bs}"

lemma heap_blocks_unique: "heap_blocks m bs \<Longrightarrow> heap_blocks m cs \<Longrightarrow> bs = cs"
  using blocks_at_unique [of m "0x400000" bs cs] by (simp add: heap_blocks_def)

lemma live_regions_eq: "heap_blocks (hmem s) bs \<Longrightarrow> live_regions s = used_blocks 0x400000 bs"
  using heap_blocks_unique by (auto simp: live_regions_def)

lemma live_regions_bounds:
  assumes "heap_ok s" "(q, k) \<in> live_regions s"
  shows "0x400008 \<le> q \<and> q + k \<le> 0x800000"
proof -
  obtain bs where bs: "heap_blocks (hmem s) bs" using assms(1) by (auto simp: heap_ok_def)
  then have "0x400000 + span bs = 0x800000" using blocks_at_end [of "hmem s" "0x400000" bs] by (simp add: heap_blocks_def)
  with used_blocks_bounds [of q k "0x400000" bs] assms(2) live_regions_eq [OF bs] show ?thesis by simp
qed

lemma live_regions_disjoint:
  assumes "heap_ok s" "(q, k) \<in> live_regions s" "(q', k') \<in> live_regions s" "(q, k) \<noteq> (q', k')"
  shows "q + k \<le> q' \<or> q' + k' \<le> q"
proof -
  obtain bs where bs: "heap_blocks (hmem s) bs" using assms(1) by (auto simp: heap_ok_def)
  show ?thesis using used_disjoint [of q k "0x400000" bs q' k'] assms(2-) live_regions_eq [OF bs] by simp
qed

lemma used_blocks_split:
  "(q, k) \<in> used_blocks a bs \<Longrightarrow> \<exists>xs ys. bs = xs @ (k, False) # ys \<and> q = a + span xs + 8"
proof (induction bs arbitrary: a)
  case (Cons b bs)
  show ?case
  proof (cases "(q, k) \<in> used_blocks (a + 8 + fst b) bs")
    case True
    from Cons.IH [OF this] obtain xs ys where "bs = xs @ (k, False) # ys" "q = a + 8 + fst b + span xs + 8"
      by auto
    then show ?thesis by (intro exI [of _ "b # xs"] exI [of _ ys]) simp
  next
    case False
    with Cons.prems have "b = (k, False)" "q = a + 8" by (auto simp: prod_eq_iff split: if_splits)
    then show ?thesis by (intro exI [of _ "[]"] exI [of _ bs]) simp
  qed
qed simp

text \<open>
  First fit on the memory: the outcome of \<open>kmalloc\<close> on a heap that encodes \<open>bs\<close> is the outcome
  of \<open>alloc_blocks\<close> on \<open>bs\<close>.
\<close>

lemma kmalloc_cases:
  assumes bs: "heap_blocks (hmem s) bs"
  shows "case alloc_blocks (unat (align_request n)) 0x400000 bs of
           None \<Rightarrow> kmalloc n s = Some (0, s)
         | Some (p, bs') \<Rightarrow> \<exists>m'. kmalloc n s = Some (of_nat (p + 8), s\<lparr>hmem := m'\<rparr>) \<and>
             heap_blocks m' bs' \<and> payloads_kept (hmem s) m' 0x400000 (used_blocks 0x400000 bs)"
proof -
  have "blocks_at (hmem s) 0x400000 bs" "bs \<noteq> []" using bs by (simp_all add: heap_blocks_def)
  note ref = kmalloc_loop_refines [OF this order_refl align_request_dvd [of n]]
  have hs: "HEAP_START = of_nat 0x400000" by (simp add: HEAP_START_def)
  show ?thesis
  proof (cases "alloc_blocks (unat (align_request n)) 0x400000 bs")
    case None
    with ref show ?thesis
      by (simp add: kmalloc_refines_def kmalloc_def irq_save_def irq_restore_def hs)
  next
    case (Some pb)
    obtain p bs' where pb: "pb = (p, bs')" by fastforce
    have "bs' \<noteq> []" using alloc_blocks_nonempty Some pb by blast
    with ref Some pb show ?thesis
      by (auto simp: kmalloc_refines_def kmalloc_def irq_save_def irq_restore_def hs heap_blocks_def)
  qed
qed

lemma kmalloc_total:
  assumes "heap_ok s"
  shows "\<exists>p s'. kmalloc n s = Some (p, s') \<and> heap_ok s' \<and> eflags s' = eflags s"
proof -
  obtain bs where bs: "heap_blocks (hmem s) bs" "coalesced bs" using assms by (auto simp: heap_ok_def)
  show ?thesis
  proof (cases "alloc_blocks (unat (align_request n)) 0x400000 bs")
    case None
    with kmalloc_cases [OF bs(1), of n] assms show ?thesis by simp
  next
    case (Some pb)
    obtain p bs' where pb: "pb = (p, bs')" by fastforce
    from kmalloc_cases [OF bs(1), of n] Some pb obtain m' where
      "kmalloc n s = Some (of_nat (p + 8), s\<lparr>hmem := m'\<rparr>)" "heap_blocks m' bs'" by auto
    then show ?thesis using alloc_blocks_coalesced [of _ _ bs p bs'] Some pb bs(2)
      by (auto simp: heap_ok_def)
  qed
qed

lemma kmalloc_null:
  assumes "heap_blocks (hmem s) bs" "kmalloc n s = Some (0, s')"
  shows "s' = s" and "\<forall>b \<in> set bs. snd b \<longrightarrow> fst b < unat (align_request n)"
proof -
  have "s' = s \<and> alloc_blocks (unat (align_request n)) 0x400000 bs = None"
  proof (cases "alloc_blocks (unat (align_request n)) 0x400000 bs")
    case None
    with kmalloc_cases [OF assms(1), of n] assms(2) show ?thesis by simp
  next
    case (Some pb)
    obtain p bs' where pb: "pb = (p, bs')" by fastforce
    from kmalloc_cases [OF assms(1), of n] Some pb obtain m' where
      m': "kmalloc n s = Some (of_nat (p + 8), s\<lparr>hmem := m'\<rparr>)" "heap_blocks m' bs'" by auto
    from alloc_blocks_used [OF Some [unfolded pb]] obtain k where
      "(p + 8, k) \<in> used_blocks 0x400000 bs'" by auto
    from used_blocks_bounds [OF this] blocks_at_end [of m' "0x400000" bs'] m'(2)
    have "p + 8 \<le> 0x800000" "0 < p + 8" by (simp_all add: heap_blocks_def)
    then have "(of_nat (p + 8) :: u32) \<noteq> 0" using of_nat_u32_inj [of "p + 8" 0] by simp
    with m'(1) assms(2) show ?thesis by (simp del: of_nat_add)
  qed
  then show "s' = s" and "\<forall>b \<in> set bs. snd b \<longrightarrow> fst b < unat (align_request n)"
    by (simp_all add: alloc_blocks_None_iff)
qed

lemma kmalloc_region:
  assumes "heap_ok s" "kmalloc n s = Some (p, s')" "p \<noteq> 0" "unat n \<le> 0xFFFFFFFC"
  shows "\<exists>k. unat n \<le> k \<and> live_regions s' = insert (unat p, k) (live_regions s) \<and>
           (unat p, k) \<notin> live_regions s \<and>
           payloads_kept (hmem s) (hmem s') 0x400000 (live_regions s)"
proof -
  obtain bs where bs: "heap_blocks (hmem s) bs" using assms(1) by (auto simp: heap_ok_def)
  obtain q bs' where qb: "alloc_blocks (unat (align_request n)) 0x400000 bs = Some (q, bs')"
    using kmalloc_cases [OF bs, of n] assms(2,3) by (auto split: option.splits)
  from kmalloc_cases [OF bs, of n] qb assms(2) obtain m' where
    m': "p = of_nat (q + 8)" "s' = s\<lparr>hmem := m'\<rparr>" "heap_blocks m' bs'"
    "payloads_kept (hmem s) m' 0x400000 (used_blocks 0x400000 bs)" by auto
  from alloc_blocks_used [OF qb] obtain k where
    k: "unat (align_request n) \<le> k" "used_blocks 0x400000 bs' = insert (q + 8, k) (used_blocks 0x400000 bs)"
    "(q + 8, k) \<notin> used_blocks 0x400000 bs" by auto
  have "q + 8 + k \<le> 0x800000"
    using used_blocks_bounds [of "q + 8" k "0x400000" bs'] k(2) m'(3) blocks_at_end [of m' "0x400000" bs']
    by (simp add: heap_blocks_def)
  then have "unat p = q + 8" using unat_of_nat_u32 [of "q + 8"] m'(1) by simp
  moreover have "unat n \<le> k" using align_request_ge(1) [OF assms(4)] k(1) by simp
  ultimately show ?thesis
    using k m' live_regions_eq [OF bs] live_regions_eq [of s' bs'] by auto
qed

lemma kfree_live:
  assumes "heap_ok s" "(unat p, k) \<in> live_regions s" "0 < k"
  shows "\<exists>s'. kfree p s = Some (Inr s') \<and> heap_ok s' \<and> eflags s' = eflags s \<and>
           live_regions s' = live_regions s - {(unat p, k)} \<and>
           payloads_kept (hmem s) (hmem s') 0x400000 (live_regions s') \<and> hmem s' (p - 8) AND 1 \<noteq> 0"
proof -
  obtain bs where bs: "heap_blocks (hmem s) bs" "coalesced bs" using assms(1) by (auto simp: heap_ok_def)
  obtain xs ys where x: "bs = xs @ (k, False) # ys" "unat p = 0x400000 + span xs + 8"
    using used_blocks_split [of "unat p" k "0x400000" bs] assms(2) live_regions_eq [OF bs(1)] by auto
  have p: "p = of_nat (0x400000 + span xs + 8)" unfolding x(2) [symmetric] by simp
  then have p8: "p - 8 = of_nat (0x400000 + span xs)" by simp
  from kfree_refines [OF bs(1) [unfolded x(1)] assms(3), folded p p8] obtain m' where
    m': "kfree p s = Some (Inr (s\<lparr>hmem := m'\<rparr>))" "heap_blocks m' (free_blocks xs k ys)"
    "payloads_kept (hmem s) m' 0x400000 (used_blocks 0x400000 (free_blocks xs k ys))"
    "m' (p - 8) AND 1 \<noteq> 0" by (elim exE conjE)
  have live: "live_regions (s\<lparr>hmem := m'\<rparr>) = used_blocks 0x400000 (free_blocks xs k ys)"
    using m'(2) by (intro live_regions_eq) simp
  have ok: "heap_ok (s\<lparr>hmem := m'\<rparr>)"
    using m'(2) free_blocks_coalesced [of xs k ys] bs(2) x(1) by (auto simp: heap_ok_def)
  have "live_regions (s\<lparr>hmem := m'\<rparr>) = live_regions s - {(unat p, k)}"
    unfolding live live_regions_eq [OF bs(1)] x used_free_blocks_remove ..
  then show ?thesis using m' ok live by (intro exI [of _ "s\<lparr>hmem := m'\<rparr>"]) simp
qed

text \<open>The interface the rest of the kernel relies on.\<close>

locale region_allocator =
  fixes ok :: "'s \<Rightarrow> bool"
    and live :: "'s \<Rightarrow> (nat \<times> nat) set"
    and alloc :: "u32 \<Rightarrow> 's \<Rightarrow> (addr \<times> 's) option"
    and release :: "addr \<Rightarrow> 's \<Rightarrow> 's kres option"
    and in_range :: "u32 \<Rightarrow> bool"
  assumes alloc_total: "ok s \<Longrightarrow> \<exists>p s'. alloc n s = Some (p, s') \<and> ok s'"
    and alloc_null: "\<lbrakk>ok s; alloc n s = Some (0, s')\<rbrakk> \<Longrightarrow> live s' = live s"
    and alloc_region: "\<lbrakk>ok s; in_range n; alloc n s = Some (p, s'); p \<noteq> 0\<rbrakk> \<Longrightarrow>
      \<exists>k. unat n \<le> k \<and> live s' = insert (unat p, k) (live s) \<and> (unat p, k) \<notin> live s"
    and release_live: "\<lbrakk>ok s; (unat p, k) \<in> live s; 0 < k\<rbrakk> \<Longrightarrow>
      \<exists>s'. release p s = Some (Inr s') \<and> ok s' \<and> live s' = live s - {(unat p, k)}"
    and live_disjoint: "\<lbrakk>ok s; (q, k) \<in> live s; (q', k') \<in> live s; (q, k) \<noteq> (q', k')\<rbrakk> \<Longrightarrow>
      q + k \<le> q' \<or> q' + k' \<le> q"
begin

lemma alloc_ok: "ok s \<Longrightarrow> alloc n s = Some (p, s') \<Longrightarrow> ok s'"
  using alloc_total [of s n] by auto

lemma alloc_release:
  assumes "ok s" "in_range n" "0 < n" "alloc n s = Some (p, s')" "p \<noteq> 0"
  shows "\<exists>s''. release p s' = Some (Inr s'') \<and> ok s'' \<and> live s'' = live s"
proof -
  obtain k where k: "unat n \<le> k" "live s' = insert (unat p, k) (live s)" "(unat p, k) \<notin> live s"
    using alloc_region [OF assms(1,2,4,5)] by blast
  have "0 < k" using k(1) assms(3) by (simp add: word_less_nat_alt)
  then obtain s'' where "release p s' = Some (Inr s'')" "ok s''" "live s'' = live s' - {(unat p, k)}"
    using release_live [of s' p k] alloc_ok [OF assms(1,4)] k(2) by auto
  then show ?thesis using k by auto
qed

lemma alloc_alloc_disjoint:
  assumes "ok s" "in_range n" "in_range n'" "alloc n s = Some (p, s')" "p \<noteq> 0"
    and "alloc n' s' = Some (p', s'')" "p' \<noteq> 0" "0 < n" "0 < n'"
  shows "unat p + unat n \<le> unat p' \<or> unat p' + unat n' \<le> unat p"
proof -
  obtain k where k: "unat n \<le> k" "live s' = insert (unat p, k) (live s)"
    using alloc_region [OF assms(1,2,4,5)] by blast
  have ok': "ok s'" by (rule alloc_ok [OF assms(1,4)])
  obtain k' where k': "unat n' \<le> k'" "live s'' = insert (unat p', k') (live s')" "(unat p', k') \<notin> live s'"
    using alloc_region [OF ok' assms(3,6,7)] by blast
  have "(unat p, k) \<noteq> (unat p', k')" using k k' by auto
  then show ?thesis
    using live_disjoint [of s'' "unat p" k "unat p'" k'] alloc_ok [OF ok' assms(6)] k k' by auto
qed

lemma release_in_any_order:
  assumes "ok s" "(unat p, k) \<in> live s" "(unat q, l) \<in> live s" "0 < k" "0 < l" "p \<noteq> q"
  shows "\<exists>s1 s2. release p s = Some (Inr s1) \<and> release q s1 = Some (Inr s2) \<and> ok s2 \<and>
           live s2 = live s - {(unat p, k), (unat q, l)}"
proof -
  obtain s1 where s1: "release p s = Some (Inr s1)" "ok s1" "live s1 = live s - {(unat p, k)}"
    using release_live [OF assms(1,2,4)] by blast
  have "(unat q, l) \<in> live s1" using s1(3) assms(3,6) by (auto simp: word_unat_eq_iff)
  from release_live [OF s1(2) this assms(5)] obtain s2 where
    "release q s1 = Some (Inr s2)" "ok s2" "live s2 = live s1 - {(unat q, l)}" by blast
  moreover from this s1(3) have "live s2 = live s - {(unat p, k), (unat q, l)}" by auto
  ultimately show ?thesis using s1(1) by blast
qed

end

interpretation kernel_heap: region_allocator heap_ok live_regions kmalloc kfree "\<lambda>n. unat n \<le> 0xFFFFFFFC"
proof unfold_locales
  show "\<exists>p s'. kmalloc n s = Some (p, s') \<and> heap_ok s'" if "heap_ok s" for s n
    using kmalloc_total [OF that, of n] by auto
  show "live_regions s' = live_regions s" if "heap_ok s" "kmalloc n s = Some (0, s')" for s n s'
    using that kmalloc_null(1) [of s _ n s'] by (auto simp: heap_ok_def)
  show "\<exists>k. unat n \<le> k \<and> live_regions s' = insert (unat p, k) (live_regions s) \<and> (unat p, k) \<notin> live_regions s"
    if "heap_ok s" "unat n \<le> 0xFFFFFFFC" "kmalloc n s = Some (p, s')" "p \<noteq> 0" for s n p s'
    using kmalloc_region [OF that(1,3,4,2)] by (elim exE conjE) (intro exI conjI)
  show "\<exists>s'. kfree p s = Some (Inr s') \<and> heap_ok s' \<and> live_regions s' = live_regions s - {(unat p, k)}"
    if "heap_ok s" "(unat p, k) \<in> live_regions s" "0 < k" for s p k
    using kfree_live [OF that] by (elim exE conjE) (intro exI conjI)
qed (rule live_regions_disjoint)

section \<open>Aligned allocation\<close>

text \<open>A write into the payload of a block in use leaves the list of blocks alone.\<close>

lemma heap_blocks_payload_write:
  assumes bl: "heap_blocks m bs" and r: "(q, k) \<in> used_blocks 0x400000 bs"
    and x: "q \<le> unat x" "unat x < q + k"
  shows "heap_blocks (m(x := v)) bs"
proof -
  let ?m = "m(x := v)"
  obtain xs ys where xs: "bs = xs @ (k, False) # ys" "q = 0x400000 + span xs + 8"
    using used_blocks_split [OF r] by auto
  let ?h = "0x400000 + span xs"
  have bl': "blocks_at m 0x400000 (xs @ (k, False) # ys)" using bl xs by (simp add: heap_blocks_def)
  have tl: "blocks_at m ?h ((k, False) # ys)" by (rule blocks_at_suffix [OF bl'])
  have e: "?h + 8 + k + span ys = 0x800000" using blocks_at_end [OF tl] by simp
  have low: "?m y = m y" if "unat y < q \<or> q + k \<le> unat y" for y using that x by auto
  have "unat (of_nat ?h :: u32) = ?h" "unat (of_nat (?h + 4) :: u32) = ?h + 4"
    using e by (subst unat_of_nat_u32; simp)+
  then have "?m (of_nat ?h) = m (of_nat ?h)" "?m (of_nat (?h + 4)) = m (of_nat (?h + 4))"
    using xs(2) low [of "of_nat ?h"] low [of "of_nat (?h + 4)"] by (simp_all del: of_nat_add fun_upd_apply)
  moreover have "blocks_at ?m (?h + 8 + k) ys \<longleftrightarrow> blocks_at m (?h + 8 + k) ys"
    using xs(2) by (intro blocks_at_cong low) auto
  ultimately have "blocks_at ?m ?h ((k, False) # ys)" using tl by simp
  moreover have "payloads_kept m ?m ?h (used_blocks ?h [])"
    using e xs(2) by (intro payloads_keptI low) (auto simp: kept_cell_def)
  ultimately show ?thesis
    using blocks_at_suffix_change [of m "0x400000" xs "(k, False) # ys" "(k, False) # ys" ?m "[]"] bl' xs(1)
    by (simp add: heap_blocks_def)
qed

lemma payload_write:
  assumes "heap_ok s" "(q, k) \<in> live_regions s" "q \<le> unat x" "unat x < q + k"
  shows "heap_ok (s\<lparr>hmem := (hmem s)(x := v)\<rparr>)"
    and "live_regions (s\<lparr>hmem := (hmem s)(x := v)\<rparr>) = live_regions s"
proof -
  obtain bs where bs: "heap_blocks (hmem s) bs" "coalesced bs" using assms(1) by (auto simp: heap_ok_def)
  have w: "heap_blocks ((hmem s)(x := v)) bs"
    using heap_blocks_payload_write [OF bs(1)] assms(2-) live_regions_eq [OF bs(1)] by auto
  then show "heap_ok (s\<lparr>hmem := (hmem s)(x := v)\<rparr>)" using bs(2) by (auto simp: heap_ok_def)
  show "live_regions (s\<lparr>hmem := (hmem s)(x := v)\<rparr>) = live_regions s"
    using live_regions_eq [OF bs(1)] live_regions_eq [of "s\<lparr>hmem := (hmem s)(x := v)\<rparr>" bs] w by simp
qed

definition power_of_two :: "u32 \<Rightarrow> bool" where
  "power_of_two x \<longleftrightarrow> x \<noteq> 0 \<and> x AND (x - 1) = 0"

text \<open>The aligned address lies in the raw block, with room for the hidden pointer before it.\<close>

lemma aligned_addr:
  assumes "power_of_two al" "unat raw + unat al + 3 < 2 ^ 32"
  defines "p \<equiv> (raw + (al + 4) - 1) AND NOT (al - 1)"
  shows "unat p mod unat al = 0" and "unat raw + 4 \<le> unat p" and "unat p < unat raw + unat al + 4"
proof -
  obtain j where j: "unat al = 2 ^ j" "al - 1 = mask j"
    using pow2_u32 assms(1) by (auto simp: power_of_two_def)
  let ?x = "unat raw + unat al + 3"
  have "raw + (al + 4) - 1 = raw + al + 3" by simp
  moreover have "unat (raw + al + 3) = ?x" using assms(2) by (simp add: unat_plus_u32)
  ultimately have p: "unat p = ?x - ?x mod 2 ^ j"
    unfolding p_def j(2) by (simp only: unat_align_down)
  then show "unat p mod unat al = 0" using j(1) by (simp add: minus_mod_eq_mult_div)
  have "?x mod 2 ^ j < 2 ^ j" by simp
  then show "unat raw + 4 \<le> unat p" "unat p < unat raw + unat al + 4" using p j(1) by linarith+
qed

lemma kmalloc_aligned_region:
  assumes ok: "heap_ok s" and al: "power_of_two al" and sz: "unat n + unat al + 4 \<le> 0xFFFFFFFC"
    and r: "kmalloc_aligned n al s = Some (p, s')" "p \<noteq> 0"
  shows "heap_ok s' \<and> eflags s' = eflags s \<and> unat p mod unat al = 0 \<and>
    (\<exists>raw k. (unat raw, k) \<notin> live_regions s \<and> live_regions s' = insert (unat raw, k) (live_regions s) \<and>
       unat raw + 4 \<le> unat p \<and> unat p + unat n \<le> unat raw + k \<and> hmem s' (p - 4) = raw)"
proof -
  have off: "unat (n + (al + 4)) = unat n + unat al + 4"
    using sz by (simp add: unat_plus_u32)
  obtain raw s1 where s1: "kmalloc (n + (al + 4)) s = Some (raw, s1)" "heap_ok s1" "eflags s1 = eflags s"
    using kmalloc_total [OF ok] by blast
  then have raw: "raw \<noteq> 0" "p = (raw + (al + 4) - 1) AND NOT (al - 1)"
    "s' = s1\<lparr>hmem := (hmem s1)(p - 4 := raw)\<rparr>"
    using al r by (auto simp: kmalloc_aligned_def power_of_two_def Let_def split: if_splits)
  obtain k where k: "unat n + unat al + 4 \<le> k" "live_regions s1 = insert (unat raw, k) (live_regions s)"
    "(unat raw, k) \<notin> live_regions s"
    using kmalloc_region [OF ok s1(1) raw(1)] off sz by auto
  have "unat raw + k \<le> 0x800000" using live_regions_bounds [OF s1(2)] k(2) by auto
  then have "unat raw + unat al + 3 < 2 ^ 32" using k(1) by simp
  note pp = aligned_addr [OF al this, folded raw(2)]
  have p4: "unat (p - 4) = unat p - 4" using pp(2) by (simp add: unat_sub_if')
  have w: "(unat raw, k) \<in> live_regions s1" "unat raw \<le> unat (p - 4)" "unat (p - 4) < unat raw + k"
    using k pp p4 by auto
  show ?thesis
    using payload_write [OF s1(2) w] raw(3) s1(3) pp k by (intro conjI exI [of _ raw] exI [of _ k]) auto
qed

lemma kmalloc_aligned_total:
  assumes "heap_ok s" "unat n + unat al + 4 \<le> 0xFFFFFFFC"
  shows "\<exists>p s'. kmalloc_aligned n al s = Some (p, s') \<and> heap_ok s'"
proof (cases "power_of_two al")
  case False
  then show ?thesis using assms(1) by (auto simp: kmalloc_aligned_def power_of_two_def)
next
  case True
  obtain raw s1 where s1: "kmalloc (n + (al + 4)) s = Some (raw, s1)" "heap_ok s1"
    using kmalloc_total [OF assms(1)] by blast
  let ?p = "(raw + (al + 4) - 1) AND NOT (al - 1)"
  have r: "kmalloc_aligned n al s =
      (if raw = 0 then Some (0, s1) else Some (?p, s1\<lparr>hmem := (hmem s1)(?p - 4 := raw)\<rparr>))"
    using s1(1) True by (simp add: kmalloc_aligned_def power_of_two_def Let_def)
  show ?thesis
  proof (cases "raw = 0")
    case False
    obtain k where k: "unat (n + (al + 4)) \<le> k" "(unat raw, k) \<in> live_regions s1"
      using kmalloc_region [OF assms(1) s1(1) False] assms(2) by (auto simp: unat_plus_u32)
    have "unat raw + k \<le> 0x800000" using live_regions_bounds [OF s1(2) k(2)] by simp
    moreover have "unat (n + (al + 4)) = unat n + unat al + 4" using assms(2) by (simp add: unat_plus_u32)
    ultimately have "unat raw + unat al + 3 < 2 ^ 32" using k(1) by simp
    from aligned_addr(2) [OF True this] have "?p \<noteq> 0" by (intro notI) (simp only: unat_0)
    then show ?thesis using kmalloc_aligned_region [OF assms(1) True assms(2)] r False by simp
  qed (use r s1 in simp)
qed

section \<open>Reachable heaps\<close>

text \<open>
  The states the kernel can bring the heap into after \<open>heap_init\<close>: allocations, releases of live
  non-empty regions, writes of clients into their live regions, and writes outside the heap.
\<close>

inductive heap_step :: "heap_state \<Rightarrow> heap_state \<Rightarrow> bool" where
  malloc: "kmalloc n s = Some (p, s') \<Longrightarrow> heap_step s s'"
| aligned: "unat n + unat al + 4 \<le> 0xFFFFFFFC \<Longrightarrow> kmalloc_aligned n al s = Some (p, s') \<Longrightarrow> heap_step s s'"
| free: "(unat p, k) \<in> live_regions s \<Longrightarrow> 0 < k \<Longrightarrow> kfree p s = Some (Inr s') \<Longrightarrow> heap_step s s'"
| payload: "(q, k) \<in> live_regions s \<Longrightarrow> q \<le> unat x \<Longrightarrow> unat x + 4 \<le> q + k \<Longrightarrow>
    heap_step s (s\<lparr>hmem := (hmem s)(x := v)\<rparr>)"
| elsewhere: "unat x < 0x400000 \<or> 0x800000 \<le> unat x \<Longrightarrow>
    heap_step s (s\<lparr>hmem := (hmem s)(x := v)\<rparr>)"

inductive heap_reachable :: "heap_state \<Rightarrow> bool" where
  init: "heap_reachable (heap_init s)"
| step: "heap_reachable s \<Longrightarrow> heap_step s s' \<Longrightarrow> heap_reachable s'"

lemma heap_ok_elsewhere:
  assumes "heap_ok s" "unat x < 0x400000 \<or> 0x800000 \<le> unat x"
  shows "heap_ok (s\<lparr>hmem := (hmem s)(x := v)\<rparr>)"
proof -
  have "blocks_at ((hmem s)(x := v)) 0x400000 bs \<longleftrightarrow> blocks_at (hmem s) 0x400000 bs" for bs
    using assms(2) by (intro blocks_at_cong) auto
  then show ?thesis using assms(1) by (simp add: heap_ok_def heap_blocks_def)
qed

lemma heap_step_ok: "heap_step s s' \<Longrightarrow> heap_ok s \<Longrightarrow> heap_ok s'"
proof (induction rule: heap_step.induct)
  case (malloc n s p s')
  then show ?case using kmalloc_total [of s n] by auto
next
  case (aligned n al s p s')
  then show ?case using kmalloc_aligned_total [of s n al] by auto
next
  case (free p k s s')
  then show ?case using kfree_live [of s p k] by auto
next
  case (payload q k s x v)
  then show ?case using payload_write(1) [of s q k x v] by simp
qed (rule heap_ok_elsewhere)

lemma heap_init_ok: "heap_ok (heap_init s)"
  using heap_init_blocks [of s] by (auto simp: heap_ok_def)

lemma heap_reachable_ok: "heap_reachable s \<Longrightarrow> heap_ok s"
  by (induction rule: heap_reachable.induct) (auto intro: heap_init_ok heap_step_ok)

text \<open>Freeing the block just allocated restores the list of blocks.\<close>

lemma alloc_free_blocks:
  assumes "alloc_blocks req a bs = Some (p, bs')" "coalesced bs"
  shows "\<exists>xs n ys. bs' = xs @ (n, False) # ys \<and> p = a + span xs \<and> req \<le> n \<and> free_blocks xs n ys = bs"
  using assms
proof (induction req a bs arbitrary: bs' rule: alloc_blocks.induct)
  case (2 req a n f bs)
  show ?case
  proof (cases "f \<and> req \<le> n")
    case True
    have whole: "free_blocks [] n bs = (n, True) # bs"
      using 2(3) True by (cases bs) (auto simp: free_blocks_def merge_prev_def merge_next_def split: bool.splits)
    show ?thesis
    proof (cases "24 \<le> n - req")
      case split: True
      then show ?thesis using 2(2) True
        by (intro exI [of _ "[]"] exI [of _ req] exI [of _ "(n - req - 8, True) # bs"])
          (auto simp: free_blocks_def merge_prev_def merge_next_def)
    next
      case False
      then show ?thesis using 2(2) True whole
        by (intro exI [of _ "[]"] exI [of _ n] exI [of _ bs]) auto
    qed
  next
    case False
    with 2(2) obtain bs'' where r: "alloc_blocks req (a + 8 + n) bs = Some (p, bs'')" "bs' = (n, f) # bs''"
      by auto
    from 2(1) [OF False r(1)] 2(3) obtain xs k ys where
      x: "bs'' = xs @ (k, False) # ys" "p = a + 8 + n + span xs" "req \<le> k" "free_blocks xs k ys = bs"
      by (auto simp: coalesced_Cons)
    obtain l zs where l: "merge_next k ys = (l, True) # zs" using merge_next_free by metis
    have "free_blocks ((n, f) # xs) k ys = (n, f) # bs"
    proof (cases "xs = []")
      case True
      then have "bs = (l, True) # zs" using x(4) l by (simp add: free_blocks_def merge_prev_def)
      then show ?thesis using 2(3) True l by (auto simp: free_blocks_def merge_prev_def)
    qed (use x(4) in \<open>simp add: free_blocks_def merge_prev_Cons\<close>)
    then show ?thesis using x r(2) by (intro exI [of _ "(n, f) # xs"] exI [of _ k] exI [of _ ys]) simp
  qed
qed simp

section \<open>Properties\<close>

lemma new_region_disjoint:
  assumes "heap_ok s'" "live_regions s' = insert r (live_regions s)" "r \<notin> live_regions s"
    and "(q, l) \<in> live_regions s"
  shows "fst r + snd r \<le> q \<or> q + l \<le> fst r"
  using live_regions_disjoint [OF assms(1), of "fst r" "snd r" q l] assms(2-) by (cases r) auto

text \<open>
  C1: \<open>kmalloc\<close> on a well-formed heap always returns, with the heap well formed and the
  interrupt flag as before.  It returns NULL only when no free block holds the request, and
  then changes nothing.  Otherwise it returns a region inside the heap, at least as large as
  the request and disjoint from every region handed out before, whose contents it keeps.
\<close>

theorem kmalloc_correct:
  assumes "heap_ok s" "unat n \<le> 0xFFFFFFFC"
  shows "\<exists>p s'. kmalloc n s = Some (p, s') \<and> heap_ok s' \<and> eflags s' = eflags s \<and>
    (if p = 0
     then s' = s \<and> (\<forall>bs. heap_blocks (hmem s) bs \<longrightarrow> (\<forall>b \<in> set bs. snd b \<longrightarrow> fst b < unat (align_request n)))
     else \<exists>k. unat n \<le> k \<and> live_regions s' = insert (unat p, k) (live_regions s) \<and>
       0x400008 \<le> unat p \<and> unat p + k \<le> 0x800000 \<and>
       (\<forall>(q, l) \<in> live_regions s. unat p + k \<le> q \<or> q + l \<le> unat p) \<and>
       payloads_kept (hmem s) (hmem s') 0x400000 (live_regions s))"
proof -
  obtain p s' where s': "kmalloc n s = Some (p, s')" "heap_ok s'" "eflags s' = eflags s"
    using kmalloc_total [OF assms(1)] by blast
  show ?thesis
  proof (cases "p = 0")
    case True
    obtain bs where bs: "heap_blocks (hmem s) bs" using assms(1) by (auto simp: heap_ok_def)
    have "s' = s" using kmalloc_null(1) [OF bs] s'(1) True by simp
    moreover have "\<forall>bs. heap_blocks (hmem s) bs \<longrightarrow> (\<forall>b \<in> set bs. snd b \<longrightarrow> fst b < unat (align_request n))"
      using kmalloc_null(2) s'(1) True by blast
    ultimately show ?thesis using s' True by (intro exI [of _ p] exI [of _ s']) simp
  next
    case False
    obtain k where k: "unat n \<le> k" "live_regions s' = insert (unat p, k) (live_regions s)"
      "(unat p, k) \<notin> live_regions s" "payloads_kept (hmem s) (hmem s') 0x400000 (live_regions s)"
      using kmalloc_region [OF assms(1) s'(1) False assms(2)] by (elim exE conjE)
    have "\<forall>(q, l) \<in> live_regions s. unat p + k \<le> q \<or> q + l \<le> unat p"
      using new_region_disjoint [OF s'(2) k(2,3)] by auto
    then show ?thesis
      using s' k False live_regions_bounds [OF s'(2), of "unat p" k]
      by (intro exI [of _ p] exI [of _ s'] conjI) (simp_all, intro exI [of _ k], simp)
  qed
qed

definition boot_heap :: heap_state where
  "boot_heap = heap_init \<lparr>hmem = (\<lambda>_. 0), eflags = 0x202\<rparr>"

theorem kmalloc_correct_witness:
  "\<exists>p s'. kmalloc 100 boot_heap = Some (p, s') \<and> heap_ok s' \<and> eflags s' = 0x202"
proof -
  have "heap_ok boot_heap" by (simp add: boot_heap_def heap_init_ok)
  from kmalloc_correct [OF this, of 100] show ?thesis
    by (auto simp: boot_heap_def heap_init_def)
qed

text \<open>
  C13: \<open>kmalloc\<close> refines first fit on the list of blocks: from a heap encoding \<open>bs\<close> it takes the
  block the abstract search takes and leaves a heap encoding the abstract result, or returns
  NULL when the search finds nothing.
\<close>

theorem kmalloc_refines_first_fit:
  assumes "heap_blocks (hmem s) bs" "coalesced bs"
  shows "\<exists>p s'. kmalloc n s = Some (p, s') \<and>
    (case alloc_blocks (unat (align_request n)) 0x400000 bs of
       None \<Rightarrow> p = 0 \<and> heap_blocks (hmem s') bs
     | Some (q, bs') \<Rightarrow> p = of_nat (q + 8) \<and> heap_blocks (hmem s') bs' \<and> coalesced bs')"
proof (cases "alloc_blocks (unat (align_request n)) 0x400000 bs")
  case None
  with kmalloc_cases [OF assms(1), of n] assms(1) show ?thesis by simp
next
  case (Some pb)
  obtain q bs' where pb: "pb = (q, bs')" by fastforce
  from kmalloc_cases [OF assms(1), of n] Some pb obtain m' where
    "kmalloc n s = Some (of_nat (q + 8), s\<lparr>hmem := m'\<rparr>)" "heap_blocks m' bs'" by auto
  with alloc_blocks_coalesced [OF Some [unfolded pb] assms(2)] Some pb show ?thesis by simp
qed

theorem kmalloc_refines_first_fit_witness:
  "\<exists>s'. kmalloc 100 boot_heap = Some (0x400008, s') \<and> heap_blocks (hmem s') [(100, False), (0x3FFF8C, True)]"
proof -
  have "heap_blocks (hmem boot_heap) [(0x3FFFF8, True)]" by (simp add: boot_heap_def heap_init_blocks)
  from kmalloc_refines_first_fit [OF this, of 100] show ?thesis by (simp add: align_request_def)
qed

text \<open>
  C2: \<open>kfree\<close> of a live non-empty region succeeds, leaves a well-formed heap in which exactly
  that region is no longer live, keeps the contents of all the others and the interrupt flag;
  freeing the same pointer again is detected as a double free.
\<close>

theorem kfree_correct:
  assumes "heap_ok s" "(unat p, k) \<in> live_regions s" "0 < k"
  shows "\<exists>s'. kfree p s = Some (Inr s') \<and> heap_ok s' \<and> eflags s' = eflags s \<and>
           live_regions s' = live_regions s - {(unat p, k)} \<and>
           payloads_kept (hmem s) (hmem s') 0x400000 (live_regions s') \<and>
           kfree p s' = Some (Inl (PanicDoubleFree p))"
proof -
  obtain s' where s': "kfree p s = Some (Inr s')" "heap_ok s'" "eflags s' = eflags s"
    "live_regions s' = live_regions s - {(unat p, k)}"
    "payloads_kept (hmem s) (hmem s') 0x400000 (live_regions s')" "hmem s' (p - 8) AND 1 \<noteq> 0"
    using kfree_live [OF assms] by (elim exE conjE)
  have b: "0x400008 \<le> unat p" "unat p + k \<le> 0x800000" using live_regions_bounds [OF assms(1,2)] by simp_all
  then have "unat (p - 8) = unat p - 8" by (simp add: unat_sub_if')
  then have "\<not> p - 8 < HEAP_START" "\<not> HEAP_END \<le> p - 8"
    using b assms(3) by (simp_all add: HEAP_START_def HEAP_END_def word_less_nat_alt word_le_nat_alt)
  moreover have "p \<noteq> 0" using b by auto
  ultimately have "kfree p s' = Some (Inl (PanicDoubleFree p))"
    using s'(6) by (simp add: kfree_def irq_save_def Let_def)
  then show ?thesis using s' by (intro exI [of _ s'] conjI)
qed

lemma boot_heap_blocks: "heap_blocks (hmem boot_heap) [(0x3FFFF8, True)]"
  by (simp add: boot_heap_def heap_init_blocks)

lemma boot_alloc:
  "\<exists>s1. kmalloc 100 boot_heap = Some (0x400008, s1) \<and>
     heap_blocks (hmem s1) [(100, False), (0x3FFF8C, True)]"
  using kmalloc_cases [OF boot_heap_blocks, of 100] by (auto simp: align_request_def)

theorem kfree_correct_witness:
  "\<exists>s1 s2. kmalloc 100 boot_heap = Some (0x400008, s1) \<and> kfree 0x400008 s1 = Some (Inr s2) \<and>
     live_regions s2 = {}"
proof -
  obtain s1 where s1: "kmalloc 100 boot_heap = Some (0x400008, s1)"
    "heap_blocks (hmem s1) [(100, False), (0x3FFF8C, True)]" using boot_alloc by blast
  then have "heap_ok s1" by (auto simp: heap_ok_def)
  moreover have l: "live_regions s1 = {(unat (0x400008 :: u32), 100)}" using live_regions_eq [OF s1(2)] by simp
  ultimately show ?thesis using kfree_correct [of s1 "0x400008" 100] s1(1) by auto
qed

text \<open>
  Allocating and freeing at once gives back the same list of blocks: no fragmentation is
  left behind.
\<close>

theorem kmalloc_kfree_roundtrip:
  assumes "heap_blocks (hmem s) bs" "coalesced bs" "0 < n" "unat n \<le> 0xFFFFFFFC"
    and "kmalloc n s = Some (p, s1)" "p \<noteq> 0"
  shows "\<exists>s2. kfree p s1 = Some (Inr s2) \<and> heap_blocks (hmem s2) bs \<and> eflags s2 = eflags s"
proof -
  obtain q bs' where qb: "alloc_blocks (unat (align_request n)) 0x400000 bs = Some (q, bs')"
    using kmalloc_cases [OF assms(1), of n] assms(5,6) by (auto split: option.splits)
  with kmalloc_cases [OF assms(1), of n] assms(5) obtain m' where
    m': "p = of_nat (q + 8)" "s1 = s\<lparr>hmem := m'\<rparr>" "heap_blocks m' bs'" by auto
  obtain xs k ys where x: "bs' = xs @ (k, False) # ys" "q = 0x400000 + span xs"
    "unat (align_request n) \<le> k" "free_blocks xs k ys = bs"
    using alloc_free_blocks [OF qb assms(2)] by blast
  have "0 < unat n" using assms(3) by (simp add: word_less_nat_alt)
  then have "0 < k" using align_request_ge(1) [OF assms(4)] x(3) by linarith
  with kfree_refines [of s1 xs k ys] m' x show ?thesis by auto
qed

theorem kmalloc_kfree_roundtrip_witness:
  "\<exists>s1 s2. kmalloc 100 boot_heap = Some (0x400008, s1) \<and> kfree 0x400008 s1 = Some (Inr s2) \<and>
     heap_blocks (hmem s2) [(0x3FFFF8, True)]"
proof -
  obtain s1 where "kmalloc 100 boot_heap = Some (0x400008, s1)" using boot_alloc by blast
  with kmalloc_kfree_roundtrip [OF boot_heap_blocks _ _ _ this] show ?thesis by auto
qed

text \<open>
  C3: in every state the heap can reach from \<open>heap_init\<close>, its blocks tile the heap, the live
  regions lie inside it and are pairwise disjoint, and \<open>kmalloc\<close> returns for every request.
\<close>

theorem heap_reachable_safe:
  assumes "heap_reachable s"
  shows "(\<exists>bs. heap_blocks (hmem s) bs \<and> coalesced bs \<and> span bs = 0x400000) \<and>
    (\<forall>(q, k) \<in> live_regions s. 0x400008 \<le> q \<and> q + k \<le> 0x800000) \<and>
    (\<forall>q k q' k'. (q, k) \<in> live_regions s \<and> (q', k') \<in> live_regions s \<and> (q, k) \<noteq> (q', k') \<longrightarrow>
       q + k \<le> q' \<or> q' + k' \<le> q) \<and>
    (\<forall>n. \<exists>p s'. kmalloc n s = Some (p, s') \<and> heap_reachable s')"
proof -
  have ok: "heap_ok s" by (rule heap_reachable_ok [OF assms])
  then obtain bs where bs: "heap_blocks (hmem s) bs" "coalesced bs" by (auto simp: heap_ok_def)
  then have "span bs = 0x400000"
    using blocks_at_end [of "hmem s" "0x400000" bs] by (simp add: heap_blocks_def)
  then have 1: "\<exists>bs. heap_blocks (hmem s) bs \<and> coalesced bs \<and> span bs = 0x400000" using bs by blast
  have 2: "\<forall>n. \<exists>p s'. kmalloc n s = Some (p, s') \<and> heap_reachable s'"
    using kmalloc_total [OF ok] assms heap_step.malloc heap_reachable.step by metis
  have 3: "\<forall>(q, k) \<in> live_regions s. 0x400008 \<le> q \<and> q + k \<le> 0x800000"
    using live_regions_bounds [OF ok] by auto
  show ?thesis using 1 2 3 live_regions_disjoint [OF ok] by blast
qed

theorem heap_reachable_safe_witness:
  "\<exists>s1. kmalloc 100 boot_heap = Some (0x400008, s1) \<and>
     (\<forall>n. \<exists>p s'. kmalloc n s1 = Some (p, s') \<and> heap_reachable s')"
proof -
  obtain s1 where s1: "kmalloc 100 boot_heap = Some (0x400008, s1)" using boot_alloc by blast
  then have "heap_reachable s1"
    using heap_reachable.init [of "\<lparr>hmem = (\<lambda>_. 0), eflags = 0x202\<rparr>"]
    by (auto simp: boot_heap_def intro: heap_reachable.step heap_step.malloc)
  from heap_reachable_safe [OF this] s1 show ?thesis by blast
qed

text \<open>
  C14: \<open>kmalloc_aligned\<close> with a power-of-two alignment returns NULL or an address that is a
  multiple of the alignment, whose \<open>n\<close> bytes lie in a freshly allocated region behind the hidden
  pointer; \<open>kfree_aligned\<close> of that address then releases exactly this region.
\<close>

theorem kmalloc_aligned_correct:
  assumes "heap_ok s" "power_of_two al" "unat n + unat al + 4 \<le> 0xFFFFFFFC"
  shows "\<exists>p s1. kmalloc_aligned n al s = Some (p, s1) \<and> heap_ok s1 \<and>
    (p = 0 \<or> unat p mod unat al = 0 \<and>
       (\<exists>raw k. live_regions s1 = insert (raw, k) (live_regions s) \<and> raw + 4 \<le> unat p \<and>
          unat p + unat n \<le> raw + k \<and>
          (\<forall>(q, l) \<in> live_regions s. raw + k \<le> q \<or> q + l \<le> raw)) \<and>
       (\<exists>s2. kfree_aligned p s1 = Some (Inr s2) \<and> heap_ok s2 \<and> live_regions s2 = live_regions s))"
proof -
  obtain p s1 where s1: "kmalloc_aligned n al s = Some (p, s1)" "heap_ok s1"
    using kmalloc_aligned_total [OF assms(1,3)] by blast
  show ?thesis
  proof (cases "p = 0")
    case False
    obtain raw k where r: "unat p mod unat al = 0" "(unat raw, k) \<notin> live_regions s"
      "live_regions s1 = insert (unat raw, k) (live_regions s)" "unat raw + 4 \<le> unat p"
      "unat p + unat n \<le> unat raw + k" "hmem s1 (p - 4) = raw"
      using kmalloc_aligned_region [OF assms s1(1) False] by (elim conjE exE)
    have "\<forall>(q, l) \<in> live_regions s. unat raw + k \<le> q \<or> q + l \<le> unat raw"
      using new_region_disjoint [OF s1(2) r(3,2)] by auto
    moreover have "0 < k" using r(4,5) by linarith
    then obtain s2 where s2: "kfree raw s1 = Some (Inr s2)" "heap_ok s2"
      "live_regions s2 = live_regions s1 - {(unat raw, k)}"
      using kfree_live [OF s1(2), of raw k] r(3) by auto
    moreover have "kfree_aligned p s1 = Some (Inr s2)" using s2(1) r(6) False by (simp add: kfree_aligned_def)
    moreover have "live_regions s2 = live_regions s" using s2(3) r(2,3) by auto
    ultimately show ?thesis using s1 r(1,3-5)
      by (intro exI [of _ p] exI [of _ s1] conjI disjI2 exI [of _ "unat raw"] exI [of _ k] exI [of _ s2]) simp_all
  qed (use s1 in blast)
qed

theorem kmalloc_aligned_correct_witness:
  "power_of_two 4096 \<and> (\<exists>p s1. kmalloc_aligned 100 4096 boot_heap = Some (p, s1) \<and> heap_ok s1)"
proof -
  have "heap_ok boot_heap" by (simp add: boot_heap_def heap_init_ok)
  moreover have "power_of_two 4096" by (simp add: power_of_two_def)
  ultimately show ?thesis using kmalloc_aligned_correct [of boot_heap 4096 100] by auto
qed

text \<open>
  two allocations in a row return disjoint regions, and both can then be freed in the order
  they were made.
\<close>

theorem kmalloc_twice:
  assumes "heap_ok s" "0 < n" "0 < n'" "unat n \<le> 0xFFFFFFFC" "unat n' \<le> 0xFFFFFFFC"
    and "kmalloc n s = Some (p, s1)" "p \<noteq> 0" "kmalloc n' s1 = Some (p', s2)" "p' \<noteq> 0"
  shows "(unat p + unat n \<le> unat p' \<or> unat p' + unat n' \<le> unat p) \<and>
    (\<exists>s3 s4. kfree p s2 = Some (Inr s3) \<and> kfree p' s3 = Some (Inr s4) \<and> live_regions s4 = live_regions s)"
proof -
  have disj: "unat p + unat n \<le> unat p' \<or> unat p' + unat n' \<le> unat p"
    by (rule kernel_heap.alloc_alloc_disjoint [OF assms(1,4-9,2,3)])
  have pos: "0 < unat n" "0 < unat n'" using assms(2,3) by (simp_all add: word_less_nat_alt)
  obtain k where k: "unat n \<le> k" "live_regions s1 = insert (unat p, k) (live_regions s)" "(unat p, k) \<notin> live_regions s"
    using kernel_heap.alloc_region [OF assms(1,4,6,7)] by blast
  have ok1: "heap_ok s1" by (rule kernel_heap.alloc_ok [OF assms(1,6)])
  obtain k' where k': "unat n' \<le> k'" "live_regions s2 = insert (unat p', k') (live_regions s1)"
    "(unat p', k') \<notin> live_regions s1"
    using kernel_heap.alloc_region [OF ok1 assms(5,8,9)] by blast
  have "p \<noteq> p'" using disj pos by auto
  with kernel_heap.release_in_any_order [of s2 p k p' k'] kernel_heap.alloc_ok [OF ok1 assms(8)] k k' pos
  obtain s3 s4 where "kfree p s2 = Some (Inr s3)" "kfree p' s3 = Some (Inr s4)"
    "live_regions s4 = live_regions s2 - {(unat p, k), (unat p', k')}" by auto
  with disj k k' show ?thesis by auto
qed

theorem kmalloc_twice_witness:
  "\<exists>s1 p' s2. kmalloc 100 boot_heap = Some (0x400008, s1) \<and> kmalloc 8 s1 = Some (p', s2) \<and>
     (p' = 0 \<or> (\<exists>s3 s4. kfree 0x400008 s2 = Some (Inr s3) \<and> kfree p' s3 = Some (Inr s4)))"
proof -
  obtain s1 where s1: "kmalloc 100 boot_heap = Some (0x400008, s1)" using boot_alloc by blast
  have ok: "heap_ok boot_heap" by (simp add: boot_heap_def heap_init_ok)
  obtain p' s2 where s2: "kmalloc 8 s1 = Some (p', s2)" using kmalloc_total kernel_heap.alloc_ok [OF ok s1] by blast
  show ?thesis using kmalloc_twice [OF ok _ _ _ _ s1 _ s2] s1 s2 by auto
qed

text \<open>
  C39: a request in the last three values of \<open>uint32_t\<close> wraps to zero when it is rounded up: on a
  fresh heap \<open>kmalloc(0xFFFFFFFF)\<close> returns a block of no bytes instead of NULL, and freeing it is
  reported as a corrupted header.
\<close>

theorem kmalloc_huge_request_wraps:
  "\<exists>s1. kmalloc 0xFFFFFFFF (heap_init s) = Some (0x400008, s1) \<and> live_regions s1 = {(0x400008, 0)} \<and>
     kfree 0x400008 s1 = Some (Inl (PanicHeapCorrupt 0x400008))"
proof -
  have "align_request 0xFFFFFFFF = 0" by (simp add: align_request_def)
  with kmalloc_cases [OF heap_init_blocks, of "0xFFFFFFFF" s] obtain m' where
    m': "kmalloc 0xFFFFFFFF (heap_init s) = Some (0x400008, (heap_init s)\<lparr>hmem := m'\<rparr>)"
    "heap_blocks m' [(0, False), (0x3FFFF0, True)]" by auto
  let ?s = "(heap_init s)\<lparr>hmem := m'\<rparr>"
  have "live_regions ?s = {(0x400008, 0)}" using live_regions_eq [of ?s] m'(2) by simp
  moreover have "m' 0x400000 = 0" using m'(2) by (simp add: heap_blocks_def hdr_def)
  then have "kfree 0x400008 ?s = Some (Inl (PanicHeapCorrupt 0x400008))"
    by (simp add: kfree_def irq_save_def Let_def HEAP_START_def HEAP_END_def)
  ultimately show ?thesis using m'(1) by blast
qed

end
