(* ===== verification/Vmm.thy ===== *)
theory Vmm
  imports Pmm Ports
begin

text \<open>
  The virtual memory manager, src/src/memory/vmm/vmm.c: two-level i386 page tables edited
  through a scratchpad page.  Physical memory is a memory of 32-bit cells; the addresses the
  linker gives to \<open>page_directory\<close>, \<open>first_page_table\<close> and \<open>heap_page_table\<close> are a parameter
  (\<open>vmm_layout\<close>).  The kernel is identity mapped below 4 MB, so a global is read and written at
  its physical address, while a pointer to the scratchpad page 0x003FF000 is translated through
  \<open>first_page_table[1023]\<close>, as the MMU does it; whatever that entry holds at the moment decides
  which frame is read or written.  Every change of that entry is followed by \<open>invlpg\<close>, so the
  TLB never holds a stale scratchpad mapping and is not part of the state.

  \<open>translate\<close> is the walk of the MMU; the operations are related to it.
\<close>

unbundle bit_operations_syntax

section \<open>State and addresses\<close>

record vmm_layout =
  page_directory :: addr
  first_page_table :: addr
  heap_page_table :: addr

record vmm_state =
  pmem :: wordmem
  pmm_st :: pmm_state
  cr0 :: u32
  cr3 :: addr
  cpu_flags :: u32

definition frame_of :: "u32 \<Rightarrow> addr" where
  "frame_of x = x AND NOT 0xFFF"

definition page_offset :: "addr \<Rightarrow> u32" where
  "page_offset va = va AND 0xFFF"

definition pdi :: "addr \<Rightarrow> nat" where
  "pdi va = unat (drop_bit 22 va)"

definition pti :: "addr \<Rightarrow> nat" where
  "pti va = unat (drop_bit 12 va AND 0x03FF)"

text \<open>Element \<open>i\<close> of an array of words at an address.\<close>

definition cell :: "addr \<Rightarrow> nat \<Rightarrow> addr" where
  "cell a i = a + 4 * of_nat i"

definition store :: "addr \<Rightarrow> u32 \<Rightarrow> vmm_state \<Rightarrow> vmm_state" where
  "store a v s = s\<lparr>pmem := (pmem s)(a := v)\<rparr>"

text \<open>The scratchpad: the last page of the first page table.\<close>

definition set_scratch :: "vmm_layout \<Rightarrow> u32 \<Rightarrow> vmm_state \<Rightarrow> vmm_state" where
  "set_scratch L v s = store (cell (first_page_table L) 1023) v s"

definition scratch_cell :: "vmm_layout \<Rightarrow> vmm_state \<Rightarrow> nat \<Rightarrow> addr" where
  "scratch_cell L s i = cell (frame_of (pmem s (cell (first_page_table L) 1023))) i"

definition scratch_read :: "vmm_layout \<Rightarrow> nat \<Rightarrow> vmm_state \<Rightarrow> u32" where
  "scratch_read L i s = pmem s (scratch_cell L s i)"

definition scratch_write :: "vmm_layout \<Rightarrow> nat \<Rightarrow> u32 \<Rightarrow> vmm_state \<Rightarrow> vmm_state" where
  "scratch_write L i v s = store (scratch_cell L s i) v s"

text \<open>The loop that zeroes scratchpad words \<open>i\<close>, \<open>i + 1\<close>, ... (\<open>n\<close> of them).\<close>

primrec scratch_zero :: "vmm_layout \<Rightarrow> nat \<Rightarrow> nat \<Rightarrow> vmm_state \<Rightarrow> vmm_state" where
  "scratch_zero L i 0 s = s"
| "scratch_zero L i (Suc n) s = scratch_zero L (Suc i) n (scratch_write L i 0 s)"

section \<open>Operations\<close>

primrec fill_table :: "addr \<Rightarrow> (nat \<Rightarrow> u32) \<Rightarrow> nat \<Rightarrow> vmm_state \<Rightarrow> vmm_state" where
  "fill_table a f 0 s = s"
| "fill_table a f (Suc n) s = store (cell a n) (f n) (fill_table a f n s)"

definition vmm_init :: "vmm_layout \<Rightarrow> vmm_state \<Rightarrow> vmm_state" where
  "vmm_init L s =
     (let s1 = fill_table (first_page_table L) (\<lambda>i. (of_nat i * 4096) OR 3) 1024 s;
          s2 = fill_table (heap_page_table L) (\<lambda>i. ((of_nat i + 1024) * 4096) OR 3) 1024 s1;
          s3 = store (cell (page_directory L) 0) (first_page_table L OR 3) s2;
          s4 = store (cell (page_directory L) 1) (heap_page_table L OR 3) s3
      in s4\<lparr>cr3 := page_directory L, cr0 := cr0 s4 OR 0x80000000\<rparr>)"

text \<open>Allocation and zeroing of a missing page table of the kernel's own directory.\<close>

definition vmm_new_table :: "vmm_layout \<Rightarrow> nat \<Rightarrow> vmm_state \<Rightarrow> vmm_state kres" where
  "vmm_new_table L d s =
     (if pmem s (cell (page_directory L) d) AND 1 = 0
      then let (new_table_physical, p) = pmm_alloc_frame (pmm_st s)
           in if new_table_physical = 0 then Inl PanicOutOfFrames
              else let s1 = store (cell (page_directory L) d) (new_table_physical OR 7) (s\<lparr>pmm_st := p\<rparr>);
                       s2 = scratch_zero L 0 1024 (set_scratch L (new_table_physical OR 7) s1)
                   in Inr (set_scratch L 0 s2)
      else Inr s)"

definition vmm_map_page :: "vmm_layout \<Rightarrow> addr \<Rightarrow> addr \<Rightarrow> u32 \<Rightarrow> vmm_state \<Rightarrow> vmm_state kres" where
  "vmm_map_page L physical_address virtual_address flags s =
     (if virtual_address AND 0xFFF \<noteq> 0 then Inl (PanicMapUnaligned virtual_address)
      else if pmm_is_frame_free (drop_bit 12 physical_address) (pmm_st s)
      then Inl (PanicMapUnallocated physical_address)
      else let (irq_state, e) = irq_save (cpu_flags s)
           in kbind (vmm_new_table L (pdi virtual_address) (s\<lparr>cpu_flags := e\<rparr>)) (\<lambda>s1.
             let s2 = set_scratch L (frame_of (pmem s1 (cell (page_directory L) (pdi virtual_address))) OR 3) s1;
                 s3 = scratch_write L (pti virtual_address) (physical_address OR flags) s2;
                 s4 = set_scratch L 0 s3
             in Inr (s4\<lparr>cpu_flags := irq_restore irq_state (cpu_flags s4)\<rparr>)))"

definition vmm_unmap_page :: "vmm_layout \<Rightarrow> addr \<Rightarrow> vmm_state \<Rightarrow> vmm_state" where
  "vmm_unmap_page L virtual_address s =
     (let (irq_state, e) = irq_save (cpu_flags s);
          s0 = s\<lparr>cpu_flags := e\<rparr>;
          pde = pmem s0 (cell (page_directory L) (pdi virtual_address))
      in if pde AND 1 = 0 then s0
         else let s1 = set_scratch L (frame_of pde OR 3) s0;
                  s2 = scratch_write L (pti virtual_address) 0 s1;
                  s3 = set_scratch L 0 s2
              in s3\<lparr>cpu_flags := irq_restore irq_state (cpu_flags s3)\<rparr>)"

definition vmm_get_physical :: "vmm_layout \<Rightarrow> addr \<Rightarrow> vmm_state \<Rightarrow> u32 \<times> vmm_state" where
  "vmm_get_physical L virtual_address s =
     (let (irq_state, e) = irq_save (cpu_flags s);
          s0 = s\<lparr>cpu_flags := e\<rparr>;
          pde = pmem s0 (cell (page_directory L) (pdi virtual_address))
      in if pde AND 1 = 0 then (0, s0)
         else let s1 = set_scratch L (frame_of pde OR 3) s0;
                  pte = scratch_read L (pti virtual_address) s1;
                  physical = (if pte AND 1 \<noteq> 0 then frame_of pte OR page_offset virtual_address else 0);
                  s2 = set_scratch L 0 s1
              in (physical, s2\<lparr>cpu_flags := irq_restore irq_state (cpu_flags s2)\<rparr>))"

text \<open>The walk over the directory entries \<open>i\<close>, \<open>i + 1\<close>, ... (\<open>n\<close> of them) that frees the tables.\<close>

primrec vmm_destroy_loop :: "vmm_layout \<Rightarrow> nat \<Rightarrow> nat \<Rightarrow> vmm_state \<Rightarrow> vmm_state kres" where
  "vmm_destroy_loop L i 0 s = Inr s"
| "vmm_destroy_loop L i (Suc n) s =
     (if scratch_read L i s AND 1 \<noteq> 0
      then kbind (pmm_free_block (frame_of (scratch_read L i s)) 1 (pmm_st s))
             (\<lambda>p. vmm_destroy_loop L (Suc i) n (s\<lparr>pmm_st := p\<rparr>))
      else vmm_destroy_loop L (Suc i) n s)"

definition vmm_destroy_address_space :: "vmm_layout \<Rightarrow> addr \<Rightarrow> vmm_state \<Rightarrow> vmm_state kres" where
  "vmm_destroy_address_space L page_directory_phys s =
     (if page_directory_phys = 0 then Inl PanicNullPageDirectory
      else let (irq_state, e) = irq_save (cpu_flags s);
               s1 = set_scratch L (page_directory_phys OR 3) (s\<lparr>cpu_flags := e\<rparr>)
           in kbind (vmm_destroy_loop L 2 1022 s1) (\<lambda>s2.
                let s3 = set_scratch L 0 s2
                in kbind (pmm_free_block page_directory_phys 1 (pmm_st s3)) (\<lambda>p.
                     Inr (s3\<lparr>pmm_st := p, cpu_flags := irq_restore irq_state (cpu_flags s3)\<rparr>))))"

definition vmm_create_address_space :: "vmm_layout \<Rightarrow> vmm_state \<Rightarrow> addr \<times> vmm_state" where
  "vmm_create_address_space L s =
     (let (pdir_phys, p) = pmm_alloc_frame (pmm_st s)
      in if pdir_phys = 0 then (0, s\<lparr>pmm_st := p\<rparr>)
         else let (irq_state, e) = irq_save (cpu_flags s);
                  s1 = set_scratch L (pdir_phys OR 3) (s\<lparr>pmm_st := p, cpu_flags := e\<rparr>);
                  s2 = scratch_write L 0 (pmem s1 (cell (first_page_table L) 0) OR 3) s1;
                  s3 = scratch_write L 1 (pmem s2 (cell (heap_page_table L) 0) OR 3) s2;
                  s4 = scratch_zero L 2 1022 s3;
                  s5 = scratch_write L 0 (pmem s4 (cell (page_directory L) 0) AND NOT 4) s4;
                  s6 = scratch_write L 1 (pmem s5 (cell (page_directory L) 1) AND NOT 4) s5;
                  s7 = set_scratch L 0 s6
              in (pdir_phys, s7\<lparr>cpu_flags := irq_restore irq_state (cpu_flags s7)\<rparr>))"

definition vmm_map_page_current :: "vmm_layout \<Rightarrow> addr \<Rightarrow> addr \<Rightarrow> u32 \<Rightarrow> vmm_state \<Rightarrow> vmm_state kres" where
  "vmm_map_page_current L physical_address virtual_address flags s =
     (if virtual_address AND 0xFFF \<noteq> 0 then Inl (PanicMapUnaligned virtual_address)
      else let (irq_state, e) = irq_save (cpu_flags s);
               d = pdi virtual_address;
               s1 = set_scratch L (cr3 s OR 3) (s\<lparr>cpu_flags := e\<rparr>)
           in kbind
                (if scratch_read L d s1 AND 1 = 0
                 then let (new_table_phys, p) = pmm_alloc_frame (pmm_st s1)
                      in if new_table_phys = 0 then Inl PanicOutOfFrames
                         else let s2 = scratch_write L d (new_table_phys OR 7) (s1\<lparr>pmm_st := p\<rparr>);
                                  s3 = set_scratch L (new_table_phys OR 3) s2
                              in Inr (scratch_zero L 0 1024 s3)
                 else Inr s1)
                (\<lambda>s4. let s5 = set_scratch L (frame_of (scratch_read L d s4) OR 3) s4;
                          s6 = scratch_write L (pti virtual_address) (physical_address OR flags) s5;
                          s7 = set_scratch L 0 s6
                      in Inr (s7\<lparr>cpu_flags := irq_restore irq_state (cpu_flags s7)\<rparr>)))"

definition vmm_map_page_in_pdir ::
  "vmm_layout \<Rightarrow> addr \<Rightarrow> addr \<Rightarrow> addr \<Rightarrow> u32 \<Rightarrow> vmm_state \<Rightarrow> vmm_state kres" where
  "vmm_map_page_in_pdir L pdir_phys phys_addr virt_addr flags s =
     (let (irq_state, e) = irq_save (cpu_flags s);
          d = pdi virt_addr;
          s1 = set_scratch L (frame_of pdir_phys OR 3) (s\<lparr>cpu_flags := e\<rparr>)
      in kbind
           (if scratch_read L d s1 AND 1 = 0
            then let (new_ptable, p) = pmm_alloc_frame (pmm_st s1)
                 in if new_ptable = 0 then Inl PanicOutOfFrames
                    else let s2 = scratch_write L d (new_ptable OR 7) (s1\<lparr>pmm_st := p\<rparr>);
                             s3 = scratch_zero L 0 1024 (set_scratch L (new_ptable OR 3) s2)
                         in Inr (set_scratch L (frame_of pdir_phys OR 3) s3)
            else Inr s1)
           (\<lambda>s4. let ptable_phys = frame_of (scratch_read L d s4);
                     s5 = set_scratch L (ptable_phys OR 3) s4;
                     s6 = scratch_write L (pti virt_addr) (frame_of phys_addr OR flags) s5;
                     s7 = set_scratch L 0 s6
                 in Inr (s7\<lparr>cpu_flags := irq_restore irq_state (cpu_flags s7)\<rparr>)))"

section \<open>What the MMU sees\<close>

definition translate :: "wordmem \<Rightarrow> addr \<Rightarrow> addr \<Rightarrow> addr option" where
  "translate m pd va =
     (let pde = m (cell pd (pdi va))
      in if pde AND 1 = 0 then None
         else let pte = m (cell (frame_of pde) (pti va))
              in if pte AND 1 = 0 then None else Some (frame_of pte OR page_offset va))"

section \<open>Address arithmetic\<close>

definition page_aligned :: "addr \<Rightarrow> bool" where
  "page_aligned a \<longleftrightarrow> frame_of a = a"

definition frame_number :: "addr \<Rightarrow> nat" where
  "frame_number a = unat a div 4096"

lemma mask_12: "(0xFFF :: u32) = mask 12"
  by (simp add: mask_eq_exp_minus_1)

lemma unat_frame_of: "unat (frame_of x) = unat x - unat x mod 4096"
  unfolding frame_of_def mask_12 by (simp only: unat_align_down) simp

lemma frame_of_idem [simp]: "frame_of (frame_of x) = frame_of x"
  by (simp add: frame_of_def and.assoc)

lemma page_aligned_frame_of [simp]: "page_aligned (frame_of x)"
  by (simp add: page_aligned_def)

lemma page_aligned_dvd: "page_aligned a \<longleftrightarrow> 4096 dvd unat a"
proof -
  have "page_aligned a \<longleftrightarrow> unat a - unat a mod 4096 = unat a"
    by (simp add: page_aligned_def word_unat_eq_iff unat_frame_of)
  also have "\<dots> \<longleftrightarrow> unat a mod 4096 = 0" by (metis diff_diff_cancel diff_self_eq_0 diff_zero mod_less_eq_dividend)
  finally show ?thesis by (simp add: dvd_eq_mod_eq_0)
qed

lemma page_aligned_bound: "page_aligned a \<Longrightarrow> unat a \<le> 2 ^ 32 - 4096"
proof -
  assume "page_aligned a"
  then obtain k where "unat a = 4096 * k" by (auto simp: page_aligned_dvd elim!: dvdE)
  with unsigned_less [of a, where ?'a = nat] show ?thesis by simp
qed

lemma frame_of_or: "page_aligned a \<Longrightarrow> f < 0x1000 \<Longrightarrow> frame_of (a OR f) = a"
proof -
  assume a: "page_aligned a" and f: "f < 0x1000"
  have "unat (frame_of f) = 0" using f by (simp add: unat_frame_of word_less_nat_alt)
  then have "frame_of f = 0" by (simp add: unat_eq_zero)
  then show ?thesis using a by (simp add: frame_of_def page_aligned_def bit.conj_disj_distrib2)
qed

lemma frame_of_flags [simp]:
  "frame_of (frame_of x OR 3) = frame_of x" "page_aligned a \<Longrightarrow> frame_of (a OR 3) = a"
  "page_aligned a \<Longrightarrow> frame_of (a OR 7) = a"
  by (simp_all add: frame_of_or)

lemma present_or [simp]: "(a OR 3 :: u32) AND 1 \<noteq> 0" "(a OR 7 :: u32) AND 1 \<noteq> 0"
  by (simp_all add: and_one_eq mod_2_eq_odd even_or_iff)

lemma frame_addr_aligned [simp]: "f < 1048576 \<Longrightarrow> page_aligned (frame_addr f)"
  by (simp add: page_aligned_dvd frame_addr_div(2))

lemma frame_number_addr [simp]: "f < 1048576 \<Longrightarrow> frame_number (frame_addr f) = f"
  by (simp add: frame_number_def frame_addr_div(2))

lemma frame_number_lt [simp]: "frame_number a < 1048576"
  using unat_lt_u32 [of a] by (simp add: frame_number_def less_mult_imp_div_less)

lemma frame_addr_number: "page_aligned a \<Longrightarrow> frame_addr (frame_number a) = a"
  using frame_addr_div(2) [OF frame_number_lt [of a]]
  by (auto simp: page_aligned_dvd word_unat_eq_iff frame_number_def)

lemma unat_cell: "page_aligned a \<Longrightarrow> i < 1024 \<Longrightarrow> unat (cell a i) = unat a + 4 * i"
  using page_aligned_bound [of a] unat_of_nat_u32 [of "4 * i"]
  by (simp add: cell_def unat_plus_u32)

lemma cell_inj:
  assumes "page_aligned a" "page_aligned b" "i < 1024" "j < 1024"
  shows "cell a i = cell b j \<longleftrightarrow> a = b \<and> i = j"
proof
  assume "cell a i = cell b j"
  then have e: "unat a + 4 * i = unat b + 4 * j" using unat_cell assms by metis
  obtain x y where x: "unat a = 4096 * x" "unat b = 4096 * y"
    using assms(1,2) by (auto simp: page_aligned_dvd elim!: dvdE)
  have "x = (4096 * x + 4 * i) div 4096" "y = (4096 * y + 4 * j) div 4096" using assms(3,4) by auto
  then have "x = y" using e x by metis
  then show "a = b \<and> i = j" using e x by (simp add: word_unat_eq_iff)
qed simp

lemma unat_drop_bit_u32: "unat (drop_bit n (x :: u32)) = unat x div 2 ^ n"
  by (subst unat_drop_bit_eq) (rule drop_bit_eq_div)

lemma pdi_lt [simp]: "pdi va < 1024"
proof -
  have "unat (drop_bit 22 va) = unat va div 2 ^ 22" by (rule unat_drop_bit_u32)
  then show ?thesis using unat_lt_u32 [of va] by (simp add: pdi_def less_mult_imp_div_less)
qed

lemma pti_eq: "pti va = unat va div 4096 mod 1024"
proof -
  have "(0x3FF :: u32) = mask 10" by (simp add: mask_eq_exp_minus_1)
  then have "pti va = unat (take_bit 10 (drop_bit 12 va))" by (simp add: pti_def take_bit_eq_mask)
  also have "\<dots> = take_bit 10 (unat (drop_bit 12 va))" by (rule unsigned_take_bit_eq)
  finally have "pti va = unat va div 2 ^ 12 mod 2 ^ 10"
    by (simp only: unat_drop_bit_u32 take_bit_eq_mod)
  then show ?thesis by simp
qed

lemma pdi_eq: "pdi va = unat va div 4096 div 1024"
proof -
  have "pdi va = unat va div 2 ^ 22" by (simp only: pdi_def unat_drop_bit_u32)
  then show ?thesis by (simp add: div_mult2_eq [symmetric])
qed

lemma pti_lt [simp]: "pti va < 1024"
  by (simp add: pti_eq)

definition same_page :: "addr \<Rightarrow> addr \<Rightarrow> bool" where
  "same_page va va' \<longleftrightarrow> frame_of va = frame_of va'"

lemma same_page_iff: "same_page va va' \<longleftrightarrow> pdi va = pdi va' \<and> pti va = pti va'"
proof -
  have d: "unat x - unat x mod 4096 = 4096 * (unat x div 4096)" for x :: u32
    by (simp add: minus_mod_eq_mult_div)
  have "same_page va va' \<longleftrightarrow> unat va div 4096 = unat va' div 4096"
    by (simp add: same_page_def word_unat_eq_iff unat_frame_of d)
  also have "\<dots> \<longleftrightarrow> pdi va = pdi va' \<and> pti va = pti va'"
    unfolding pdi_eq pti_eq by (metis div_mult_mod_eq)
  finally show ?thesis .
qed

section \<open>The scratchpad\<close>

lemma store_simps [simp]:
  "pmem (store a v s) = (pmem s)(a := v)" "pmm_st (store a v s) = pmm_st s"
  "cr3 (store a v s) = cr3 s" "cpu_flags (store a v s) = cpu_flags s"
  by (simp_all add: store_def)

lemma set_scratch_simps [simp]:
  "pmem (set_scratch L v s) = (pmem s)(cell (first_page_table L) 1023 := v)"
  "pmm_st (set_scratch L v s) = pmm_st s" "cpu_flags (set_scratch L v s) = cpu_flags s"
  by (simp_all add: set_scratch_def)

definition zero_cells :: "addr \<Rightarrow> nat \<Rightarrow> nat \<Rightarrow> wordmem \<Rightarrow> wordmem" where
  "zero_cells a i n m = (\<lambda>c. if \<exists>j. i \<le> j \<and> j < i + n \<and> c = cell a j then 0 else m c)"

lemma scratch_zero_effect:
  assumes "frame_of (pmem s (cell (first_page_table L) 1023)) = a" "a \<noteq> first_page_table L"
    and "page_aligned (first_page_table L)" "i + n \<le> 1024"
  shows "scratch_zero L i n s = s\<lparr>pmem := zero_cells a i n (pmem s)\<rparr>"
  using assms
proof (induction n arbitrary: i s)
  case 0
  have "zero_cells a i 0 (pmem s) = pmem s" by (auto simp: zero_cells_def fun_eq_iff)
  then show ?case by simp
next
  case (Suc n)
  let ?s = "scratch_write L i 0 s"
  have a: "page_aligned a" using Suc.prems(1) by auto
  have w: "?s = s\<lparr>pmem := (pmem s)(cell a i := 0)\<rparr>"
    using Suc.prems(1) by (simp add: scratch_write_def scratch_cell_def store_def)
  have ne: "cell (first_page_table L) 1023 \<noteq> cell a i"
    using cell_inj [of "first_page_table L" a 1023 i] a Suc.prems by auto
  have "scratch_zero L (Suc i) n ?s = ?s\<lparr>pmem := zero_cells a (Suc i) n (pmem ?s)\<rparr>"
    using Suc.prems ne w by (intro Suc.IH) simp_all
  moreover have "zero_cells a (Suc i) n ((pmem s)(cell a i := 0)) = zero_cells a i (Suc n) (pmem s)"
    by (auto simp: zero_cells_def fun_eq_iff le_Suc_eq Suc_le_eq)
  ultimately show ?case by (simp add: w)
qed

lemma zero_cells_other:
  assumes "page_aligned a" "page_aligned b" "a \<noteq> b" "j < 1024" "i + n \<le> 1024"
  shows "zero_cells a i n m (cell b j) = m (cell b j)"
  using assms by (auto simp: zero_cells_def cell_inj)

lemma zero_cells_upd_other:
  assumes "page_aligned a" "page_aligned b" "a \<noteq> b" "j < 1024" "i + n \<le> 1024"
  shows "zero_cells a i n (m(cell b j := v)) = (zero_cells a i n m)(cell b j := v)"
  using assms by (auto simp: zero_cells_def cell_inj fun_eq_iff)

lemma zero_cells_hit: "i \<le> j \<Longrightarrow> j < i + n \<Longrightarrow> zero_cells a i n m (cell a j) = 0"
  by (auto simp: zero_cells_def)

section \<open>The invariant and the abstract map operation\<close>

text \<open>
  The kernel's own tables are page aligned, distinct and not free; the scratchpad is unmapped.
  A page directory is well formed when it and its tables are frames in use, no two entries
  share a table, and the first page table serves entry 0 only.
\<close>

definition layout_ok :: "vmm_layout \<Rightarrow> bool" where
  "layout_ok L \<longleftrightarrow> page_aligned (page_directory L) \<and> page_aligned (first_page_table L) \<and>
     page_aligned (heap_page_table L) \<and>
     distinct [page_directory L, first_page_table L, heap_page_table L]"

definition frame_used :: "pmm_state \<Rightarrow> addr \<Rightarrow> bool" where
  "frame_used p a \<longleftrightarrow> frame_number a \<notin> free_frames p"

definition vmm_ok :: "vmm_layout \<Rightarrow> vmm_state \<Rightarrow> bool" where
  "vmm_ok L s \<longleftrightarrow> layout_ok L \<and> pmem s (cell (first_page_table L) 1023) = 0 \<and> pmm_inv (pmm_st s) \<and>
     frame_used (pmm_st s) (page_directory L) \<and> frame_used (pmm_st s) (first_page_table L) \<and>
     frame_used (pmm_st s) (heap_page_table L)"

definition present :: "wordmem \<Rightarrow> addr \<Rightarrow> nat \<Rightarrow> bool" where
  "present m pd d \<longleftrightarrow> m (cell pd d) AND 1 \<noteq> 0"

definition table :: "wordmem \<Rightarrow> addr \<Rightarrow> nat \<Rightarrow> addr" where
  "table m pd d = frame_of (m (cell pd d))"

definition dir_ok :: "vmm_layout \<Rightarrow> wordmem \<Rightarrow> pmm_state \<Rightarrow> addr \<Rightarrow> bool" where
  "dir_ok L m p pd \<longleftrightarrow> page_aligned pd \<and> pd \<noteq> first_page_table L \<and> frame_used p pd \<and>
     (\<forall>d < 1024. present m pd d \<longrightarrow> frame_used p (table m pd d) \<and> table m pd d \<noteq> pd \<and>
        (table m pd d = first_page_table L \<longrightarrow> d = 0)) \<and>
     (\<forall>d < 1024. \<forall>e < 1024. present m pd d \<and> present m pd e \<and> table m pd d = table m pd e \<longrightarrow> d = e)"

definition spec_map :: "addr \<Rightarrow> addr \<Rightarrow> u32 \<Rightarrow> wordmem \<times> pmm_state \<Rightarrow> (wordmem \<times> pmm_state) option" where
  "spec_map pd va pte = (\<lambda>(m, p).
     if m (cell pd (pdi va)) AND 1 = 0
     then (case pmm_alloc_frame p of (f, p') \<Rightarrow>
             if f = 0 then None
             else Some ((zero_cells f 0 1024 m)(cell pd (pdi va) := f OR 7, cell f (pti va) := pte), p'))
     else Some (m(cell (table m pd (pdi va)) (pti va) := pte), p))"

text \<open>A frame the allocator hands out is none of the frames in use.\<close>

lemma alloc_fresh:
  assumes "pmm_inv p" "pmm_alloc_frame p = (f, p')" "f \<noteq> 0"
  shows "page_aligned f" "pmm_inv p'" "free_frames p' = free_frames p - {frame_number f}"
    "frame_number f \<in> free_frames p" "frame_used p' f" "\<And>a. frame_used p a \<Longrightarrow> a \<noteq> f \<and> frame_used p' a"
proof -
  obtain g where g: "f = frame_addr g" "g < 1048576" "g \<in> free_frames p" "free_frames p' = free_frames p - {g}"
    "pmm_inv p'"
    using frames.alloc_nonzero [OF assms] by blast
  then show "page_aligned f" "pmm_inv p'" "free_frames p' = free_frames p - {frame_number f}"
    "frame_number f \<in> free_frames p" "frame_used p' f" by (simp_all add: frame_used_def)
  show "a \<noteq> f \<and> frame_used p' a" if "frame_used p a" for a
  proof -
    have "frame_number a \<noteq> g" using that g(3) by (auto simp: frame_used_def)
    moreover have "frame_number f = g" using g(1,2) by simp
    ultimately show ?thesis using that g(4) by (auto simp: frame_used_def)
  qed
qed

text \<open>The directory entry and its table, away from the scratchpad's own entry.\<close>

lemma dir_cells:
  assumes "layout_ok L" "dir_ok L m p pd" "d < 1024"
  shows "cell pd d \<noteq> cell (first_page_table L) 1023"
    and "present m pd d \<Longrightarrow> t < 1024 \<Longrightarrow> \<not> (d = 0 \<and> t = 1023) \<Longrightarrow>
      cell (table m pd d) t \<noteq> cell (first_page_table L) 1023"
proof -
  have a: "page_aligned pd" "pd \<noteq> first_page_table L" "page_aligned (first_page_table L)"
    using assms by (auto simp: dir_ok_def layout_ok_def)
  then show "cell pd d \<noteq> cell (first_page_table L) 1023" using assms(3) by (simp add: cell_inj)
  have f: "page_aligned (table m pd d)" by (simp add: table_def)
  show "cell (table m pd d) t \<noteq> cell (first_page_table L) 1023"
    if "present m pd d" "t < 1024" "\<not> (d = 0 \<and> t = 1023)"
    using that a f assms(2,3) by (auto simp: cell_inj dir_ok_def)
qed

text \<open>The frame for a missing table is fresh.\<close>

lemma new_table_fresh:
  assumes "vmm_ok L s" "dir_ok L m (pmm_st s) pd" "pmm_alloc_frame (pmm_st s) = (f, p')" "f \<noteq> 0"
  shows "page_aligned f" "f \<noteq> pd" "f \<noteq> first_page_table L" "f \<noteq> page_directory L" "f \<noteq> heap_page_table L"
    and "page_aligned pd" "page_aligned (first_page_table L)" "pd \<noteq> first_page_table L"
  using assms alloc_fresh [of "pmm_st s" f p'] by (auto simp: vmm_ok_def dir_ok_def layout_ok_def)

definition lift_map :: "(wordmem \<times> pmm_state) option \<Rightarrow> vmm_state \<Rightarrow> vmm_state kres" where
  "lift_map r s = (case r of None \<Rightarrow> Inl PanicOutOfFrames | Some (m, p) \<Rightarrow> Inr (s\<lparr>pmem := m, pmm_st := p\<rparr>))"

lemma vmm_new_table_effect:
  assumes ok: "vmm_ok L s" and dir: "dir_ok L (pmem s) (pmm_st s) (page_directory L)" and d: "d < 1024"
    and absent: "\<not> present (pmem s) (page_directory L) d"
  shows "vmm_new_table L d s =
    (case pmm_alloc_frame (pmm_st s) of (f, p') \<Rightarrow>
       if f = 0 then Inl PanicOutOfFrames
       else Inr (s\<lparr>pmem := (zero_cells f 0 1024 (pmem s))(cell (page_directory L) d := f OR 7), pmm_st := p'\<rparr>))"
proof (cases "pmm_alloc_frame (pmm_st s)")
  case (Pair f p')
  show ?thesis
  proof (cases "f = 0")
    case True
    then show ?thesis using absent Pair by (simp add: vmm_new_table_def present_def)
  next
    case False
    let ?pd = "page_directory L" and ?sc = "cell (first_page_table L) 1023"
    note fresh = new_table_fresh [OF ok dir Pair False]
    let ?s2 = "set_scratch L (f OR 7) (store (cell ?pd d) (f OR 7) (s\<lparr>pmm_st := p'\<rparr>))"
    have z: "scratch_zero L 0 1024 ?s2 = ?s2\<lparr>pmem := zero_cells f 0 1024 (pmem ?s2)\<rparr>"
      using fresh by (intro scratch_zero_effect) simp_all
    have "zero_cells f 0 1024 (pmem ?s2) = (zero_cells f 0 1024 (pmem s))(cell ?pd d := f OR 7, ?sc := f OR 7)"
      using fresh d by (simp add: zero_cells_upd_other)
    moreover have "zero_cells f 0 1024 (pmem s) ?sc = 0"
      using ok fresh by (simp add: zero_cells_other vmm_ok_def)
    moreover have "cell ?pd d \<noteq> ?sc" using dir_cells(1) [OF _ dir d] ok by (simp add: vmm_ok_def)
    ultimately have "(zero_cells f 0 1024 (pmem ?s2))(?sc := 0) = (zero_cells f 0 1024 (pmem s))(cell ?pd d := f OR 7)"
      by (auto simp: fun_eq_iff)
    then have "set_scratch L 0 (scratch_zero L 0 1024 ?s2) =
        s\<lparr>pmem := (zero_cells f 0 1024 (pmem s))(cell ?pd d := f OR 7), pmm_st := p'\<rparr>"
      unfolding z by (simp add: set_scratch_def store_def)
    then show ?thesis using absent Pair False by (simp add: vmm_new_table_def present_def)
  qed
qed

lemma scratch_table_write:
  assumes "pmem s (cell (first_page_table L) 1023) = 0" "page_aligned a"
    and "cell a t \<noteq> cell (first_page_table L) 1023"
  shows "set_scratch L 0 (scratch_write L t v (set_scratch L (a OR 3) s)) = s\<lparr>pmem := (pmem s)(cell a t := v)\<rparr>"
proof -
  have "(pmem s)(cell (first_page_table L) 1023 := a OR 3, cell a t := v, cell (first_page_table L) 1023 := 0)
      = (pmem s)(cell a t := v)" using assms by (auto simp: fun_eq_iff)
  then show ?thesis using assms(2)
    by (simp add: set_scratch_def store_def scratch_write_def scratch_cell_def)
qed

lemma vmm_map_page_refines:
  assumes ok: "vmm_ok L s" and dir: "dir_ok L (pmem s) (pmm_st s) (page_directory L)"
    and va: "page_offset va = 0" "\<not> (pdi va = 0 \<and> pti va = 1023)"
    and used: "\<not> pmm_is_frame_free (drop_bit 12 pa) (pmm_st s)"
  shows "vmm_map_page L pa va fl s = lift_map (spec_map (page_directory L) va (pa OR fl) (pmem s, pmm_st s)) s"
proof -
  let ?pd = "page_directory L" and ?d = "pdi va" and ?t = "pti va" and ?m = "pmem s"
  let ?e = "cpu_flags s AND NOT interrupt_flag"
  let ?s0 = "s\<lparr>cpu_flags := ?e\<rparr>"
  have sc: "?m (cell (first_page_table L) 1023) = 0" and lay: "layout_ok L" using ok by (simp_all add: vmm_ok_def)
  have ok0: "vmm_ok L ?s0" "dir_ok L (pmem ?s0) (pmm_st ?s0) ?pd" using ok dir by (simp_all add: vmm_ok_def)
  have start: "vmm_map_page L pa va fl s = kbind (vmm_new_table L ?d ?s0) (\<lambda>s1.
      let s4 = set_scratch L 0 (scratch_write L ?t (pa OR fl) (set_scratch L (table (pmem s1) ?pd ?d OR 3) s1))
      in Inr (s4\<lparr>cpu_flags := cpu_flags s\<rparr>))"
    using va used by (simp add: vmm_map_page_def page_offset_def irq_save_def irq_restore_def table_def Let_def)
  show ?thesis
  proof (cases "present ?m ?pd ?d")
    case True
    then have "vmm_new_table L ?d ?s0 = Inr ?s0" by (simp add: vmm_new_table_def present_def)
    moreover have "cell (table ?m ?pd ?d) ?t \<noteq> cell (first_page_table L) 1023"
      using dir_cells(2) [OF lay dir _ True] va(2) by simp
    ultimately show ?thesis
      using True sc scratch_table_write [of ?s0 L "table ?m ?pd ?d" ?t "pa OR fl"]
      by (simp add: start spec_map_def present_def lift_map_def table_def Let_def)
  next
    case False
    obtain f p' where al: "pmm_alloc_frame (pmm_st s) = (f, p')" by fastforce
    show ?thesis
    proof (cases "f = 0")
      case True
      then show ?thesis using False al vmm_new_table_effect [OF ok0]
        by (simp add: start spec_map_def present_def lift_map_def)
    next
      case nz: False
      note fresh = new_table_fresh [OF ok dir al nz]
      let ?m1 = "(zero_cells f 0 1024 ?m)(cell ?pd ?d := f OR 7)"
      let ?s1 = "?s0\<lparr>pmem := ?m1, pmm_st := p'\<rparr>"
      have "vmm_new_table L ?d ?s0 = Inr ?s1"
        using False al nz vmm_new_table_effect [OF ok0] by simp
      moreover have "table ?m1 ?pd ?d = f" using fresh(1) by (simp add: table_def)
      moreover have "?m1 (cell (first_page_table L) 1023) = 0"
        using sc fresh dir_cells(1) [OF lay dir, of ?d] by (simp add: zero_cells_other)
      moreover have "cell f ?t \<noteq> cell (first_page_table L) 1023" using fresh by (simp add: cell_inj)
      ultimately show ?thesis
        using False al nz fresh(1) scratch_table_write [of ?s1 L f ?t "pa OR fl"]
        by (simp add: start spec_map_def present_def lift_map_def Let_def)
    qed
  qed
qed

lemma scratch_write_set:
  "scratch_write L i v (set_scratch L x s) = store (cell (frame_of x) i) v (set_scratch L x s)"
  by (simp add: scratch_write_def scratch_cell_def)

lemma scratch_read_set:
  "scratch_read L i (set_scratch L x s) = ((pmem s)(cell (first_page_table L) 1023 := x)) (cell (frame_of x) i)"
  by (simp add: scratch_read_def scratch_cell_def)

lemma set_scratch_store:
  "a \<noteq> cell (first_page_table L) 1023 \<Longrightarrow>
     set_scratch L y (store a v (set_scratch L x s)) = set_scratch L y (store a v s)"
  by (auto simp: set_scratch_def store_def fun_eq_iff)

lemma set_scratch_twice: "set_scratch L y (set_scratch L x s) = set_scratch L y s"
  by (simp add: set_scratch_def store_def)

text \<open>The part of \<open>vmm_map_page_in_pdir\<close> that makes sure the table exists.\<close>

lemma pdir_new_table:
  assumes ok: "vmm_ok L s" and dir: "dir_ok L (pmem s) (pmm_st s) pd" and d: "d < 1024"
    and al: "pmm_alloc_frame (pmm_st s) = (f, p')" "f \<noteq> 0"
  shows "scratch_zero L 0 1024 (set_scratch L (f OR 3)
           (scratch_write L d (f OR 7) ((set_scratch L (pd OR 3) s)\<lparr>pmm_st := p'\<rparr>))) =
         set_scratch L (f OR 3) (s\<lparr>pmem := (zero_cells f 0 1024 (pmem s))(cell pd d := f OR 7), pmm_st := p'\<rparr>)"
proof -
  note fresh = new_table_fresh [OF ok dir al]
  let ?sc = "cell (first_page_table L) 1023"
  let ?s2 = "set_scratch L (f OR 3) (store (cell pd d) (f OR 7) (s\<lparr>pmm_st := p'\<rparr>))"
  have ne: "cell pd d \<noteq> ?sc" using fresh d by (simp add: cell_inj)
  have comm: "(set_scratch L (pd OR 3) s)\<lparr>pmm_st := p'\<rparr> = set_scratch L (pd OR 3) (s\<lparr>pmm_st := p'\<rparr>)"
    by (simp add: set_scratch_def store_def)
  have "set_scratch L (f OR 3) (scratch_write L d (f OR 7) ((set_scratch L (pd OR 3) s)\<lparr>pmm_st := p'\<rparr>)) = ?s2"
    using fresh(6) ne by (simp add: comm scratch_write_set set_scratch_store)
  moreover have "scratch_zero L 0 1024 ?s2 = ?s2\<lparr>pmem := zero_cells f 0 1024 (pmem ?s2)\<rparr>"
    using fresh by (intro scratch_zero_effect) simp_all
  moreover have "zero_cells f 0 1024 (pmem ?s2) = (zero_cells f 0 1024 (pmem s))(cell pd d := f OR 7, ?sc := f OR 3)"
    using fresh d by (simp add: zero_cells_upd_other)
  ultimately show ?thesis by (simp add: set_scratch_def store_def)
qed

lemma vmm_map_page_in_pdir_refines:
  assumes ok: "vmm_ok L s" and dir: "dir_ok L (pmem s) (pmm_st s) pd"
    and va: "\<not> (pdi va = 0 \<and> pti va = 1023)"
  shows "vmm_map_page_in_pdir L pd pa va fl s =
    lift_map (spec_map pd va (frame_of pa OR fl) (pmem s, pmm_st s)) s"
proof -
  let ?d = "pdi va" and ?t = "pti va" and ?m = "pmem s" and ?v = "frame_of pa OR fl"
  let ?sc = "cell (first_page_table L) 1023"
  let ?s0 = "s\<lparr>cpu_flags := cpu_flags s AND NOT interrupt_flag\<rparr>"
  have sc: "?m ?sc = 0" and lay: "layout_ok L" using ok by (simp_all add: vmm_ok_def)
  have pd: "page_aligned pd" "frame_of pd = pd" using dir by (simp_all add: dir_ok_def page_aligned_def)
  have ne: "cell pd ?d \<noteq> ?sc" using dir_cells(1) [OF lay dir] by simp
  have ok0: "vmm_ok L ?s0" "dir_ok L (pmem ?s0) (pmm_st ?s0) pd" using ok dir by (simp_all add: vmm_ok_def)
  let ?s1 = "set_scratch L (pd OR 3) ?s0"
  have rd: "scratch_read L ?d ?s1 = ?m (cell pd ?d)" using pd ne by (simp add: scratch_read_set)
  define fin where "fin s4 = (let s5 = set_scratch L (frame_of (scratch_read L ?d s4) OR 3) s4;
      s7 = set_scratch L 0 (scratch_write L ?t ?v s5) in Inr (s7\<lparr>cpu_flags := cpu_flags s\<rparr>) :: vmm_state kres)" for s4
  have start: "vmm_map_page_in_pdir L pd pa va fl s = kbind
      (if ?m (cell pd ?d) AND 1 = 0
       then let (f, p) = pmm_alloc_frame (pmm_st s)
            in if f = 0 then Inl PanicOutOfFrames
               else Inr (set_scratch L (pd OR 3) (scratch_zero L 0 1024 (set_scratch L (f OR 3)
                      (scratch_write L ?d (f OR 7) (?s1\<lparr>pmm_st := p\<rparr>)))))
       else Inr ?s1) fin"
    unfolding vmm_map_page_in_pdir_def irq_save_def irq_restore_def Let_def fin_def prod.case
    by (simp add: rd pd(2) cong: if_cong)
  have fin: "fin (set_scratch L (pd OR 3) s') = Inr (s'\<lparr>pmem := (pmem s')(cell a ?t := ?v), cpu_flags := cpu_flags s\<rparr>)"
    if "pmem s' ?sc = 0" "table (pmem s') pd ?d = a" "cell a ?t \<noteq> ?sc" "page_aligned a" for s' a
  proof -
    have "frame_of (scratch_read L ?d (set_scratch L (pd OR 3) s')) = a"
      using pd ne that(2) by (simp add: scratch_read_set table_def)
    then show ?thesis using scratch_table_write [OF that(1,4,3), of ?v] by (simp add: fin_def set_scratch_twice)
  qed
  show ?thesis
  proof (cases "present ?m pd ?d")
    case True
    have "cell (table ?m pd ?d) ?t \<noteq> ?sc" using dir_cells(2) [OF lay dir _ True] va by simp
    then have "fin ?s1 = Inr (?s0\<lparr>pmem := ?m(cell (table ?m pd ?d) ?t := ?v), cpu_flags := cpu_flags s\<rparr>)"
      using fin [of ?s0 "table ?m pd ?d"] sc by (simp add: table_def)
    with True show ?thesis by (simp add: start spec_map_def present_def lift_map_def table_def)
  next
    case False
    obtain f p' where al: "pmm_alloc_frame (pmm_st s) = (f, p')" by fastforce
    show ?thesis
    proof (cases "f = 0")
      case True
      then show ?thesis using False al by (simp add: start spec_map_def present_def lift_map_def)
    next
      case nz: False
      note fresh = new_table_fresh [OF ok dir al nz]
      let ?m1 = "(zero_cells f 0 1024 ?m)(cell pd ?d := f OR 7)"
      let ?s3 = "?s0\<lparr>pmem := ?m1, pmm_st := p'\<rparr>"
      have "?m1 ?sc = 0" using sc fresh ne by (simp add: zero_cells_other)
      moreover have "table ?m1 pd ?d = f" using fresh(1) by (simp add: table_def)
      moreover have "cell f ?t \<noteq> ?sc" using fresh by (simp add: cell_inj)
      ultimately have "fin (set_scratch L (pd OR 3) ?s3) =
          Inr (?s3\<lparr>pmem := ?m1(cell f ?t := ?v), cpu_flags := cpu_flags s\<rparr>)"
        using fin [of ?s3 f] fresh(1) by simp
      then show ?thesis
        using False al nz pdir_new_table [OF ok0, of ?d f p']
        by (simp add: start spec_map_def present_def lift_map_def set_scratch_twice)
    qed
  qed
qed

section \<open>What mapping a page does to a directory\<close>

text \<open>The two outcomes of the abstract map: an entry of an existing table, or a new table.\<close>

lemma spec_map_cases:
  assumes "spec_map pd va v (m, p) = Some (m', p')"
  obtains
    (old) "present m pd (pdi va)" "m' = m(cell (table m pd (pdi va)) (pti va) := v)" "p' = p"
  | (new) f where "\<not> present m pd (pdi va)" "pmm_alloc_frame p = (f, p')" "f \<noteq> 0"
      "m' = (zero_cells f 0 1024 m)(cell pd (pdi va) := f OR 7, cell f (pti va) := v)"
  using assms by (auto simp: spec_map_def present_def split: if_splits prod.splits)

lemma translate_table:
  "translate m pd va =
     (if present m pd (pdi va) \<and> m (cell (table m pd (pdi va)) (pti va)) AND 1 \<noteq> 0
      then Some (frame_of (m (cell (table m pd (pdi va)) (pti va))) OR page_offset va) else None)"
  by (simp add: translate_def present_def table_def Let_def)

text \<open>How the directory of the mapped page reads afterwards.\<close>

lemma spec_map_directory:
  assumes dir: "dir_ok L m p pd" and inv: "pmm_inv p" and r: "spec_map pd va v (m, p) = Some (m', p')"
    and e: "e < 1024"
  shows "present m' pd e \<longleftrightarrow> e = pdi va \<or> present m pd e"
    and "e \<noteq> pdi va \<or> present m pd e \<Longrightarrow> table m' pd e = table m pd e"
    and "e \<noteq> pdi va \<or> present m pd e \<Longrightarrow> m' (cell pd e) = m (cell pd e)"
proof -
  have pd: "page_aligned pd" and tab: "present m pd (pdi va) \<Longrightarrow> table m pd (pdi va) \<noteq> pd"
    and used: "frame_used p pd" using dir by (auto simp: dir_ok_def)
  have "(present m' pd e \<longleftrightarrow> e = pdi va \<or> present m pd e) \<and>
    (e \<noteq> pdi va \<or> present m pd e \<longrightarrow> m' (cell pd e) = m (cell pd e))"
    using r
  proof (cases rule: spec_map_cases)
    case old
    have "m' (cell pd e) = m (cell pd e)"
      using old tab pd e by (simp add: cell_inj table_def)
    then show ?thesis using old(1) by (auto simp: present_def)
  next
    case (new f)
    note fresh = alloc_fresh [OF inv new(2,3)]
    have fpd: "f \<noteq> pd" using fresh(6) [OF used] by auto
    have c: "m' (cell pd e) = (if e = pdi va then f OR 7 else m (cell pd e))"
      using new(4) fpd fresh(1) pd e by (simp add: cell_inj zero_cells_other)
    then show ?thesis using new(1) by (auto simp: present_def)
  qed
  then show "present m' pd e \<longleftrightarrow> e = pdi va \<or> present m pd e"
    and "e \<noteq> pdi va \<or> present m pd e \<Longrightarrow> table m' pd e = table m pd e"
    and "e \<noteq> pdi va \<or> present m pd e \<Longrightarrow> m' (cell pd e) = m (cell pd e)"
    by (auto simp: table_def)
qed

lemma spec_map_translate:
  assumes dir: "dir_ok L m p pd" and inv: "pmm_inv p" and r: "spec_map pd va v (m, p) = Some (m', p')"
  shows "translate m' pd va' =
    (if same_page va va' then (if v AND 1 = 0 then None else Some (frame_of v OR page_offset va'))
     else translate m pd va')"
proof -
  let ?d = "pdi va" and ?t = "pti va" and ?d' = "pdi va'" and ?t' = "pti va'"
  note dm = spec_map_directory [OF dir inv r, of ?d']
  have al: "page_aligned (table x y z)" for x y z by (simp add: table_def)
  from r show ?thesis
  proof (cases rule: spec_map_cases)
    case old
    have "cell (table m pd ?d') ?t' = cell (table m pd ?d) ?t \<longleftrightarrow> same_page va va'" if "present m pd ?d'"
      using that old(1) dir by (auto simp: cell_inj al same_page_iff dir_ok_def)
    then have val: "m' (cell (table m pd ?d') ?t') = (if same_page va va' then v else m (cell (table m pd ?d') ?t'))"
      if "present m pd ?d'" using that old(2) by simp
    have pr: "present m' pd ?d' \<longleftrightarrow> present m pd ?d'" using dm(1) old(1) by auto
    show ?thesis
    proof (cases "present m pd ?d'")
      case True
      then show ?thesis using val pr dm(2) by (simp add: translate_table)
    next
      case False
      then have "\<not> same_page va va'" using old(1) by (auto simp: same_page_iff)
      with False pr show ?thesis by (simp add: translate_table)
    qed
  next
    case (new f)
    note fresh = alloc_fresh [OF inv new(2,3)]
    show ?thesis
    proof (cases "?d' = ?d")
      case True
      have pdf: "pd \<noteq> f" "page_aligned pd" using fresh(6) dir by (auto simp: dir_ok_def)
      have "table m' pd ?d = f" using new(4) pdf fresh(1) by (simp add: table_def cell_inj)
      moreover have "m' (cell f ?t') = (if ?t' = ?t then v else 0)"
        using new(4) pdf fresh(1) by (simp add: cell_inj zero_cells_hit)
      moreover have "present m' pd ?d" using dm(1) True by simp
      ultimately show ?thesis using True new(1) by (simp add: translate_table same_page_iff)
    next
      case False
      have "m' (cell (table m pd ?d') ?t') = m (cell (table m pd ?d') ?t')" if "present m pd ?d'"
      proof -
        have "table m pd ?d' \<noteq> f" "table m pd ?d' \<noteq> pd" "page_aligned pd"
          using that dir fresh(6) by (auto simp: dir_ok_def)
        then show ?thesis using new(4) fresh(1) by (simp add: cell_inj al zero_cells_other)
      qed
      then show ?thesis using False dm by (auto simp: translate_table same_page_iff)
    qed
  qed
qed

lemma spec_map_dir_ok:
  assumes dir: "dir_ok L m p pd" and inv: "pmm_inv p" and r: "spec_map pd va v (m, p) = Some (m', p')"
    and fpt: "frame_used p (first_page_table L)"
  shows "dir_ok L m' p' pd" and "pmm_inv p'" and "\<And>a. frame_used p a \<Longrightarrow> frame_used p' a"
proof -
  note dm = spec_map_directory [OF dir inv r]
  have "dir_ok L m' p' pd \<and> pmm_inv p' \<and> (\<forall>a. frame_used p a \<longrightarrow> frame_used p' a)"
    using r
  proof (cases rule: spec_map_cases)
    case old
    have "present m' pd e = present m pd e \<and> (present m pd e \<longrightarrow> table m' pd e = table m pd e)" if "e < 1024" for e
      using dm that old(1) by auto
    then show ?thesis using dir inv old(3) by (auto simp: dir_ok_def)
  next
    case (new f)
    note fresh = alloc_fresh [OF inv new(2,3)]
    have pd: "page_aligned pd" "pd \<noteq> first_page_table L" "frame_used p pd" using dir by (simp_all add: dir_ok_def)
    have tf: "table m' pd (pdi va) = f"
      using new(4) fresh(1) fresh(6) [OF pd(3)] pd(1) by (simp add: table_def cell_inj)
    have f: "f \<noteq> pd" "f \<noteq> first_page_table L" "frame_used p' f" using fresh pd fpt by auto
    have old_tab: "table m' pd e = table m pd e \<and> present m pd e \<and> table m pd e \<noteq> f \<and> frame_used p' (table m pd e) \<and>
        table m pd e \<noteq> pd \<and> (table m pd e = first_page_table L \<longrightarrow> e = 0)"
      if "e < 1024" "present m' pd e" "e \<noteq> pdi va" for e
      using that dm [of e] dir fresh(6) by (auto simp: dir_ok_def)
    have inj: "d = e" if "d < 1024" "e < 1024" "present m' pd d" "present m' pd e" "table m' pd d = table m' pd e" for d e
    proof (cases "d = pdi va \<or> e = pdi va")
      case True
      then show ?thesis using that old_tab [of d] old_tab [of e] tf by metis
    next
      case False
      then show ?thesis using that old_tab [of d] old_tab [of e] dir by (auto simp: dir_ok_def)
    qed
    have tabs: "frame_used p' (table m' pd e) \<and> table m' pd e \<noteq> pd \<and> (table m' pd e = first_page_table L \<longrightarrow> e = 0)"
      if "e < 1024" "present m' pd e" for e
      using that old_tab [of e] tf f by (cases "e = pdi va") auto
    have "dir_ok L m' p' pd" using pd fresh(6) [OF pd(3)] tabs inj by (simp add: dir_ok_def)
    then show ?thesis using fresh(2,6) by blast
  qed
  then show "dir_ok L m' p' pd" and "pmm_inv p'" and "\<And>a. frame_used p a \<Longrightarrow> frame_used p' a" by blast+
qed

section \<open>Unmapping and lookup\<close>

lemma vmm_unmap_page_effect:
  assumes ok: "vmm_ok L s" and dir: "dir_ok L (pmem s) (pmm_st s) (page_directory L)"
    and va: "\<not> (pdi va = 0 \<and> pti va = 1023)"
  shows "vmm_unmap_page L va s =
    (if present (pmem s) (page_directory L) (pdi va)
     then s\<lparr>pmem := (pmem s)(cell (table (pmem s) (page_directory L) (pdi va)) (pti va) := 0)\<rparr>
     else s\<lparr>cpu_flags := cpu_flags s AND NOT interrupt_flag\<rparr>)"
proof (cases "present (pmem s) (page_directory L) (pdi va)")
  case True
  let ?T = "table (pmem s) (page_directory L) (pdi va)"
  let ?s0 = "s\<lparr>cpu_flags := cpu_flags s AND NOT interrupt_flag\<rparr>"
  have "cell ?T (pti va) \<noteq> cell (first_page_table L) 1023"
    using dir_cells(2) [OF _ dir _ True] ok va by (simp add: vmm_ok_def)
  then have "set_scratch L 0 (scratch_write L (pti va) 0 (set_scratch L (?T OR 3) ?s0)) =
      ?s0\<lparr>pmem := (pmem s)(cell ?T (pti va) := 0)\<rparr>"
    using ok scratch_table_write [of ?s0 L ?T "pti va" 0] by (simp add: vmm_ok_def table_def)
  then show ?thesis using True
    by (simp add: vmm_unmap_page_def irq_save_def irq_restore_def present_def table_def Let_def)
qed (simp add: vmm_unmap_page_def irq_save_def present_def)

lemma vmm_get_physical_effect:
  assumes ok: "vmm_ok L s" and dir: "dir_ok L (pmem s) (pmm_st s) (page_directory L)"
    and va: "\<not> (pdi va = 0 \<and> pti va = 1023)"
  shows "vmm_get_physical L va s =
    (case translate (pmem s) (page_directory L) va of Some pa \<Rightarrow> pa | None \<Rightarrow> 0,
     if present (pmem s) (page_directory L) (pdi va) then s
     else s\<lparr>cpu_flags := cpu_flags s AND NOT interrupt_flag\<rparr>)"
proof (cases "present (pmem s) (page_directory L) (pdi va)")
  case True
  let ?T = "table (pmem s) (page_directory L) (pdi va)"
  let ?s0 = "s\<lparr>cpu_flags := cpu_flags s AND NOT interrupt_flag\<rparr>"
  have ne: "cell ?T (pti va) \<noteq> cell (first_page_table L) 1023"
    using dir_cells(2) [OF _ dir _ True] ok va by (simp add: vmm_ok_def)
  have undo: "set_scratch L 0 (set_scratch L (?T OR 3) ?s0) = ?s0"
    using ok by (simp add: set_scratch_def store_def vmm_ok_def fun_upd_idem)
  have rd: "scratch_read L (pti va) (set_scratch L (?T OR 3) ?s0) = pmem s (cell ?T (pti va))"
    using ne by (simp add: scratch_read_set table_def)
  show ?thesis using True undo rd
    by (simp add: vmm_get_physical_def irq_save_def irq_restore_def present_def translate_table table_def Let_def)
qed (simp add: vmm_get_physical_def irq_save_def present_def translate_table)

text \<open>Clearing an entry is the abstract map of a non-present entry.\<close>

lemma unmap_spec:
  "present m pd (pdi va) \<Longrightarrow>
     spec_map pd va 0 (m, p) = Some (m(cell (table m pd (pdi va)) (pti va) := 0), p)"
  by (simp add: spec_map_def present_def)

section \<open>Address spaces\<close>

definition new_directory :: "vmm_layout \<Rightarrow> addr \<Rightarrow> wordmem \<Rightarrow> wordmem" where
  "new_directory L pd m =
     (zero_cells pd 2 1022 m)(cell pd 0 := m (cell (page_directory L) 0) AND NOT 4,
                              cell pd 1 := m (cell (page_directory L) 1) AND NOT 4)"

lemma set_scratch_other_fields:
  "(set_scratch L x s)\<lparr>pmm_st := p\<rparr> = set_scratch L x (s\<lparr>pmm_st := p\<rparr>)"
  "(set_scratch L x s)\<lparr>cpu_flags := e\<rparr> = set_scratch L x (s\<lparr>cpu_flags := e\<rparr>)"
  by (simp_all add: set_scratch_def store_def)

lemma scratch_write_frame:
  "frame_of (pmem s (cell (first_page_table L) 1023)) = a \<Longrightarrow> scratch_write L i v s = store (cell a i) v s"
  by (simp add: scratch_write_def scratch_cell_def)

lemma vmm_create_effect:
  assumes ok: "vmm_ok L s" and al: "pmm_alloc_frame (pmm_st s) = (f, p')" "f \<noteq> 0"
  shows "vmm_create_address_space L s = (f, s\<lparr>pmem := new_directory L f (pmem s), pmm_st := p'\<rparr>)"
proof -
  let ?sc = "cell (first_page_table L) 1023" and ?m = "pmem s"
  have lay: "layout_ok L" and sc: "?m ?sc = 0" using ok by (simp_all add: vmm_ok_def)
  have fresh: "page_aligned f" "f \<noteq> page_directory L" "f \<noteq> first_page_table L" "f \<noteq> heap_page_table L"
    using alloc_fresh [of "pmm_st s" f p'] al ok by (auto simp: vmm_ok_def)
  have lay': "page_aligned (page_directory L)" "page_aligned (first_page_table L)"
    "page_directory L \<noteq> first_page_table L" using lay by (simp_all add: layout_ok_def)
  have ne: "?sc \<noteq> cell f i" "cell f i \<noteq> ?sc" if "i < 1024" for i using fresh lay' that by (auto simp: cell_inj)
  have pdne: "cell (page_directory L) i \<noteq> cell f j" "cell (page_directory L) i \<noteq> ?sc" if "i < 1024" "j < 1024" for i j
    using fresh lay' that by (simp_all add: cell_inj)
  have w: "scratch_write L i v s' = store (cell f i) v s'" if "pmem s' ?sc = f OR 3" for i v s'
    using that fresh(1) by (intro scratch_write_frame) simp
  have z: "scratch_zero L 2 1022 s' = s'\<lparr>pmem := zero_cells f 2 1022 (pmem s')\<rparr>" if "pmem s' ?sc = f OR 3" for s'
    using fresh lay' that by (intro scratch_zero_effect) simp_all
  let ?s0 = "s\<lparr>pmm_st := p', cpu_flags := cpu_flags s AND NOT interrupt_flag\<rparr>"
  let ?s1 = "set_scratch L (f OR 3) ?s0"
  define v0 where "v0 = pmem ?s1 (cell (first_page_table L) 0) OR 3"
  define s2 where "s2 = store (cell f 0) v0 ?s1"
  define v1 where "v1 = pmem s2 (cell (heap_page_table L) 0) OR 3"
  define s3 where "s3 = store (cell f 1) v1 s2"
  define m4 where "m4 = zero_cells f 2 1022 (pmem s3)"
  have p: "pmem ?s1 ?sc = f OR 3" "pmem s2 ?sc = f OR 3" "pmem s3 ?sc = f OR 3" "m4 ?sc = f OR 3"
    using ne [of 0] ne [of 1] fresh lay' by (simp_all add: s2_def s3_def m4_def zero_cells_other)
  have m4pd: "m4 (cell (page_directory L) i) = ?m (cell (page_directory L) i)" if "i < 2" for i
    using fresh lay' that pdne [of i 0] pdne [of i 1] by (simp add: m4_def s3_def s2_def zero_cells_other)
  let ?w0 = "?m (cell (page_directory L) 0) AND NOT 4" and ?w1 = "?m (cell (page_directory L) 1) AND NOT 4"
  have m7: "m4(cell f 0 := ?w0, cell f 1 := ?w1, ?sc := 0) = new_directory L f ?m"
    using sc ne by (auto simp: fun_eq_iff m4_def s3_def s2_def zero_cells_def new_directory_def)
  have s4: "scratch_zero L 2 1022 s3 = s3\<lparr>pmem := m4\<rparr>" using z [OF p(3)] by (simp add: m4_def)
  have s5: "scratch_write L 0 (m4 (cell (page_directory L) 0) AND NOT 4) (s3\<lparr>pmem := m4\<rparr>) = s3\<lparr>pmem := m4(cell f 0 := ?w0)\<rparr>"
    using w [of "s3\<lparr>pmem := m4\<rparr>"] p(4) m4pd by (simp add: store_def)
  have s6: "scratch_write L 1 ((m4(cell f 0 := ?w0)) (cell (page_directory L) 1) AND NOT 4) (s3\<lparr>pmem := m4(cell f 0 := ?w0)\<rparr>)
      = s3\<lparr>pmem := m4(cell f 0 := ?w0, cell f 1 := ?w1)\<rparr>"
    using w [of "s3\<lparr>pmem := m4(cell f 0 := ?w0)\<rparr>"] p(4) ne [of 0] m4pd pdne [of 1 0] by (simp add: store_def)
  have "set_scratch L 0 (s3\<lparr>pmem := m4(cell f 0 := ?w0, cell f 1 := ?w1)\<rparr>) = ?s0\<lparr>pmem := new_directory L f ?m\<rparr>"
    unfolding m7 [symmetric] by (simp add: set_scratch_def store_def s3_def s2_def)
  moreover have sel: "pmem (s3\<lparr>pmem := m\<rparr>) = m" for m by simp
  ultimately show ?thesis
    unfolding vmm_create_address_space_def al prod.case irq_save_def irq_restore_def Let_def
    by (simp only: al(2) if_False v0_def [symmetric] w [OF p(1)] s2_def [symmetric] v1_def [symmetric]
        w [OF p(2)] s3_def [symmetric] s4 sel s5 s6) simp
qed

text \<open>Destroying a directory releases its tables from entry 2 on, and the directory itself.\<close>

definition table_frames :: "wordmem \<Rightarrow> addr \<Rightarrow> nat \<Rightarrow> nat \<Rightarrow> nat set" where
  "table_frames m pd i n = (\<lambda>d. frame_number (table m pd d)) ` {d. i \<le> d \<and> d < i + n \<and> present m pd d}"

lemma free_table:
  assumes "pmm_inv p" "frame_used p a" "page_aligned a"
  shows "\<exists>p'. pmm_free_block a 1 p = Inr p' \<and> free_frames p' = insert (frame_number a) (free_frames p) \<and> pmm_inv p'"
  using frames.release_ok [OF assms(1) frame_number_lt] assms(2,3) frame_addr_number [OF assms(3)]
  by (metis frame_used_def)

lemma frame_number_inj: "page_aligned a \<Longrightarrow> page_aligned b \<Longrightarrow> frame_number a = frame_number b \<longleftrightarrow> a = b"
  by (metis frame_addr_number)

lemma table_frames_Suc:
  "table_frames m pd i (Suc n) =
     (if present m pd i then insert (frame_number (table m pd i)) (table_frames m pd (Suc i) n)
      else table_frames m pd (Suc i) n)"
proof -
  have "{d. i \<le> d \<and> d < i + Suc n \<and> present m pd d} =
      (if present m pd i then {i} else {}) \<union> {d. Suc i \<le> d \<and> d < Suc i + n \<and> present m pd d}"
    using le_eq_less_or_eq by (auto simp: Suc_le_eq)
  then show ?thesis unfolding table_frames_def by (cases "present m pd i") simp_all
qed

lemma vmm_destroy_loop_effect:
  assumes "pmem s (cell (first_page_table L) 1023) = pd OR 3" "pmm_inv (pmm_st s)"
    and "page_aligned pd" "page_aligned (first_page_table L)" "pd \<noteq> first_page_table L" "i + n \<le> 1024"
    and "\<forall>d. i \<le> d \<and> d < i + n \<and> present (pmem s) pd d \<longrightarrow> frame_used (pmm_st s) (table (pmem s) pd d)"
    and "inj_on (table (pmem s) pd) {d. d < 1024 \<and> present (pmem s) pd d}"
  shows "\<exists>p'. vmm_destroy_loop L i n s = Inr (s\<lparr>pmm_st := p'\<rparr>) \<and> pmm_inv p' \<and>
           free_frames p' = free_frames (pmm_st s) \<union> table_frames (pmem s) pd i n"
  using assms
proof (induction n arbitrary: i s)
  case 0
  then show ?case by (intro exI [of _ "pmm_st s"]) (auto simp: table_frames_def)
next
  case (Suc n)
  let ?m = "pmem s"
  have ne: "cell pd i \<noteq> cell (first_page_table L) 1023" using Suc.prems by (simp add: cell_inj)
  have rd: "scratch_read L i s = ?m (cell pd i)"
    using Suc.prems(1,3) by (simp add: scratch_read_def scratch_cell_def)
  show ?case
  proof (cases "present ?m pd i")
    case False
    have "\<exists>p'. vmm_destroy_loop L (Suc i) n s = Inr (s\<lparr>pmm_st := p'\<rparr>) \<and> pmm_inv p' \<and>
           free_frames p' = free_frames (pmm_st s) \<union> table_frames ?m pd (Suc i) n"
      using Suc.prems by (intro Suc.IH) simp_all
    with False rd show ?thesis by (simp add: present_def table_frames_Suc)
  next
    case True
    have al: "page_aligned (table ?m pd d)" for d by (simp add: table_def)
    obtain p1 where p1: "pmm_free_block (table ?m pd i) 1 (pmm_st s) = Inr p1" "pmm_inv p1"
      "free_frames p1 = insert (frame_number (table ?m pd i)) (free_frames (pmm_st s))"
    proof -
      have "frame_used (pmm_st s) (table ?m pd i)" using True Suc.prems(7) by simp
      from free_table [OF Suc.prems(2) this al] show ?thesis using that by blast
    qed
    have "frame_used p1 (table ?m pd d)" if "Suc i \<le> d" "d < Suc i + n" "present ?m pd d" for d
    proof -
      have "table ?m pd d \<noteq> table ?m pd i"
        using that True Suc.prems(6) inj_onD [OF Suc.prems(8), of d i] by auto
      then have "frame_number (table ?m pd d) \<noteq> frame_number (table ?m pd i)" by (simp add: frame_number_inj al)
      then show ?thesis using that Suc.prems(7) p1(3) by (simp add: frame_used_def)
    qed
    then have "\<exists>p'. vmm_destroy_loop L (Suc i) n (s\<lparr>pmm_st := p1\<rparr>) = Inr (s\<lparr>pmm_st := p1\<rparr>\<lparr>pmm_st := p'\<rparr>) \<and> pmm_inv p' \<and>
           free_frames p' = free_frames p1 \<union> table_frames ?m pd (Suc i) n"
      using Suc.prems p1(2) Suc.IH [of "s\<lparr>pmm_st := p1\<rparr>" "Suc i"] by simp
    moreover have "vmm_destroy_loop L i (Suc n) s = vmm_destroy_loop L (Suc i) n (s\<lparr>pmm_st := p1\<rparr>)"
      using True rd p1(1) by (simp add: present_def table_def)
    ultimately show ?thesis using True p1(3) by (auto simp: table_frames_Suc)
  qed
qed

lemma vmm_destroy_effect:
  assumes ok: "vmm_ok L s" and dir: "dir_ok L (pmem s) (pmm_st s) pd" and nz: "pd \<noteq> 0"
  shows "\<exists>p'. vmm_destroy_address_space L pd s = Inr (s\<lparr>pmm_st := p'\<rparr>) \<and> pmm_inv p' \<and>
           free_frames p' = insert (frame_number pd) (free_frames (pmm_st s) \<union> table_frames (pmem s) pd 2 1022)"
proof -
  let ?sc = "cell (first_page_table L) 1023"
  let ?s0 = "s\<lparr>cpu_flags := cpu_flags s AND NOT interrupt_flag\<rparr>"
  let ?s1 = "set_scratch L (pd OR 3) ?s0"
  have lay: "layout_ok L" and sc: "pmem s ?sc = 0" using ok by (simp_all add: vmm_ok_def)
  have pd: "page_aligned pd" "pd \<noteq> first_page_table L" "frame_used (pmm_st s) pd" "page_aligned (first_page_table L)"
    using dir lay by (simp_all add: dir_ok_def layout_ok_def)
  have same: "pmem ?s1 (cell pd d) = pmem s (cell pd d)" if "d < 1024" for d
    using dir_cells(1) [OF lay dir that] by simp
  have pres: "present (pmem ?s1) pd d = present (pmem s) pd d" "table (pmem ?s1) pd d = table (pmem s) pd d"
    if "d < 1024" for d using same [OF that] by (simp_all add: present_def table_def)
  have tf: "table_frames (pmem ?s1) pd 2 1022 = table_frames (pmem s) pd 2 1022"
    unfolding table_frames_def by (intro image_cong) (use pres in auto)
  have "\<exists>p'. vmm_destroy_loop L 2 1022 ?s1 = Inr (?s1\<lparr>pmm_st := p'\<rparr>) \<and> pmm_inv p' \<and>
      free_frames p' = free_frames (pmm_st ?s1) \<union> table_frames (pmem ?s1) pd 2 1022"
  proof (rule vmm_destroy_loop_effect)
    show "inj_on (table (pmem ?s1) pd) {d. d < 1024 \<and> present (pmem ?s1) pd d}"
      using dir pres by (auto simp: inj_on_def dir_ok_def simp del: set_scratch_simps)
    show "\<forall>d. 2 \<le> d \<and> d < 2 + 1022 \<and> present (pmem ?s1) pd d \<longrightarrow> frame_used (pmm_st ?s1) (table (pmem ?s1) pd d)"
      using dir pres by (auto simp: dir_ok_def simp del: set_scratch_simps(1))
  qed (use pd ok in \<open>simp_all add: vmm_ok_def\<close>)
  then obtain p1 where p1: "vmm_destroy_loop L 2 1022 ?s1 = Inr (?s1\<lparr>pmm_st := p1\<rparr>)" "pmm_inv p1"
    "free_frames p1 = free_frames (pmm_st s) \<union> table_frames (pmem s) pd 2 1022"
    unfolding tf by auto
  have "frame_number pd \<notin> table_frames (pmem s) pd 2 1022"
  proof
    assume "frame_number pd \<in> table_frames (pmem s) pd 2 1022"
    then obtain d where d: "d < 1024" "present (pmem s) pd d" "frame_number pd = frame_number (table (pmem s) pd d)"
      by (auto simp: table_frames_def)
    then have "table (pmem s) pd d = pd" using pd(1) frame_number_inj by (metis page_aligned_frame_of table_def)
    with d dir show False by (simp add: dir_ok_def)
  qed
  then have "frame_used p1 pd" using pd(3) p1(3) by (simp add: frame_used_def)
  then obtain p2 where p2: "pmm_free_block pd 1 p1 = Inr p2" "free_frames p2 = insert (frame_number pd) (free_frames p1)" "pmm_inv p2"
    using free_table [OF p1(2) _ pd(1)] by blast
  have undo: "set_scratch L 0 (?s1\<lparr>pmm_st := p1\<rparr>) = ?s0\<lparr>pmm_st := p1\<rparr>"
    using sc by (simp add: set_scratch_def store_def fun_upd_idem)
  have "vmm_destroy_address_space L pd s = Inr (s\<lparr>pmm_st := p2\<rparr>)"
    using nz p1(1) p2(1) undo
    by (simp add: vmm_destroy_address_space_def irq_save_def irq_restore_def Let_def)
  then show ?thesis using p2 p1(3) by auto
qed

section \<open>The first use after boot\<close>

text \<open>
  \<open>vmm_init\<close> leaves the scratchpad page identity mapped; every operation overwrites its entry
  before it uses it and clears it afterwards.  A state is ready when it satisfies the invariant
  once that entry is cleared.
\<close>

definition vmm_ready :: "vmm_layout \<Rightarrow> vmm_state \<Rightarrow> bool" where
  "vmm_ready L s \<longleftrightarrow> vmm_ok L (set_scratch L 0 s) \<and>
     dir_ok L (pmem (set_scratch L 0 s)) (pmm_st s) (page_directory L)"

definition scratch_page :: "addr \<Rightarrow> bool" where
  "scratch_page va \<longleftrightarrow> pdi va = 0 \<and> pti va = 1023"

lemma vmm_ready_okI:
  "vmm_ok L s \<Longrightarrow> dir_ok L (pmem s) (pmm_st s) (page_directory L) \<Longrightarrow> vmm_ready L s"
proof -
  assume a: "vmm_ok L s" "dir_ok L (pmem s) (pmm_st s) (page_directory L)"
  then have "set_scratch L 0 s = s" by (simp add: vmm_ok_def set_scratch_def store_def fun_upd_idem)
  with a show ?thesis by (simp add: vmm_ready_def del: set_scratch_simps)
qed

lemma vmm_new_table_ready:
  assumes "layout_ok L" "d < 1024"
  shows "vmm_new_table L d (set_scratch L 0 s) = kbind (vmm_new_table L d s) (\<lambda>s'. Inr (set_scratch L 0 s'))"
proof -
  have ne: "cell (page_directory L) d \<noteq> cell (first_page_table L) 1023"
    using assms by (auto simp: layout_ok_def cell_inj)
  have comm: "set_scratch L x (store (cell (page_directory L) d) v ((set_scratch L 0 s)\<lparr>pmm_st := p\<rparr>)) =
      set_scratch L x (store (cell (page_directory L) d) v (s\<lparr>pmm_st := p\<rparr>))" for x v p
    using ne by (simp add: set_scratch_def store_def fun_upd_twist)
  show ?thesis
    using ne by (auto simp: vmm_new_table_def Let_def comm set_scratch_twice split: prod.splits)
qed

lemma vmm_map_page_ready:
  assumes "layout_ok L"
  shows "vmm_map_page L pa va fl (set_scratch L 0 s) = vmm_map_page L pa va fl s"
proof -
  have ne: "cell (page_directory L) (pdi va) \<noteq> cell (first_page_table L) 1023"
    using assms by (auto simp: layout_ok_def cell_inj)
  have "vmm_new_table L (pdi va) (set_scratch L 0 s') = kbind (vmm_new_table L (pdi va) s') (\<lambda>s''. Inr (set_scratch L 0 s''))"
    for s' by (rule vmm_new_table_ready [OF assms]) simp
  then show ?thesis
    using ne
    by (cases "vmm_new_table L (pdi va) (s\<lparr>cpu_flags := cpu_flags s AND NOT interrupt_flag\<rparr>)")
      (simp_all add: vmm_map_page_def irq_save_def set_scratch_other_fields set_scratch_twice Let_def)
qed

lemma translate_scratch:
  assumes "layout_ok L" "dir_ok L (pmem (set_scratch L 0 s)) p pd" "\<not> scratch_page va"
  shows "translate (pmem (set_scratch L 0 s)) pd va = translate (pmem s) pd va"
proof -
  let ?m = "pmem (set_scratch L 0 s)" and ?sc = "cell (first_page_table L) 1023"
  have c: "cell pd (pdi va) \<noteq> ?sc" by (rule dir_cells(1) [OF assms(1,2)]) simp
  have t: "table ?m pd (pdi va) = table (pmem s) pd (pdi va)" "present ?m pd (pdi va) = present (pmem s) pd (pdi va)"
    using c by (simp_all add: table_def present_def)
  have "cell (table ?m pd (pdi va)) (pti va) \<noteq> ?sc" if "present ?m pd (pdi va)"
    using dir_cells(2) [OF assms(1,2) _ that] assms(3) by (simp add: scratch_page_def)
  then show ?thesis using t c unfolding translate_table by auto
qed

text \<open>What a successful abstract map means for a ready state.\<close>

lemma spec_map_vmm_ok:
  assumes ok: "vmm_ok L s" and dir: "dir_ok L (pmem s) (pmm_st s) pd"
    and r: "spec_map pd va v (pmem s, pmm_st s) = Some (m', p')" and va: "\<not> scratch_page va"
  shows "vmm_ok L (s\<lparr>pmem := m', pmm_st := p'\<rparr>)" and "dir_ok L m' p' pd"
proof -
  have inv: "pmm_inv (pmm_st s)" and lay: "layout_ok L" and fpt: "frame_used (pmm_st s) (first_page_table L)"
    and sc: "pmem s (cell (first_page_table L) 1023) = 0" using ok by (simp_all add: vmm_ok_def)
  note keep = spec_map_dir_ok [OF dir inv r fpt]
  show "dir_ok L m' p' pd" by (rule keep)
  have "m' (cell (first_page_table L) 1023) = 0"
    using r
  proof (cases rule: spec_map_cases)
    case old
    then show ?thesis
      using dir_cells(2) [OF lay dir _ old(1), of "pti va"] va sc by (auto simp: scratch_page_def)
  next
    case (new f)
    note fresh = new_table_fresh [OF ok dir new(2,3)]
    have "cell f (pti va) \<noteq> cell (first_page_table L) 1023" using fresh by (simp add: cell_inj)
    then show ?thesis using dir_cells(1) [OF lay dir, of "pdi va"] fresh sc new(4)
      by (auto simp: zero_cells_other)
  qed
  then show "vmm_ok L (s\<lparr>pmem := m', pmm_st := p'\<rparr>)" using ok keep by (simp add: vmm_ok_def)
qed

lemma spec_map_not_None:
  assumes "pmm_inv p" "free_frames p - {0} \<noteq> {}"
  obtains m' p' where "spec_map pd va v (m, p) = Some (m', p')"
proof -
  obtain f p1 where "pmm_alloc_frame p = (f, p1)" by fastforce
  moreover from this have "f \<noteq> 0" using frames.alloc_zero [of p p1] assms by auto
  ultimately show ?thesis using that
    by (cases "m (cell pd (pdi va)) AND 1 = 0") (simp_all add: spec_map_def)
qed

lemma fill_table_simps [simp]:
  "pmm_st (fill_table a f n s) = pmm_st s" "cpu_flags (fill_table a f n s) = cpu_flags s"
  by (induction n) simp_all

lemma fill_table_hit:
  "page_aligned a \<Longrightarrow> n \<le> 1024 \<Longrightarrow> i < n \<Longrightarrow> pmem (fill_table a f n s) (cell a i) = f i"
  by (induction n) (auto simp: cell_inj less_Suc_eq)

lemma fill_table_other:
  "page_aligned a \<Longrightarrow> page_aligned b \<Longrightarrow> a \<noteq> b \<Longrightarrow> n \<le> 1024 \<Longrightarrow> i < 1024 \<Longrightarrow>
     pmem (fill_table a f n s) (cell b i) = pmem s (cell b i)"
  by (induction n) (auto simp: cell_inj)

lemma frame_addr_number_of: "frame_addr (frame_number va) = frame_of va"
proof -
  have "unat (frame_addr (frame_number va)) = unat va div 4096 * 4096"
    by (subst frame_addr_div(2)) (simp_all add: frame_number_def [symmetric])
  then show ?thesis by (simp add: word_unat_eq_iff unat_frame_of minus_mod_eq_div_mult)
qed

lemma frame_or_offset: "frame_of va OR page_offset va = va"
  by (rule bit_eqI) (auto simp: frame_of_def page_offset_def bit_simps)

lemma vmm_init_cells:
  assumes "layout_ok L"
  shows "i < 1024 \<Longrightarrow> pmem (vmm_init L s) (cell (first_page_table L) i) = frame_addr i OR 3"
    and "i < 1024 \<Longrightarrow> pmem (vmm_init L s) (cell (heap_page_table L) i) = frame_addr (i + 1024) OR 3"
    and "i < 1024 \<Longrightarrow> pmem (vmm_init L s) (cell (page_directory L) i) =
           (if i = 0 then first_page_table L OR 3 else if i = 1 then heap_page_table L OR 3
            else pmem s (cell (page_directory L) i))"
proof -
  have L: "page_aligned (page_directory L)" "page_aligned (first_page_table L)" "page_aligned (heap_page_table L)"
    "page_directory L \<noteq> first_page_table L" "page_directory L \<noteq> heap_page_table L"
    "first_page_table L \<noteq> heap_page_table L" using assms by (auto simp: layout_ok_def)
  show "pmem (vmm_init L s) (cell (first_page_table L) i) = frame_addr i OR 3" if "i < 1024"
    using L that by (simp add: vmm_init_def Let_def cell_inj fill_table_hit fill_table_other frame_addr_def)
  show "pmem (vmm_init L s) (cell (heap_page_table L) i) = frame_addr (i + 1024) OR 3" if "i < 1024"
    using L that by (simp add: vmm_init_def Let_def cell_inj fill_table_hit fill_table_other frame_addr_def)
  show "pmem (vmm_init L s) (cell (page_directory L) i) =
           (if i = 0 then first_page_table L OR 3 else if i = 1 then heap_page_table L OR 3
            else pmem s (cell (page_directory L) i))" if "i < 1024"
    using L that by (simp add: vmm_init_def Let_def cell_inj fill_table_other)
qed

lemma vmm_init_ready:
  assumes lay: "layout_ok L" and inv: "pmm_inv (pmm_st s)"
    and used: "frame_used (pmm_st s) (page_directory L)" "frame_used (pmm_st s) (first_page_table L)"
      "frame_used (pmm_st s) (heap_page_table L)"
    and zero: "\<forall>d. 2 \<le> d \<and> d < 1024 \<longrightarrow> \<not> present (pmem s) (page_directory L) d"
  shows "vmm_ready L (vmm_init L s)"
proof -
  let ?s = "set_scratch L 0 (vmm_init L s)" and ?pd = "page_directory L"
  have L: "page_aligned ?pd" "page_aligned (first_page_table L)" "page_aligned (heap_page_table L)"
    "?pd \<noteq> first_page_table L" "?pd \<noteq> heap_page_table L"
    "first_page_table L \<noteq> heap_page_table L" using lay by (auto simp: layout_ok_def)
  have st: "pmm_st (vmm_init L s) = pmm_st s" by (simp add: vmm_init_def Let_def)
  have c: "pmem ?s (cell ?pd i) = (if i = 0 then first_page_table L OR 3 else if i = 1 then heap_page_table L OR 3
      else pmem s (cell ?pd i))" if "i < 1024" for i
    using L that vmm_init_cells(3) [OF lay that] by (simp add: cell_inj)
  have pr: "present (pmem ?s) ?pd d \<longleftrightarrow> d = 0 \<or> d = 1" if "d < 1024" for d
    using c [OF that] zero that by (auto simp: present_def)
  have t: "table (pmem ?s) ?pd 0 = first_page_table L" "table (pmem ?s) ?pd 1 = heap_page_table L"
    using c [of 0] c [of 1] L by (simp_all add: table_def del: set_scratch_simps)
  have "dir_ok L (pmem ?s) (pmm_st s) ?pd"
    unfolding dir_ok_def using L used pr t by (auto simp del: set_scratch_simps)
  moreover have "vmm_ok L ?s" using lay inv used st by (simp add: vmm_ok_def)
  ultimately show ?thesis by (simp add: vmm_ready_def st)
qed

section \<open>Properties\<close>

text \<open>A concrete machine after boot, with the frames 0x900 and 0x901 free.\<close>

definition boot_layout :: vmm_layout where
  "boot_layout = \<lparr>page_directory = 0x110000, first_page_table = 0x111000, heap_page_table = 0x112000\<rparr>"

definition boot_pmm :: pmm_state where
  "boot_pmm = incr_count (pmm_mark_free 0x901 (incr_count (pmm_mark_free 0x900 (pmm_init_fill
     \<lparr>bitmap = (\<lambda>_. 0), summary_bitmap = (\<lambda>_. 0), free_frame_count = 0\<rparr>))))"

definition boot_vmm :: vmm_state where
  "boot_vmm = vmm_init boot_layout
     \<lparr>pmem = (\<lambda>_. 0), pmm_st = boot_pmm, cr0 = 0, cr3 = 0, cpu_flags = 0x202\<rparr>"

lemma boot_layout_ok: "layout_ok boot_layout"
  by (simp add: layout_ok_def boot_layout_def page_aligned_dvd)

lemma boot_pmm_free: "free_frames boot_pmm = {0x900, 0x901}"
  unfolding boot_pmm_def
  by (simp add: free_frames_mark_free pmm_init_fill_effect total_frames_def insert_commute)

lemma boot_pmm_inv: "pmm_inv boot_pmm"
  unfolding boot_pmm_def
  by (intro pmm_inv_release) (simp_all add: free_frames_mark_free pmm_init_fill_effect total_frames_def)

lemma boot_frame_used:
  "frame_used boot_pmm (page_directory boot_layout)" "frame_used boot_pmm (first_page_table boot_layout)"
  "frame_used boot_pmm (heap_page_table boot_layout)"
  by (simp_all add: frame_used_def boot_pmm_free boot_layout_def frame_number_def)

lemma boot_vmm_ready: "vmm_ready boot_layout boot_vmm"
  unfolding boot_vmm_def
  by (rule vmm_init_ready) (simp_all add: boot_layout_ok boot_pmm_inv boot_frame_used present_def)

lemma boot_vmm_pmm: "pmm_st boot_vmm = boot_pmm" "cpu_flags boot_vmm = 0x202"
  by (simp_all add: boot_vmm_def vmm_init_def Let_def)

lemma vmm_init_translates:
  assumes "layout_ok L" "unat va < 0x800000"
  shows "translate (pmem (vmm_init L s)) (cr3 (vmm_init L s)) va = Some va \<and>
    cr0 (vmm_init L s) AND 0x80000000 \<noteq> 0"
proof -
  let ?s = "vmm_init L s" and ?n = "frame_number va"
  have L: "page_aligned (first_page_table L)" "page_aligned (heap_page_table L)"
    using assms(1) by (auto simp: layout_ok_def)
  have cr: "cr3 ?s = page_directory L" "cr0 ?s AND 0x80000000 \<noteq> 0"
    by (simp_all add: vmm_init_def Let_def bit.conj_disj_distrib2)
  have n: "?n < 2048" "pti va = ?n mod 1024" "pdi va = ?n div 1024"
    using assms(2) by (simp_all add: frame_number_def pti_eq pdi_eq less_mult_imp_div_less)
  note c = vmm_init_cells [OF assms(1)]
  consider (low) "?n < 1024" | (high) "1024 \<le> ?n" by linarith
  then have "translate (pmem ?s) (page_directory L) va = Some va"
  proof cases
    case low
    then have "pdi va = 0" "pti va = ?n" using n by simp_all
    then show ?thesis
      using c(1) [OF low] c(3) [of 0] L frame_addr_number_of [of va]
      by (simp add: translate_def Let_def frame_or_offset)
  next
    case high
    then have "pdi va = 1" "pti va = ?n - 1024" using n by (simp_all add: div_nat_eqI mod_nat_eqI)
    then show ?thesis
      using c(2) [of "?n - 1024"] c(3) [of 1] L frame_addr_number_of [of va] high n(1)
      by (simp add: translate_def Let_def frame_or_offset)
  qed
  then show ?thesis using cr by simp
qed

text \<open>
  After \<open>vmm_init\<close> the processor runs with paging on and the kernel's page directory in CR3,
  and every address of the first 8 MB translates to itself.
\<close>

theorem vmm_init_identity_map:
  assumes "layout_ok L" "unat va < 0x800000"
  shows "translate (pmem (vmm_init L s)) (cr3 (vmm_init L s)) va = Some va \<and>
    cr0 (vmm_init L s) AND 0x80000000 \<noteq> 0 \<and> cr3 (vmm_init L s) = page_directory L"
  using vmm_init_translates [OF assms] by (simp add: vmm_init_def Let_def)

theorem vmm_init_identity_map_witness:
  "translate (pmem boot_vmm) (cr3 boot_vmm) 0xB8000 = Some 0xB8000"
  unfolding boot_vmm_def
  by (rule vmm_init_identity_map [OF boot_layout_ok, of "0xB8000", THEN conjunct1]) simp

text \<open>
  C17: \<open>vmm_map_page\<close> of an aligned page to an allocated frame succeeds as long as a frame is left
  for a page table.  Afterwards the page translates to the frame, every other page (the
  scratchpad page apart) translates as before, the invariant holds and the interrupt flag is
  as before.
\<close>

theorem vmm_map_page_correct:
  assumes "vmm_ready L s" "page_offset va = 0" "\<not> scratch_page va"
    and "\<not> pmm_is_frame_free (drop_bit 12 pa) (pmm_st s)" "page_aligned pa"
    and "fl < 0x1000" "fl AND 1 \<noteq> 0" "free_frames (pmm_st s) - {0} \<noteq> {}"
  shows "\<exists>s'. vmm_map_page L pa va fl s = Inr s' \<and> vmm_ready L s' \<and> cpu_flags s' = cpu_flags s \<and>
    (\<forall>va'. \<not> scratch_page va' \<longrightarrow> translate (pmem s') (page_directory L) va' =
       (if same_page va va' then Some (pa OR page_offset va') else translate (pmem s) (page_directory L) va'))"
proof -
  let ?s0 = "set_scratch L 0 s" and ?pd = "page_directory L"
  have ok: "vmm_ok L ?s0" and dir: "dir_ok L (pmem ?s0) (pmm_st ?s0) ?pd" and lay: "layout_ok L"
    and inv: "pmm_inv (pmm_st ?s0)"
    using assms(1) by (simp_all add: vmm_ready_def vmm_ok_def del: set_scratch_simps(1))
  obtain m' p' where r: "spec_map ?pd va (pa OR fl) (pmem ?s0, pmm_st ?s0) = Some (m', p')"
  proof -
    have "free_frames (pmm_st ?s0) - {0} \<noteq> {}" using assms(8) by simp
    from spec_map_not_None [OF inv this] show ?thesis using that by blast
  qed
  let ?s' = "?s0\<lparr>pmem := m', pmm_st := p'\<rparr>"
  have "vmm_map_page L pa va fl ?s0 = Inr ?s'"
    using vmm_map_page_refines [OF ok dir assms(2)] assms(3,4) r by (simp add: scratch_page_def lift_map_def)
  then have res: "vmm_map_page L pa va fl s = Inr ?s'" by (simp add: vmm_map_page_ready [OF lay])
  have "vmm_ready L ?s'" using spec_map_vmm_ok [OF ok dir r assms(3)] by (intro vmm_ready_okI) simp_all
  moreover have "(pa OR fl) AND 1 \<noteq> 0" using assms(7) by (simp add: and_one_eq mod_2_eq_odd even_or_iff)
  moreover have "frame_of (pa OR fl) = pa" by (rule frame_of_or [OF assms(5,6)])
  ultimately show ?thesis
    using res spec_map_translate [OF dir inv r] translate_scratch [OF lay dir]
    by (intro exI [of _ ?s']) simp
qed

lemma boot_map:
  "\<not> scratch_page 0x10000000" "\<not> scratch_page 0x10000123" "page_offset 0x10000000 = 0"
  "\<not> pmm_is_frame_free (drop_bit 12 0x200000) (pmm_st boot_vmm)" "page_aligned 0x200000"
  "free_frames (pmm_st boot_vmm) - {0} \<noteq> {}" "same_page 0x10000000 0x10000123"
  "0x200000 OR page_offset 0x10000123 = 0x200123" "(7 :: u32) < 0x1000" "(7 :: u32) AND 1 \<noteq> 0"
  by (simp_all add: scratch_page_def pdi_eq page_offset_def boot_vmm_pmm is_frame_free_iff boot_pmm_free
      page_aligned_dvd same_page_iff pti_eq)

theorem vmm_map_page_correct_witness:
  "\<exists>s'. vmm_map_page boot_layout 0x200000 0x10000000 7 boot_vmm = Inr s' \<and>
     translate (pmem s') (page_directory boot_layout) 0x10000123 = Some 0x200123"
  using vmm_map_page_correct [OF boot_vmm_ready boot_map(3,1,4,5,9,10,6)] boot_map(2,7,8) by auto

text \<open>
  C19: \<open>vmm_get_physical\<close> agrees with the MMU: it returns the translation of the address in the
  kernel's directory, or 0 when there is none, and changes neither the mappings nor the frames.
  Where the page table is missing it returns with interrupts disabled, whatever they were.
\<close>

theorem vmm_get_physical_correct:
  assumes "vmm_ok L s" "dir_ok L (pmem s) (pmm_st s) (page_directory L)" "\<not> scratch_page va"
  shows "case vmm_get_physical L va s of (pa, s') \<Rightarrow>
    pa = (case translate (pmem s) (page_directory L) va of Some p \<Rightarrow> p | None \<Rightarrow> 0) \<and>
    pmem s' = pmem s \<and> pmm_st s' = pmm_st s \<and>
    (if present (pmem s) (page_directory L) (pdi va) then cpu_flags s' = cpu_flags s
     else \<not> interrupts_on (cpu_flags s'))"
  using vmm_get_physical_effect [OF assms(1,2)] assms(3)
  by (simp add: scratch_page_def interrupts_on_def and.assoc)

text \<open>A state the invariant holds in, without the scratchpad mapping of boot.\<close>

lemma boot_vmm_ok:
  defines "s \<equiv> set_scratch boot_layout 0 boot_vmm"
  shows "vmm_ok boot_layout s" "dir_ok boot_layout (pmem s) (pmm_st s) (page_directory boot_layout)"
  using boot_vmm_ready by (simp_all add: vmm_ready_def s_def)

lemma boot_vmm_entry:
  "pmem (set_scratch boot_layout 0 boot_vmm) (cell (page_directory boot_layout) 64) = 0"
  using vmm_init_cells(3) [OF boot_layout_ok, of 64] boot_layout_ok
  by (simp add: boot_vmm_def layout_ok_def cell_inj)

theorem vmm_get_physical_correct_witness:
  "\<not> interrupts_on (cpu_flags (snd (vmm_get_physical boot_layout 0x10000123 (set_scratch boot_layout 0 boot_vmm))))
   \<and> interrupts_on (cpu_flags boot_vmm)"
proof -
  have "pdi 0x10000123 = 64" by (simp add: pdi_eq)
  then have "\<not> present (pmem (set_scratch boot_layout 0 boot_vmm)) (page_directory boot_layout) (pdi 0x10000123)"
    using boot_vmm_entry by (simp add: present_def del: set_scratch_simps)
  with vmm_get_physical_correct [OF boot_vmm_ok boot_map(2)] show ?thesis
    by (auto simp: case_prod_beta interrupts_on_def interrupt_flag_def boot_vmm_pmm simp del: set_scratch_simps)
qed

text \<open>
  \<open>vmm_unmap_page\<close> removes the translation of the page and no other, and keeps the invariant.
\<close>

theorem vmm_unmap_page_correct:
  assumes "vmm_ok L s" "dir_ok L (pmem s) (pmm_st s) (page_directory L)" "\<not> scratch_page va"
  shows "let s' = vmm_unmap_page L va s in
    vmm_ok L s' \<and> dir_ok L (pmem s') (pmm_st s') (page_directory L) \<and> pmm_st s' = pmm_st s \<and>
    translate (pmem s') (page_directory L) va' =
      (if same_page va va' then None else translate (pmem s) (page_directory L) va')"
proof (cases "present (pmem s) (page_directory L) (pdi va)")
  case True
  let ?m = "(pmem s)(cell (table (pmem s) (page_directory L) (pdi va)) (pti va) := 0)"
  have r: "spec_map (page_directory L) va 0 (pmem s, pmm_st s) = Some (?m, pmm_st s)" by (rule unmap_spec [OF True])
  have eq: "vmm_unmap_page L va s = s\<lparr>pmem := ?m\<rparr>"
    using vmm_unmap_page_effect [OF assms(1,2)] assms(3) True by (simp add: scratch_page_def)
  have "pmm_inv (pmm_st s)" using assms(1) by (simp add: vmm_ok_def)
  then show ?thesis
    using spec_map_vmm_ok [OF assms(1,2) r assms(3)] spec_map_translate [OF assms(2) _ r] by (simp add: eq)
next
  case False
  then have eq: "vmm_unmap_page L va s = s\<lparr>cpu_flags := cpu_flags s AND NOT interrupt_flag\<rparr>"
    using vmm_unmap_page_effect [OF assms(1,2)] assms(3) by (simp add: scratch_page_def)
  have "translate (pmem s) (page_directory L) va' = None" if "same_page va va'"
    using False that by (simp add: translate_table same_page_iff)
  then show ?thesis using assms(1,2) by (simp add: eq vmm_ok_def)
qed

theorem vmm_unmap_page_correct_witness:
  "\<exists>s. translate (pmem s) (page_directory boot_layout) 0x5000 = Some 0x5000 \<and>
     translate (pmem (vmm_unmap_page boot_layout 0x5000 s)) (page_directory boot_layout) 0x5000 = None"
proof -
  let ?s = "set_scratch boot_layout 0 boot_vmm"
  have sp: "\<not> scratch_page 0x5000" by (simp add: scratch_page_def pti_eq)
  have "translate (pmem boot_vmm) (cr3 boot_vmm) 0x5000 = Some 0x5000" "cr3 boot_vmm = page_directory boot_layout"
    using vmm_init_translates [OF boot_layout_ok, of "0x5000"]
    by (simp_all add: boot_vmm_def) (simp add: vmm_init_def Let_def)
  then have "translate (pmem ?s) (page_directory boot_layout) 0x5000 = Some 0x5000"
    using translate_scratch [OF boot_layout_ok boot_vmm_ok(2) sp] by simp
  moreover have "translate (pmem (vmm_unmap_page boot_layout 0x5000 ?s)) (page_directory boot_layout) 0x5000 = None"
    using vmm_unmap_page_correct [OF boot_vmm_ok sp, of "0x5000"] by (simp add: same_page_def Let_def)
  ultimately show ?thesis by blast
qed

lemma new_directory_cells:
  assumes "page_aligned f" "page_aligned pd" "f \<noteq> pd" "i < 1024"
  shows "new_directory L f m (cell pd i) = m (cell pd i)"
    and "new_directory L f m (cell f i) =
      (if i = 0 then m (cell (page_directory L) 0) AND NOT 4
       else if i = 1 then m (cell (page_directory L) 1) AND NOT 4 else 0)"
  using assms by (simp_all add: new_directory_def cell_inj zero_cells_other zero_cells_hit)

lemma and_not_4: "frame_of (x AND NOT 4) = frame_of x" "(x AND NOT 4 :: u32) AND 1 = x AND 1"
  by (simp_all add: frame_of_def and.assoc)

lemma new_directory_translate:
  assumes "vmm_ok L s" "dir_ok L (pmem s) (pmm_st s) (page_directory L)"
    and al: "pmm_alloc_frame (pmm_st s) = (f, p')" "f \<noteq> 0"
  defines "m' \<equiv> new_directory L f (pmem s)"
  shows "translate m' (page_directory L) va = translate (pmem s) (page_directory L) va"
    and "translate m' f va = (if pdi va < 2 then translate (pmem s) (page_directory L) va else None)"
proof -
  let ?pd = "page_directory L" and ?m = "pmem s"
  note fresh = new_table_fresh [OF assms(1,2) al]
  have f6: "\<And>a. frame_used (pmm_st s) a \<Longrightarrow> a \<noteq> f"
    using alloc_fresh(6) [OF _ al] assms(1) by (auto simp: vmm_ok_def)
  have pte: "m' (cell (table ?m ?pd (pdi va)) (pti va)) = ?m (cell (table ?m ?pd (pdi va)) (pti va))"
    if "present ?m ?pd (pdi va)"
    unfolding m'_def using that fresh(1) f6 [of "table ?m ?pd (pdi va)"] assms(2)
    by (intro new_directory_cells(1)) (auto simp: table_def dir_ok_def)
  have "m' (cell ?pd (pdi va)) = ?m (cell ?pd (pdi va))"
    unfolding m'_def using fresh by (intro new_directory_cells(1)) auto
  then have "present m' ?pd (pdi va) = present ?m ?pd (pdi va)" "table m' ?pd (pdi va) = table ?m ?pd (pdi va)"
    by (simp_all add: present_def table_def)
  then show "translate m' ?pd va = translate ?m ?pd va" using pte by (auto simp: translate_table)
  have "m' (cell f (pdi va)) = (if pdi va < 2 then ?m (cell ?pd (pdi va)) AND NOT 4 else 0)"
    unfolding m'_def using fresh new_directory_cells(2) [of f ?pd "pdi va"] by (auto simp: less_2_cases_iff)
  then have "present m' f (pdi va) \<longleftrightarrow> pdi va < 2 \<and> present ?m ?pd (pdi va)"
    "pdi va < 2 \<Longrightarrow> table m' f (pdi va) = table ?m ?pd (pdi va)"
    using and_not_4 by (auto simp: present_def table_def)
  then show "translate m' f va = (if pdi va < 2 then translate ?m ?pd va else None)"
    using pte by (auto simp: translate_table)
qed

text \<open>The directory created is well formed.\<close>

lemma new_directory_dir_ok:
  assumes "vmm_ok L s" and dir: "dir_ok L (pmem s) (pmm_st s) (page_directory L)"
    and al: "pmm_alloc_frame (pmm_st s) = (f, p')" "f \<noteq> 0"
  shows "dir_ok L (new_directory L f (pmem s)) p' f"
    and "vmm_ok L (s\<lparr>pmem := new_directory L f (pmem s), pmm_st := p'\<rparr>)"
proof -
  let ?pd = "page_directory L" and ?m = "pmem s" and ?m' = "new_directory L f (pmem s)"
  have inv: "pmm_inv (pmm_st s)" and lay: "layout_ok L" using assms(1) by (simp_all add: vmm_ok_def)
  note fresh = new_table_fresh [OF assms(1,2) al] alloc_fresh [OF inv al]
  have "?m' (cell f d) = (if d < 2 then ?m (cell ?pd d) AND NOT 4 else 0)" if "d < 1024" for d
    using that fresh new_directory_cells(2) [of f ?pd d] by (auto simp: less_2_cases_iff)
  then have c: "present ?m' f d \<longleftrightarrow> d < 2 \<and> present ?m ?pd d" "d < 2 \<Longrightarrow> table ?m' f d = table ?m ?pd d"
    if "d < 1024" for d
    using that and_not_4 by (simp_all add: present_def table_def)
  have t: "frame_used p' (table ?m ?pd d) \<and> table ?m ?pd d \<noteq> f \<and> (table ?m ?pd d = first_page_table L \<longrightarrow> d = 0)"
    if "d < 1024" "present ?m ?pd d" for d
    using that dir fresh(14) by (auto simp: dir_ok_def)
  have inj: "d = e" if "d < 1024" "e < 1024" "present ?m ?pd d" "present ?m ?pd e" "table ?m ?pd d = table ?m ?pd e" for d e
    using that dir by (auto simp: dir_ok_def)
  show "dir_ok L ?m' p' f"
    unfolding dir_ok_def using fresh(1,3,13) c t inj by auto
  have "?m' (cell (first_page_table L) 1023) = 0"
    using assms(1) fresh new_directory_cells(1) [of f "first_page_table L" 1023] by (simp add: vmm_ok_def)
  then show "vmm_ok L (s\<lparr>pmem := ?m', pmm_st := p'\<rparr>)"
    using assms(1) fresh(10,14) by (auto simp: vmm_ok_def)
qed

text \<open>
  \<open>vmm_create_address_space\<close> returns 0 only when no frame is left; otherwise it turns a frame
  that was free into a page directory in which the kernel's first 8 MB translate as in the
  kernel's directory, nothing else is mapped, and all translations of the kernel stay.
\<close>

theorem vmm_create_address_space_correct:
  assumes "vmm_ok L s" "dir_ok L (pmem s) (pmm_st s) (page_directory L)"
  shows "case vmm_create_address_space L s of (pd, s') \<Rightarrow>
    if free_frames (pmm_st s) - {0} = {} then pd = 0 \<and> s' = s
    else pd \<noteq> 0 \<and> page_aligned pd \<and> frame_number pd \<in> free_frames (pmm_st s) \<and>
      free_frames (pmm_st s') = free_frames (pmm_st s) - {frame_number pd} \<and> cpu_flags s' = cpu_flags s \<and>
      vmm_ok L s' \<and> dir_ok L (pmem s') (pmm_st s') pd \<and>
      (\<forall>va. translate (pmem s') pd va =
         (if unat va < 0x800000 then translate (pmem s) (page_directory L) va else None) \<and>
         translate (pmem s') (page_directory L) va = translate (pmem s) (page_directory L) va)"
proof -
  have inv: "pmm_inv (pmm_st s)" using assms(1) by (simp add: vmm_ok_def)
  obtain f p' where al: "pmm_alloc_frame (pmm_st s) = (f, p')" by fastforce
  show ?thesis
  proof (cases "free_frames (pmm_st s) - {0} = {}")
    case True
    then have "f = 0" "p' = pmm_st s" using pmm_alloc_frame_None [OF True] al by simp_all
    then show ?thesis using True al by (simp add: vmm_create_address_space_def)
  next
    case False
    have nz: "f \<noteq> 0" using frames.alloc_zero [OF inv, of p'] al False by auto
    have "pdi va < 2 \<longleftrightarrow> unat va < 0x800000" for va by (simp add: pdi_eq div_less_iff_less_mult)
    then show ?thesis
      using False nz vmm_create_effect [OF assms(1) al nz] alloc_fresh [OF inv al nz]
        new_directory_translate [OF assms al nz] new_directory_dir_ok [OF assms al nz] by auto
  qed
qed

theorem vmm_create_address_space_correct_witness:
  "\<exists>pd s'. vmm_create_address_space boot_layout (set_scratch boot_layout 0 boot_vmm) = (pd, s') \<and> pd \<noteq> 0 \<and>
     translate (pmem s') pd 0x10000000 = None"
proof -
  obtain pd s' where r: "vmm_create_address_space boot_layout (set_scratch boot_layout 0 boot_vmm) = (pd, s')"
    by fastforce
  have "free_frames (pmm_st (set_scratch boot_layout 0 boot_vmm)) - {0} \<noteq> {}"
    by (simp add: boot_vmm_pmm boot_pmm_free)
  with vmm_create_address_space_correct [OF boot_vmm_ok] r show ?thesis by (auto simp del: set_scratch_simps)
qed

text \<open>Mapping a user page of a directory just created: one new table.\<close>

lemma new_directory_map:
  assumes ok: "vmm_ok L s" and dir: "dir_ok L (pmem s) (pmm_st s) (page_directory L)"
    and al: "pmm_alloc_frame (pmm_st s) = (pd, p1)" "pd \<noteq> 0" and va: "2 \<le> pdi va"
    and r: "spec_map pd va v (new_directory L pd (pmem s), p1) = Some (m2, p2)"
  obtains f where "f \<noteq> 0" "pmm_alloc_frame p1 = (f, p2)" "table_frames m2 pd 2 1022 = {frame_number f}"
    "\<And>va'. translate m2 (page_directory L) va' = translate (pmem s) (page_directory L) va'"
proof -
  let ?m = "pmem s" and ?kd = "page_directory L" and ?m1 = "new_directory L pd (pmem s)"
  have inv: "pmm_inv (pmm_st s)" using ok by (simp add: vmm_ok_def)
  note fresh = new_table_fresh [OF ok dir al]
  note fresh' = alloc_fresh [OF inv al]
  have c: "?m1 (cell pd d) = (if d < 2 then ?m (cell ?kd d) AND NOT 4 else 0)" if "d < 1024" for d
    using that fresh new_directory_cells(2) [of pd ?kd d] by (auto simp: less_2_cases_iff)
  have absent: "\<not> present ?m1 pd d" if "2 \<le> d" "d < 1024" for d using c [of d] that by (simp add: present_def)
  note d1 = new_directory_dir_ok [OF ok dir al]
  from r show ?thesis
  proof (cases rule: spec_map_cases)
    case old
    then show ?thesis using absent va by simp
  next
    case (new f)
    note ff = alloc_fresh [OF fresh'(2) new(2,3)]
    have fpd: "f \<noteq> pd" using ff(6) [OF fresh'(5)] by auto
    have pr: "present m2 pd e \<longleftrightarrow> e = pdi va" if "2 \<le> e" "e < 1024" for e
      using spec_map_directory(1) [OF d1(1) fresh'(2) r that(2)] absent [OF that] by simp
    have tab: "table m2 pd (pdi va) = f"
      using new(4) fpd ff(1) fresh(1) by (simp add: table_def cell_inj)
    have "{d. 2 \<le> d \<and> d < 2 + 1022 \<and> present m2 pd d} = {pdi va}" using pr va by auto
    then have tf: "table_frames m2 pd 2 1022 = {frame_number f}" by (simp add: table_frames_def tab)
    have keep: "m2 (cell a i) = ?m (cell a i)" if "page_aligned a" "frame_used (pmm_st s) a" "i < 1024" for a i
    proof -
      have "a \<noteq> pd" "a \<noteq> f" using fresh'(6) [OF that(2)] ff(6) by auto
      then show ?thesis using that new(4) ff(1) fresh(1) new_directory_cells(1) [of pd a i L ?m]
        by (simp add: cell_inj zero_cells_other)
    qed
    have "m2 (cell ?kd i) = ?m (cell ?kd i)" if "i < 1024" for i
      using keep [of ?kd i] that dir by (simp add: dir_ok_def)
    then have same: "present m2 ?kd i = present ?m ?kd i" "table m2 ?kd i = table ?m ?kd i" if "i < 1024" for i
      using that by (simp_all add: present_def table_def)
    have "m2 (cell (table ?m ?kd (pdi va')) (pti va')) = ?m (cell (table ?m ?kd (pdi va')) (pti va'))"
      if "present ?m ?kd (pdi va')" for va'
      using that dir by (intro keep) (auto simp: table_def dir_ok_def)
    then have "translate m2 ?kd va' = translate ?m ?kd va'" for va'
      using same [of "pdi va'"] by (auto simp: translate_table)
    then show ?thesis using that [of f] new(2,3) tf by blast
  qed
qed

text \<open>
  C18: the life of an address space.  A directory is created, a user page is mapped into it and
  the directory is destroyed: in between the page translates to its frame in the new directory,
  the kernel's translations never change, and at the end exactly the frames that were free at
  the start are free again.
\<close>

theorem vmm_address_space_lifecycle:
  assumes ok: "vmm_ok L s" and dir: "dir_ok L (pmem s) (pmm_st s) (page_directory L)"
    and two: "\<exists>f g. f \<in> free_frames (pmm_st s) \<and> g \<in> free_frames (pmm_st s) \<and> f \<noteq> 0 \<and> g \<noteq> 0 \<and> f \<noteq> g"
    and va: "0x800000 \<le> unat va" and fl: "fl < 0x1000" "fl AND 1 \<noteq> 0"
  shows "\<exists>pd s1 s2 s3. vmm_create_address_space L s = (pd, s1) \<and> pd \<noteq> 0 \<and>
    vmm_map_page_in_pdir L pd pa va fl s1 = Inr s2 \<and>
    translate (pmem s2) pd va = Some (frame_of pa OR page_offset va) \<and>
    vmm_destroy_address_space L pd s2 = Inr s3 \<and>
    free_frames (pmm_st s3) = free_frames (pmm_st s) \<and> cpu_flags s3 = cpu_flags s \<and>
    (\<forall>va'. translate (pmem s3) (page_directory L) va' = translate (pmem s) (page_directory L) va')"
proof -
  have inv: "pmm_inv (pmm_st s)" using ok by (simp add: vmm_ok_def)
  obtain pd p1 where al: "pmm_alloc_frame (pmm_st s) = (pd, p1)" by fastforce
  have nz: "pd \<noteq> 0" using frames.alloc_zero [OF inv, of p1] al two by auto
  note fresh = alloc_fresh [OF inv al nz]
  note create = vmm_create_effect [OF ok al nz]
  note d1 = new_directory_dir_ok [OF ok dir al nz]
  let ?m1 = "new_directory L pd (pmem s)"
  let ?s1 = "s\<lparr>pmem := ?m1, pmm_st := p1\<rparr>" and ?v = "frame_of pa OR fl"
  have d: "2 \<le> pdi va" using va unfolding pdi_eq by (simp add: less_eq_div_iff_mult_less_eq)
  have sp: "\<not> scratch_page va" using d by (simp add: scratch_page_def)
  have "free_frames p1 - {0} \<noteq> {}" using two fresh(3) by auto
  from spec_map_not_None [OF fresh(2) this] obtain m2 p2 where r: "spec_map pd va ?v (?m1, p1) = Some (m2, p2)"
    by metis
  let ?s2 = "?s1\<lparr>pmem := m2, pmm_st := p2\<rparr>"
  have r': "spec_map pd va ?v (pmem ?s1, pmm_st ?s1) = Some (m2, p2)" and dir1: "dir_ok L (pmem ?s1) (pmm_st ?s1) pd"
    using r d1(1) by simp_all
  have map: "vmm_map_page_in_pdir L pd pa va fl ?s1 = Inr ?s2"
    using vmm_map_page_in_pdir_refines [OF d1(2) dir1] sp r by (simp add: scratch_page_def lift_map_def)
  obtain f where f: "f \<noteq> 0" "pmm_alloc_frame p1 = (f, p2)" "table_frames m2 pd 2 1022 = {frame_number f}"
    "\<And>va'. translate m2 (page_directory L) va' = translate (pmem s) (page_directory L) va'"
    using new_directory_map [OF ok dir al nz d r] by metis
  have v: "?v AND 1 \<noteq> 0" "frame_of ?v = frame_of pa"
    using fl frame_of_or [of "frame_of pa" fl] by (simp_all add: and_one_eq mod_2_eq_odd even_or_iff)
  have tr: "translate m2 pd va = Some (frame_of pa OR page_offset va)"
    using spec_map_translate [OF d1(1) fresh(2) r, of va] v by (simp add: same_page_def)
  have ok2: "vmm_ok L ?s2" "dir_ok L (pmem ?s2) (pmm_st ?s2) pd"
    using spec_map_vmm_ok [OF d1(2) dir1 r' sp] by simp_all
  obtain p3 where p3: "vmm_destroy_address_space L pd ?s2 = Inr (?s2\<lparr>pmm_st := p3\<rparr>)"
    "free_frames p3 = insert (frame_number pd) (free_frames p2 \<union> {frame_number f})"
    using vmm_destroy_effect [OF ok2 nz] f(3) by auto
  have "free_frames p3 = free_frames (pmm_st s)"
    using p3(2) alloc_fresh(3,4) [OF fresh(2) f(2,1)] fresh(3,4) by auto
  then show ?thesis using create nz map tr p3(1) f(4)
    by (intro exI [of _ pd] exI [of _ ?s1] exI [of _ ?s2] exI [of _ "?s2\<lparr>pmm_st := p3\<rparr>"]) simp
qed

theorem vmm_address_space_lifecycle_witness:
  "\<exists>pd s1 s2 s3. vmm_create_address_space boot_layout (set_scratch boot_layout 0 boot_vmm) = (pd, s1) \<and>
     vmm_map_page_in_pdir boot_layout pd 0x200000 0x10000000 7 s1 = Inr s2 \<and>
     vmm_destroy_address_space boot_layout pd s2 = Inr s3 \<and> free_frames (pmm_st s3) = {0x900, 0x901}"
proof -
  have "\<exists>f g. f \<in> free_frames (pmm_st (set_scratch boot_layout 0 boot_vmm)) \<and>
      g \<in> free_frames (pmm_st (set_scratch boot_layout 0 boot_vmm)) \<and> f \<noteq> 0 \<and> g \<noteq> 0 \<and> f \<noteq> g"
    by (intro exI [of _ "0x900"] exI [of _ "0x901"]) (simp add: boot_vmm_pmm boot_pmm_free)
  from vmm_address_space_lifecycle [OF boot_vmm_ok this, of "0x10000000" 7 "0x200000"] show ?thesis
    by (auto simp: boot_vmm_pmm boot_pmm_free)
qed

text \<open>
  C40: \<open>vmm_map_page_current\<close> does not map a page whose page table is missing: it reads the
  directory entry back through the scratchpad after the scratchpad was pointed at the new, zeroed
  table, so the page table entry is written to physical frame 0, over the real-mode interrupt
  vectors, and the page stays unmapped although a frame was taken for its table.
\<close>

theorem vmm_map_page_current_missing_table:
  assumes ok: "vmm_ok L s" and dir: "dir_ok L (pmem s) (pmm_st s) (cr3 s)"
    and va: "page_offset va = 0" "\<not> present (pmem s) (cr3 s) (pdi va)"
    and nz: "free_frames (pmm_st s) - {0} \<noteq> {}" "first_page_table L \<noteq> 0" "cr3 s \<noteq> 0"
  shows "\<exists>s'. vmm_map_page_current L pa va fl s = Inr s' \<and> translate (pmem s') (cr3 s) va = None \<and>
    pmem s' (cell 0 (pti va)) = pa OR fl \<and> card (free_frames (pmm_st s')) + 1 = card (free_frames (pmm_st s))"
proof -
  let ?pd = "cr3 s" and ?d = "pdi va" and ?t = "pti va" and ?m = "pmem s" and ?sc = "cell (first_page_table L) 1023"
  have inv: "pmm_inv (pmm_st s)" and lay: "layout_ok L" and sc: "?m ?sc = 0" using ok by (simp_all add: vmm_ok_def)
  obtain f p' where al: "pmm_alloc_frame (pmm_st s) = (f, p')" by fastforce
  have f0: "f \<noteq> 0" using frames.alloc_zero [OF inv, of p'] al nz(1) by auto
  note fresh = new_table_fresh [OF ok dir al f0]
  have a0: "page_aligned 0" by (simp add: page_aligned_def frame_of_def)
  let ?s0 = "s\<lparr>cpu_flags := cpu_flags s AND NOT interrupt_flag\<rparr>"
  let ?m1 = "(zero_cells f 0 1024 ?m)(cell ?pd ?d := f OR 7)"
  let ?s1 = "?s0\<lparr>pmem := ?m1, pmm_st := p'\<rparr>"
  have ok0: "vmm_ok L ?s0" "dir_ok L (pmem ?s0) (pmm_st ?s0) ?pd" using ok dir by (simp_all add: vmm_ok_def)
  have ne: "cell ?pd ?d \<noteq> ?sc" using fresh by (simp add: cell_inj)
  have rd: "scratch_read L ?d (set_scratch L (?pd OR 3) ?s0) = ?m (cell ?pd ?d)"
    using fresh(6) ne by (simp add: scratch_read_set)
  have new: "scratch_zero L 0 1024 (set_scratch L (f OR 3)
      (scratch_write L ?d (f OR 7) ((set_scratch L (?pd OR 3) ?s0)\<lparr>pmm_st := p'\<rparr>))) = set_scratch L (f OR 3) ?s1"
    using pdir_new_table [OF ok0, of ?d f p'] al f0 by simp
  have fd: "cell f ?d \<noteq> cell ?pd ?d" "cell f ?d \<noteq> ?sc" "cell 0 ?t \<noteq> ?sc"
    using fresh a0 nz(2) by (auto simp: cell_inj)
  have rd2: "scratch_read L ?d (set_scratch L (f OR 3) ?s1) = 0"
    using fresh(1) fd by (simp add: scratch_read_set zero_cells_hit)
  have "?m1 ?sc = 0" using sc ne fresh by (simp add: zero_cells_other)
  then have fin: "set_scratch L 0 (scratch_write L ?t (pa OR fl) (set_scratch L (0 OR 3) ?s1)) =
      ?s1\<lparr>pmem := ?m1(cell 0 ?t := pa OR fl)\<rparr>"
    using scratch_table_write [of ?s1 L 0 ?t "pa OR fl"] a0 fd(3) by simp
  let ?s' = "?s1\<lparr>pmem := ?m1(cell 0 ?t := pa OR fl), cpu_flags := cpu_flags s\<rparr>"
  have z: "frame_of 0 = 0" by (simp add: frame_of_def)
  have res: "vmm_map_page_current L pa va fl s = Inr ?s'"
    unfolding vmm_map_page_current_def irq_save_def irq_restore_def Let_def prod.case
    using va rd al f0 new rd2 fin by (simp add: page_offset_def present_def z set_scratch_twice)
  have "(?m1(cell 0 ?t := pa OR fl)) (cell ?pd ?d) = f OR 7" "(?m1(cell 0 ?t := pa OR fl)) (cell f ?t) = 0"
    using fresh a0 nz(3) f0 by (simp_all add: cell_inj zero_cells_hit)
  then have "translate (pmem ?s') ?pd va = None" using fresh(1) by (simp add: translate_def Let_def)
  moreover have "card (free_frames p') + 1 = card (free_frames (pmm_st s))"
    using alloc_fresh(3,4) [OF inv al f0] card_Suc_Diff1 [of "free_frames (pmm_st s)" "frame_number f"]
    by (simp del: card_Diff_insert)
  ultimately show ?thesis using res by (intro exI [of _ ?s']) simp
qed

theorem vmm_map_page_current_missing_table_witness:
  "\<exists>s'. vmm_map_page_current boot_layout 0x200000 0x10000000 7 (set_scratch boot_layout 0 boot_vmm) = Inr s' \<and>
     translate (pmem s') (cr3 boot_vmm) 0x10000000 = None \<and> pmem s' 0 = 0x200007"
proof -
  let ?s = "set_scratch boot_layout 0 boot_vmm"
  have c: "cr3 ?s = page_directory boot_layout" "cr3 boot_vmm = page_directory boot_layout"
    by (simp_all add: set_scratch_def boot_vmm_def vmm_init_def Let_def)
  have "pdi 0x10000000 = 64" "pti 0x10000000 = 0" by (simp_all add: pdi_eq pti_eq)
  moreover from this have "\<not> present (pmem ?s) (cr3 ?s) (pdi 0x10000000)"
    using boot_vmm_entry c by (simp add: present_def del: set_scratch_simps)
  moreover have "free_frames (pmm_st ?s) - {0} \<noteq> {}" by (simp add: boot_vmm_pmm boot_pmm_free)
  moreover have "first_page_table boot_layout \<noteq> 0" "cr3 ?s \<noteq> 0" using c by (simp_all add: boot_layout_def)
  ultimately have "\<exists>s'. vmm_map_page_current boot_layout 0x200000 0x10000000 7 ?s = Inr s' \<and>
     translate (pmem s') (cr3 ?s) 0x10000000 = None \<and> pmem s' (cell 0 (pti 0x10000000)) = 0x200000 OR 7 \<and>
     card (free_frames (pmm_st s')) + 1 = card (free_frames (pmm_st ?s))"
    using boot_vmm_ok c by (intro vmm_map_page_current_missing_table boot_map(3)) simp_all
  then show ?thesis using c \<open>pti 0x10000000 = 0\<close> by (auto simp: cell_def)
qed

end
