(* ===== verification/Kheap_Clients.thy ===== *)
theory Kheap_Clients
  imports Kheap
begin

text \<open>
  What code that uses the heap of src/src/memory/heap/heap.c may write to: the cells that hold no
  block header.  Such writes keep the heap well formed, the payload of a live region consists of
  such cells, and it still does after the region has been freed, as \<open>kfree\<close> only removes headers.
\<close>

section \<open>Header cells\<close>

primrec header_cells :: "nat \<Rightarrow> block list \<Rightarrow> nat set" where
  "header_cells a [] = {}"
| "header_cells a (b # bs) = {a, a + 4} \<union> header_cells (a + 8 + fst b) bs"

definition client_cell :: "heap_state \<Rightarrow> addr \<Rightarrow> bool" where
  "client_cell s x \<longleftrightarrow> (\<forall>bs. heap_blocks (hmem s) bs \<longrightarrow> unat x \<notin> header_cells 0x400000 bs)"

lemma header_cells_append: "header_cells a (xs @ ys) = header_cells a xs \<union> header_cells (a + span xs) ys"
  by (induction xs arbitrary: a) (auto simp: span_def algebra_simps)

lemma header_cells_bounds: "x \<in> header_cells a bs \<Longrightarrow> a \<le> x \<and> x < a + span bs"
  by (induction bs arbitrary: a) (auto simp: span_def, force+)

lemma header_cells_used:
  assumes "(q, k) \<in> used_blocks a bs" "q \<le> x" "x < q + k"
  shows "x \<notin> header_cells a bs"
proof -
  obtain xs ys where b: "bs = xs @ (k, False) # ys" "q = a + span xs + 8"
    using used_blocks_split [OF assms(1)] by blast
  then show ?thesis
    using assms(2,3) header_cells_bounds [of x a xs] header_cells_bounds [of x "q + k" ys]
    by (auto simp: header_cells_append algebra_simps)
qed

lemma header_cells_merge_next: "header_cells a (merge_next n ys) \<subseteq> header_cells a ((n, f) # ys)"
  by (auto simp: merge_next_def algebra_simps split: list.splits prod.splits bool.splits)

lemma header_cells_free_blocks:
  "header_cells a (free_blocks xs n ys) \<subseteq> header_cells a (xs @ (n, False) # ys)"
proof -
  obtain k zs where kz: "merge_next n ys = (k, True) # zs" using merge_next_free by metis
  have tl: "header_cells b ((k, True) # zs) \<subseteq> header_cells b ((n, False) # ys)" for b
    using header_cells_merge_next [of b n ys False] kz by simp
  show ?thesis
  proof (cases "xs \<noteq> [] \<and> snd (last xs)")
    case True
    then obtain ws w where xs: "xs = ws @ [(w, True)]"
      by (metis append_butlast_last_id prod.collapse)
    have "free_blocks xs n ys = ws @ (w + k + 8, True) # zs" by (simp add: free_blocks_def merge_prev_def kz xs)
    moreover have "header_cells b ((w + k + 8, True) # zs) \<subseteq> header_cells b ((w, True) # (k, True) # zs)" for b
      by (auto simp: algebra_simps)
    ultimately show ?thesis using tl [of "a + span ws + 8 + w"]
      by (auto simp: xs header_cells_append span_def algebra_simps)
  next
    case False
    then show ?thesis using tl [of "a + span xs"] by (auto simp: free_blocks_def merge_prev_def kz header_cells_append)
  qed
qed

section \<open>Writes that miss the headers\<close>

lemma blocks_at_headers:
  assumes "blocks_at m a bs" "\<And>x. unat x \<in> header_cells a bs \<Longrightarrow> m' x = m x"
  shows "blocks_at m' a bs"
  using assms
proof (induction bs arbitrary: a)
  case (Cons b bs)
  have e: "a + 8 + fst b + span bs = 0x800000" using blocks_at_end [OF Cons.prems(1)] by (simp add: span_def)
  have u: "unat (of_nat a :: u32) = a" "unat (of_nat (a + 4) :: u32) = a + 4"
    using e by (subst unat_of_nat_u32; simp)+
  have "m' (of_nat a) = m (of_nat a)" by (rule Cons.prems(2)) (simp add: u(1))
  moreover have "m' (of_nat (a + 4)) = m (of_nat (a + 4))"
    by (rule Cons.prems(2)) (simp add: u(2) del: of_nat_add)
  moreover have "blocks_at m' (a + 8 + fst b) bs"
    using Cons.prems by (intro Cons.IH) simp_all
  ultimately show ?case using Cons.prems(1) by simp
qed simp

lemma client_writes:
  assumes "heap_ok s" "\<And>x. m' x \<noteq> hmem s x \<Longrightarrow> client_cell s x"
  shows "heap_ok (s\<lparr>hmem := m'\<rparr>)" and "live_regions (s\<lparr>hmem := m'\<rparr>) = live_regions s"
    and "client_cell (s\<lparr>hmem := m'\<rparr>) x = client_cell s x"
proof -
  obtain bs where bs: "heap_blocks (hmem s) bs" "coalesced bs" using assms(1) by (auto simp: heap_ok_def)
  have "blocks_at m' 0x400000 bs"
  proof (rule blocks_at_headers)
    show "blocks_at (hmem s) 0x400000 bs" using bs(1) by (simp add: heap_blocks_def)
    show "m' x = hmem s x" if "unat x \<in> header_cells 0x400000 bs" for x
      using assms(2) [of x] bs(1) that by (auto simp: client_cell_def)
  qed
  then have m': "heap_blocks m' bs" using bs(1) by (simp add: heap_blocks_def)
  then show "heap_ok (s\<lparr>hmem := m'\<rparr>)" using bs(2) by (auto simp: heap_ok_def)
  show "live_regions (s\<lparr>hmem := m'\<rparr>) = live_regions s"
    using live_regions_eq [OF bs(1)] live_regions_eq [of "s\<lparr>hmem := m'\<rparr>" bs] m' by simp
  have "heap_blocks m' cs \<longleftrightarrow> cs = bs" "heap_blocks (hmem s) cs \<longleftrightarrow> cs = bs" for cs
    using m' bs(1) heap_blocks_unique by blast+
  then show "client_cell (s\<lparr>hmem := m'\<rparr>) x = client_cell s x" by (simp add: client_cell_def)
qed

lemma client_cell_live:
  assumes "heap_ok s" "(q, k) \<in> live_regions s" "q \<le> unat x" "unat x < q + k"
  shows "client_cell s x"
  using assms header_cells_used live_regions_eq unfolding client_cell_def by blast

lemma client_cell_outside:
  assumes "heap_ok s" "unat x < 0x400000 \<or> 0x800000 \<le> unat x"
  shows "client_cell s x"
proof -
  have "unat x \<notin> header_cells 0x400000 bs" if "heap_blocks (hmem s) bs" for bs
    using that assms(2) header_cells_bounds [of "unat x" "0x400000" bs] blocks_at_end [of "hmem s" "0x400000" bs]
    by (auto simp: heap_blocks_def)
  then show ?thesis by (simp add: client_cell_def)
qed

text \<open>Freeing a region keeps every cell that was not a header.\<close>

lemma kfree_client_cell:
  assumes "heap_ok s" "(unat p, k) \<in> live_regions s" "0 < k" "kfree p s = Some (Inr s')" "client_cell s x"
  shows "client_cell s' x"
proof -
  obtain bs where bs: "heap_blocks (hmem s) bs" using assms(1) by (auto simp: heap_ok_def)
  obtain xs ys where x: "bs = xs @ (k, False) # ys" "unat p = 0x400000 + span xs + 8"
    using used_blocks_split [of "unat p" k "0x400000" bs] assms(2) live_regions_eq [OF bs] by auto
  have p: "p = of_nat (0x400000 + span xs + 8)" unfolding x(2) [symmetric] by simp
  obtain m' where m': "kfree p s = Some (Inr (s\<lparr>hmem := m'\<rparr>))" "heap_blocks m' (free_blocks xs k ys)"
    using kfree_refines [of s xs k ys] bs x(1) assms(3) p by auto
  have "unat x \<notin> header_cells 0x400000 bs" using assms(5) bs by (simp add: client_cell_def)
  then have "unat x \<notin> header_cells 0x400000 (free_blocks xs k ys)"
    using header_cells_free_blocks [of "0x400000" xs k ys] x(1) by auto
  moreover have "hmem s' = m'" using assms(4) m'(1) by auto
  ultimately show ?thesis
    unfolding client_cell_def using m'(2) heap_blocks_unique by metis
qed

section \<open>Aligned blocks and the regions of others\<close>

lemma kmalloc_aligned_kept:
  assumes ok: "heap_ok s" and al: "power_of_two al" and sz: "unat n + unat al + 4 \<le> 0xFFFFFFFC"
    and r: "kmalloc_aligned n al s = Some (p, s')" "p \<noteq> 0"
    and q: "(q, l) \<in> live_regions s" "q \<le> unat x" "unat x < q + l"
  shows "hmem s' x = hmem s x"
proof -
  obtain raw s1 where s1: "kmalloc (n + (al + 4)) s = Some (raw, s1)" "heap_ok s1"
    using kmalloc_total [OF ok] by blast
  have off: "unat (n + (al + 4)) = unat n + unat al + 4" using sz by (simp add: unat_plus_u32)
  have raw: "raw \<noteq> 0" "p = (raw + (al + 4) - 1) AND NOT (al - 1)" "s' = s1\<lparr>hmem := (hmem s1)(p - 4 := raw)\<rparr>"
    using r s1(1) al by (auto simp: kmalloc_aligned_def power_of_two_def Let_def split: if_splits)
  obtain k where k: "unat (n + (al + 4)) \<le> k" "live_regions s1 = insert (unat raw, k) (live_regions s)"
    "(unat raw, k) \<notin> live_regions s" "payloads_kept (hmem s) (hmem s1) 0x400000 (live_regions s)"
    using kmalloc_region [OF ok s1(1) raw(1)] off sz by (metis)
  have rk: "unat raw + k \<le> 0x800000" using live_regions_bounds [OF s1(2), of "unat raw" k] k(2) by simp
  then have "unat raw + unat al + 3 < 2 ^ 32" using k(1) off by simp
  note a = aligned_addr [OF al this, folded raw(2)]
  have "kept_cell 0x400000 (live_regions s) x" using q unfolding kept_cell_def by force
  then have "hmem s1 x = hmem s x" using k(4) by (simp add: payloads_kept_def)
  moreover have "x \<noteq> p - 4"
  proof
    assume "x = p - 4"
    then have "unat raw \<le> unat x" "unat x < unat raw + k"
      using a k(1) off by (simp_all add: unat_minus_u32)
    then show False using new_region_disjoint [OF s1(2) k(2,3) q(1)] q(2,3) by auto
  qed
  ultimately show ?thesis using raw(3) by simp
qed

lemma kmalloc_aligned_null:
  assumes ok: "heap_ok s" and al: "power_of_two al" and sz: "unat n + unat al + 4 \<le> 0xFFFFFFFC"
    and r: "kmalloc_aligned n al s = Some (0, s')"
  shows "s' = s"
proof -
  obtain raw s1 where s1: "kmalloc (n + (al + 4)) s = Some (raw, s1)" "heap_ok s1"
    using kmalloc_total [OF ok] by blast
  have off: "unat (n + (al + 4)) = unat n + unat al + 4" using sz by (simp add: unat_plus_u32)
  let ?p = "(raw + (al + 4) - 1) AND NOT (al - 1)"
  have e: "kmalloc_aligned n al s = (if raw = 0 then Some (0, s1) else Some (?p, s1\<lparr>hmem := (hmem s1)(?p - 4 := raw)\<rparr>))"
    using s1(1) al by (simp add: kmalloc_aligned_def power_of_two_def Let_def)
  have "raw = 0"
  proof (rule ccontr)
    assume nz: "raw \<noteq> 0"
    obtain k where k: "unat (n + (al + 4)) \<le> k" "(unat raw, k) \<in> live_regions s1"
      using kmalloc_region [OF ok s1(1) nz] off sz by auto
    have "unat raw + unat al + 3 < 2 ^ 32" using live_regions_bounds [OF s1(2) k(2)] k(1) off by simp
    from aligned_addr(2) [OF al this] show False using e r nz by simp
  qed
  moreover obtain bs where "heap_blocks (hmem s) bs" using ok by (auto simp: heap_ok_def)
  ultimately show ?thesis using kmalloc_null(1) s1(1) e r by auto
qed

text \<open>A start address belongs to one live region only.\<close>

lemma used_start_unique: "(q, k) \<in> used_blocks a bs \<Longrightarrow> (q, k') \<in> used_blocks a bs \<Longrightarrow> k = k'"
proof (induction bs arbitrary: a)
  case (Cons b bs)
  have "a + 8 < q" if "(q, l) \<in> used_blocks (a + 8 + fst b) bs" for l
    using used_blocks_bounds [OF that] by simp
  then show ?case using Cons by (auto split: if_splits)
qed simp

lemma live_start_unique:
  assumes "heap_ok s" "(q, k) \<in> live_regions s" "(q, k') \<in> live_regions s"
  shows "k = k'"
proof -
  obtain bs where "heap_blocks (hmem s) bs" using assms(1) by (auto simp: heap_ok_def)
  from live_regions_eq [OF this] show ?thesis using assms(2,3) used_start_unique by blast
qed

end
