(* ===== verification/Vmm_Spaces.thy ===== *)
theory Vmm_Spaces
  imports Vmm
begin

text \<open>
  Several address spaces at once: the set of page directories that \<open>vmm_create_address_space\<close>
  (src/src/memory/vmm/vmm.c) has handed out and \<open>vmm_destroy_address_space\<close> has not yet taken
  back.  The invariant \<open>spaces_ok\<close> says that no two of them share a frame beyond the kernel's own
  tables; the locale \<open>space_manager\<close> is the contract the task manager builds on.
\<close>

section \<open>The invariant\<close>

definition own_frames :: "wordmem \<Rightarrow> addr \<Rightarrow> nat set" where
  "own_frames m pd = insert (frame_number pd) (table_frames m pd 2 1022)"

definition kernel_frames :: "vmm_layout \<Rightarrow> wordmem \<Rightarrow> nat set" where
  "kernel_frames L m = {frame_number (page_directory L), frame_number (first_page_table L),
     frame_number (heap_page_table L)} \<union> table_frames m (page_directory L) 0 1024"

definition space_ok :: "vmm_layout \<Rightarrow> wordmem \<Rightarrow> pmm_state \<Rightarrow> addr \<Rightarrow> bool" where
  "space_ok L m p pd \<longleftrightarrow> pd \<noteq> 0 \<and> pd \<noteq> page_directory L \<and> dir_ok L m p pd \<and>
     own_frames m pd \<inter> kernel_frames L m = {} \<and>
     (\<forall>d < 2. present m pd d \<longrightarrow> frame_number (table m pd d) \<in> kernel_frames L m)"

definition spaces_ok :: "vmm_layout \<Rightarrow> vmm_state \<Rightarrow> addr set \<Rightarrow> bool" where
  "spaces_ok L s P \<longleftrightarrow> vmm_ok L s \<and> dir_ok L (pmem s) (pmm_st s) (page_directory L) \<and>
     (\<forall>pd \<in> P. space_ok L (pmem s) (pmm_st s) pd) \<and>
     (\<forall>pd \<in> P. \<forall>pd' \<in> P. pd \<noteq> pd' \<longrightarrow> own_frames (pmem s) pd \<inter> own_frames (pmem s) pd' = {})"

section \<open>Frames in use\<close>

lemma table_frames_used:
  "dir_ok L m p pd \<Longrightarrow> i + n \<le> 1024 \<Longrightarrow> table_frames m pd i n \<inter> free_frames p = {}"
  by (auto simp: dir_ok_def table_frames_def frame_used_def)

lemma own_frames_used: "dir_ok L m p pd \<Longrightarrow> own_frames m pd \<inter> free_frames p = {}"
  using table_frames_used [of L m p pd 2 1022] by (auto simp: own_frames_def dir_ok_def frame_used_def)

lemma kernel_frames_used:
  assumes "vmm_ok L s" "dir_ok L (pmem s) (pmm_st s) (page_directory L)"
  shows "kernel_frames L (pmem s) \<inter> free_frames (pmm_st s) = {}"
  using assms table_frames_used [OF assms(2), of 0 1024]
  by (auto simp: kernel_frames_def vmm_ok_def frame_used_def)

text \<open>A directory whose cells stay and whose frames stay in use is still well formed.\<close>

lemma dir_ok_keep:
  assumes "dir_ok L m p pd" "\<And>d. d < 1024 \<Longrightarrow> m' (cell pd d) = m (cell pd d)"
    and "frame_used p' pd" "\<And>d. d < 1024 \<Longrightarrow> present m pd d \<Longrightarrow> frame_used p' (table m pd d)"
  shows "dir_ok L m' p' pd"
proof -
  have "present m' pd d = present m pd d" "table m' pd d = table m pd d" if "d < 1024" for d
    using assms(2) [OF that] by (simp_all add: present_def table_def)
  then show ?thesis using assms(1,3,4) by (simp add: dir_ok_def)
qed

lemma table_frames_keep:
  assumes "\<And>d. d < 1024 \<Longrightarrow> m' (cell pd d) = m (cell pd d)" "i + n \<le> 1024"
  shows "table_frames m' pd i n = table_frames m pd i n"
proof -
  have "present m' pd d = present m pd d" "table m' pd d = table m pd d" if "d < i + n" for d
    using assms that by (simp_all add: present_def table_def)
  then show ?thesis by (auto simp: table_frames_def)
qed

lemma space_ok_keep:
  assumes "space_ok L m p pd" "\<And>d. d < 1024 \<Longrightarrow> m' (cell pd d) = m (cell pd d)"
    and "\<And>d. d < 1024 \<Longrightarrow> m' (cell (page_directory L) d) = m (cell (page_directory L) d)"
    and "(own_frames m pd \<union> kernel_frames L m) \<inter> free_frames p' = {}"
  shows "space_ok L m' p' pd" and "own_frames m' pd = own_frames m pd"
    and "kernel_frames L m' = kernel_frames L m"
proof -
  show own: "own_frames m' pd = own_frames m pd"
    using table_frames_keep [where m' = m' and m = m and pd = pd and i = 2 and n = 1022] assms(2) by (simp add: own_frames_def)
  show ker: "kernel_frames L m' = kernel_frames L m"
    using table_frames_keep [where m' = m' and m = m and pd = "page_directory L" and i = 0 and n = 1024] assms(3) by (simp add: kernel_frames_def)
  have tab: "frame_used p' (table m pd d)" if "d < 1024" "present m pd d" for d
  proof (cases "d < 2")
    case True
    then have "frame_number (table m pd d) \<in> kernel_frames L m" using assms(1) that by (simp add: space_ok_def)
    then show ?thesis using assms(4) by (auto simp: frame_used_def)
  next
    case False
    then have "frame_number (table m pd d) \<in> own_frames m pd"
      using that by (auto simp: own_frames_def table_frames_def)
    then show ?thesis using assms(4) by (auto simp: frame_used_def)
  qed
  have "frame_used p' pd" using assms(4) by (auto simp: frame_used_def own_frames_def)
  with assms(1,2) tab have "dir_ok L m' p' pd"
    unfolding space_ok_def by (elim conjE) (rule dir_ok_keep)
  moreover have "present m' pd d = present m pd d" "table m' pd d = table m pd d" if "d < 1024" for d
    using assms(2) [OF that] by (simp_all add: present_def table_def)
  ultimately show "space_ok L m' p' pd" using assms(1) own ker by (simp add: space_ok_def)
qed

lemma kernel_dir_keep:
  assumes "vmm_ok L s" "dir_ok L (pmem s) (pmm_st s) (page_directory L)"
    and "kernel_frames L (pmem s) \<inter> free_frames (pmm_st s') = {}" "pmm_inv (pmm_st s')"
    and "\<And>d. d < 1024 \<Longrightarrow> pmem s' (cell (page_directory L) d) = pmem s (cell (page_directory L) d)"
    and "pmem s' (cell (first_page_table L) 1023) = pmem s (cell (first_page_table L) 1023)"
  shows "vmm_ok L s'" and "dir_ok L (pmem s') (pmm_st s') (page_directory L)"
proof -
  have used: "frame_used (pmm_st s') (page_directory L)" "frame_used (pmm_st s') (first_page_table L)"
    "frame_used (pmm_st s') (heap_page_table L)"
    using assms(3) by (auto simp: frame_used_def kernel_frames_def)
  then show "vmm_ok L s'" using assms(1,4,6) by (simp add: vmm_ok_def)
  have "frame_number (table (pmem s) (page_directory L) d) \<in> kernel_frames L (pmem s)"
    if "d < 1024" "present (pmem s) (page_directory L) d" for d
    using that by (auto simp: kernel_frames_def table_frames_def)
  then have "frame_used (pmm_st s') (table (pmem s) (page_directory L) d)"
    if "d < 1024" "present (pmem s) (page_directory L) d" for d
    using that assms(3) unfolding frame_used_def by blast
  with assms(2,5) used(1) show "dir_ok L (pmem s') (pmm_st s') (page_directory L)"
    by (rule dir_ok_keep)
qed

section \<open>Creating and destroying\<close>

lemma spaces_create:
  assumes ok: "spaces_ok L s P" and cr: "vmm_create_address_space L s = (pd, s')"
  shows "pd = 0 \<and> s' = s \<and> free_frames (pmm_st s) - {0} = {} \<or>
    pd \<noteq> 0 \<and> pd \<notin> P \<and> spaces_ok L s' (insert pd P) \<and> cpu_flags s' = cpu_flags s \<and> cr3 s' = cr3 s \<and>
    free_frames (pmm_st s') = free_frames (pmm_st s) - {frame_number pd} \<and> frame_number pd \<in> free_frames (pmm_st s)"
proof -
  let ?m = "pmem s" and ?p = "pmm_st s" and ?kd = "page_directory L"
  have v: "vmm_ok L s" "dir_ok L ?m ?p ?kd" and inv: "pmm_inv ?p" using ok by (auto simp: spaces_ok_def vmm_ok_def)
  obtain f p' where al: "pmm_alloc_frame ?p = (f, p')" by fastforce
  show ?thesis
  proof (cases "f = 0")
    case True
    then have "free_frames ?p - {0} = {}" using frames.alloc_zero [OF inv, of p'] al by auto
    moreover from pmm_alloc_frame_None [OF this] al have "p' = ?p" by simp
    ultimately show ?thesis using True al cr by (simp add: vmm_create_address_space_def)
  next
    case False
    let ?m' = "new_directory L f ?m"
    note fr = alloc_fresh [OF inv al False] and tf = new_table_fresh [OF v al False]
    have r: "pd = f" "s' = s\<lparr>pmem := ?m', pmm_st := p'\<rparr>" using vmm_create_effect [OF v(1) al False] cr by simp_all
    have cells: "?m' (cell a d) = ?m (cell a d)" if "page_aligned a" "frame_used ?p a" "d < 1024" for a d
      using that fr(1,6) new_directory_cells(1) [of f a d] by auto
    have sub: "free_frames p' \<subseteq> free_frames ?p" using fr(3) by auto
    have kc: "\<And>d. d < 1024 \<Longrightarrow> ?m' (cell ?kd d) = ?m (cell ?kd d)"
      using v(2) by (intro cells) (auto simp: dir_ok_def)
    have kf: "kernel_frames L ?m \<inter> free_frames p' = {}" using kernel_frames_used [OF v] sub by auto
    have ker: "kernel_frames L ?m' = kernel_frames L ?m"
      using table_frames_keep [where m' = ?m' and m = ?m and pd = ?kd and i = 0 and n = 1024] kc by (simp add: kernel_frames_def)
    have others: "space_ok L ?m' p' q \<and> own_frames ?m' q = own_frames ?m q \<and> frame_number f \<notin> own_frames ?m q"
      if "q \<in> P" for q
    proof -
      have q: "space_ok L ?m ?p q" "dir_ok L ?m ?p q" using that ok by (auto simp: spaces_ok_def space_ok_def)
      have "?m' (cell q d) = ?m (cell q d)" if "d < 1024" for d
        using q(2) that by (intro cells) (auto simp: dir_ok_def)
      moreover have "(own_frames ?m q \<union> kernel_frames L ?m) \<inter> free_frames p' = {}"
        using own_frames_used [OF q(2)] kf sub by auto
      ultimately show ?thesis
        using space_ok_keep [OF q(1) _ kc] own_frames_used [OF q(2)] fr(4) by auto
    qed
    have c: "?m' (cell f d) = (if d < 2 then ?m (cell ?kd d) AND NOT 4 else 0)" if "d < 1024" for d
      using that fr(1) tf new_directory_cells(2) [of f ?kd d] by (auto simp: less_2_cases_iff)
    have own: "own_frames ?m' f = {frame_number f}" using c by (auto simp: own_frames_def table_frames_def present_def)
    have low: "frame_number (table ?m' f d) \<in> kernel_frames L ?m" if "d < 2" "present ?m' f d" for d
    proof -
      have "?m' (cell f d) = ?m (cell ?kd d) AND NOT 4" using c [of d] that by simp
      then have "table ?m' f d = table ?m ?kd d" "present ?m ?kd d"
        using that(2) unfolding table_def present_def by (simp_all only: and_not_4 simp_thms)
      then show ?thesis using that(1) by (auto simp: kernel_frames_def table_frames_def)
    qed
    have new: "space_ok L ?m' p' f"
      using False tf(4) new_directory_dir_ok(1) [OF v al False] own ker low fr(4) kernel_frames_used [OF v]
      by (auto simp: space_ok_def)
    have "f \<notin> P" using others by (auto simp: own_frames_def)
    moreover have "vmm_ok L s'" "dir_ok L (pmem s') (pmm_st s') ?kd"
      using new_directory_dir_ok(2) [OF v al False] r kernel_dir_keep(2) [OF v, of s'] kf fr(2) kc
        cells [of "first_page_table L" 1023] v(1) by (auto simp: vmm_ok_def layout_ok_def)
    moreover have "own_frames ?m' q \<inter> own_frames ?m' q' = {}" if "q \<in> insert f P" "q' \<in> insert f P" "q \<noteq> q'" for q q'
    proof (cases "q = f \<or> q' = f")
      case True
      then show ?thesis using that others own by auto
    next
      case False
      then have "own_frames ?m q \<inter> own_frames ?m q' = {}" using that ok by (simp add: spaces_ok_def)
      then show ?thesis using False that others by auto
    qed
    ultimately show ?thesis using r new others False fr(3,4) by (simp add: spaces_ok_def)
  qed
qed

lemma spaces_destroy:
  assumes ok: "spaces_ok L s P" and pd: "pd \<in> P"
  shows "\<exists>s'. vmm_destroy_address_space L pd s = Inr s' \<and> spaces_ok L s' (P - {pd}) \<and>
    cpu_flags s' = cpu_flags s \<and> cr3 s' = cr3 s \<and>
    free_frames (pmm_st s') = free_frames (pmm_st s) \<union> own_frames (pmem s) pd"
proof -
  let ?m = "pmem s" and ?p = "pmm_st s" and ?kd = "page_directory L"
  have v: "vmm_ok L s" "dir_ok L ?m ?p ?kd" using ok by (auto simp: spaces_ok_def)
  have q: "space_ok L ?m ?p pd" using ok pd by (simp add: spaces_ok_def)
  then obtain p' where d: "vmm_destroy_address_space L pd s = Inr (s\<lparr>pmm_st := p'\<rparr>)" "pmm_inv p'"
    "free_frames p' = free_frames ?p \<union> own_frames ?m pd"
    using vmm_destroy_effect [OF v(1), of pd] by (auto simp: space_ok_def own_frames_def)
  have kf: "kernel_frames L ?m \<inter> free_frames p' = {}"
    using d(3) kernel_frames_used [OF v] q by (auto simp: space_ok_def)
  have "space_ok L ?m p' q'" if "q' \<in> P - {pd}" for q'
  proof -
    have s: "space_ok L ?m ?p q'" "own_frames ?m q' \<inter> own_frames ?m pd = {}"
      using that ok pd by (auto simp: spaces_ok_def)
    then have "own_frames ?m q' \<inter> free_frames p' = {}"
      using d(3) own_frames_used [of L ?m ?p q'] by (auto simp: space_ok_def)
    then show ?thesis using space_ok_keep(1) [OF s(1), of ?m p'] kf by auto
  qed
  moreover have "vmm_ok L (s\<lparr>pmm_st := p'\<rparr>)" "dir_ok L ?m p' ?kd"
    using kernel_dir_keep [OF v, of "s\<lparr>pmm_st := p'\<rparr>"] kf d(2) by auto
  ultimately have "spaces_ok L (s\<lparr>pmm_st := p'\<rparr>) (P - {pd})" using ok by (auto simp: spaces_ok_def)
  then show ?thesis using d by auto
qed

section \<open>The contract\<close>

locale space_manager =
  fixes spaces :: "'s \<Rightarrow> addr set \<Rightarrow> bool"
    and free :: "'s \<Rightarrow> nat set"
    and create :: "'s \<Rightarrow> addr \<times> 's"
    and destroy :: "addr \<Rightarrow> 's \<Rightarrow> 's kres"
  assumes create_law: "\<lbrakk>spaces s P; create s = (pd, s')\<rbrakk> \<Longrightarrow>
      pd = 0 \<and> s' = s \<or> pd \<noteq> 0 \<and> pd \<notin> P \<and> spaces s' (insert pd P) \<and> free s' \<subseteq> free s"
    and destroy_law: "\<lbrakk>spaces s P; pd \<in> P\<rbrakk> \<Longrightarrow>
      \<exists>s'. destroy pd s = Inr s' \<and> spaces s' (P - {pd}) \<and> free s \<subseteq> free s'"
begin

text \<open>Directories can be given back one after the other, in any order.\<close>

lemma destroy_all:
  assumes "spaces s P" "distinct pds" "set pds \<subseteq> P"
  shows "\<exists>s'. foldr (\<lambda>pd r. kbind r (destroy pd)) pds (Inr s) = Inr s' \<and> spaces s' (P - set pds) \<and> free s \<subseteq> free s'"
  using assms(2,3)
proof (induction pds)
  case Nil
  then show ?case using assms(1) by auto
next
  case (Cons pd pds)
  then obtain s1 where s1: "foldr (\<lambda>pd r. kbind r (destroy pd)) pds (Inr s) = Inr s1" "spaces s1 (P - set pds)"
    "free s \<subseteq> free s1" by auto
  moreover from destroy_law [OF s1(2), of pd] Cons.prems obtain s2 where
    "destroy pd s1 = Inr s2" "spaces s2 (P - set pds - {pd})" "free s1 \<subseteq> free s2" by auto
  moreover have "P - set pds - {pd} = P - set (pd # pds)" by auto
  ultimately show ?case by auto
qed

end

interpretation vmm_spaces: space_manager "spaces_ok L" "\<lambda>s. free_frames (pmm_st s)"
  "vmm_create_address_space L" "vmm_destroy_address_space L" for L
proof
  show "pd = 0 \<and> s' = s \<or> pd \<noteq> 0 \<and> pd \<notin> P \<and> spaces_ok L s' (insert pd P) \<and> free_frames (pmm_st s') \<subseteq> free_frames (pmm_st s)"
    if "spaces_ok L s P" "vmm_create_address_space L s = (pd, s')" for s P pd s'
    using spaces_create [OF that] by auto
  show "\<exists>s'. vmm_destroy_address_space L pd s = Inr s' \<and> spaces_ok L s' (P - {pd}) \<and>
      free_frames (pmm_st s) \<subseteq> free_frames (pmm_st s')" if "spaces_ok L s P" "pd \<in> P" for s P pd
    using spaces_destroy [OF that] by auto
qed

end
