(* ===== verification/Task.thy ===== *)
theory Task
  imports Klib_List Kheap_Clients Vmm_Spaces
begin

text \<open>
  The task manager: src/src/kernel/task/task.c and task.h, with the context switch of task.asm.
  The PCBs are a map from their addresses, their two list nodes are at offsets 28 and 36 in the
  links of \<open>Klib_List\<close>, and the stacks are cells of the memory the heap lives in, so the frame
  \<open>task_create\<close> prepares is the one the context switch pops.  Memory comes from the models of
  \<open>kmalloc\<close>, \<open>kfree\<close> and of the address spaces; the CPU's flag register is the one they save
  and restore.  \<open>None\<close> is a call that never returns to its caller's context.
\<close>

unbundle bit_operations_syntax

section \<open>Data\<close>

definition STACK_SIZE :: u32 where
  "STACK_SIZE = 4096"

datatype task_state_t = TASK_READY | TASK_RUNNING | TASK_BLOCKED | TASK_DEAD

record task_t =
  t_esp :: u32
  t_cr3 :: u32
  t_pid :: u32
  t_state :: task_state_t
  t_ticks :: u32
  t_stack_base :: u32
  t_stack_top :: u32

text \<open>The offsets of the two nodes in \<open>task_t\<close>, and its size.\<close>

definition list_offset :: u32 where "list_offset = 28"
definition all_list_offset :: u32 where "all_list_offset = 36"
definition sizeof_task :: u32 where "sizeof_task = 44"

text \<open>
  The addresses the linker chooses: the list heads, the kernel's PCB, the trampoline and the
  instruction behind the call of \<open>switch_context\<close> in \<open>task_yield\<close>.
\<close>

record task_layout =
  vmm_lay :: vmm_layout
  ready_list :: addr
  all_tasks_list :: addr
  dead_list :: addr
  kernel_task :: addr
  task_exit_trampoline :: addr
  after_switch :: addr

record cpu_regs =
  r_eax :: u32
  r_ecx :: u32
  r_edx :: u32
  r_ebx :: u32
  r_esp :: u32
  r_ebp :: u32
  r_esi :: u32
  r_edi :: u32
  r_eip :: u32

text \<open>
  \<open>heap\<close> holds memory and the flag register, \<open>vmm\<close> physical memory and CR3.  \<open>yield_flags\<close> is the
  local variable \<open>flags\<close> of the call of \<open>task_yield\<close> a task that is switched out stands in.
\<close>

record ksys =
  pcb :: "addr \<Rightarrow> task_t"
  links :: list_mem
  current_task_ptr :: addr
  task_count :: u32
  next_pid :: u32
  tss_esp0 :: u32
  heap :: heap_state
  vmm :: vmm_state
  regs :: cpu_regs
  yield_flags :: "addr \<Rightarrow> u32"

section \<open>Calls into the heap and the address spaces\<close>

definition cpu_eflags :: "ksys \<Rightarrow> u32" where
  "cpu_eflags s = eflags (heap s)"

definition set_eflags :: "u32 \<Rightarrow> ksys \<Rightarrow> ksys" where
  "set_eflags e s = s\<lparr>heap := (heap s)\<lparr>eflags := e\<rparr>\<rparr>"

definition on_heap :: "(heap_state \<Rightarrow> heap_state kres option) \<Rightarrow> ksys \<Rightarrow> ksys kres option" where
  "on_heap f s = map_option (map_sum id (\<lambda>h. s\<lparr>heap := h\<rparr>)) (f (heap s))"

definition with_vmm :: "vmm_state \<Rightarrow> ksys \<Rightarrow> ksys" where
  "with_vmm v s = s\<lparr>vmm := v, heap := (heap s)\<lparr>eflags := cpu_flags v\<rparr>\<rparr>"

definition vmm_of :: "ksys \<Rightarrow> vmm_state" where
  "vmm_of s = (vmm s)\<lparr>cpu_flags := eflags (heap s)\<rparr>"

definition on_vmm :: "(vmm_state \<Rightarrow> vmm_state kres) \<Rightarrow> ksys \<Rightarrow> ksys kres option" where
  "on_vmm f s = Some (map_sum id (\<lambda>v. with_vmm v s) (f (vmm_of s)))"

section \<open>Starting and creating tasks\<close>

definition task_init :: "task_layout \<Rightarrow> ksys \<Rightarrow> ksys" where
  "task_init L s =
     (let k = kernel_task L;
          s1 = s\<lparr>current_task_ptr := k\<rparr>;
          s2 = s1\<lparr>pcb := (pcb s1)(k := (pcb s1 k)\<lparr>t_pid := next_pid s1, t_state := TASK_RUNNING,
                     t_stack_base := 0, t_stack_top := 0x90000, t_esp := 0, t_ticks := 0,
                     t_cr3 := page_directory (vmm_lay L)\<rparr>),
                  next_pid := next_pid s1 + 1\<rparr>;
          l1 = list_init (k + list_offset) (links s2);
          l2 = list_init (k + all_list_offset) l1;
          l3 = list_add_tail (k + all_list_offset) (all_tasks_list L) l2
      in s2\<lparr>links := l3, current_task_ptr := k, task_count := 1\<rparr>)"

definition push :: "u32 \<Rightarrow> addr \<times> wordmem \<Rightarrow> addr \<times> wordmem" where
  "push v = (\<lambda>(sp, m). (sp - 4, m(sp - 4 := v)))"

text \<open>The frame a new task starts from, pushed word by word from the top of its stack.\<close>

definition initial_frame :: "task_layout \<Rightarrow> addr \<Rightarrow> u32 list" where
  "initial_frame L entry_point =
     [entry_point, 0, task_exit_trampoline L, 0x202, 0, 0, 0, 0, 0, 0, 0, 0]"

definition task_setup :: "task_layout \<Rightarrow> addr \<Rightarrow> addr \<Rightarrow> addr \<Rightarrow> addr \<Rightarrow> ksys \<Rightarrow> ksys" where
  "task_setup L entry_point new_task stack new_pdir s =
     (let (sp, m) = fold push (initial_frame L entry_point) (stack + STACK_SIZE, hmem (heap s));
          s1 = s\<lparr>heap := (heap s)\<lparr>hmem := m\<rparr>,
                 pcb := (pcb s)(new_task := \<lparr>t_esp = sp, t_cr3 = new_pdir, t_pid = next_pid s,
                   t_state = TASK_READY, t_ticks = 0, t_stack_base = stack, t_stack_top = stack + STACK_SIZE\<rparr>),
                 next_pid := next_pid s + 1\<rparr>;
          l1 = list_init (new_task + list_offset) (links s1);
          l2 = list_init (new_task + all_list_offset) l1;
          l3 = list_add_tail (new_task + list_offset) (ready_list L) l2;
          l4 = list_add_tail (new_task + all_list_offset) (all_tasks_list L) l3
      in s1\<lparr>links := l4, task_count := task_count s1 + 1\<rparr>)"

definition task_create :: "task_layout \<Rightarrow> addr \<Rightarrow> ksys \<Rightarrow> (addr \<times> ksys) kres option" where
  "task_create L entry_point s =
     (let (flags, e) = irq_save (cpu_eflags s);
          s0 = set_eflags e s;
          out = (\<lambda>v s. (v, set_eflags (irq_restore flags (cpu_eflags s)) s))
      in Option.bind (kmalloc sizeof_task (heap s0)) (\<lambda>(new_task, h1).
           let s1 = s0\<lparr>heap := h1\<rparr>
           in if new_task = 0 then Some (Inr (out 0 s1))
              else Option.bind (kmalloc_aligned STACK_SIZE 16 (heap s1)) (\<lambda>(stack, h2).
                let s2 = s1\<lparr>heap := h2\<rparr>
                in if stack = 0
                   then kobind (on_heap (kfree new_task) s2) (\<lambda>s3. Some (Inr (out 0 s3)))
                   else let (new_pdir, v) = vmm_create_address_space (vmm_lay L) (vmm_of s2);
                            s3 = with_vmm v s2
                        in if new_pdir = 0
                           then kobind (on_heap (kfree_aligned stack) s3) (\<lambda>s4.
                                kobind (on_heap (kfree new_task) s4) (\<lambda>s5. Some (Inr (out 0 s5))))
                           else Some (Inr (out new_task (task_setup L entry_point new_task stack new_pdir s3))))))"

section \<open>Reaping\<close>

definition release_task :: "task_layout \<Rightarrow> addr \<Rightarrow> ksys \<Rightarrow> ksys kres option" where
  "release_task L task s =
     kobind (if t_cr3 (pcb s task) \<noteq> page_directory (vmm_lay L)
             then on_vmm (vmm_destroy_address_space (vmm_lay L) (t_cr3 (pcb s task))) s
             else Some (Inr s)) (\<lambda>s2.
     kobind (if t_stack_base (pcb s2 task) \<noteq> 0
             then on_heap (kfree_aligned (t_stack_base (pcb s2 task))) s2
             else Some (Inr s2)) (\<lambda>s3.
     kobind (on_heap (kfree task) s3) (\<lambda>s4.
       Some (Inr (s4\<lparr>task_count := task_count s4 - 1\<rparr>)))))"

definition reap_task :: "task_layout \<Rightarrow> addr \<Rightarrow> ksys \<Rightarrow> ksys kres option" where
  "reap_task L task s =
     kobind (Some (list_del (task + list_offset) (links s))) (\<lambda>l1.
     kobind (Some (list_del (task + all_list_offset) l1)) (\<lambda>l2.
       release_task L task (s\<lparr>links := l2\<rparr>)))"

text \<open>\<open>list_for_each_safe\<close>: the node after \<open>pos\<close> is read before the body removes \<open>pos\<close>.\<close>

partial_function (option) reap_loop :: "task_layout \<Rightarrow> addr \<Rightarrow> addr \<Rightarrow> ksys \<Rightarrow> ksys kres option" where
  "reap_loop L pos n s =
     (if pos \<noteq> dead_list L
      then kobind (reap_task L (container_of pos list_offset) s) (\<lambda>s'.
             reap_loop L n (l_next (links s') n) s')
      else Some (Inr s))"

definition reap_dead_tasks :: "task_layout \<Rightarrow> ksys \<Rightarrow> ksys kres option" where
  "reap_dead_tasks L s =
     (let pos = l_next (links s) (dead_list L) in reap_loop L pos (l_next (links s) pos) s)"

section \<open>Switching\<close>

text \<open>The choice of the next task: the part of \<open>task_yield\<close> before the switch.\<close>

definition task_pick :: "task_layout \<Rightarrow> ksys \<Rightarrow> ksys kres" where
  "task_pick L s =
     (let old = current_task_ptr s;
          s1 = (if t_state (pcb s old) = TASK_RUNNING
                then s\<lparr>pcb := (pcb s)(old := (pcb s old)\<lparr>t_state := TASK_READY\<rparr>),
                       links := list_add_tail (old + list_offset) (ready_list L) (links s)\<rparr>
                else s);
          nxt = list_first_entry (links s1) (ready_list L) list_offset
      in kbind (list_del (nxt + list_offset) (links s1)) (\<lambda>l.
           Inr (s1\<lparr>links := l,
                   pcb := (pcb s1)(nxt := (pcb s1 nxt)\<lparr>t_state := TASK_RUNNING, t_ticks := t_ticks (pcb s1 nxt) + 1\<rparr>),
                   current_task_ptr := nxt, tss_esp0 := t_stack_top (pcb s1 nxt)\<rparr>)))"

text \<open>
  \<open>switch_context\<close> of task.asm, from the call in \<open>task_yield\<close> on: the three arguments and the return
  address, \<open>pushfd\<close>, \<open>pushad\<close>, the store through \<open>current_esp_ptr\<close> (the first field of the PCB),
  the comparison of CR3 with ECX, then \<open>popad\<close>, \<open>popfd\<close> and \<open>ret\<close> on the new stack.
\<close>

definition switch_save :: "task_layout \<Rightarrow> addr \<Rightarrow> u32 \<Rightarrow> u32 \<Rightarrow> ksys \<Rightarrow> addr \<times> wordmem" where
  "switch_save L current_esp_ptr new_esp new_cr3 s =
     (let r = regs s;
          call = fold push [new_cr3, new_esp, current_esp_ptr, after_switch L] (r_esp r, hmem (heap s));
          flgs = push (cpu_eflags s) call
      in fold push [r_eax r, r_ecx r, r_edx r, r_ebx r, fst flgs, r_ebp r, r_esi r, r_edi r] flgs)"

definition switch_load :: "addr \<Rightarrow> ksys \<Rightarrow> ksys" where
  "switch_load sp s =
     (let m = hmem (heap s)
      in s\<lparr>regs := \<lparr>r_eax = m (sp + 28), r_ecx = m (sp + 24), r_edx = m (sp + 20), r_ebx = m (sp + 16),
                    r_esp = sp + 40, r_ebp = m (sp + 8), r_esi = m (sp + 4), r_edi = m sp, r_eip = m (sp + 36)\<rparr>,
           heap := (heap s)\<lparr>eflags := m (sp + 32)\<rparr>\<rparr>)"

definition switch_context :: "task_layout \<Rightarrow> addr \<Rightarrow> u32 \<Rightarrow> u32 \<Rightarrow> ksys \<Rightarrow> ksys" where
  "switch_context L current_esp_ptr new_esp new_cr3 s =
     (let (sp, m) = switch_save L current_esp_ptr new_esp new_cr3 s;
          p = m (sp + 40);
          s1 = s\<lparr>heap := (heap s)\<lparr>hmem := m\<rparr>, pcb := (pcb s)(p := (pcb s p)\<lparr>t_esp := sp\<rparr>)\<rparr>;
          ecx = r_ecx (regs s);
          s2 = (if cr3 (vmm s1) \<noteq> ecx then s1\<lparr>vmm := (vmm s1)\<lparr>cr3 := ecx\<rparr>\<rparr> else s1)
      in switch_load (m (sp + 44)) s2)"

text \<open>
  Where the new context goes on: a task that was switched out returns into \<open>task_yield\<close>, which
  drops the arguments and restores its saved flags; a new one enters the trampoline, which
  enables interrupts.
\<close>

definition task_resume :: "task_layout \<Rightarrow> ksys \<Rightarrow> ksys" where
  "task_resume L s =
     (if r_eip (regs s) = task_exit_trampoline L
      then set_eflags (cpu_eflags s OR interrupt_flag) s
      else set_eflags (irq_restore (yield_flags s (current_task_ptr s)) (cpu_eflags s))
             (s\<lparr>regs := (regs s)\<lparr>r_esp := r_esp (regs s) + 12\<rparr>\<rparr>))"

text \<open>The result says whether a switch took place.\<close>

definition task_yield :: "task_layout \<Rightarrow> ksys \<Rightarrow> (bool \<times> ksys) kres option" where
  "task_yield L s =
     (let (flags, e) = irq_save (cpu_eflags s)
      in kobind (reap_dead_tasks L (set_eflags e s)) (\<lambda>s1.
           if list_empty (ready_list L) (links s1)
           then Some (Inr (False, set_eflags (irq_restore flags (cpu_eflags s1)) s1))
           else let old_task = current_task_ptr s1
                in kobind (Some (task_pick L s1)) (\<lambda>s2.
                     let t = pcb s2 (current_task_ptr s2);
                         s3 = s2\<lparr>yield_flags := (yield_flags s2)(old_task := flags)\<rparr>
                     in Some (Inr (True, task_resume L (switch_context L old_task (t_esp t) (t_cr3 t) s3))))))"

section \<open>Leaving and killing\<close>

definition task_exit :: "task_layout \<Rightarrow> ksys \<Rightarrow> ksys kres option" where
  "task_exit L s =
     (let (_, e) = irq_save (cpu_eflags s);
          s0 = set_eflags e s;
          c = current_task_ptr s0
      in if c = kernel_task L then None
         else let s1 = s0\<lparr>pcb := (pcb s0)(c := (pcb s0 c)\<lparr>t_state := TASK_DEAD\<rparr>),
                          links := list_add_tail (c + list_offset) (dead_list L) (links s0)\<rparr>
              in kobind (task_yield L s1) (\<lambda>(switched, s2). if switched then Some (Inr s2) else None))"

text \<open>
  The result is the value returned to the caller, or \<open>None\<close> when the caller killed itself and
  another task is running.
\<close>

definition task_kill :: "task_layout \<Rightarrow> u32 \<Rightarrow> ksys \<Rightarrow> (int option \<times> ksys) kres option" where
  "task_kill L pid s =
     (let (flags, e) = irq_save (cpu_eflags s);
          s0 = set_eflags e s;
          out = (\<lambda>v s. (Some v, set_eflags (irq_restore flags (cpu_eflags s)) s))
      in if pid \<le> 1 then Some (Inr (out (- 1) s0))
         else Option.bind (list_for_each (links s0) (all_tasks_list L)) (\<lambda>ps.
           case find (\<lambda>task. t_pid (pcb s0 task) = pid \<and> t_state (pcb s0 task) \<noteq> TASK_DEAD)
                  (map (\<lambda>pos. container_of pos all_list_offset) ps) of
             None \<Rightarrow> Some (Inr (out (- 1) s0))
           | Some task \<Rightarrow>
               if task = current_task_ptr s0
               then kobind (task_exit L s0) (\<lambda>s1. Some (Inr (None, s1)))
               else kobind (Some (list_del (task + list_offset) (links s0))) (\<lambda>l.
                      Some (Inr (out 0
                        (s0\<lparr>pcb := (pcb s0)(task := (pcb s0 task)\<lparr>t_state := TASK_DEAD\<rparr>),
                            links := list_add_tail (task + list_offset) (dead_list L) l\<rparr>))))))"

definition task_current :: "ksys \<Rightarrow> addr" where
  "task_current s = current_task_ptr s"

definition task_get_count :: "ksys \<Rightarrow> u32" where
  "task_get_count s = task_count s"

section \<open>The three lists\<close>

abbreviation list_node :: "addr \<Rightarrow> addr" where "list_node t \<equiv> t + list_offset"
abbreviation all_node :: "addr \<Rightarrow> addr" where "all_node t \<equiv> t + all_list_offset"

text \<open>The nodes of the tasks \<open>T\<close> and the three heads do not coincide.\<close>

definition nodes_apart :: "task_layout \<Rightarrow> addr set \<Rightarrow> bool" where
  "nodes_apart L T \<longleftrightarrow> distinct [ready_list L, dead_list L, all_tasks_list L] \<and>
     (\<forall>t \<in> T. list_node t \<notin> {ready_list L, dead_list L, all_tasks_list L} \<and>
        all_node t \<notin> {ready_list L, dead_list L, all_tasks_list L}) \<and>
     (\<forall>t \<in> T. \<forall>t' \<in> T. list_node t \<noteq> all_node t')"

definition task_lists :: "task_layout \<Rightarrow> list_mem \<Rightarrow> addr list \<Rightarrow> addr list \<Rightarrow> addr list \<Rightarrow> bool" where
  "task_lists L l ready dead alls \<longleftrightarrow> clist l (ready_list L) (map list_node ready) \<and>
     clist l (dead_list L) (map list_node dead) \<and> clist l (all_tasks_list L) (map all_node alls) \<and>
     set ready \<inter> set dead = {} \<and> nodes_apart L (set ready \<union> set dead \<union> set alls)"

lemma nodes_apart_subset: "nodes_apart L T \<Longrightarrow> T' \<subseteq> T \<Longrightarrow> nodes_apart L T'"
  unfolding nodes_apart_def by blast

lemma task_lists_disjoint:
  assumes "task_lists L l ready dead alls"
  shows "set (ready_list L # map list_node ready) \<inter> set (dead_list L # map list_node dead) = {}"
    and "set (ready_list L # map list_node ready) \<inter> set (all_tasks_list L # map all_node alls) = {}"
    and "set (dead_list L # map list_node dead) \<inter> set (all_tasks_list L # map all_node alls) = {}"
  using assms unfolding task_lists_def nodes_apart_def by auto

text \<open>An operation on one of three disjoint lists leaves the other two alone.\<close>

lemma clist3_add:
  assumes "clist l h xs" "clist l h2 ys" "clist l h3 zs"
    and "set (h # xs) \<inter> set (h2 # ys) = {}" "set (h # xs) \<inter> set (h3 # zs) = {}"
    and "n \<notin> set (h # xs) \<union> set (h2 # ys) \<union> set (h3 # zs)"
  shows "clist (list_add_tail n h l) h (xs @ [n]) \<and> clist (list_add_tail n h l) h2 ys \<and> clist (list_add_tail n h l) h3 zs"
proof -
  have "set (h2 # ys) \<inter> set (h # xs) = {}" "set (h3 # zs) \<inter> set (h # xs) = {}"
    using assms(4,5) by (simp_all only: Int_commute)
  then show ?thesis
    using clist_add_tail [OF assms(1)] clist_add_tail_other [OF assms(2,1)] clist_add_tail_other [OF assms(3,1)] assms(6) by simp
qed

lemma clist3_del:
  assumes "clist l h (xs @ e # xs')" "clist l h2 ys" "clist l h3 zs"
    and "set (h # xs @ e # xs') \<inter> set (h2 # ys) = {}" "set (h # xs @ e # xs') \<inter> set (h3 # zs) = {}"
  shows "\<exists>l'. list_del e l = Inr l' \<and> clist l' h (xs @ xs') \<and> clist l' h2 ys \<and> clist l' h3 zs"
proof -
  obtain l' where l': "list_del e l = Inr l'" "clist l' h (xs @ xs')" using clist_del [OF assms(1)] by blast
  moreover have "set (h2 # ys) \<inter> set (h # xs @ e # xs') = {}" "set (h3 # zs) \<inter> set (h # xs @ e # xs') = {}"
    using assms(4,5) by (simp_all only: Int_commute)
  ultimately show ?thesis
    using clist_del_other [OF assms(2,1) _ l'(1)] clist_del_other [OF assms(3,1) _ l'(1)] by blast
qed

lemma clist_init_other: "clist l h xs \<Longrightarrow> n \<notin> set (h # xs) \<Longrightarrow> clist (list_init n l) h xs"
  by (erule clist_frame) (auto simp: list_init_def)

lemma task_listsD:
  assumes "task_lists L l ready dead alls"
  shows "clist l (ready_list L) (map list_node ready)" "clist l (dead_list L) (map list_node dead)"
    "clist l (all_tasks_list L) (map all_node alls)" "set ready \<inter> set dead = {}"
    "nodes_apart L (set ready \<union> set dead \<union> set alls)"
    "distinct ready" "distinct dead" "distinct alls"
  using assms by (auto simp: task_lists_def clist_def distinct_map)

lemma fresh_nodes:
  assumes "nodes_apart L (insert t (set ready \<union> set dead \<union> set alls))"
  shows "list_node t \<notin> set (all_tasks_list L # map all_node alls)"
    and "t \<notin> set ready \<Longrightarrow> list_node t \<notin> set (ready_list L # map list_node ready)"
    and "t \<notin> set dead \<Longrightarrow> list_node t \<notin> set (dead_list L # map list_node dead)"
    and "all_node t \<notin> set (ready_list L # map list_node ready)"
    and "all_node t \<notin> set (dead_list L # map list_node dead)"
    and "t \<notin> set alls \<Longrightarrow> all_node t \<notin> set (all_tasks_list L # map all_node alls)"
  using assms unfolding nodes_apart_def by auto

lemma task_lists_add_ready:
  assumes "task_lists L l ready dead alls" "nodes_apart L (insert t (set ready \<union> set dead \<union> set alls))"
    and "t \<notin> set ready" "t \<notin> set dead"
  shows "task_lists L (list_add_tail (list_node t) (ready_list L) l) (ready @ [t]) dead alls"
  using clist3_add [OF task_listsD(1-3) [OF assms(1)] task_lists_disjoint(1,2) [OF assms(1)], of "list_node t"]
    fresh_nodes(1-3) [OF assms(2)] assms by (simp add: task_lists_def Un_insert_left insert_commute)

lemma task_lists_add_dead:
  assumes "task_lists L l ready dead alls" "nodes_apart L (insert t (set ready \<union> set dead \<union> set alls))"
    and "t \<notin> set ready" "t \<notin> set dead"
  shows "task_lists L (list_add_tail (list_node t) (dead_list L) l) ready (dead @ [t]) alls"
  using clist3_add [OF task_listsD(2,1,3) [OF assms(1)], of "list_node t"] task_lists_disjoint [OF assms(1)]
    fresh_nodes(1-3) [OF assms(2)] assms by (simp add: task_lists_def Int_commute)

lemma task_lists_add_all:
  assumes "task_lists L l ready dead alls" "nodes_apart L (insert t (set ready \<union> set dead \<union> set alls))"
    and "t \<notin> set alls"
  shows "task_lists L (list_add_tail (all_node t) (all_tasks_list L) l) ready dead (alls @ [t])"
  using clist3_add [OF task_listsD(3,1,2) [OF assms(1)], of "all_node t"] task_lists_disjoint [OF assms(1)]
    fresh_nodes(4-6) [OF assms(2)] assms by (simp add: task_lists_def Int_commute)

lemma task_lists_del_ready:
  assumes "task_lists L l (r @ t # r') dead alls"
  shows "\<exists>l'. list_del (list_node t) l = Inr l' \<and> task_lists L l' (r @ r') dead alls"
proof -
  have "clist l (ready_list L) (map list_node r @ list_node t # map list_node r')"
    using task_listsD(1) [OF assms] by simp
  from clist3_del [OF this task_listsD(2,3) [OF assms]] task_lists_disjoint(1,2) [OF assms]
  obtain l' where "list_del (list_node t) l = Inr l'" "clist l' (ready_list L) (map list_node (r @ r'))"
    "clist l' (dead_list L) (map list_node dead)" "clist l' (all_tasks_list L) (map all_node alls)" by auto
  moreover have "nodes_apart L (set (r @ r') \<union> set dead \<union> set alls)"
    using task_listsD(5) [OF assms] by (rule nodes_apart_subset) auto
  ultimately show ?thesis using task_listsD(4) [OF assms] by (auto simp: task_lists_def)
qed

lemma task_lists_del_dead:
  assumes "task_lists L l ready (r @ t # r') alls"
  shows "\<exists>l'. list_del (list_node t) l = Inr l' \<and> task_lists L l' ready (r @ r') alls"
proof -
  have "clist l (dead_list L) (map list_node r @ list_node t # map list_node r')"
    using task_listsD(2) [OF assms] by simp
  from clist3_del [OF this task_listsD(1,3) [OF assms]] task_lists_disjoint [OF assms]
  obtain l' where "list_del (list_node t) l = Inr l'" "clist l' (dead_list L) (map list_node (r @ r'))"
    "clist l' (ready_list L) (map list_node ready)" "clist l' (all_tasks_list L) (map all_node alls)"
    by (auto simp: Int_commute)
  moreover have "nodes_apart L (set ready \<union> set (r @ r') \<union> set alls)"
    using task_listsD(5) [OF assms] by (rule nodes_apart_subset) auto
  ultimately show ?thesis using task_listsD(4) [OF assms] by (auto simp: task_lists_def)
qed

lemma task_lists_del_all:
  assumes "task_lists L l ready dead (r @ t # r')"
  shows "\<exists>l'. list_del (all_node t) l = Inr l' \<and> task_lists L l' ready dead (r @ r')"
proof -
  have "clist l (all_tasks_list L) (map all_node r @ all_node t # map all_node r')"
    using task_listsD(3) [OF assms] by simp
  from clist3_del [OF this task_listsD(1,2) [OF assms]] task_lists_disjoint(2,3) [OF assms]
  obtain l' where "list_del (all_node t) l = Inr l'" "clist l' (all_tasks_list L) (map all_node (r @ r'))"
    "clist l' (ready_list L) (map list_node ready)" "clist l' (dead_list L) (map list_node dead)"
    by (auto simp: Int_commute)
  moreover have "nodes_apart L (set ready \<union> set dead \<union> set (r @ r'))"
    using task_listsD(5) [OF assms] by (rule nodes_apart_subset) auto
  ultimately show ?thesis using task_listsD(4) [OF assms] by (auto simp: task_lists_def)
qed

lemma task_lists_init:
  assumes "task_lists L l ready dead alls" "nodes_apart L (insert t (set ready \<union> set dead \<union> set alls))"
    and "t \<notin> set ready" "t \<notin> set dead" "t \<notin> set alls"
  shows "task_lists L (list_init (all_node t) (list_init (list_node t) l)) ready dead alls"
  using assms fresh_nodes [OF assms(2)] by (simp add: task_lists_def clist_init_other)

section \<open>Memory of the tasks\<close>

text \<open>
  The block \<open>kmalloc_aligned\<close> took for a stack, found through the hidden pointer below it.  A task
  other than the kernel owns its PCB, that block and its page directory, and no two tasks share one.
\<close>

definition raw_of :: "heap_state \<Rightarrow> (addr \<Rightarrow> task_t) \<Rightarrow> addr \<Rightarrow> addr" where
  "raw_of h P t = hmem h (t_stack_base (P t) - 4)"

definition pcb_live :: "heap_state \<Rightarrow> addr \<Rightarrow> bool" where
  "pcb_live h t \<longleftrightarrow> (\<exists>k \<ge> 44. (unat t, k) \<in> live_regions h)"

definition stack_live :: "heap_state \<Rightarrow> addr \<Rightarrow> addr \<Rightarrow> bool" where
  "stack_live h raw base \<longleftrightarrow> (\<exists>k. (unat raw, k) \<in> live_regions h \<and> unat raw + 4 \<le> unat base \<and>
     unat base + 4096 \<le> unat raw + k)"

definition heap_owned :: "heap_state \<Rightarrow> (addr \<Rightarrow> task_t) \<Rightarrow> addr set \<Rightarrow> bool" where
  "heap_owned h P U \<longleftrightarrow> heap_ok h \<and>
     (\<forall>t \<in> U. pcb_live h t \<and> stack_live h (raw_of h P t) (t_stack_base (P t))) \<and>
     raw_of h P ` U \<inter> U = {} \<and> inj_on (raw_of h P) U"

definition spaces_owned :: "vmm_layout \<Rightarrow> vmm_state \<Rightarrow> (addr \<Rightarrow> task_t) \<Rightarrow> addr set \<Rightarrow> bool" where
  "spaces_owned L v P U \<longleftrightarrow> spaces_ok L v ((\<lambda>t. t_cr3 (P t)) ` U) \<and> inj_on (\<lambda>t. t_cr3 (P t)) U"

text \<open>The regions starting in \<open>Q\<close> stay live, with their contents.\<close>

definition kept_regions :: "nat set \<Rightarrow> heap_state \<Rightarrow> heap_state \<Rightarrow> bool" where
  "kept_regions Q h h' \<longleftrightarrow> (\<forall>q k. (q, k) \<in> live_regions h \<and> q \<in> Q \<longrightarrow> (q, k) \<in> live_regions h' \<and>
     (\<forall>x. q \<le> unat x \<and> unat x < q + k \<longrightarrow> hmem h' x = hmem h x))"

lemma kept_regions_refl: "kept_regions Q h h"
  by (simp add: kept_regions_def)

lemma kept_regions_trans: "kept_regions Q h h' \<Longrightarrow> kept_regions Q h' h'' \<Longrightarrow> kept_regions Q h h''"
  unfolding kept_regions_def by metis

lemma kept_regions_mono: "kept_regions Q h h' \<Longrightarrow> Q' \<subseteq> Q \<Longrightarrow> kept_regions Q' h h'"
  unfolding kept_regions_def by blast

lemma payloads_kept_cell:
  "payloads_kept m m' a U \<Longrightarrow> (q, k) \<in> U \<Longrightarrow> q \<le> unat x \<Longrightarrow> unat x < q + k \<Longrightarrow> m' x = m x"
  unfolding payloads_kept_def kept_cell_def by force

lemma kept_regionsI:
  assumes "payloads_kept (hmem h) (hmem h') a W" "\<And>q k. (q, k) \<in> live_regions h \<Longrightarrow> q \<in> Q \<Longrightarrow> (q, k) \<in> live_regions h' \<and> (q, k) \<in> W"
  shows "kept_regions Q h h'"
  unfolding kept_regions_def using payloads_kept_cell [OF assms(1)] assms(2) by blast

lemma kmalloc_kept_regions:
  assumes "heap_ok h" "kmalloc n h = Some (p, h')" "unat n \<le> 0xFFFFFFFC"
  shows "kept_regions UNIV h h'"
proof (cases "p = 0")
  case True
  obtain bs where "heap_blocks (hmem h) bs" using assms(1) by (auto simp: heap_ok_def)
  then have "h' = h" using kmalloc_null(1) assms(2) True by blast
  then show ?thesis by (simp add: kept_regions_refl)
next
  case False
  obtain k where k: "live_regions h' = insert (unat p, k) (live_regions h)"
    "payloads_kept (hmem h) (hmem h') 0x400000 (live_regions h)"
    using kmalloc_region [OF assms(1,2) False assms(3)] by blast
  show ?thesis using kept_regionsI [OF k(2), of UNIV] k(1) by simp
qed

lemma kmalloc_aligned_kept_regions:
  assumes "heap_ok h" "power_of_two al" "unat n + unat al + 4 \<le> 0xFFFFFFFC" "kmalloc_aligned n al h = Some (p, h')" "p \<noteq> 0"
  shows "kept_regions UNIV h h'"
proof -
  have "\<exists>(raw :: addr) k. live_regions h' = insert (unat raw, k) (live_regions h)"
    using kmalloc_aligned_region [OF assms] by metis
  then show ?thesis unfolding kept_regions_def using kmalloc_aligned_kept [OF assms] by blast
qed

lemma kfree_kept_regions:
  assumes "heap_ok h" "(unat p, k) \<in> live_regions h" "0 < k" "kfree p h = Some (Inr h')"
  shows "kept_regions (- {unat p}) h h'"
proof -
  obtain h1 where h1: "kfree p h = Some (Inr h1)" "live_regions h1 = live_regions h - {(unat p, k)}"
    "payloads_kept (hmem h) (hmem h1) 0x400000 (live_regions h1)" using kfree_live [OF assms(1-3)] by metis
  have "h1 = h'" using h1(1) assms(4) by simp
  then show ?thesis using kept_regionsI [OF h1(3), of "- {unat p}"] h1(2) by simp
qed

lemma kept_regions_live:
  assumes "kept_regions Q h h'"
  shows "pcb_live h t \<Longrightarrow> unat t \<in> Q \<Longrightarrow> pcb_live h' t"
    and "stack_live h raw base \<Longrightarrow> unat raw \<in> Q \<Longrightarrow> stack_live h' raw base"
    and "stack_live h raw base \<Longrightarrow> unat raw \<in> Q \<Longrightarrow> hmem h' (base - 4) = hmem h (base - 4)"
proof -
  show "unat t \<in> Q \<Longrightarrow> pcb_live h t \<Longrightarrow> pcb_live h' t" using assms unfolding kept_regions_def pcb_live_def by blast
  show "unat raw \<in> Q \<Longrightarrow> stack_live h raw base \<Longrightarrow> stack_live h' raw base"
    using assms unfolding kept_regions_def stack_live_def by blast
  assume a: "stack_live h raw base" "unat raw \<in> Q"
  then obtain k where k: "(unat raw, k) \<in> live_regions h" "unat raw + 4 \<le> unat base" "unat base + 4096 \<le> unat raw + k"
    by (auto simp: stack_live_def)
  have "unat (base - 4) = unat base - 4" using k(2) by (simp add: unat_minus_u32)
  then have "unat raw \<le> unat (base - 4)" "unat (base - 4) < unat raw + k" using k(2,3) by simp_all
  then show "hmem h' (base - 4) = hmem h (base - 4)"
    using assms k(1) a(2) unfolding kept_regions_def by blast
qed

lemma heap_owned_keep:
  assumes "heap_owned h P U" "heap_ok h'" "V \<subseteq> U" "kept_regions (unat ` (V \<union> raw_of h P ` V)) h h'"
    and "\<And>t. t \<in> V \<Longrightarrow> t_stack_base (P' t) = t_stack_base (P t)"
  shows "heap_owned h' P' V" and "\<And>t. t \<in> V \<Longrightarrow> raw_of h' P' t = raw_of h P t"
proof -
  note k = kept_regions_live [OF assms(4)]
  show raw: "raw_of h' P' t = raw_of h P t" if "t \<in> V" for t
    using k(3) [of "raw_of h P t" "t_stack_base (P t)"] assms(1,3,5) that by (auto simp: heap_owned_def raw_of_def)
  have "pcb_live h' t \<and> stack_live h' (raw_of h' P' t) (t_stack_base (P' t))" if "t \<in> V" for t
    using k(1,2) raw [OF that] assms(1,3,5) that by (auto simp: heap_owned_def)
  moreover have "raw_of h' P' ` V = raw_of h P ` V" using raw by (intro image_cong) auto
  moreover have "inj_on (raw_of h' P') V \<longleftrightarrow> inj_on (raw_of h P) V" using raw by (intro inj_on_cong) auto
  moreover have "inj_on (raw_of h P) V" "raw_of h P ` V \<inter> V = {}"
    using assms(1,3) by (auto simp: heap_owned_def intro: inj_on_subset)
  ultimately show "heap_owned h' P' V" using assms(2) by (simp add: heap_owned_def)
qed

lemma spaces_owned_keep:
  assumes "spaces_owned L v P U" "\<And>t. t \<in> U \<Longrightarrow> t_cr3 (P' t) = t_cr3 (P t)"
  shows "spaces_owned L v P' U"
proof -
  have "(\<lambda>t. t_cr3 (P' t)) ` U = (\<lambda>t. t_cr3 (P t)) ` U" using assms(2) by (intro image_cong) auto
  moreover have "inj_on (\<lambda>t. t_cr3 (P' t)) U \<longleftrightarrow> inj_on (\<lambda>t. t_cr3 (P t)) U" using assms(2) by (intro inj_on_cong) auto
  ultimately show ?thesis using assms(1) by (simp add: spaces_owned_def)
qed

lemma spaces_ok_cpu [simp]:
  "spaces_ok L (v\<lparr>cpu_flags := e\<rparr>) P = spaces_ok L v P" "spaces_ok L (v\<lparr>cr3 := c\<rparr>) P = spaces_ok L v P"
  by (simp_all add: spaces_ok_def vmm_ok_def)

lemma with_vmm_flags: "cpu_flags v = eflags (heap s) \<Longrightarrow> with_vmm v s = s\<lparr>vmm := v\<rparr>"
  by (simp add: with_vmm_def)

lemma on_heap_Inr: "f (heap s) = Some (Inr h) \<Longrightarrow> on_heap f s = Some (Inr (s\<lparr>heap := h\<rparr>))"
  by (simp add: on_heap_def)

lemma pcb_live_bounds:
  assumes "heap_ok h" "pcb_live h t"
  shows "0x400008 \<le> unat t" "unat t + 44 \<le> 0x800000"
  using assms live_regions_bounds unfolding pcb_live_def by fastforce+

lemma stack_live_bounds:
  assumes "heap_ok h" "stack_live h raw base"
  shows "0x40000C \<le> unat base" "unat base + 4096 \<le> 0x800000"
  using assms live_regions_bounds unfolding stack_live_def by fastforce+

text \<open>
  Releasing a task gives back its page directory, its stack and its PCB; the other tasks keep
  theirs, and cells that held no block header still hold none.
\<close>

lemma release_task_effect:
  assumes h: "heap_owned (heap s) (pcb s) U" and v: "spaces_owned (vmm_lay L) (vmm s) (pcb s) U" and t: "t \<in> U"
  obtains h' v' where "release_task L t s = Some (Inr (s\<lparr>heap := h', vmm := v', task_count := task_count s - 1\<rparr>))"
    "heap_owned h' (pcb s) (U - {t})" "spaces_owned (vmm_lay L) v' (pcb s) (U - {t})"
    "eflags h' = eflags (heap s)" "cr3 v' = cr3 (vmm s)"
    "\<And>x. client_cell (heap s) x \<Longrightarrow> client_cell h' x"
    "\<And>q k. (q, k) \<in> live_regions h' \<longleftrightarrow> (q, k) \<in> live_regions (heap s) \<and> q \<noteq> unat t \<and> q \<noteq> unat (raw_of (heap s) (pcb s) t)"
    "\<And>t'. t' \<in> U - {t} \<Longrightarrow> raw_of h' (pcb s) t' = raw_of (heap s) (pcb s) t'"
proof -
  let ?P = "pcb s" and ?L = "vmm_lay L" and ?h = "heap s"
  let ?pd = "t_cr3 (?P t)" and ?base = "t_stack_base (?P t)" and ?raw = "raw_of ?h ?P t"
  have ok: "heap_ok ?h" and live: "pcb_live ?h t" "stack_live ?h ?raw ?base" and ne: "?raw \<noteq> t"
    and raws: "\<And>t'. t' \<in> U \<Longrightarrow> raw_of ?h ?P t' \<noteq> t" "\<And>t'. t' \<in> U \<Longrightarrow> t' \<noteq> ?raw"
    "\<And>t'. t' \<in> U - {t} \<Longrightarrow> raw_of ?h ?P t' \<noteq> ?raw"
    using h t by (auto simp: heap_owned_def inj_on_def)
  have sp: "spaces_ok ?L (vmm_of s) ((\<lambda>t. t_cr3 (?P t)) ` U)" using v by (simp add: vmm_of_def spaces_owned_def)
  then have pd: "?pd \<noteq> page_directory ?L" using t by (auto simp: spaces_ok_def space_ok_def)
  have "(\<lambda>t. t_cr3 (?P t)) ` U - {?pd} = (\<lambda>t. t_cr3 (?P t)) ` (U - {t})"
    using v t by (auto simp: spaces_owned_def inj_on_def)
  with spaces_destroy [OF sp, of ?pd] t obtain v' where v': "vmm_destroy_address_space ?L ?pd (vmm_of s) = Inr v'"
    "spaces_ok ?L v' ((\<lambda>t. t_cr3 (?P t)) ` (U - {t}))" "cpu_flags v' = eflags ?h" "cr3 v' = cr3 (vmm s)"
    by (auto simp: vmm_of_def)
  have sv: "spaces_owned ?L v' ?P (U - {t})" using v v'(2) by (auto simp: spaces_owned_def inj_on_def)
  obtain k where k: "44 \<le> k" "(unat t, k) \<in> live_regions ?h" using live(1) by (auto simp: pcb_live_def)
  obtain kr where kr: "(unat ?raw, kr) \<in> live_regions ?h" "0 < kr" using live(2) by (auto simp: stack_live_def)
  obtain h1 where h1: "kfree ?raw ?h = Some (Inr h1)" "heap_ok h1" "eflags h1 = eflags ?h"
    "live_regions h1 = live_regions ?h - {(unat ?raw, kr)}" using kfree_live [OF ok kr] by metis
  have un: "unat ?raw \<noteq> unat t" using ne by (simp add: word_unat_eq_iff)
  have kt: "(unat t, k) \<in> live_regions h1" "0 < k" using h1(4) k un by auto
  obtain h2 where h2: "kfree t h1 = Some (Inr h2)" "heap_ok h2" "eflags h2 = eflags h1"
    "live_regions h2 = live_regions h1 - {(unat t, k)}" using kfree_live [OF h1(2) kt] by metis
  have base: "?base \<noteq> 0" using stack_live_bounds [OF ok live(2)] by auto
  have run: "release_task L t s = Some (Inr (s\<lparr>heap := h2, vmm := v', task_count := task_count s - 1\<rparr>))"
    using pd base v'(1,3) h1(1) h2(1)
    by (simp add: release_task_def on_vmm_def with_vmm_flags on_heap_Inr kfree_aligned_def raw_of_def)
  let ?W = "(U - {t}) \<union> raw_of ?h ?P ` (U - {t})"
  have nW: "?raw \<notin> ?W" "t \<notin> ?W"
    unfolding Un_iff image_iff using raws by (metis DiffD1, metis DiffD1 DiffD2 singletonI)
  have W: "unat ` ?W \<subseteq> - {unat ?raw}" "unat ` ?W \<subseteq> - {unat t}"
    unfolding subset_Compl_singleton unat_u32_image by (rule nW)+
  have kept: "kept_regions (unat ` ?W) ?h h2"
    by (rule kept_regions_trans [OF kept_regions_mono [OF kfree_kept_regions [OF ok kr h1(1)] W(1)]
          kept_regions_mono [OF kfree_kept_regions [OF h1(2) kt h2(1)] W(2)]])
  note own = heap_owned_keep [OF h h2(2) _ kept, of ?P]
  have cells: "client_cell h2 x" if "client_cell ?h x" for x
    by (rule kfree_client_cell [OF h1(2) kt h2(1) kfree_client_cell [OF ok kr h1(1) that]])
  have lives: "(q, k') \<in> live_regions h2 \<longleftrightarrow> (q, k') \<in> live_regions ?h \<and> q \<noteq> unat t \<and> q \<noteq> unat ?raw" for q k'
    unfolding h2(4) h1(4) using live_start_unique [OF ok k(2)] live_start_unique [OF ok kr(1)] by blast
  show thesis
    by (rule that [OF run own(1) sv]) (use h1(3) h2(3) v'(4) cells lives own(2) in auto)
qed

section \<open>The invariant of the scheduler\<close>

text \<open>The kernel's PCB and the list heads lie in the kernel image, below the heap, and do not overlap.\<close>

definition task_layout_ok :: "task_layout \<Rightarrow> bool" where
  "task_layout_ok L \<longleftrightarrow> distinct [ready_list L, dead_list L, all_tasks_list L] \<and>
     unat (kernel_task L) + 44 \<le> 0x400000 \<and> task_exit_trampoline L \<noteq> after_switch L \<and>
     (\<forall>h \<in> {ready_list L, dead_list L, all_tasks_list L}. unat h + 8 \<le> 0x400000 \<and>
        (unat h + 8 \<le> unat (kernel_task L) \<or> unat (kernel_task L) + 44 \<le> unat h))"

lemma node_addresses:
  assumes "unat t + 44 \<le> 0x800000"
  shows "unat (list_node t) = unat t + 28" "unat (all_node t) = unat t + 36"
  using assms by (simp_all add: list_offset_def all_list_offset_def unat_plus_u32)

lemma heap_owned_nodes_apart:
  assumes lay: "task_layout_ok L" and own: "heap_owned h P U"
  shows "nodes_apart L (insert (kernel_task L) U)"
proof -
  have ok: "heap_ok h" using own by (simp add: heap_owned_def)
  have U: "0x400008 \<le> unat t" "unat t + 44 \<le> 0x800000" if "t \<in> U" for t
    using own that pcb_live_bounds [OF ok] by (auto simp: heap_owned_def)
  have sep: "t = t' \<or> unat t + 44 \<le> unat t' \<or> unat t' + 44 \<le> unat t"
    if t: "t \<in> U" "t' \<in> U" for t t'
  proof -
    obtain k k' where "44 \<le> k" "44 \<le> k'" "(unat t, k) \<in> live_regions h" "(unat t', k') \<in> live_regions h"
      using own t unfolding heap_owned_def pcb_live_def by metis
    then show ?thesis using live_regions_disjoint [OF ok, of "unat t" k "unat t'" k'] by (auto simp: unat_u32_eq)
  qed
  let ?k = "kernel_task L"
  have K: "unat ?k + 44 \<le> 0x400000" using lay by (simp add: task_layout_ok_def)
  have adr: "unat (list_node t) = unat t + 28" "unat (all_node t) = unat t + 36" if "t \<in> insert ?k U" for t
    using node_addresses [of t] that U K by auto
  have heads: "list_node t \<noteq> hd \<and> all_node t \<noteq> hd"
    if "t \<in> insert ?k U" "hd \<in> {ready_list L, dead_list L, all_tasks_list L}" for t hd
  proof -
    have "unat hd + 8 \<le> unat t \<or> unat t + 44 \<le> unat hd"
      using that lay U(1) [of t] unfolding task_layout_ok_def by auto
    then show ?thesis using adr [OF that(1)] by auto
  qed
  have "list_node t \<noteq> all_node t'" if "t \<in> insert ?k U" "t' \<in> insert ?k U" for t t'
  proof -
    have "t = t' \<or> unat t + 44 \<le> unat t' \<or> unat t' + 44 \<le> unat t"
      using that sep U(1) [of t] U(1) [of t'] K by auto
    then have "unat (list_node t) \<noteq> unat (all_node t')" using adr that by auto
    then show ?thesis by auto
  qed
  then show ?thesis using heads lay unfolding nodes_apart_def task_layout_ok_def by blast
qed

text \<open>
  \<open>run\<close> is the running task, or nothing while a task that has just exited is being left.  Every
  task but the running one is on exactly one of the ready and the dead list, its state agrees
  with the list, all are on the list of all tasks and the counter counts them.
\<close>

definition sched :: "task_layout \<Rightarrow> ksys \<Rightarrow> addr list \<Rightarrow> addr list \<Rightarrow> addr list \<Rightarrow> addr list \<Rightarrow> bool" where
  "sched L s run ready dead alls \<longleftrightarrow> task_lists L (links s) ready dead alls \<and>
     set alls = set run \<union> set ready \<union> set dead \<and> set run \<inter> (set ready \<union> set dead) = {} \<and>
     kernel_task L \<in> set run \<union> set ready \<and>
     (run = [current_task_ptr s] \<and> t_state (pcb s (current_task_ptr s)) = TASK_RUNNING \<or>
      run = [] \<and> t_state (pcb s (current_task_ptr s)) = TASK_DEAD) \<and>
     (\<forall>t \<in> set ready. t_state (pcb s t) = TASK_READY) \<and> (\<forall>t \<in> set dead. t_state (pcb s t) = TASK_DEAD) \<and>
     task_count s = of_nat (length alls)"

definition owned :: "task_layout \<Rightarrow> ksys \<Rightarrow> addr set \<Rightarrow> bool" where
  "owned L s T \<longleftrightarrow> heap_owned (heap s) (pcb s) (T - {kernel_task L}) \<and>
     spaces_owned (vmm_lay L) (vmm s) (pcb s) (T - {kernel_task L})"

lemma sched_lists: "sched L s run ready dead alls \<Longrightarrow> task_lists L (links s) ready dead alls"
  by (simp add: sched_def)

text \<open>Choosing the next task.\<close>

lemma task_pick_effect:
  assumes "sched L s run (n # rs) dead alls"
  obtains l where "sched L (s\<lparr>links := l, pcb := (pcb s)
        (current_task_ptr s := (pcb s (current_task_ptr s))\<lparr>t_state := if run = [] then TASK_DEAD else TASK_READY\<rparr>,
         n := (pcb s n)\<lparr>t_state := TASK_RUNNING, t_ticks := t_ticks (pcb s n) + 1\<rparr>),
        current_task_ptr := n, tss_esp0 := t_stack_top (pcb s n)\<rparr>) [n] (rs @ run) dead alls"
    "task_pick L s = Inr (s\<lparr>links := l, pcb := (pcb s)
        (current_task_ptr s := (pcb s (current_task_ptr s))\<lparr>t_state := if run = [] then TASK_DEAD else TASK_READY\<rparr>,
         n := (pcb s n)\<lparr>t_state := TASK_RUNNING, t_ticks := t_ticks (pcb s n) + 1\<rparr>),
        current_task_ptr := n, tss_esp0 := t_stack_top (pcb s n)\<rparr>)"
proof -
  let ?c = "current_task_ptr s"
  let ?l1 = "if run = [] then links s else list_add_tail (list_node ?c) (ready_list L) (links s)"
  note sd = assms [unfolded sched_def]
  have tl: "task_lists L (links s) (n # rs) dead alls" using assms by (rule sched_lists)
  have c: "?c \<notin> set (n # rs)" "?c \<notin> set dead" "?c \<in> set alls" if "run \<noteq> []" using sd that by auto
  have ne: "?c \<noteq> n"
  proof (cases "run = []")
    case True
    then have "t_state (pcb s ?c) = TASK_DEAD" "t_state (pcb s n) = TASK_READY" using sd by auto
    then show ?thesis by auto
  qed (use c in auto)
  have l1: "task_lists L ?l1 (n # rs @ run) dead alls"
  proof (cases "run = []")
    case False
    then have "run = [?c]" using sd by blast
    moreover have "insert ?c (set (n # rs) \<union> set dead \<union> set alls) = set (n # rs) \<union> set dead \<union> set alls"
      using c(3) [OF False] by auto
    ultimately show ?thesis
      using task_lists_add_ready [OF tl _ c(1,2) [OF False]] task_listsD(5) [OF tl] by simp
  qed (use tl in simp)
  from task_lists_del_ready [of L ?l1 "[]" n "rs @ run" dead alls] l1
  obtain l where l: "list_del (list_node n) ?l1 = Inr l" "task_lists L l (rs @ run) dead alls" by auto
  have "l_next ?l1 (ready_list L) = list_node n" using task_listsD(1) [OF l1] by (simp add: clist_def)
  then have first: "list_first_entry ?l1 (ready_list L) list_offset = n"
    by (simp add: list_first_entry_def container_of_def)
  have st: "t_state (pcb s ?c) = TASK_RUNNING \<longleftrightarrow> run \<noteq> []" "run = [] \<Longrightarrow> t_state (pcb s ?c) = TASK_DEAD"
    using sd by auto
  have same: "(pcb s ?c)\<lparr>t_state := TASK_DEAD\<rparr> = pcb s ?c" if "run = []" using st(2) [OF that] by simp
  let ?s' = "s\<lparr>links := l, pcb := (pcb s)
        (?c := (pcb s ?c)\<lparr>t_state := if run = [] then TASK_DEAD else TASK_READY\<rparr>,
         n := (pcb s n)\<lparr>t_state := TASK_RUNNING, t_ticks := t_ticks (pcb s n) + 1\<rparr>),
        current_task_ptr := n, tss_esp0 := t_stack_top (pcb s n)\<rparr>"
  have pick: "task_pick L s = Inr ?s'"
  proof (cases "run = []")
    case True
    have triv: "(pcb s)(?c := (pcb s ?c)\<lparr>t_state := TASK_DEAD\<rparr>) = pcb s"
      unfolding same [OF True] by (rule fun_upd_triv)
    then have "?s' = s\<lparr>links := l, pcb := (pcb s)(n := (pcb s n)\<lparr>t_state := TASK_RUNNING, t_ticks := t_ticks (pcb s n) + 1\<rparr>),
        current_task_ptr := n, tss_esp0 := t_stack_top (pcb s n)\<rparr>"
      by (simp only: True if_True simp_thms)
    moreover have "task_pick L s = Inr \<dots>" using True first l(1) st ne by (simp add: task_pick_def Let_def)
    ultimately show ?thesis by (simp only:)
  next
    case False
    then show ?thesis using first l(1) st ne by (simp add: task_pick_def Let_def)
  qed
  have "distinct (n # rs @ run)" by (rule task_listsD(6) [OF l1])
  moreover have "run = [] \<or> run = [?c]" using sd by blast
  ultimately have "sched L ?s' [n] (rs @ run) dead alls"
    using sd l(2) ne by (auto simp: sched_def)
  then show thesis using that pick by blast
qed

text \<open>What reaping the tasks \<open>D\<close> does to the memory: only they lose theirs.\<close>

definition reaped :: "addr set \<Rightarrow> ksys \<Rightarrow> ksys \<Rightarrow> bool" where
  "reaped D s s' \<longleftrightarrow> (\<exists>l h v n. s' = s\<lparr>links := l, heap := h, vmm := v, task_count := n\<rparr>) \<and>
     cpu_eflags s' = cpu_eflags s \<and> cr3 (vmm s') = cr3 (vmm s) \<and>
     (\<forall>x. client_cell (heap s) x \<longrightarrow> client_cell (heap s') x) \<and>
     (\<forall>r. r \<in> live_regions (heap s') \<longrightarrow> r \<in> live_regions (heap s)) \<and>
     (\<forall>t \<in> D. \<forall>k. (unat t, k) \<notin> live_regions (heap s') \<and>
        (unat (raw_of (heap s) (pcb s) t), k) \<notin> live_regions (heap s'))"

lemma reaped_refl: "reaped {} s s"
  unfolding reaped_def by (auto intro!: exI [of _ "links s"] exI [of _ "heap s"] exI [of _ "vmm s"] exI [of _ "task_count s"])

lemma reaped_pcb: "reaped D s s' \<Longrightarrow> pcb s' = pcb s \<and> current_task_ptr s' = current_task_ptr s \<and>
    regs s' = regs s \<and> yield_flags s' = yield_flags s \<and> next_pid s' = next_pid s"
  by (auto simp: reaped_def)

lemma reap_task_effect:
  assumes sc: "sched L s run ready (t # dead) alls" and ow: "owned L s (set alls)"
  obtains s' where "reap_task L t s = Some (Inr s')" "sched L s' run ready dead (filter (\<lambda>x. x \<noteq> t) alls)"
    "owned L s' (set alls - {t})" "reaped {t} s s'"
    "\<And>t'. t' \<in> set alls - {t, kernel_task L} \<Longrightarrow> raw_of (heap s') (pcb s') t' = raw_of (heap s) (pcb s) t'"
proof -
  let ?k = "kernel_task L" and ?U = "set alls - {kernel_task L}"
  note tl = sched_lists [OF sc]
  have t: "t \<in> set alls" "t \<noteq> ?k" "t \<notin> set dead" "t \<notin> set run"
    using sc task_listsD(4,7) [OF tl] unfolding sched_def by auto
  obtain l1 where l1: "list_del (list_node t) (links s) = Inr l1" "task_lists L l1 ready dead alls"
    using task_lists_del_dead [of L "links s" ready "[]" t dead alls] tl by auto
  obtain xs ys where a: "alls = xs @ t # ys" using t(1) by (meson split_list)
  have fa: "filter (\<lambda>x. x \<noteq> t) alls = xs @ ys"
  proof -
    have "filter (\<lambda>x. x \<noteq> t) xs = xs" "filter (\<lambda>x. x \<noteq> t) ys = ys"
      using task_listsD(8) [OF tl] a by (auto intro!: filter_True)
    then show ?thesis by (simp add: a)
  qed
  obtain l2 where l2: "list_del (all_node t) l1 = Inr l2" "task_lists L l2 ready dead (xs @ ys)"
    using task_lists_del_all [of L l1 ready dead xs t ys] l1(2) a by auto
  let ?s = "s\<lparr>links := l2\<rparr>"
  have ho: "heap_owned (heap ?s) (pcb ?s) ?U" "spaces_owned (vmm_lay L) (vmm ?s) (pcb ?s) ?U" "t \<in> ?U"
    using ow t by (auto simp: owned_def)
  obtain h' v' where r: "release_task L t ?s = Some (Inr (?s\<lparr>heap := h', vmm := v', task_count := task_count ?s - 1\<rparr>))"
    "heap_owned h' (pcb s) (?U - {t})" "spaces_owned (vmm_lay L) v' (pcb s) (?U - {t})"
    "eflags h' = eflags (heap s)" "cr3 v' = cr3 (vmm s)"
    "\<And>x. client_cell (heap s) x \<Longrightarrow> client_cell h' x"
    "\<And>q k. (q, k) \<in> live_regions h' \<longleftrightarrow> (q, k) \<in> live_regions (heap s) \<and> q \<noteq> unat t \<and> q \<noteq> unat (raw_of (heap s) (pcb s) t)"
    "\<And>t'. t' \<in> ?U - {t} \<Longrightarrow> raw_of h' (pcb s) t' = raw_of (heap s) (pcb s) t'"
    by (rule release_task_effect [OF ho]) simp
  let ?s' = "?s\<lparr>heap := h', vmm := v', task_count := task_count ?s - 1\<rparr>"
  have run: "reap_task L t s = Some (Inr ?s')" using l1(1) l2(1) r(1) by (simp add: reap_task_def)
  have d: "set alls - {t} - {?k} = ?U - {t}" by auto
  have set': "set (xs @ ys) = set alls - {t}" using fa [symmetric] by auto
  have "sched L ?s' run ready dead (filter (\<lambda>x. x \<noteq> t) alls)"
    unfolding fa using sc l2(2) set' t a by (auto simp: sched_def)
  moreover have "owned L ?s' (set alls - {t})" using r(2,3) by (simp add: owned_def d)
  moreover have "reaped {t} s ?s'"
    unfolding reaped_def cpu_eflags_def using r(4-7) by auto
  moreover have "raw_of (heap ?s') (pcb ?s') t' = raw_of (heap s) (pcb s) t'" if "t' \<in> set alls - {t, ?k}" for t'
    using r(8) that by simp
  ultimately show thesis using that run by blast
qed

lemma reaped_trans:
  assumes "reaped D s s1" "reaped D' s1 s2"
    and "\<And>t. t \<in> D' \<Longrightarrow> raw_of (heap s1) (pcb s1) t = raw_of (heap s) (pcb s) t"
  shows "reaped (D \<union> D') s s2"
proof -
  obtain l h v n l' h' v' n' where "s1 = s\<lparr>links := l, heap := h, vmm := v, task_count := n\<rparr>"
    "s2 = s1\<lparr>links := l', heap := h', vmm := v', task_count := n'\<rparr>" using assms(1,2) unfolding reaped_def by blast
  then have "s2 = s\<lparr>links := l', heap := h', vmm := v', task_count := n'\<rparr>" by simp
  then have 1: "\<exists>l h v n. s2 = s\<lparr>links := l, heap := h, vmm := v, task_count := n\<rparr>" by blast
  have 2: "cpu_eflags s2 = cpu_eflags s" "cr3 (vmm s2) = cr3 (vmm s)" using assms(1,2) unfolding reaped_def by simp_all
  have 3: "\<forall>x. client_cell (heap s) x \<longrightarrow> client_cell (heap s2) x"
    "\<forall>r. r \<in> live_regions (heap s2) \<longrightarrow> r \<in> live_regions (heap s)"
    using assms(1,2) unfolding reaped_def by blast+
  have "(unat t, k) \<notin> live_regions (heap s2) \<and> (unat (raw_of (heap s) (pcb s) t), k) \<notin> live_regions (heap s2)"
    if "t \<in> D \<union> D'" for t k
    using that assms(1,2) assms(3) [of t] unfolding reaped_def by (metis Un_iff)
  then show ?thesis using 1 2 3 unfolding reaped_def by blast
qed

lemma reap_loop_effect:
  assumes "sched L s run ready dead alls" "owned L s (set alls)"
  shows "\<exists>s'. reap_loop L (hd (map list_node dead @ [dead_list L]))
        (l_next (links s) (hd (map list_node dead @ [dead_list L]))) s = Some (Inr s') \<and>
      sched L s' run ready [] (filter (\<lambda>x. x \<notin> set dead) alls) \<and> owned L s' (set alls - set dead) \<and>
      reaped (set dead) s s' \<and>
      (\<forall>t \<in> set alls - set dead - {kernel_task L}. raw_of (heap s') (pcb s') t = raw_of (heap s) (pcb s) t)"
  using assms
proof (induction dead arbitrary: s alls)
  case Nil
  then show ?case using reaped_refl by (auto simp: reap_loop.simps)
next
  case (Cons t dead)
  obtain s1 where s1: "reap_task L t s = Some (Inr s1)" "sched L s1 run ready dead (filter (\<lambda>x. x \<noteq> t) alls)"
    "owned L s1 (set alls - {t})" "reaped {t} s s1"
    "\<And>t'. t' \<in> set alls - {t, kernel_task L} \<Longrightarrow> raw_of (heap s1) (pcb s1) t' = raw_of (heap s) (pcb s) t'"
    using reap_task_effect [OF Cons.prems] by blast
  let ?alls = "filter (\<lambda>x. x \<noteq> t) alls" and ?n = "hd (map list_node dead @ [dead_list L])"
  have sa: "set ?alls = set alls - {t}" by auto
  note IH = Cons.IH [OF s1(2), unfolded sa, OF s1(3)]
  then obtain s' where s': "reap_loop L ?n (l_next (links s1) ?n) s1 = Some (Inr s')"
    "sched L s' run ready [] (filter (\<lambda>x. x \<notin> set dead) ?alls)" "owned L s' (set alls - {t} - set dead)"
    "reaped (set dead) s1 s'"
    "\<forall>t' \<in> set alls - {t} - set dead - {kernel_task L}. raw_of (heap s') (pcb s') t' = raw_of (heap s1) (pcb s1) t'"
    by blast
  have tl: "task_lists L (links s) ready (t # dead) alls" using Cons.prems(1) by (rule sched_lists)
  have seg: "lseg (links s) (list_node t) (map list_node dead) (dead_list L)"
    and nh: "list_node t \<noteq> dead_list L" using task_listsD(2) [OF tl] by (auto simp: clist_def)
  have nx: "l_next (links s) (list_node t) = ?n" using lseg_first [OF seg] .
  have "container_of (list_node t) list_offset = t" by (simp add: container_of_def)
  then have run: "reap_loop L (list_node t) (l_next (links s) (list_node t)) s = Some (Inr s')"
    using nh s1(1) s'(1) nx by (subst reap_loop.simps) simp
  have dk: "set dead \<subseteq> set alls - {t, kernel_task L}"
    using Cons.prems(1) task_listsD(4,7) [OF tl] unfolding sched_def by auto
  have "reaped ({t} \<union> set dead) s s'" using s1(5) dk by (intro reaped_trans [OF s1(4) s'(4)]) blast
  moreover have "filter (\<lambda>x. x \<notin> set dead) ?alls = filter (\<lambda>x. x \<notin> set (t # dead)) alls"
    by (simp add: filter_filter conj_commute)
  moreover have "set alls - {t} - set dead = set alls - set (t # dead)" by auto
  moreover have "raw_of (heap s') (pcb s') t' = raw_of (heap s) (pcb s) t'"
    if "t' \<in> set alls - set (t # dead) - {kernel_task L}" for t'
    using s'(5) s1(5) that by auto
  ultimately show ?case using run s'(2,3) by (intro exI [of _ s']) simp
qed

lemma reap_dead_tasks_effect:
  assumes "sched L s run ready dead alls" "owned L s (set alls)"
  obtains s' where "reap_dead_tasks L s = Some (Inr s')" "sched L s' run ready [] (filter (\<lambda>x. x \<notin> set dead) alls)"
    "owned L s' (set alls - set dead)" "reaped (set dead) s s'"
    "\<And>t. t \<in> set alls - set dead - {kernel_task L} \<Longrightarrow> raw_of (heap s') (pcb s') t = raw_of (heap s) (pcb s) t"
proof -
  have "clist (links s) (dead_list L) (map list_node dead)"
    using task_listsD(2) [OF sched_lists [OF assms(1)]] .
  then have "l_next (links s) (dead_list L) = hd (map list_node dead @ [dead_list L])"
    by (intro lseg_first) (simp add: clist_def)
  then show thesis using reap_loop_effect [OF assms] that unfolding reap_dead_tasks_def Let_def by metis
qed

section \<open>The context switch\<close>

definition push_cells :: "addr \<Rightarrow> nat \<Rightarrow> addr set" where
  "push_cells sp n = (\<lambda>i. sp - 4 * of_nat (Suc i)) ` {..<n}"

lemma fold_push_sp: "fst (fold push vs (sp, m)) = sp - 4 * of_nat (length vs)"
proof (induction vs arbitrary: sp m)
  case (Cons v vs)
  then show ?case using Cons [of "sp - 4" "m(sp - 4 := v)"] by (simp add: push_def)
qed simp

lemma push_cells_Suc: "push_cells sp (Suc n) = insert (sp - 4) (push_cells (sp - 4) n)"
  unfolding push_cells_def lessThan_Suc_eq_insert_0 image_insert image_image by (simp add: algebra_simps)

lemma fold_push_other: "x \<notin> push_cells sp (length vs) \<Longrightarrow> snd (fold push vs (sp, m)) x = m x"
proof (induction vs arbitrary: sp m)
  case (Cons v vs)
  then show ?case by (simp add: push_def push_cells_Suc)
qed simp

definition saved_frame :: "task_layout \<Rightarrow> addr \<Rightarrow> u32 \<Rightarrow> u32 \<Rightarrow> ksys \<Rightarrow> u32 list" where
  "saved_frame L p new_esp new_cr3 s =
     (let r = regs s in [new_cr3, new_esp, p, after_switch L, cpu_eflags s,
        r_eax r, r_ecx r, r_edx r, r_ebx r, r_esp r - 20, r_ebp r, r_esi r, r_edi r])"

lemma switch_save_eq:
  "switch_save L p new_esp new_cr3 s = fold push (saved_frame L p new_esp new_cr3 s) (r_esp (regs s), hmem (heap s))"
  by (simp add: switch_save_def saved_frame_def push_def Let_def algebra_simps)

lemma switch_save_frame:
  fixes s L p new_esp new_cr3
  defines "m \<equiv> snd (switch_save L p new_esp new_cr3 s)" and "sp \<equiv> r_esp (regs s) - 52"
  shows "fst (switch_save L p new_esp new_cr3 s) = sp"
    and "m (sp + 48) = new_cr3" "m (sp + 44) = new_esp" "m (sp + 40) = p" "m (sp + 36) = after_switch L"
    and "m (sp + 32) = cpu_eflags s" "m (sp + 28) = r_eax (regs s)" "m (sp + 24) = r_ecx (regs s)"
    and "m (sp + 20) = r_edx (regs s)" "m (sp + 16) = r_ebx (regs s)" "m (sp + 8) = r_ebp (regs s)"
    and "m (sp + 4) = r_esi (regs s)" "m sp = r_edi (regs s)"
  unfolding m_def sp_def switch_save_eq by (simp_all add: saved_frame_def push_def Let_def)

lemma length_saved_frame: "length (saved_frame L p new_esp new_cr3 s) = 13"
  by (simp add: saved_frame_def Let_def)

lemma switch_save_other:
  "x \<notin> push_cells (r_esp (regs s)) 13 \<Longrightarrow> snd (switch_save L p new_esp new_cr3 s) x = hmem (heap s) x"
  unfolding switch_save_eq by (rule fold_push_other) (simp only: length_saved_frame not_False_eq_True)


lemma ksys_cr3: "cr3 (vmm s) = e \<Longrightarrow> s\<lparr>vmm := (vmm s)\<lparr>cr3 := e\<rparr>\<rparr> = s"
  by (cases s) auto

text \<open>The state after a switch: the saved stack pointer in the old PCB, and the new task's frame loaded.\<close>

lemma switch_context_eq:
  "switch_context L p new_esp new_cr3 s =
     (let m = snd (switch_save L p new_esp new_cr3 s)
      in switch_load new_esp (s\<lparr>heap := (heap s)\<lparr>hmem := m\<rparr>,
           pcb := (pcb s)(p := (pcb s p)\<lparr>t_esp := r_esp (regs s) - 52\<rparr>), vmm := (vmm s)\<lparr>cr3 := r_ecx (regs s)\<rparr>\<rparr>))"
proof -
  obtain sp m where sm: "switch_save L p new_esp new_cr3 s = (sp, m)" by fastforce
  have f: "sp = r_esp (regs s) - 52" "m (sp + 40) = p" "m (sp + 44) = new_esp"
    using switch_save_frame(1,3,4) [of L p new_esp new_cr3 s] sm by simp_all
  let ?s1 = "s\<lparr>heap := (heap s)\<lparr>hmem := m\<rparr>, pcb := (pcb s)(p := (pcb s p)\<lparr>t_esp := r_esp (regs s) - 52\<rparr>)\<rparr>"
  have "switch_context L p new_esp new_cr3 s =
      switch_load new_esp (if cr3 (vmm s) \<noteq> r_ecx (regs s) then ?s1\<lparr>vmm := (vmm s)\<lparr>cr3 := r_ecx (regs s)\<rparr>\<rparr> else ?s1)"
    using f by (simp add: switch_context_def sm Let_def)
  also have "(if cr3 (vmm s) \<noteq> r_ecx (regs s) then ?s1\<lparr>vmm := (vmm s)\<lparr>cr3 := r_ecx (regs s)\<rparr>\<rparr> else ?s1) =
      ?s1\<lparr>vmm := (vmm s)\<lparr>cr3 := r_ecx (regs s)\<rparr>\<rparr>"
    using ksys_cr3 [of ?s1] by auto
  finally show ?thesis by (simp add: sm Let_def)
qed

lemma heap_flags [simp]:
  "heap_ok (h\<lparr>eflags := e\<rparr>) = heap_ok h" "live_regions (h\<lparr>eflags := e\<rparr>) = live_regions h"
  "client_cell (h\<lparr>eflags := e\<rparr>) x = client_cell h x"
  by (simp_all add: heap_ok_def live_regions_def client_cell_def)

lemma raw_of_flags [simp]: "raw_of (h\<lparr>eflags := e\<rparr>) P = raw_of h P"
  by (simp add: raw_of_def fun_eq_iff)

lemma heap_owned_flags [simp]: "heap_owned (h\<lparr>eflags := e\<rparr>) P U = heap_owned h P U"
  by (simp add: heap_owned_def pcb_live_def stack_live_def)

text \<open>Writes to cells that are neither block headers nor hidden pointers keep all tasks their memory.\<close>

lemma heap_owned_writes:
  assumes "heap_owned h P U" "\<And>x. m' x \<noteq> hmem h x \<Longrightarrow> client_cell h x \<and> (\<forall>t \<in> U. x \<noteq> t_stack_base (P t) - 4)"
    and "\<And>t. t \<in> U \<Longrightarrow> t_stack_base (P' t) = t_stack_base (P t)"
  shows "heap_owned (h\<lparr>hmem := m'\<rparr>) P' U"
proof -
  have ok: "heap_ok h" using assms(1) by (simp add: heap_owned_def)
  have cw: "heap_ok (h\<lparr>hmem := m'\<rparr>)" "live_regions (h\<lparr>hmem := m'\<rparr>) = live_regions h"
    using client_writes(1,2) [OF ok, of m'] assms(2) by blast+
  have raw: "raw_of (h\<lparr>hmem := m'\<rparr>) P' t = raw_of h P t" if "t \<in> U" for t
    using assms(2) [of "t_stack_base (P t) - 4"] assms(3) [OF that] that by (auto simp: raw_of_def)
  have "raw_of (h\<lparr>hmem := m'\<rparr>) P' ` U = raw_of h P ` U" using raw by (intro image_cong) auto
  moreover have "inj_on (raw_of (h\<lparr>hmem := m'\<rparr>) P') U \<longleftrightarrow> inj_on (raw_of h P) U" using raw by (intro inj_on_cong) auto
  ultimately show ?thesis
    using assms(1,3) cw raw unfolding heap_owned_def pcb_live_def stack_live_def by simp
qed

definition safe_pushes :: "task_layout \<Rightarrow> ksys \<Rightarrow> addr set \<Rightarrow> bool" where
  "safe_pushes L s T \<longleftrightarrow> (\<forall>x \<in> push_cells (r_esp (regs s)) 13. client_cell (heap s) x \<and>
     (\<forall>t \<in> T - {kernel_task L}. x \<noteq> t_stack_base (pcb s t) - 4))"

lemma sched_cong:
  assumes "links s' = links s" "current_task_ptr s' = current_task_ptr s" "task_count s' = task_count s"
    and "\<And>t. t_state (pcb s' t) = t_state (pcb s t)"
  shows "sched L s' run ready dead alls = sched L s run ready dead alls"
  unfolding sched_def assms ..

lemma switch_context_keeps:
  assumes "owned L s T" "safe_pushes L s T"
  shows "owned L (switch_context L p new_esp new_cr3 s) T"
    and "sched L (switch_context L p new_esp new_cr3 s) run ready dead alls = sched L s run ready dead alls"
proof -
  let ?m = "snd (switch_save L p new_esp new_cr3 s)" and ?P = "(pcb s)(p := (pcb s p)\<lparr>t_esp := r_esp (regs s) - 52\<rparr>)"
  let ?U = "T - {kernel_task L}" and ?s' = "switch_context L p new_esp new_cr3 s"
  have own: "heap_owned (heap s) (pcb s) ?U" "spaces_owned (vmm_lay L) (vmm s) (pcb s) ?U"
    using assms(1) by (simp_all add: owned_def)
  have "client_cell (heap s) x \<and> (\<forall>t \<in> ?U. x \<noteq> t_stack_base (pcb s t) - 4)" if "?m x \<noteq> hmem (heap s) x" for x
    using switch_save_other [of x s L p new_esp new_cr3] assms(2) that unfolding safe_pushes_def by blast
  then have "heap_owned ((heap s)\<lparr>hmem := ?m\<rparr>) ?P ?U" by (rule heap_owned_writes [OF own(1)]) auto
  moreover have "spaces_owned (vmm_lay L) (vmm s) ?P ?U" by (rule spaces_owned_keep [OF own(2)]) auto
  ultimately show "owned L ?s' T"
    by (simp add: owned_def switch_context_eq switch_load_def Let_def spaces_owned_def)
  show "sched L ?s' run ready dead alls = sched L s run ready dead alls"
    by (rule sched_cong) (simp_all add: switch_context_eq switch_load_def Let_def)
qed

lemma set_eflags_keeps [simp]:
  "owned L (set_eflags e s) T = owned L s T" "sched L (set_eflags e s) run ready dead alls = sched L s run ready dead alls"
  "safe_pushes L (set_eflags e s) T = safe_pushes L s T" "cpu_eflags (set_eflags e s) = e"
  by (simp_all add: set_eflags_def owned_def sched_def safe_pushes_def cpu_eflags_def)

lemma set_eflags_fields [simp]:
  "pcb (set_eflags e s) = pcb s" "links (set_eflags e s) = links s" "current_task_ptr (set_eflags e s) = current_task_ptr s"
  "task_count (set_eflags e s) = task_count s" "next_pid (set_eflags e s) = next_pid s" "regs (set_eflags e s) = regs s"
  "vmm (set_eflags e s) = vmm s" "yield_flags (set_eflags e s) = yield_flags s" "tss_esp0 (set_eflags e s) = tss_esp0 s"
  "hmem (heap (set_eflags e s)) = hmem (heap s)" "live_regions (heap (set_eflags e s)) = live_regions (heap s)"
  "client_cell (heap (set_eflags e s)) x = client_cell (heap s) x" "heap_ok (heap (set_eflags e s)) = heap_ok (heap s)"
  "raw_of (heap (set_eflags e s)) = raw_of (heap s)" "eflags (heap (set_eflags e s)) = e"
  by (simp_all add: set_eflags_def fun_eq_iff)

lemma task_resume_keeps:
  "owned L (task_resume L s) T = owned L s T" "sched L (task_resume L s) run ready dead alls = sched L s run ready dead alls"
  by (simp_all add: task_resume_def set_eflags_def owned_def sched_def)

lemma pick_keeps_owned:
  assumes "owned L s T" "\<And>t. t_stack_base (P t) = t_stack_base (pcb s t) \<and> t_cr3 (P t) = t_cr3 (pcb s t)"
    and "heap s' = heap s" "vmm s' = vmm s" "pcb s' = P"
  shows "owned L s' T"
proof -
  let ?U = "T - {kernel_task L}"
  have "heap_owned (heap s) P ?U" 
    using heap_owned_writes [of "heap s" "pcb s" ?U "hmem (heap s)" P] assms(1,2) by (simp add: owned_def)
  moreover have "spaces_owned (vmm_lay L) (vmm s) P ?U"
    by (rule spaces_owned_keep [of _ _ "pcb s"]) (use assms in \<open>auto simp: owned_def\<close>)
  ultimately show ?thesis by (simp add: owned_def assms(3-5))
qed

text \<open>
  The whole of \<open>task_yield\<close>, also when the task that calls it has exited (\<open>run = []\<close>): the dead are
  reaped, then the first ready task runs and the caller, if it still is one, queues up behind.
\<close>

lemma task_yield_effect:
  assumes sc: "sched L s run ready dead alls" and ow: "owned L s (set alls)"
    and sp: "safe_pushes L s (set alls - set dead)"
  obtains s1 where "reaped (set dead) (set_eflags (cpu_eflags s AND NOT interrupt_flag) s) s1"
    "ready = [] \<Longrightarrow> task_yield L s = Some (Inr (False, set_eflags (cpu_eflags s) s1)) \<and>
       sched L s1 run [] [] (filter (\<lambda>x. x \<notin> set dead) alls) \<and> owned L s1 (set alls - set dead)"
    "\<And>n rs. ready = n # rs \<Longrightarrow> \<exists>s2 s'. task_pick L s1 = Inr s2 \<and>
       s' = task_resume L (switch_context L (current_task_ptr s) (t_esp (pcb s n)) (t_cr3 (pcb s n))
              (s2\<lparr>yield_flags := (yield_flags s)(current_task_ptr s := cpu_eflags s)\<rparr>)) \<and>
       task_yield L s = Some (Inr (True, s')) \<and>
       current_task_ptr s' = n \<and> sched L s' [n] (rs @ run) [] (filter (\<lambda>x. x \<notin> set dead) alls) \<and>
       owned L s' (set alls - set dead)"
proof -
  let ?e = "cpu_eflags s AND NOT interrupt_flag" and ?A = "filter (\<lambda>x. x \<notin> set dead) alls" and ?c = "current_task_ptr s"
  let ?s0 = "set_eflags ?e s"
  obtain s1 where s1: "reap_dead_tasks L ?s0 = Some (Inr s1)" "sched L s1 run ready [] ?A"
    "owned L s1 (set alls - set dead)" "reaped (set dead) ?s0 s1"
    using reap_dead_tasks_effect [of L ?s0 run ready dead alls] sc ow by auto
  note keep = reaped_pcb [OF s1(4), simplified]
  have emp: "list_empty (ready_list L) (links s1) \<longleftrightarrow> ready = []"
    using list_empty_clist [OF task_listsD(1) [OF sched_lists [OF s1(2)]]] by simp
  have sp1: "safe_pushes L s1 (set alls - set dead)"
    using sp s1(4) keep unfolding safe_pushes_def reaped_def by auto
  show thesis
  proof (rule that [OF s1(4)])
    show "task_yield L s = Some (Inr (False, set_eflags (cpu_eflags s) s1)) \<and> sched L s1 run [] [] ?A \<and>
        owned L s1 (set alls - set dead)" if "ready = []"
      using that s1 emp by (simp add: task_yield_def irq_save_def irq_restore_def)
    fix n rs assume r: "ready = n # rs"
    have tn: "n \<noteq> ?c"
      using sc r unfolding sched_def by auto
    obtain s2 where s2: "task_pick L s1 = Inr s2" "sched L s2 [n] (rs @ run) [] ?A" "current_task_ptr s2 = n"
      "heap s2 = heap s1" "vmm s2 = vmm s1" "regs s2 = regs s1" "yield_flags s2 = yield_flags s1"
      "t_esp (pcb s2 n) = t_esp (pcb s1 n)" "t_cr3 (pcb s2 n) = t_cr3 (pcb s1 n)"
      "\<And>t. t_stack_base (pcb s2 t) = t_stack_base (pcb s1 t) \<and> t_cr3 (pcb s2 t) = t_cr3 (pcb s1 t)"
      by (rule task_pick_effect [OF s1(2) [unfolded r]]) simp
    let ?s3 = "s2\<lparr>yield_flags := (yield_flags s)(?c := cpu_eflags s)\<rparr>"
    have o3: "owned L ?s3 (set alls - set dead)"
      by (rule pick_keeps_owned [OF s1(3), of "pcb s2"]) (use s2 in auto)
    have p3: "safe_pushes L ?s3 (set alls - set dead)" using sp1 s2(4,6,10) by (simp add: safe_pushes_def)
    have c3: "sched L ?s3 [n] (rs @ run) [] ?A"
      using s2(2) sched_cong [of ?s3 s2 L "[n]" "rs @ run" "[]" ?A] by simp
    let ?sw = "switch_context L ?c (t_esp (pcb s n)) (t_cr3 (pcb s n)) ?s3"
    have "current_task_ptr (task_resume L ?sw) = n"
      using s2(3) by (simp add: task_resume_def switch_context_eq switch_load_def Let_def)
    moreover have "task_yield L s = Some (Inr (True, task_resume L ?sw))"
      using s1(1) emp r s2(1,3,7,8,9) keep by (simp add: task_yield_def irq_save_def Let_def)
    ultimately show "\<exists>s2 s'. task_pick L s1 = Inr s2 \<and>
       s' = task_resume L (switch_context L ?c (t_esp (pcb s n)) (t_cr3 (pcb s n))
              (s2\<lparr>yield_flags := (yield_flags s)(?c := cpu_eflags s)\<rparr>)) \<and>
       task_yield L s = Some (Inr (True, s')) \<and> current_task_ptr s' = n \<and>
       sched L s' [n] (rs @ run) [] ?A \<and> owned L s' (set alls - set dead)"
      using s2(1) c3 switch_context_keeps [OF o3 p3] by (auto simp: task_resume_keeps)
  qed
qed

section \<open>Creating a task\<close>

lemma live_fresh:
  assumes "heap_ok h'" "live_regions h' = insert (q, k) (live_regions h)" "(q, k) \<notin> live_regions h"
  shows "(q, k') \<notin> live_regions h"
  using assms live_start_unique [OF assms(1), of q k k'] by auto

lemma heap_owned_insert:
  assumes "heap_owned h P U" "pcb_live h t" "stack_live h (raw_of h P t) (t_stack_base (P t))"
    and "t \<notin> raw_of h P ` U" "raw_of h P t \<notin> insert t (U \<union> raw_of h P ` U)" "t \<notin> U"
  shows "heap_owned h P (insert t U)"
  using assms unfolding heap_owned_def by auto

lemma heap_owned_new:
  assumes own: "heap_owned h P U"
    and a: "kmalloc sizeof_task h = Some (t, h1)" "t \<noteq> 0"
    and b: "kmalloc_aligned STACK_SIZE 16 h1 = Some (stack, h2)" "stack \<noteq> 0"
    and P': "t_stack_base (P' t) = stack" "\<And>t'. t' \<noteq> t \<Longrightarrow> t_stack_base (P' t') = t_stack_base (P t')"
  shows "heap_owned h2 P' (insert t U)" and "t \<notin> U" and "eflags h2 = eflags h" and "kept_regions UNIV h h2"
    and "\<And>q k. (q, k) \<in> live_regions h \<Longrightarrow> q \<noteq> unat t"
proof -
  have ok: "heap_ok h" using own by (simp add: heap_owned_def)
  have sz: "unat sizeof_task \<le> 0xFFFFFFFC" "unat sizeof_task = 44" by (simp_all add: sizeof_task_def)
  obtain k where k: "44 \<le> k" "live_regions h1 = insert (unat t, k) (live_regions h)" "(unat t, k) \<notin> live_regions h"
    using kmalloc_region [OF ok a sz(1)] sz(2) by auto
  have h1: "heap_ok h1" "eflags h1 = eflags h" using kmalloc_total [OF ok, of sizeof_task] a(1) by auto
  have al: "power_of_two 16" "unat STACK_SIZE + unat (16 :: u32) + 4 \<le> 0xFFFFFFFC" "unat STACK_SIZE = 4096"
    by (simp_all add: power_of_two_def STACK_SIZE_def)
  obtain raw kr where r: "heap_ok h2" "eflags h2 = eflags h1" "(unat raw, kr) \<notin> live_regions h1"
    "live_regions h2 = insert (unat raw, kr) (live_regions h1)" "unat raw + 4 \<le> unat stack"
    "unat stack + unat STACK_SIZE \<le> unat raw + kr" "hmem h2 (stack - 4) = raw"
    using kmalloc_aligned_region [OF h1(1) al(1,2) b] by metis
  show fr: "q \<noteq> unat t" if "(q, l) \<in> live_regions h" for q l using live_fresh [OF h1(1) k(2,3)] that by auto
  have frr: "q \<noteq> unat raw" if "(q, l) \<in> live_regions h1" for q l using live_fresh [OF r(1,4,3)] that by auto
  have U: "\<exists>l. (unat t', l) \<in> live_regions h" "\<exists>l. (unat (raw_of h P t'), l) \<in> live_regions h" if "t' \<in> U" for t'
    using own that unfolding heap_owned_def pcb_live_def stack_live_def by blast+
  show tU: "t \<notin> U" using U(1) fr by blast
  show kept: "kept_regions UNIV h h2"
    by (rule kept_regions_trans [OF kmalloc_kept_regions [OF ok a(1) sz(1)] kmalloc_aligned_kept_regions [OF h1(1) al(1,2) b]])
  have keep: "heap_owned h2 P' U" "\<And>t'. t' \<in> U \<Longrightarrow> raw_of h2 P' t' = raw_of h P t'"
    using heap_owned_keep [OF own r(1) order_refl kept_regions_mono [OF kept subset_UNIV], of P'] P'(2) tU by metis+
  have raw: "raw_of h2 P' t = raw" using r(7) P'(1) by (simp add: raw_of_def)
  show "heap_owned h2 P' (insert t U)"
  proof (rule heap_owned_insert [OF keep(1) _ _ _ _ tU])
    show "pcb_live h2 t" using k(1,2) r(4) by (auto simp: pcb_live_def)
    show "stack_live h2 (raw_of h2 P' t) (t_stack_base (P' t))" using r al(3) raw P'(1) by (auto simp: stack_live_def)
    show "t \<notin> raw_of h2 P' ` U" using keep(2) U(2) fr by (metis imageE)
    have "raw \<noteq> t" using frr [of "unat t" k] k(2) by auto
    moreover have "raw \<notin> U" "raw \<notin> raw_of h2 P' ` U" using U frr k(2) keep(2) by (metis insertCI, metis imageE insertCI)
    ultimately show "raw_of h2 P' t \<notin> insert t (U \<union> raw_of h2 P' ` U)" using raw by simp
  qed
  show "eflags h2 = eflags h" using r(2) h1(2) by simp
qed

lemma initial_frame_length: "length (initial_frame L e) = 12"
  by (simp add: initial_frame_def)

lemma initial_frame_cells:
  fixes L e m stack
  defines "m' \<equiv> snd (fold push (initial_frame L e) (stack + STACK_SIZE, m))"
  shows "fst (fold push (initial_frame L e) (stack + STACK_SIZE, m)) = stack + 4048"
    and "m' (stack + 4048 + 44) = e" "m' (stack + 4048 + 40) = 0" "m' (stack + 4048 + 36) = task_exit_trampoline L"
    and "m' (stack + 4048 + 32) = 0x202"
    and "\<And>x. x \<notin> push_cells (stack + STACK_SIZE) 12 \<Longrightarrow> m' x = m x"
proof -
  show "m' x = m x" if "x \<notin> push_cells (stack + STACK_SIZE) 12" for x
    unfolding m'_def using that by (intro fold_push_other) (simp only: initial_frame_length not_False_eq_True)
qed (simp_all add: m'_def initial_frame_def push_def STACK_SIZE_def)

lemma push_cells_bounds:
  assumes "x \<in> push_cells sp n" "4 * n \<le> unat sp"
  shows "unat sp \<le> unat x + 4 * n" "unat x + 4 \<le> unat sp"
proof -
  obtain i where i: "i < n" "x = sp - 4 * of_nat (Suc i)" using assms(1) by (auto simp: push_cells_def)
  have "4 * of_nat (Suc i) = (of_nat (4 * Suc i) :: u32)" by simp
  moreover have "4 * Suc i \<le> unat sp" using i(1) assms(2) by simp
  then have "4 * Suc i < 2 ^ 32" by (rule le_less_trans) (use unsigned_less [of sp, where ?'a = nat] in simp)
  then have "unat (of_nat (4 * Suc i) :: u32) = 4 * Suc i" by (rule unat_of_nat_u32)
  ultimately have "unat x = unat sp - 4 * Suc i" using i assms(2) by (simp add: unat_minus_u32 del: of_nat_mult of_nat_Suc)
  then show "unat sp \<le> unat x + 4 * n" "unat x + 4 \<le> unat sp" using i(1) assms(2) by simp_all
qed

text \<open>The cells of a task's stack are in its block, above the hidden pointer, and in no other task's block.\<close>

lemma stack_cell_safe:
  assumes own: "heap_owned h P U" and t: "t \<in> U"
    and x: "unat (t_stack_base (P t)) \<le> unat x" "unat x < unat (t_stack_base (P t)) + 4096"
  shows "client_cell h x" and "\<And>t'. t' \<in> U \<Longrightarrow> x \<noteq> t_stack_base (P t') - 4"
proof -
  have ok: "heap_ok h" using own by (simp add: heap_owned_def)
  have st: "\<exists>k. (unat (raw_of h P t'), k) \<in> live_regions h \<and> unat (raw_of h P t') + 4 \<le> unat (t_stack_base (P t')) \<and>
      unat (t_stack_base (P t')) + 4096 \<le> unat (raw_of h P t') + k" if "t' \<in> U" for t'
    using own that by (auto simp: heap_owned_def stack_live_def)
  obtain k where k: "(unat (raw_of h P t), k) \<in> live_regions h" "unat (raw_of h P t) + 4 \<le> unat (t_stack_base (P t))"
    "unat (t_stack_base (P t)) + 4096 \<le> unat (raw_of h P t) + k" using st [OF t] by blast
  show "client_cell h x" by (rule client_cell_live [OF ok k(1)]) (use k x in auto)
  show "x \<noteq> t_stack_base (P t') - 4" if t': "t' \<in> U" for t'
  proof -
    obtain k' where k': "(unat (raw_of h P t'), k') \<in> live_regions h" "unat (raw_of h P t') + 4 \<le> unat (t_stack_base (P t'))"
      "unat (t_stack_base (P t')) + 4096 \<le> unat (raw_of h P t') + k'" using st [OF t'] by blast
    have u: "unat (t_stack_base (P t') - 4) = unat (t_stack_base (P t')) - 4" using k'(2) by (simp add: unat_minus_u32)
    show ?thesis
    proof (cases "t' = t")
      case True
      then show ?thesis using u k'(2) x(1) by auto
    next
      case False
      then have "raw_of h P t' \<noteq> raw_of h P t" using own t t' by (auto simp: heap_owned_def inj_on_def)
      then have "unat (raw_of h P t') + k' \<le> unat (raw_of h P t) \<or> unat (raw_of h P t) + k \<le> unat (raw_of h P t')"
        using live_regions_disjoint [OF ok k'(1) k(1)] by (simp add: unat_u32_eq)
      then show ?thesis using u k(2,3) k'(2,3) x by auto
    qed
  qed
qed

lemma vmm_of_spaces [simp]:
  "spaces_ok L (vmm_of s) P = spaces_ok L (vmm s) P" "spaces_owned L (vmm_of s) Q U = spaces_owned L (vmm s) Q U"
  by (simp_all add: vmm_of_def spaces_owned_def)

lemma task_setup_effect:
  assumes lay: "task_layout_ok L" and sc: "sched L s run ready dead alls" and t: "t \<notin> set alls"
    and own: "heap_owned (heap s) ((pcb s)(t := p)) (insert t (set alls - {kernel_task L}))" "t_stack_base p = stack"
    and sv: "spaces_ok (vmm_lay L) (vmm s) (insert pd ((\<lambda>t. t_cr3 (pcb s t)) ` (set alls - {kernel_task L})))"
      "pd \<notin> (\<lambda>t. t_cr3 (pcb s t)) ` (set alls - {kernel_task L})" "inj_on (\<lambda>t. t_cr3 (pcb s t)) (set alls - {kernel_task L})"
    and pid: "current_task_ptr s \<noteq> t" "kernel_task L \<noteq> t"
  shows "sched L (task_setup L e t stack pd s) run (ready @ [t]) dead (alls @ [t])"
    and "owned L (task_setup L e t stack pd s) (set (alls @ [t]))"
proof -
  let ?s' = "task_setup L e t stack pd s" and ?U = "set alls - {kernel_task L}"
  let ?fp = "fold push (initial_frame L e) (stack + STACK_SIZE, hmem (heap s))"
  let ?np = "\<lparr>t_esp = fst ?fp, t_cr3 = pd, t_pid = next_pid s, t_state = TASK_READY, t_ticks = 0,
      t_stack_base = stack, t_stack_top = stack + STACK_SIZE\<rparr>"
  let ?l = "list_add_tail (all_node t) (all_tasks_list L) (list_add_tail (list_node t) (ready_list L)
      (list_init (all_node t) (list_init (list_node t) (links s))))"
  have s': "?s' = s\<lparr>heap := (heap s)\<lparr>hmem := snd ?fp\<rparr>, pcb := (pcb s)(t := ?np), next_pid := next_pid s + 1,
      links := ?l, task_count := task_count s + 1\<rparr>"
    by (simp add: task_setup_def case_prod_beta Let_def)
  have tr: "t \<notin> set ready" "t \<notin> set dead" using t sc by (auto simp: sched_def)
  have "set alls = set run \<union> set ready \<union> set dead" using sc by (simp add: sched_def)
  then have "insert t (set ready \<union> set dead \<union> set alls) \<subseteq> insert (kernel_task L) (insert t ?U)" by auto
  with heap_owned_nodes_apart [OF lay own(1)] have na: "nodes_apart L (insert t (set ready \<union> set dead \<union> set alls))"
    by (rule nodes_apart_subset)
  have l1: "task_lists L (list_init (all_node t) (list_init (list_node t) (links s))) ready dead alls"
    by (rule task_lists_init [OF sched_lists [OF sc] na tr t])
  have l2: "task_lists L (list_add_tail (list_node t) (ready_list L) (list_init (all_node t) (list_init (list_node t) (links s))))
      (ready @ [t]) dead alls" by (rule task_lists_add_ready [OF l1 na tr])
  have "nodes_apart L (insert t (set (ready @ [t]) \<union> set dead \<union> set alls))" using na by (rule nodes_apart_subset) auto
  from task_lists_add_all [OF l2 this t] have "task_lists L ?l (ready @ [t]) dead (alls @ [t])" .
  then show "sched L ?s' run (ready @ [t]) dead (alls @ [t])"
    using sc t tr pid unfolding s' sched_def by auto
  have base: "0x40000C \<le> unat stack" "unat stack + 4096 \<le> 0x800000"
    using own stack_live_bounds [of "heap s" "raw_of (heap s) ((pcb s)(t := p)) t" stack] by (auto simp: heap_owned_def)
  have top: "unat (stack + STACK_SIZE) = unat stack + 4096" using base by (simp add: STACK_SIZE_def unat_plus_u32)
  have "client_cell (heap s) x \<and> (\<forall>t' \<in> insert t ?U. x \<noteq> t_stack_base (((pcb s)(t := p)) t') - 4)"
    if "snd ?fp x \<noteq> hmem (heap s) x" for x
  proof -
    have "x \<in> push_cells (stack + STACK_SIZE) 12" using initial_frame_cells(6) that by blast
    from push_cells_bounds [OF this] top base have "unat stack \<le> unat x" "unat x < unat stack + 4096" by simp_all
    then show ?thesis using stack_cell_safe [OF own(1), of t x] own(2) by auto
  qed
  then have h: "heap_owned ((heap s)\<lparr>hmem := snd ?fp\<rparr>) ((pcb s)(t := ?np)) (insert t ?U)"
    using own(2) by (intro heap_owned_writes [OF own(1)]) auto
  have im: "(\<lambda>t'. t_cr3 (((pcb s)(t := ?np)) t')) ` insert t ?U = insert pd ((\<lambda>t. t_cr3 (pcb s t)) ` ?U)"
    using t by (auto simp: image_iff)
  have "inj_on (\<lambda>t'. t_cr3 (((pcb s)(t := ?np)) t')) ?U \<longleftrightarrow> inj_on (\<lambda>t. t_cr3 (pcb s t)) ?U"
    using t by (intro inj_on_cong) auto
  moreover have "(\<lambda>t'. t_cr3 (((pcb s)(t := ?np)) t')) ` ?U = (\<lambda>t. t_cr3 (pcb s t)) ` ?U"
    using t by (intro image_cong) auto
  ultimately have "spaces_owned (vmm_lay L) (vmm s) ((pcb s)(t := ?np)) (insert t ?U)"
    unfolding spaces_owned_def im inj_on_insert using sv t by simp
  moreover have "set (alls @ [t]) - {kernel_task L} = insert t ?U" using pid(2) by auto
  ultimately show "owned L ?s' (set (alls @ [t]))" unfolding s' owned_def using h by simp
qed

lemma kfree_new:
  assumes "heap_owned h P U" "kmalloc n h = Some (t, h1)" "t \<noteq> 0" "0 < n" "unat n \<le> 0xFFFFFFFC"
    and "heap_ok h2" "kept_regions UNIV h1 h2" "live_regions h2 = live_regions h1"
  obtains h3 where "kfree t h2 = Some (Inr h3)" "heap_owned h3 P U" "live_regions h3 = live_regions h" "eflags h3 = eflags h2"
proof -
  have ok: "heap_ok h" using assms(1) by (simp add: heap_owned_def)
  obtain k where k: "unat n \<le> k" "live_regions h1 = insert (unat t, k) (live_regions h)" "(unat t, k) \<notin> live_regions h"
    using kmalloc_region [OF ok assms(2,3,5)] by blast
  have h1: "heap_ok h1" using kmalloc_total [OF ok, of n] assms(2) by auto
  have kt: "(unat t, k) \<in> live_regions h2" "0 < k" using k assms(4,8) by (auto simp: word_less_nat_alt)
  obtain h3 where h3: "kfree t h2 = Some (Inr h3)" "heap_ok h3" "eflags h3 = eflags h2"
    "live_regions h3 = live_regions h2 - {(unat t, k)}" using kfree_live [OF assms(6) kt] by metis
  have fr: "q \<noteq> unat t" if "(q, l) \<in> live_regions h" for q l using live_fresh [OF h1 k(2,3)] that by auto
  have U: "\<exists>l. (unat t', l) \<in> live_regions h" "\<exists>l. (unat (raw_of h P t'), l) \<in> live_regions h" if "t' \<in> U" for t'
    using assms(1) that unfolding heap_owned_def pcb_live_def stack_live_def by blast+
  let ?W = "U \<union> raw_of h P ` U"
  have "t \<notin> ?W" using U fr by (metis Un_iff imageE)
  then have W: "unat ` ?W \<subseteq> - {unat t}" unfolding subset_Compl_singleton unat_u32_image .
  have "kept_regions (unat ` ?W) h h3"
    by (rule kept_regions_trans [OF kept_regions_mono [OF kmalloc_kept_regions [OF ok assms(2,5)] subset_UNIV]
          kept_regions_trans [OF kept_regions_mono [OF assms(7) subset_UNIV] kept_regions_mono [OF kfree_kept_regions [OF assms(6) kt h3(1)] W]]])
  then have "heap_owned h3 P U" using heap_owned_keep(1) [OF assms(1) h3(2) order_refl] by auto
  moreover have "live_regions h3 = live_regions h" using h3(4) k(2,3) assms(8) by auto
  ultimately show thesis using that h3 by blast
qed

lemma kfree_aligned_new:
  assumes ok: "heap_ok h" and al: "power_of_two al" and sz: "unat n + unat al + 4 \<le> 0xFFFFFFFC"
    and r: "kmalloc_aligned n al h = Some (p, h1)" "p \<noteq> 0"
  obtains h2 where "kfree_aligned p h1 = Some (Inr h2)" "heap_ok h2" "live_regions h2 = live_regions h"
    "eflags h2 = eflags h1" "kept_regions UNIV h h2"
proof -
  obtain raw k where a: "heap_ok h1" "(unat raw, k) \<notin> live_regions h" "live_regions h1 = insert (unat raw, k) (live_regions h)"
    "unat raw + 4 \<le> unat p" "unat p + unat n \<le> unat raw + k" "hmem h1 (p - 4) = raw"
    using kmalloc_aligned_region [OF ok al sz r] by metis
  have k: "(unat raw, k) \<in> live_regions h1" "0 < k" using a by auto
  obtain h2 where h2: "kfree raw h1 = Some (Inr h2)" "heap_ok h2" "eflags h2 = eflags h1"
    "live_regions h2 = live_regions h1 - {(unat raw, k)}" using kfree_live [OF a(1) k] by metis
  have "kept_regions UNIV h h2"
    using kmalloc_aligned_kept_regions [OF ok al sz r] kfree_kept_regions [OF a(1) k h2(1)] live_fresh [OF a(1,3,2)]
    unfolding kept_regions_def by (metis ComplI UNIV_I singletonD)
  moreover have "kfree_aligned p h1 = Some (Inr h2)" using h2(1) a(6) r(2) by (simp add: kfree_aligned_def)
  moreover have "live_regions h2 = live_regions h" using h2(4) a(2,3) by auto
  ultimately show thesis using that h2(2,3) by blast
qed

text \<open>All three allocations have succeeded.\<close>

lemma task_create_done:
  assumes lay: "task_layout_ok L" and sc: "sched L s [current_task_ptr s] ready dead alls" and ow: "owned L s (set alls)"
  defines "h \<equiv> (heap s)\<lparr>eflags := cpu_eflags s AND NOT interrupt_flag\<rparr>"
  assumes a: "kmalloc sizeof_task h = Some (t, h1)" and b: "kmalloc_aligned STACK_SIZE 16 h1 = Some (stack, h2)" and mem: "t \<noteq> 0" "stack \<noteq> 0"
    and v: "vmm_create_address_space (vmm_lay L) ((vmm s)\<lparr>cpu_flags := eflags h2\<rparr>) = (pd, v)" and pd: "pd \<noteq> 0"
  shows "let s' = set_eflags (cpu_eflags s) (task_setup L e t stack pd (s\<lparr>heap := h2, vmm := v\<rparr>)) in
      task_create L e s = Some (Inr (t, s')) \<and> t \<notin> set alls \<and> pcb_live h2 t \<and>
      (\<forall>r. r \<in> live_regions (heap s) \<longrightarrow> r \<in> live_regions h2 \<and> fst r \<noteq> unat t) \<and>
      sched L s' [current_task_ptr s] (ready @ [t]) dead (alls @ [t]) \<and> owned L s' (set (alls @ [t]))"
proof -
  let ?e = "cpu_eflags s AND NOT interrupt_flag" and ?k = "kernel_task L"
  let ?U = "set alls - {?k}"
  have own: "heap_owned h (pcb s) ?U" "spaces_owned (vmm_lay L) (vmm s) (pcb s) ?U" using ow by (simp_all add: owned_def h_def)
  have h0: "heap (set_eflags ?e s) = h" by (simp add: set_eflags_def h_def)
  let ?s2 = "(set_eflags ?e s)\<lparr>heap := h2\<rparr>"
  have s2: "vmm_of ?s2 = (vmm s)\<lparr>cpu_flags := eflags h2\<rparr>" by (simp add: vmm_of_def set_eflags_def)
  have sp: "spaces_ok (vmm_lay L) ((vmm s)\<lparr>cpu_flags := eflags h2\<rparr>) ((\<lambda>t. t_cr3 (pcb s t)) ` ?U)" using own(2) by (simp add: spaces_owned_def)
  have cv: "pd \<notin> (\<lambda>t. t_cr3 (pcb s t)) ` ?U" "spaces_ok (vmm_lay L) v (insert pd ((\<lambda>t. t_cr3 (pcb s t)) ` ?U))"
    "cpu_flags v = eflags h2" using spaces_create [OF sp v] pd by auto
  let ?s3 = "s\<lparr>heap := h2, vmm := v\<rparr>"
  have s3: "with_vmm v ?s2 = ?s3" using cv(3) by (simp add: with_vmm_def vmm_of_def set_eflags_def)
  let ?p = "(pcb s t)\<lparr>t_stack_base := stack\<rparr>"
  note new = heap_owned_new [OF own(1) a mem(1) b mem(2), of "(pcb s)(t := ?p)", simplified]
  have okn: "heap_ok h2" "pcb_live h2 t" using new(1) by (auto simp: heap_owned_def)
  then have "0x400008 \<le> unat t" using pcb_live_bounds by blast
  then have tk: "t \<noteq> ?k" using lay by (auto simp: task_layout_ok_def)
  then have ta: "t \<notin> set alls" using new(2) by auto
  then have tc: "current_task_ptr s \<noteq> t" using sc by (auto simp: sched_def)
  have s3sc: "sched L ?s3 [current_task_ptr s] ready dead alls"
    using sc sched_cong [of ?s3 s] by simp
  have inj: "inj_on (\<lambda>t. t_cr3 (pcb s t)) ?U" using own(2) by (simp add: spaces_owned_def)
  note set = task_setup_effect [OF lay s3sc ta, of ?p stack pd e, simplified, OF new(1)]
  have "task_create L e s = Some (Inr (t, set_eflags (cpu_eflags s) (task_setup L e t stack pd ?s3)))"
    using a b mem v pd s3 s2 by (simp add: task_create_def irq_save_def irq_restore_def h0 Let_def)
  moreover have "\<forall>r. r \<in> live_regions (heap s) \<longrightarrow> r \<in> live_regions h2 \<and> fst r \<noteq> unat t"
    using new(4,5) unfolding kept_regions_def by (auto simp: h_def)
  ultimately show ?thesis using ta okn(2) set [OF cv(2,1) inj tc tk [symmetric]] by (simp add: Let_def)
qed

text \<open>
  Either nothing is left behind and NULL is returned, or the new task is on the ready list and on
  the list of all tasks with memory of its own.
\<close>

lemma task_create_effect:
  assumes lay: "task_layout_ok L" and sc: "sched L s [current_task_ptr s] ready dead alls" and ow: "owned L s (set alls)"
  shows "(\<exists>h v. task_create L e s = Some (Inr (0, s\<lparr>heap := h, vmm := v\<rparr>)) \<and> eflags h = cpu_eflags s \<and>
      live_regions h = live_regions (heap s) \<and> free_frames (pmm_st v) = free_frames (pmm_st (vmm s)) \<and>
      owned L (s\<lparr>heap := h, vmm := v\<rparr>) (set alls)) \<or>
    (\<exists>t stack pd h v. let s' = set_eflags (cpu_eflags s) (task_setup L e t stack pd (s\<lparr>heap := h, vmm := v\<rparr>)) in
      task_create L e s = Some (Inr (t, s')) \<and> t \<notin> set alls \<and> t \<noteq> 0 \<and> pcb_live h t \<and>
      (\<forall>r. r \<in> live_regions (heap s) \<longrightarrow> r \<in> live_regions h \<and> fst r \<noteq> unat t) \<and>
      sched L s' [current_task_ptr s] (ready @ [t]) dead (alls @ [t]) \<and> owned L s' (set (alls @ [t])))"
proof -
  let ?e = "cpu_eflags s AND NOT interrupt_flag" and ?k = "kernel_task L"
  let ?U = "set alls - {?k}" and ?h = "(heap s)\<lparr>eflags := ?e\<rparr>"
  have own: "heap_owned ?h (pcb s) ?U" "spaces_owned (vmm_lay L) (vmm s) (pcb s) ?U" using ow by (simp_all add: owned_def)
  have ok: "heap_ok ?h" using own(1) by (simp add: heap_owned_def)
  have h0: "heap (set_eflags ?e s) = ?h" by (simp add: set_eflags_def)
  have sz: "0 < sizeof_task" "unat sizeof_task \<le> 0xFFFFFFFC" by (simp_all add: sizeof_task_def)
  have fl: "set_eflags (cpu_eflags s) ((set_eflags ?e s)\<lparr>heap := h, vmm := v\<rparr>) = s\<lparr>heap := h\<lparr>eflags := cpu_eflags s\<rparr>, vmm := v\<rparr>" for h v
    by (simp add: set_eflags_def)
  obtain t h1 where a: "kmalloc sizeof_task ?h = Some (t, h1)" "heap_ok h1" "eflags h1 = ?e"
    using kmalloc_total [OF ok, of sizeof_task] by auto
  have al: "power_of_two 16" "unat STACK_SIZE + unat (16 :: u32) + 4 \<le> 0xFFFFFFFC" by (simp_all add: power_of_two_def STACK_SIZE_def)
  obtain stack h2 where b: "kmalloc_aligned STACK_SIZE 16 h1 = Some (stack, h2)" "heap_ok h2"
    using kmalloc_aligned_total [OF a(2) al(2)] by blast
  consider (no_pcb) "t = 0" | (no_stack) "t \<noteq> 0" "stack = 0" | (mem) "t \<noteq> 0" "stack \<noteq> 0" by blast
  then show ?thesis
  proof cases
    case no_pcb
    obtain bs where "heap_blocks (hmem ?h) bs" using ok by (auto simp: heap_ok_def)
    then have "h1 = ?h" using kmalloc_null(1) a(1) no_pcb by blast
    then have "task_create L e s = Some (Inr (0, s\<lparr>heap := (heap s)\<lparr>eflags := cpu_eflags s\<rparr>, vmm := vmm s\<rparr>))"
      using a(1) no_pcb by (simp add: task_create_def irq_save_def irq_restore_def h0 Let_def set_eflags_def)
    then show ?thesis using ow
      by (intro disjI1 exI [of _ "(heap s)\<lparr>eflags := cpu_eflags s\<rparr>"] exI [of _ "vmm s"]) (simp add: owned_def)
  next
    case no_stack
    have "h2 = h1" using kmalloc_aligned_null [OF a(2) al] b(1) no_stack(2) by blast
    obtain h3 where h3: "kfree t h1 = Some (Inr h3)" "heap_owned h3 (pcb s) ?U" "live_regions h3 = live_regions ?h"
      using kfree_new [OF own(1) a(1) no_stack(1) sz a(2) kept_regions_refl refl] by blast
    have "task_create L e s = Some (Inr (0, s\<lparr>heap := h3\<lparr>eflags := cpu_eflags s\<rparr>, vmm := vmm s\<rparr>))"
      using a(1) b(1) no_stack h3(1) \<open>h2 = h1\<close>
      by (simp add: task_create_def irq_save_def irq_restore_def h0 Let_def on_heap_def set_eflags_def)
    then show ?thesis using h3 own(2)
      by (intro disjI1 exI [of _ "h3\<lparr>eflags := cpu_eflags s\<rparr>"] exI [of _ "vmm s"]) (simp add: owned_def)
  next
    case mem
    let ?s2 = "(set_eflags ?e s)\<lparr>heap := h2\<rparr>"
    obtain pd v where v: "vmm_create_address_space (vmm_lay L) (vmm_of ?s2) = (pd, v)" by fastforce
    have sp: "spaces_ok (vmm_lay L) (vmm_of ?s2) ((\<lambda>t. t_cr3 (pcb s t)) ` ?U)" using own(2) by (simp add: spaces_owned_def)
    have e2: "eflags h2 = ?e" using heap_owned_new(3) [OF own(1) a(1) mem(1) b(1) mem(2), of "(pcb s)(t := (pcb s t)\<lparr>t_stack_base := stack\<rparr>)"]
      by simp
    show ?thesis
    proof (cases "pd = 0")
      case True
      then have ve: "v = vmm_of ?s2" using spaces_create [OF sp v] by auto
      then have vf: "with_vmm v ?s2 = (set_eflags ?e s)\<lparr>heap := h2, vmm := v\<rparr>" by (simp add: with_vmm_def vmm_of_def)
      obtain h3 where h3: "kfree_aligned stack h2 = Some (Inr h3)" "heap_ok h3" "live_regions h3 = live_regions h1" "kept_regions UNIV h1 h3"
        using kfree_aligned_new [OF a(2) al b(1) mem(2)] by blast
      obtain h4 where h4: "kfree t h3 = Some (Inr h4)" "heap_owned h4 (pcb s) ?U" "live_regions h4 = live_regions ?h"
        using kfree_new [OF own(1) a(1) mem(1) sz h3(2,4,3)] by blast
      have "task_create L e s = Some (Inr (0, s\<lparr>heap := h4\<lparr>eflags := cpu_eflags s\<rparr>, vmm := v\<rparr>))"
        using a(1) b(1) mem v True h3(1) h4(1) vf fl
        by (simp add: task_create_def irq_save_def irq_restore_def h0 Let_def on_heap_def)
      then show ?thesis using h4 own(2) ve
        by (intro disjI1 exI [of _ "h4\<lparr>eflags := cpu_eflags s\<rparr>"] exI [of _ v]) (simp add: owned_def vmm_of_def spaces_owned_def)
    next
      case False
      show ?thesis using task_create_done [OF lay sc ow a(1) b(1) mem _ False, of v e] v mem(1)
        by (intro disjI2 exI [of _ t] exI [of _ stack] exI [of _ pd] exI [of _ h2] exI [of _ v]) (simp add: Let_def vmm_of_def set_eflags_def)
    qed
  qed
qed

section \<open>Leaving and killing\<close>

text \<open>There is room for the frame of a switch on the stack the CPU runs on.\<close>

definition esp_ok :: "task_layout \<Rightarrow> ksys \<Rightarrow> bool" where
  "esp_ok L s \<longleftrightarrow>
     (let sp = unat (r_esp (regs s)); base = unat (t_stack_base (pcb s (current_task_ptr s)))
      in if current_task_ptr s = kernel_task L then 52 \<le> sp \<and> sp \<le> 0x400000
         else base + 52 \<le> sp \<and> sp \<le> base + 4096)"

lemma esp_ok_safe:
  assumes sc: "sched L s [current_task_ptr s] ready dead alls" and ow: "owned L s (set alls)" and sp: "esp_ok L s"
  shows "safe_pushes L s (set alls)"
  unfolding safe_pushes_def
proof (intro ballI)
  fix x assume x: "x \<in> push_cells (r_esp (regs s)) 13"
  let ?c = "current_task_ptr s" and ?U = "set alls - {kernel_task L}"
  have own: "heap_owned (heap s) (pcb s) ?U" using ow by (simp add: owned_def)
  have le: "4 * 13 \<le> unat (r_esp (regs s))" using sp by (auto simp: esp_ok_def Let_def split: if_splits)
  note b = push_cells_bounds [OF x le]
  show "client_cell (heap s) x \<and> (\<forall>t \<in> ?U. x \<noteq> t_stack_base (pcb s t) - 4)"
  proof (cases "?c = kernel_task L")
    case True
    then have lt: "unat x < 0x400000" using sp b by (simp add: esp_ok_def Let_def)
    have ok: "heap_ok (heap s)" using own by (simp add: heap_owned_def)
    have "x \<noteq> t_stack_base (pcb s t) - 4" if "t \<in> ?U" for t
    proof -
      have st: "stack_live (heap s) (raw_of (heap s) (pcb s) t) (t_stack_base (pcb s t))" using own that by (simp add: heap_owned_def)
      show ?thesis using stack_live_bounds [OF ok st] lt by (auto simp: unat_minus_u32)
    qed
    then show ?thesis using client_cell_outside [OF ok] lt by blast
  next
    case False
    then have "?c \<in> ?U" using sc by (auto simp: sched_def)
    moreover have "unat (t_stack_base (pcb s ?c)) \<le> unat x" "unat x < unat (t_stack_base (pcb s ?c)) + 4096"
      using sp b False by (simp_all add: esp_ok_def Let_def)
    ultimately show ?thesis using stack_cell_safe [OF own] by blast
  qed
qed

lemma mark_dead_effect:
  assumes sc: "sched L s [c] ready dead alls" and ow: "owned L s (set alls)" and c: "c \<noteq> kernel_task L"
  defines "s1 \<equiv> s\<lparr>pcb := (pcb s)(c := (pcb s c)\<lparr>t_state := TASK_DEAD\<rparr>),
                  links := list_add_tail (list_node c) (dead_list L) (links s)\<rparr>"
  shows "sched L s1 [] ready (dead @ [c]) alls" and "owned L s1 (set alls)"
proof -
  have cc: "c \<notin> set ready" "c \<notin> set dead" "c \<in> set alls" "c = current_task_ptr s" using sc by (auto simp: sched_def)
  have "insert c (set ready \<union> set dead \<union> set alls) = set ready \<union> set dead \<union> set alls" using cc(3) by auto
  then have "task_lists L (links s1) ready (dead @ [c]) alls"
    using task_lists_add_dead [OF sched_lists [OF sc] _ cc(1,2)] task_listsD(5) [OF sched_lists [OF sc]] by (simp add: s1_def)
  then show "sched L s1 [] ready (dead @ [c]) alls" using sc cc c by (auto simp: sched_def s1_def)
  show "owned L s1 (set alls)" by (rule pick_keeps_owned [OF ow, of "pcb s1"]) (auto simp: s1_def)
qed

lemma task_yield_switch:
  assumes "sched L s run (n # rs) dead alls" "owned L s (set alls)" "safe_pushes L s (set alls - set dead)"
  obtains s1 s2 s' where "reaped (set dead) (set_eflags (cpu_eflags s AND NOT interrupt_flag) s) s1"
    "task_pick L s1 = Inr s2"
    "s' = task_resume L (switch_context L (current_task_ptr s) (t_esp (pcb s n)) (t_cr3 (pcb s n))
            (s2\<lparr>yield_flags := (yield_flags s)(current_task_ptr s := cpu_eflags s)\<rparr>))"
    "task_yield L s = Some (Inr (True, s'))" "current_task_ptr s' = n"
    "sched L s' [n] (rs @ run) [] (filter (\<lambda>x. x \<notin> set dead) alls)" "owned L s' (set alls - set dead)"
    "heap s2 = heap s1" "regs s2 = regs s1"
proof -
  obtain s1 where s1: "reaped (set dead) (set_eflags (cpu_eflags s AND NOT interrupt_flag) s) s1"
    "\<exists>s2 s'. task_pick L s1 = Inr s2 \<and>
       s' = task_resume L (switch_context L (current_task_ptr s) (t_esp (pcb s n)) (t_cr3 (pcb s n))
              (s2\<lparr>yield_flags := (yield_flags s)(current_task_ptr s := cpu_eflags s)\<rparr>)) \<and>
       task_yield L s = Some (Inr (True, s')) \<and> current_task_ptr s' = n \<and>
       sched L s' [n] (rs @ run) [] (filter (\<lambda>x. x \<notin> set dead) alls) \<and> owned L s' (set alls - set dead)"
    by (rule task_yield_effect [OF assms]) blast
  moreover have "heap s2 = heap s1 \<and> regs s2 = regs s1" if "task_pick L s1 = Inr s2" for s2
  proof -
    let ?st = "if t_state (pcb s1 (current_task_ptr s1)) = TASK_RUNNING
                then s1\<lparr>pcb := (pcb s1)(current_task_ptr s1 := (pcb s1 (current_task_ptr s1))\<lparr>t_state := TASK_READY\<rparr>),
                       links := list_add_tail (list_node (current_task_ptr s1)) (ready_list L) (links s1)\<rparr>
                else s1"
    have "heap ?st = heap s1" "regs ?st = regs s1" by auto
    then show ?thesis
      using that unfolding task_pick_def Let_def kbind_def by (auto split: sum.splits)
  qed
  ultimately show thesis using that by blast
qed

lemma task_yield_alone:
  assumes "sched L s run [] dead alls" "owned L s (set alls)" "safe_pushes L s (set alls - set dead)"
  obtains s1 where "reaped (set dead) (set_eflags (cpu_eflags s AND NOT interrupt_flag) s) s1"
    "task_yield L s = Some (Inr (False, set_eflags (cpu_eflags s) s1))"
    "sched L s1 run [] [] (filter (\<lambda>x. x \<notin> set dead) alls)" "owned L s1 (set alls - set dead)"
  by (rule task_yield_effect [OF assms]) blast

text \<open>Process ids never change.\<close>

lemma task_pick_pid: "task_pick L s = Inr s' \<Longrightarrow> t_pid (pcb s' t) = t_pid (pcb s t)"
  unfolding task_pick_def Let_def kbind_def by (auto split: sum.splits if_splits)

lemma switched_pid: "t_pid (pcb (task_resume L (switch_context L p a b s)) t) = t_pid (pcb s t)"
  by (simp add: task_resume_def switch_context_eq switch_load_def Let_def)

text \<open>
  \<open>task_exit\<close>, through the state \<open>s1\<close> in which the exiting task has been reaped and the state \<open>s2\<close> in
  which the next one is chosen; the switch then still pushes onto the old stack.
\<close>

lemma task_exit_effect:
  assumes sc: "sched L s [c] ready dead alls" and ow: "owned L s (set alls)" and sp: "esp_ok L s"
    and c: "c \<noteq> kernel_task L"
  obtains n rs s1 s2 fl s' where "ready = n # rs" "task_exit L s = Some (Inr s')" "current_task_ptr s' = n"
    "sched L s' [n] rs [] (filter (\<lambda>x. x \<notin> insert c (set dead)) alls)" "owned L s' (set alls - insert c (set dead))"
    "s' = task_resume L (switch_context L c (t_esp (pcb s n)) (t_cr3 (pcb s n)) (s2\<lparr>yield_flags := fl\<rparr>))"
    "task_pick L s1 = Inr s2" "heap s2 = heap s1" "regs s2 = regs s"
    "\<And>k. (unat c, k) \<notin> live_regions (heap s2)" "\<And>k. (unat (raw_of (heap s) (pcb s) c), k) \<notin> live_regions (heap s2)"
    "\<And>t. t_pid (pcb s' t) = t_pid (pcb s t)"
proof -
  have cc: "c = current_task_ptr s" using sc by (auto simp: sched_def)
  define s0 where "s0 = set_eflags (cpu_eflags s AND NOT interrupt_flag) s"
  define sd where "sd = s0\<lparr>pcb := (pcb s0)(c := (pcb s0 c)\<lparr>t_state := TASK_DEAD\<rparr>),
                links := list_add_tail (list_node c) (dead_list L) (links s0)\<rparr>"
  have f: "regs sd = regs s" "current_task_ptr sd = c" "t_esp (pcb sd t) = t_esp (pcb s t)" "t_cr3 (pcb sd t) = t_cr3 (pcb s t)"
    "t_stack_base (pcb sd t) = t_stack_base (pcb s t)" "hmem (heap sd) = hmem (heap s)" "client_cell (heap sd) x = client_cell (heap s) x"
    "t_pid (pcb sd t) = t_pid (pcb s t)"
    for t x by (simp_all add: sd_def s0_def cc)
  have sc0: "sched L s0 [c] ready dead alls" "owned L s0 (set alls)" using sc ow by (simp_all add: s0_def)
  have m: "sched L sd [] ready (dead @ [c]) alls" "owned L sd (set alls)"
    using mark_dead_effect [OF sc0 c] by (simp_all add: sd_def)
  have "safe_pushes L s (set alls)" using esp_ok_safe sc ow sp cc by blast
  then have sub: "safe_pushes L sd (set alls - set (dead @ [c]))" by (auto simp: safe_pushes_def f)
  have "kernel_task L \<in> set ready" using sc c by (auto simp: sched_def)
  then obtain n rs where r: "ready = n # rs" by (cases ready) auto
  obtain s1 s2 s' where s': "reaped (set (dead @ [c])) (set_eflags (cpu_eflags sd AND NOT interrupt_flag) sd) s1"
    "task_pick L s1 = Inr s2"
    "s' = task_resume L (switch_context L (current_task_ptr sd) (t_esp (pcb sd n)) (t_cr3 (pcb sd n))
            (s2\<lparr>yield_flags := (yield_flags sd)(current_task_ptr sd := cpu_eflags sd)\<rparr>))"
    "task_yield L sd = Some (Inr (True, s'))" "current_task_ptr s' = n"
    "sched L s' [n] (rs @ []) [] (filter (\<lambda>x. x \<notin> set (dead @ [c])) alls)" "owned L s' (set alls - set (dead @ [c]))"
    "heap s2 = heap s1" "regs s2 = regs s1"
    by (rule task_yield_switch [OF m(1) [unfolded r] m(2) sub]) blast
  have ex: "task_exit L s = Some (Inr s')"
    using s'(4) c by (simp add: task_exit_def irq_save_def Let_def cc sd_def s0_def)
  have rw: "raw_of (heap sd) (pcb sd) c = raw_of (heap s) (pcb s) c" by (simp add: raw_of_def f)
  have dead: "(unat c, k) \<notin> live_regions (heap s2)" "(unat (raw_of (heap s) (pcb s) c), k) \<notin> live_regions (heap s2)" for k
    using s'(1) rw unfolding reaped_def s'(8) by (simp_all add: raw_of_def)
  have rg: "regs s2 = regs s" using s'(9) reaped_pcb [OF s'(1)] f(1) by simp
  have eq: "set (dead @ [c]) = insert c (set dead)" "rs @ [] = rs" by auto
  have pid: "t_pid (pcb s' t) = t_pid (pcb s t)" for t
    using task_pick_pid [OF s'(2)] reaped_pcb [OF s'(1)] by (simp add: s'(3) switched_pid f)
  show thesis
    by (rule that [OF r ex s'(5) _ _ _ s'(2,8) rg dead pid]) (use s'(3,6,7) in \<open>simp_all only: eq f append_Nil2\<close>)
qed

section \<open>Reachable states\<close>

definition task_inv :: "task_layout \<Rightarrow> ksys \<Rightarrow> bool" where
  "task_inv L s \<longleftrightarrow> t_pid (pcb s (kernel_task L)) = 1 \<and>
     (\<exists>ready dead alls. sched L s [current_task_ptr s] ready dead alls \<and> owned L s (set alls))"

lemma task_invI:
  "t_pid (pcb s (kernel_task L)) = 1 \<Longrightarrow> sched L s [current_task_ptr s] ready dead alls \<Longrightarrow> owned L s (set alls) \<Longrightarrow> task_inv L s"
  by (auto simp: task_inv_def)

lemma task_yield_inv:
  assumes inv: "task_inv L s" and sp: "esp_ok L s"
  shows "\<exists>b s'. task_yield L s = Some (Inr (b, s')) \<and> task_inv L s'"
proof -
  obtain ready dead alls where sc: "sched L s [current_task_ptr s] ready dead alls" "owned L s (set alls)"
    and pid: "t_pid (pcb s (kernel_task L)) = 1" using inv by (auto simp: task_inv_def)
  have "safe_pushes L s (set alls)" by (rule esp_ok_safe [OF sc sp])
  then have safe: "safe_pushes L s (set alls - set dead)" by (auto simp: safe_pushes_def)
  let ?A = "filter (\<lambda>x. x \<notin> set dead) alls"
  have A: "set ?A = set alls - set dead" by auto
  show ?thesis
  proof (cases ready)
    case Nil
    obtain s1 where s1: "reaped (set dead) (set_eflags (cpu_eflags s AND NOT interrupt_flag) s) s1"
      "task_yield L s = Some (Inr (False, set_eflags (cpu_eflags s) s1))"
      "sched L s1 [current_task_ptr s] [] [] ?A" "owned L s1 (set alls - set dead)"
      using task_yield_alone sc safe Nil by metis
    have "pcb s1 = pcb s" "current_task_ptr s1 = current_task_ptr s" using reaped_pcb [OF s1(1)] by simp_all
    then have "task_inv L (set_eflags (cpu_eflags s) s1)"
      using pid s1(3,4) by (intro task_invI [of _ _ "[]" "[]" ?A]) (simp_all add: A del: set_filter)
    then show ?thesis using s1(2) by blast
  next
    case (Cons n rs)
    obtain s1 s2 s' where s': "reaped (set dead) (set_eflags (cpu_eflags s AND NOT interrupt_flag) s) s1"
      "task_pick L s1 = Inr s2"
      "s' = task_resume L (switch_context L (current_task_ptr s) (t_esp (pcb s n)) (t_cr3 (pcb s n))
            (s2\<lparr>yield_flags := (yield_flags s)(current_task_ptr s := cpu_eflags s)\<rparr>))"
      "task_yield L s = Some (Inr (True, s'))" "current_task_ptr s' = n"
      "sched L s' [n] (rs @ [current_task_ptr s]) [] ?A" "owned L s' (set alls - set dead)"
      by (rule task_yield_switch [OF sc(1) [unfolded Cons] sc(2) safe]) blast
    have "t_pid (pcb s' t) = t_pid (pcb s t)" for t
      using task_pick_pid [OF s'(2)] reaped_pcb [OF s'(1)] by (simp add: s'(3) switched_pid)
    then have "task_inv L s'"
      using pid s'(5-7) by (intro task_invI [of _ _ "rs @ [current_task_ptr s]" "[]" ?A]) (simp_all add: A del: set_filter)
    then show ?thesis using s'(4) by blast
  qed
qed

lemma task_exit_inv:
  assumes inv: "task_inv L s" and sp: "esp_ok L s" and c: "current_task_ptr s \<noteq> kernel_task L"
  shows "\<exists>s'. task_exit L s = Some (Inr s') \<and> task_inv L s'"
proof -
  let ?c = "current_task_ptr s"
  obtain ready dead alls where sc: "sched L s [?c] ready dead alls" "owned L s (set alls)"
    and pid: "t_pid (pcb s (kernel_task L)) = 1" using inv by (auto simp: task_inv_def)
  let ?A = "filter (\<lambda>x. x \<notin> insert ?c (set dead)) alls"
  have A: "set ?A = set alls - insert ?c (set dead)" by auto
  obtain n rs s' where e: "task_exit L s = Some (Inr s')" "current_task_ptr s' = n" "sched L s' [n] rs [] ?A"
    "owned L s' (set alls - insert ?c (set dead))" "\<And>t. t_pid (pcb s' t) = t_pid (pcb s t)"
    by (rule task_exit_effect [OF sc sp c]) blast
  have own: "owned L s' (set ?A)" unfolding A by (rule e(4))
  have "t_pid (pcb s' (kernel_task L)) = 1" using pid e(5) by simp
  then have "task_inv L s'" by (rule task_invI [OF _ e(3) [folded e(2)] own])
  then show ?thesis using e(1) by blast
qed

lemma task_create_inv:
  assumes lay: "task_layout_ok L" and inv: "task_inv L s"
  shows "\<exists>p s'. task_create L e s = Some (Inr (p, s')) \<and> task_inv L s'"
proof -
  obtain ready dead alls where sc: "sched L s [current_task_ptr s] ready dead alls" "owned L s (set alls)"
    and pid: "t_pid (pcb s (kernel_task L)) = 1" using inv by (auto simp: task_inv_def)
  from task_create_effect [OF lay sc, of e] show ?thesis
  proof (elim disjE exE conjE)
    fix h v
    assume c: "task_create L e s = Some (Inr (0, s\<lparr>heap := h, vmm := v\<rparr>))" "owned L (s\<lparr>heap := h, vmm := v\<rparr>) (set alls)"
    have "sched L (s\<lparr>heap := h, vmm := v\<rparr>) [current_task_ptr s] ready dead alls" using sc(1) sched_cong [of "s\<lparr>heap := h, vmm := v\<rparr>" s] by simp
    then have "task_inv L (s\<lparr>heap := h, vmm := v\<rparr>)" using pid c(2) by (intro task_invI) simp_all
    then show ?thesis using c(1) by blast
  next
    fix t stack pd h v
    let ?s = "set_eflags (cpu_eflags s) (task_setup L e t stack pd (s\<lparr>heap := h, vmm := v\<rparr>))"
    assume "let s' = ?s in task_create L e s = Some (Inr (t, s')) \<and> t \<notin> set alls \<and> t \<noteq> 0 \<and> pcb_live h t \<and>
      (\<forall>r. r \<in> live_regions (heap s) \<longrightarrow> r \<in> live_regions h \<and> fst r \<noteq> unat t) \<and>
      sched L s' [current_task_ptr s] (ready @ [t]) dead (alls @ [t]) \<and> owned L s' (set (alls @ [t]))"
    then have c: "task_create L e s = Some (Inr (t, ?s))" "t \<notin> set alls"
      "sched L ?s [current_task_ptr s] (ready @ [t]) dead (alls @ [t])" "owned L ?s (set (alls @ [t]))" by (auto simp: Let_def)
    have "kernel_task L \<in> set alls" using sc(1) by (auto simp: sched_def)
    then have "t_pid (pcb ?s (kernel_task L)) = 1" "current_task_ptr ?s = current_task_ptr s"
      using pid c(2) by (auto simp: task_setup_def case_prod_beta Let_def)
    then have "task_inv L ?s" using c(3) by (intro task_invI [OF _ _ c(4)]) simp_all
    then show ?thesis using c(1) by blast
  qed
qed

lemma task_kill_inv:
  assumes inv: "task_inv L s" and sp: "esp_ok L s"
  shows "\<exists>r s'. task_kill L pid s = Some (Inr (r, s')) \<and> task_inv L s'"
proof -
  let ?e = "cpu_eflags s AND NOT interrupt_flag"
  let ?s0 = "set_eflags ?e s" and ?c = "current_task_ptr s"
  obtain ready dead alls where sc: "sched L s [?c] ready dead alls" "owned L s (set alls)"
    and k1: "t_pid (pcb s (kernel_task L)) = 1" using inv by (auto simp: task_inv_def)
  have inv0: "task_inv L (set_eflags x s)" for x using sc k1 by (intro task_invI [of _ _ ready dead alls]) simp_all
  have ss: "set_eflags x (set_eflags y s) = set_eflags x s" for x y by (simp add: set_eflags_def)
  have fe: "list_for_each (links s) (all_tasks_list L) = Some (map all_node alls)"
    by (rule list_for_each_clist [OF task_listsD(3) [OF sched_lists [OF sc(1)]]])
  have co: "map (\<lambda>pos. container_of pos all_list_offset) (map all_node alls) = alls"
    by (simp add: container_of_def comp_def)
  let ?P = "\<lambda>task. t_pid (pcb s task) = pid \<and> t_state (pcb s task) \<noteq> TASK_DEAD"
  show ?thesis
  proof (cases "pid \<le> 1 \<or> find ?P alls = None")
    case True
    then have "task_kill L pid s = Some (Inr (Some (- 1), set_eflags (cpu_eflags s) s))"
      using fe co by (auto simp: task_kill_def irq_save_def irq_restore_def Let_def ss)
    then show ?thesis using inv0 by blast
  next
    case False
    then obtain t where t: "find ?P alls = Some t" and p: "\<not> pid \<le> 1" by auto
    then have tt: "t \<in> set alls" "t_pid (pcb s t) = pid" "t_state (pcb s t) \<noteq> TASK_DEAD"
      by (auto simp: find_Some_iff)
    have tk: "t \<noteq> kernel_task L" using tt(2) k1 p by auto
    show ?thesis
    proof (cases "t = ?c")
      case True
      have "esp_ok L ?s0" using sp by (simp add: esp_ok_def)
      then obtain s' where "task_exit L ?s0 = Some (Inr s')" "task_inv L s'"
        using task_exit_inv [OF inv0] tk True by auto
      moreover have "task_kill L pid s = kobind (task_exit L ?s0) (\<lambda>s1. Some (Inr (None, s1)))"
        using fe co t p True by (simp add: task_kill_def irq_save_def Let_def)
      ultimately show ?thesis by simp
    next
      case False
      have "t \<in> set ready" using tt sc(1) False by (auto simp: sched_def)
      then obtain r r' where r: "ready = r @ t # r'" by (meson split_list)
      obtain l where l: "list_del (list_node t) (links s) = Inr l" "task_lists L l (r @ r') dead alls"
        using task_lists_del_ready [of L "links s" r t r' dead alls] sched_lists [OF sc(1)] r by auto
      have d: "distinct (r @ t # r')" "t \<notin> set dead"
        using task_listsD(4,6) [OF sched_lists [OF sc(1)]] r by auto
      let ?s' = "set_eflags (cpu_eflags s) (s\<lparr>pcb := (pcb s)(t := (pcb s t)\<lparr>t_state := TASK_DEAD\<rparr>),
         links := list_add_tail (list_node t) (dead_list L) l\<rparr>)"
      have "insert t (set (r @ r') \<union> set dead \<union> set alls) = set (r @ r') \<union> set dead \<union> set alls" using tt(1) by auto
      then have "task_lists L (links ?s') (r @ r') (dead @ [t]) alls"
        using task_lists_add_dead [OF l(2)] task_listsD(5) [OF l(2)] d by simp
      then have "sched L ?s' [?c] (r @ r') (dead @ [t]) alls" using sc(1) r d tk False by (auto simp: sched_def)
      moreover have "owned L ?s' (set alls)"
        unfolding set_eflags_keeps by (rule pick_keeps_owned [OF sc(2), of "(pcb s)(t := (pcb s t)\<lparr>t_state := TASK_DEAD\<rparr>)"]) auto
      ultimately have "task_inv L ?s'" using k1 tk by (intro task_invI) simp_all
      moreover have "task_kill L pid s = Some (Inr (Some 0, ?s'))"
        using fe co t p False l(1) by (simp add: task_kill_def irq_save_def irq_restore_def Let_def set_eflags_def)
      ultimately show ?thesis by blast
    qed
  qed
qed

text \<open>
  The states the kernel's tasks can reach once the memory managers are set up.  Between two
  calls the running task may change the registers, its own stack and memory below the heap.
\<close>

definition own_cell :: "task_layout \<Rightarrow> ksys \<Rightarrow> addr \<Rightarrow> bool" where
  "own_cell L s x \<longleftrightarrow> unat x < 0x400000 \<or>
     (let base = unat (t_stack_base (pcb s (current_task_ptr s)))
      in current_task_ptr s \<noteq> kernel_task L \<and> base \<le> unat x \<and> unat x < base + 4096)"

inductive task_step :: "task_layout \<Rightarrow> ksys \<Rightarrow> ksys \<Rightarrow> bool" for L where
  create: "task_create L e s = Some (Inr (p, s')) \<Longrightarrow> task_step L s s'"
| yield: "esp_ok L s \<Longrightarrow> task_yield L s = Some (Inr (b, s')) \<Longrightarrow> task_step L s s'"
| exit: "esp_ok L s \<Longrightarrow> task_exit L s = Some (Inr s') \<Longrightarrow> task_step L s s'"
| kill: "esp_ok L s \<Longrightarrow> task_kill L pid s = Some (Inr (r, s')) \<Longrightarrow> task_step L s s'"
| run: "(\<And>x. m x \<noteq> hmem (heap s) x \<Longrightarrow> own_cell L s x) \<Longrightarrow>
    task_step L s (s\<lparr>regs := r, heap := (heap s)\<lparr>hmem := m, eflags := e\<rparr>\<rparr>)"

text \<open>The list heads as \<open>LIST_HEAD\<close> initialises them.\<close>

definition heads_initialised :: "task_layout \<Rightarrow> list_mem \<Rightarrow> bool" where
  "heads_initialised L l \<longleftrightarrow> (\<forall>h \<in> {ready_list L, dead_list L, all_tasks_list L}. l_next l h = h \<and> l_prev l h = h)"

inductive task_reachable :: "task_layout \<Rightarrow> ksys \<Rightarrow> bool" for L where
  boot: "heads_initialised L (links s) \<Longrightarrow> next_pid s = 1 \<Longrightarrow> heap_ok h \<Longrightarrow> spaces_ok (vmm_lay L) v {} \<Longrightarrow>
    task_reachable L ((task_init L s)\<lparr>heap := h, vmm := v\<rparr>)"
| step: "task_reachable L s \<Longrightarrow> task_step L s s' \<Longrightarrow> task_reachable L s'"

lemma task_init_inv:
  assumes lay: "task_layout_ok L" and hd: "heads_initialised L (links s)" and n: "next_pid s = 1"
    and mem: "heap_ok h" "spaces_ok (vmm_lay L) v {}"
  shows "task_inv L ((task_init L s)\<lparr>heap := h, vmm := v\<rparr>)"
proof -
  let ?k = "kernel_task L" and ?s' = "(task_init L s)\<lparr>heap := h, vmm := v\<rparr>"
  have "heap_owned h (pcb s) {}" using mem(1) by (simp add: heap_owned_def)
  from heap_owned_nodes_apart [OF lay this] have na: "nodes_apart L {?k}" .
  have "task_lists L (links s) [] [] []"
    using hd na by (auto simp: task_lists_def clist_def heads_initialised_def nodes_apart_def)
  from task_lists_init [OF this, of ?k] na
  have "task_lists L (list_init (all_node ?k) (list_init (list_node ?k) (links s))) [] [] []" by simp
  from task_lists_add_all [OF this, of ?k] na have "task_lists L (links ?s') [] [] [?k]"
    by (simp add: task_init_def Let_def)
  then have "sched L ?s' [?k] [] [] [?k]" by (simp add: sched_def task_init_def Let_def)
  moreover have "current_task_ptr ?s' = ?k" "t_pid (pcb ?s' ?k) = 1" using n by (simp_all add: task_init_def Let_def)
  moreover have "owned L ?s' (set [?k])" using mem by (simp add: owned_def heap_owned_def spaces_owned_def)
  ultimately show ?thesis using task_invI [of ?s' L "[]" "[]" "[?k]"] by simp
qed

lemma run_owned:
  assumes sc: "sched L s [current_task_ptr s] ready dead alls" "owned L s (set alls)"
    and own: "\<And>x. m x \<noteq> hmem (heap s) x \<Longrightarrow> own_cell L s x"
  shows "owned L (s\<lparr>regs := r, heap := (heap s)\<lparr>hmem := m, eflags := e\<rparr>\<rparr>) (set alls)"
proof -
  let ?c = "current_task_ptr s" and ?U = "set alls - {kernel_task L}"
  have ho: "heap_owned (heap s) (pcb s) ?U" "heap_ok (heap s)" using sc(2) by (auto simp: owned_def heap_owned_def)
  have "client_cell (heap s) x \<and> (\<forall>t \<in> ?U. x \<noteq> t_stack_base (pcb s t) - 4)" if "m x \<noteq> hmem (heap s) x" for x
  proof (cases "unat x < 0x400000")
    case True
    have "x \<noteq> t_stack_base (pcb s t) - 4" if "t \<in> ?U" for t
    proof -
      have "stack_live (heap s) (raw_of (heap s) (pcb s) t) (t_stack_base (pcb s t))" using ho(1) that by (simp add: heap_owned_def)
      from stack_live_bounds [OF ho(2) this] True show ?thesis by (auto simp: unat_minus_u32)
    qed
    then show ?thesis using client_cell_outside [OF ho(2)] True by blast
  next
    case False
    with own [OF that] have "?c \<in> ?U" "unat (t_stack_base (pcb s ?c)) \<le> unat x" "unat x < unat (t_stack_base (pcb s ?c)) + 4096"
      using sc(1) by (auto simp: own_cell_def Let_def sched_def)
    then show ?thesis using stack_cell_safe [OF ho(1)] by blast
  qed
  then have "heap_owned ((heap s)\<lparr>hmem := m\<rparr>) (pcb s) ?U" by (rule heap_owned_writes [OF ho(1)]) auto
  then show ?thesis using sc(2) by (simp add: owned_def)
qed

lemma run_inv:
  assumes inv: "task_inv L s" and own: "\<And>x. m x \<noteq> hmem (heap s) x \<Longrightarrow> own_cell L s x"
  shows "task_inv L (s\<lparr>regs := r, heap := (heap s)\<lparr>hmem := m, eflags := e\<rparr>\<rparr>)"
proof -
  let ?s' = "s\<lparr>regs := r, heap := (heap s)\<lparr>hmem := m, eflags := e\<rparr>\<rparr>" and ?c = "current_task_ptr s"
  obtain ready dead alls where sc: "sched L s [?c] ready dead alls" "owned L s (set alls)"
    and k1: "t_pid (pcb s (kernel_task L)) = 1" using inv by (auto simp: task_inv_def)
  have "owned L ?s' (set alls)" by (rule run_owned [OF sc own])
  moreover have "sched L ?s' [?c] ready dead alls" using sc(1) sched_cong [of ?s' s] by simp
  ultimately show ?thesis using k1 by (intro task_invI) simp_all
qed

lemma task_step_inv: "task_step L s s' \<Longrightarrow> task_layout_ok L \<Longrightarrow> task_inv L s \<Longrightarrow> task_inv L s'"
proof (induction rule: task_step.induct)
  case (create e s p s')
  then show ?case using task_create_inv [of L s e] by auto
next
  case (yield s b s')
  then show ?case using task_yield_inv [of L s] by auto
next
  case (exit s s')
  then have "current_task_ptr s \<noteq> kernel_task L" by (auto simp: task_exit_def irq_save_def Let_def)
  then show ?case using exit task_exit_inv [of L s] by auto
next
  case (kill s pid r s')
  then show ?case using task_kill_inv [of L s pid] by auto
next
  case (run m s r e)
  then show ?case using run_inv by blast
qed

lemma task_reachable_inv: "task_reachable L s \<Longrightarrow> task_layout_ok L \<Longrightarrow> task_inv L s"
  by (induction rule: task_reachable.induct) (auto intro: task_init_inv task_step_inv)

section \<open>Round robin\<close>

text \<open>\<open>n\<close> calls of \<open>task_yield\<close>, by whichever task is running, with arbitrary work of the tasks between them.\<close>

inductive yields :: "task_layout \<Rightarrow> nat \<Rightarrow> ksys \<Rightarrow> ksys \<Rightarrow> bool" for L where
  start: "yields L 0 s s"
| work: "yields L n s s' \<Longrightarrow> (\<And>x. m x \<noteq> hmem (heap s') x \<Longrightarrow> own_cell L s' x) \<Longrightarrow>
    yields L n s (s'\<lparr>regs := r, heap := (heap s')\<lparr>hmem := m, eflags := e\<rparr>\<rparr>)"
| yield: "yields L n s s' \<Longrightarrow> esp_ok L s' \<Longrightarrow> task_yield L s' = Some (Inr (b, s'')) \<Longrightarrow> yields L (Suc n) s s''"

lemma yields_rotate:
  assumes "yields L n s s'" "sched L s [c] ready [] alls" "owned L s (set alls)"
  shows "\<exists>d rs. d # rs = rotate n (c # ready) \<and> sched L s' [d] rs [] alls \<and> owned L s' (set alls)"
  using assms
proof (induction rule: yields.induct)
  case (start s)
  then show ?case by auto
next
  case (work n s s' m e r)
  then obtain d rs where d: "d # rs = rotate n (c # ready)" "sched L s' [d] rs [] alls" "owned L s' (set alls)" by blast
  have "d = current_task_ptr s'" using d(2) by (auto simp: sched_def)
  then have "owned L (s'\<lparr>regs := r, heap := (heap s')\<lparr>hmem := m, eflags := e\<rparr>\<rparr>) (set alls)"
    using run_owned d(2,3) work.hyps(2) by blast
  moreover have "sched L (s'\<lparr>regs := r, heap := (heap s')\<lparr>hmem := m, eflags := e\<rparr>\<rparr>) [d] rs [] alls"
    using d(2) sched_cong [of "s'\<lparr>regs := r, heap := (heap s')\<lparr>hmem := m, eflags := e\<rparr>\<rparr>" s'] by simp
  ultimately show ?case using d(1) by blast
next
  case (yield n s s' b s'')
  then obtain d rs where d: "d # rs = rotate n (c # ready)" "sched L s' [d] rs [] alls" "owned L s' (set alls)" by blast
  have dc: "d = current_task_ptr s'" using d(2) by (auto simp: sched_def)
  have rot: "rotate (Suc n) (c # ready) = rs @ [d]" using d(1) by (metis rotate1.simps(2) rotate_Suc)
  have safe: "safe_pushes L s' (set alls - set [])" using esp_ok_safe d(2,3) yield.hyps(2) dc by auto
  have A: "filter (\<lambda>x. x \<notin> set []) alls = alls" by simp
  show ?case
  proof (cases rs)
    case Nil
    obtain s1 where "task_yield L s' = Some (Inr (False, set_eflags (cpu_eflags s') s1))"
      "sched L s1 [d] [] [] (filter (\<lambda>x. x \<notin> set []) alls)" "owned L s1 (set alls - set [])"
      by (rule task_yield_alone [OF d(2) [unfolded Nil] d(3) safe]) blast
    then show ?thesis using yield.hyps(3) rot Nil by (intro exI [of _ d] exI [of _ "[]"]) auto
  next
    case (Cons e es)
    obtain s1 where "task_yield L s' = Some (Inr (True, s1))"
      "sched L s1 [e] (es @ [d]) [] (filter (\<lambda>x. x \<notin> set []) alls)" "owned L s1 (set alls - set [])"
      by (rule task_yield_switch [OF d(2) [unfolded Cons] d(3) safe]) blast
    then show ?thesis using yield.hyps(3) rot Cons by (intro exI [of _ e] exI [of _ "es @ [d]"]) auto
  qed
qed

section \<open>Properties\<close>

text \<open>A kernel that has just been set up: the kernel task alone, an empty heap, two free frames.\<close>

definition boot_tasks :: task_layout where
  "boot_tasks = \<lparr>vmm_lay = boot_layout, ready_list = 0x20000, all_tasks_list = 0x20008, dead_list = 0x20010,
     kernel_task = 0x20020, task_exit_trampoline = 0x11000, after_switch = 0x11100\<rparr>"

definition boot_regs :: cpu_regs where
  "boot_regs = \<lparr>r_eax = 0, r_ecx = 0, r_edx = 0, r_ebx = 0, r_esp = 0x8FF00, r_ebp = 0, r_esi = 0, r_edi = 0, r_eip = 0\<rparr>"

definition boot_ksys :: ksys where
  "boot_ksys = (task_init boot_tasks
     \<lparr>pcb = (\<lambda>_. \<lparr>t_esp = 0, t_cr3 = 0, t_pid = 0, t_state = TASK_BLOCKED, t_ticks = 0, t_stack_base = 0, t_stack_top = 0\<rparr>),
      links = \<lparr>l_next = id, l_prev = id\<rparr>, current_task_ptr = 0, task_count = 0, next_pid = 1, tss_esp0 = 0,
      heap = boot_heap, vmm = boot_vmm, regs = boot_regs, yield_flags = (\<lambda>_. 0)\<rparr>)
     \<lparr>heap := boot_heap, vmm := set_scratch boot_layout 0 boot_vmm\<rparr>"

lemma boot_tasks_ok: "task_layout_ok boot_tasks"
  by (simp add: task_layout_ok_def boot_tasks_def)

lemma boot_spaces: "spaces_ok boot_layout (set_scratch boot_layout 0 boot_vmm) {}"
  unfolding spaces_ok_def using boot_vmm_ok by simp

lemma boot_heap_ok: "heap_ok boot_heap"
  by (simp add: boot_heap_def heap_init_ok)

lemma boot_reachable: "task_reachable boot_tasks boot_ksys"
  unfolding boot_ksys_def
  by (rule task_reachable.boot) (simp_all add: heads_initialised_def boot_heap_ok boot_tasks_def boot_spaces)

lemma boot_fields:
  "current_task_ptr boot_ksys = 0x20020" "regs boot_ksys = boot_regs" "kernel_task boot_tasks = 0x20020"
  by (simp_all add: boot_ksys_def task_init_def boot_tasks_def Let_def)

lemma boot_esp: "esp_ok boot_tasks boot_ksys"
  by (simp add: esp_ok_def boot_fields boot_regs_def Let_def)

text \<open>
  C4: in every state the tasks can reach, the ready, dead and complete lists are well formed, every
  task but the running one is on exactly one of the first two and in the state that list stands
  for, the counter counts them and each owns its PCB, stack and page directory; and there none of
  the operations panics or hangs: creating and killing always return, yielding returns or switches,
  and leaving switches to another task.
\<close>

theorem task_reachable_safe:
  assumes "task_layout_ok L" "task_reachable L s"
  shows "task_inv L s \<and> (\<forall>e. \<exists>p s'. task_create L e s = Some (Inr (p, s')) \<and> task_reachable L s') \<and>
    (esp_ok L s \<longrightarrow> (\<exists>b s'. task_yield L s = Some (Inr (b, s')) \<and> task_reachable L s') \<and>
       (\<forall>pid. \<exists>r s'. task_kill L pid s = Some (Inr (r, s')) \<and> task_reachable L s') \<and>
       (current_task_ptr s \<noteq> kernel_task L \<longrightarrow> (\<exists>s'. task_exit L s = Some (Inr s') \<and> task_reachable L s')))"
proof -
  have inv: "task_inv L s" by (rule task_reachable_inv [OF assms(2,1)])
  note go = task_reachable.step [OF assms(2)]
  show ?thesis
    using inv task_create_inv [OF assms(1) inv] task_yield_inv [OF inv] task_kill_inv [OF inv] task_exit_inv [OF inv]
      go task_step.intros(1-4) by metis
qed

theorem task_reachable_safe_witness:
  "(\<exists>p s'. task_create boot_tasks 0x12000 boot_ksys = Some (Inr (p, s')) \<and> task_reachable boot_tasks s') \<and>
   (\<exists>b s'. task_yield boot_tasks boot_ksys = Some (Inr (b, s')))"
  using task_reachable_safe [OF boot_tasks_ok boot_reachable] boot_esp by blast

text \<open>
  C5: the scheduler is fair.  From a state with the running task \<open>c\<close>, the ready list \<open>ready\<close> and no
  dead tasks, after \<open>n\<close> calls of \<open>task_yield\<close>, with any work of the tasks in between, task number
  \<open>n\<close> of the cycle \<open>c # ready\<close> is running: every ready task gets the CPU once per round and in order.
\<close>

theorem task_round_robin:
  assumes "sched L s [c] ready [] alls" "owned L s (set alls)" "yields L n s s'"
  shows "current_task_ptr s' = (c # ready) ! (n mod length (c # ready)) \<and>
    sched L s' [current_task_ptr s'] (tl (rotate n (c # ready))) [] alls"
proof -
  obtain d rs where d: "d # rs = rotate n (c # ready)" "sched L s' [d] rs [] alls"
    using yields_rotate [OF assms(3,1,2)] by blast
  have "d = current_task_ptr s'" using d(2) by (auto simp: sched_def)
  moreover have "d = (c # ready) ! (n mod length (c # ready))"
    using hd_rotate_conv_nth [of "c # ready" n] d(1) by (metis list.discI list.sel(1))
  moreover have "rs = tl (rotate n (c # ready))" using d(1) by (metis list.sel(3))
  ultimately show ?thesis using d(2) by simp
qed

lemma boot_sched: "sched boot_tasks boot_ksys [0x20020] [] [] [0x20020]" "owned boot_tasks boot_ksys (set [0x20020])"
proof -
  show "owned boot_tasks boot_ksys (set [0x20020])"
    by (simp add: owned_def boot_fields heap_owned_def spaces_owned_def boot_ksys_def boot_heap_ok boot_spaces boot_tasks_def)
  show "sched boot_tasks boot_ksys [0x20020] [] [] [0x20020]"
    by (simp add: sched_def task_lists_def clist_def nodes_apart_def boot_ksys_def task_init_def boot_tasks_def
        list_init_def list_add_tail_def list_add_between_def list_offset_def all_list_offset_def Let_def)
qed

theorem task_round_robin_witness:
  "\<exists>b s'. task_yield boot_tasks boot_ksys = Some (Inr (b, s')) \<and> current_task_ptr s' = 0x20020"
proof -
  obtain b s' where y: "task_yield boot_tasks boot_ksys = Some (Inr (b, s'))"
    using task_yield_inv [OF task_reachable_inv [OF boot_reachable boot_tasks_ok] boot_esp] by blast
  have "yields boot_tasks 1 boot_ksys s'" using yields.yield [OF yields.start boot_esp y] by simp
  from task_round_robin [OF boot_sched this] y show ?thesis by auto
qed

text \<open>
  C15: \<open>task_create\<close> either returns NULL and leaves everything as it was (the regions of the heap, the
  free frames, the lists, the counter and the flags), or returns a fresh PCB that is appended to
  the ready list and the list of all tasks, with a stack from which the first switch to it enters
  the trampoline with interrupts enabled and the entry point as its argument.
\<close>

theorem task_create_correct:
  assumes "task_layout_ok L" "sched L s [current_task_ptr s] ready dead alls" "owned L s (set alls)"
  shows "\<exists>t s'. task_create L e s = Some (Inr (t, s')) \<and> cpu_eflags s' = cpu_eflags s \<and>
    (if t = 0
     then live_regions (heap s') = live_regions (heap s) \<and> free_frames (pmm_st (vmm s')) = free_frames (pmm_st (vmm s)) \<and>
       sched L s' [current_task_ptr s] ready dead alls \<and> owned L s' (set alls)
     else t \<notin> set alls \<and> sched L s' [current_task_ptr s] (ready @ [t]) dead (alls @ [t]) \<and> owned L s' (set (alls @ [t])) \<and>
       t_pid (pcb s' t) = next_pid s \<and> task_count s' = task_count s + 1 \<and>
       (let n = switch_load (t_esp (pcb s' t)) s' in
          r_eip (regs n) = task_exit_trampoline L \<and> hmem (heap n) (r_esp (regs n) + 4) = e \<and> interrupts_on (cpu_eflags n)))"
  using task_create_effect [OF assms, of e]
proof (elim disjE exE conjE)
  fix h v
  assume c: "task_create L e s = Some (Inr (0, s\<lparr>heap := h, vmm := v\<rparr>))" "eflags h = cpu_eflags s"
    "live_regions h = live_regions (heap s)" "free_frames (pmm_st v) = free_frames (pmm_st (vmm s))"
    "owned L (s\<lparr>heap := h, vmm := v\<rparr>) (set alls)"
  have "sched L (s\<lparr>heap := h, vmm := v\<rparr>) [current_task_ptr s] ready dead alls"
    using assms(2) sched_cong [of "s\<lparr>heap := h, vmm := v\<rparr>" s] by simp
  then show ?thesis using c by (intro exI [of _ 0] exI [of _ "s\<lparr>heap := h, vmm := v\<rparr>"]) (simp add: cpu_eflags_def)
next
  fix t stack pd h v
  let ?su = "task_setup L e t stack pd (s\<lparr>heap := h, vmm := v\<rparr>)"
  let ?s = "set_eflags (cpu_eflags s) ?su"
  assume "let s' = ?s in task_create L e s = Some (Inr (t, s')) \<and> t \<notin> set alls \<and> t \<noteq> 0 \<and> pcb_live h t \<and>
      (\<forall>r. r \<in> live_regions (heap s) \<longrightarrow> r \<in> live_regions h \<and> fst r \<noteq> unat t) \<and>
      sched L s' [current_task_ptr s] (ready @ [t]) dead (alls @ [t]) \<and> owned L s' (set (alls @ [t]))"
  then have c: "task_create L e s = Some (Inr (t, ?s))" "t \<notin> set alls" "t \<noteq> 0"
    "sched L ?s [current_task_ptr s] (ready @ [t]) dead (alls @ [t])" "owned L ?s (set (alls @ [t]))" by (auto simp: Let_def)
  let ?fp = "fold push (initial_frame L e) (stack + STACK_SIZE, hmem h)"
  have g: "hmem (heap ?su) = snd ?fp" by (simp add: task_setup_def case_prod_beta Let_def)
  have f: "hmem (heap ?s) = snd ?fp" "t_esp (pcb ?s t) = fst ?fp" "t_pid (pcb ?s t) = next_pid s" "task_count ?s = task_count s + 1"
    by (simp_all add: task_setup_def case_prod_beta Let_def)
  have on: "interrupts_on 0x202" by (simp add: interrupts_on_def interrupt_flag_def)
  note cells = initial_frame_cells [where L = L and e = e and stack = stack and m = "hmem h"]
  have "let n = switch_load (t_esp (pcb ?s t)) ?s in
      r_eip (regs n) = task_exit_trampoline L \<and> hmem (heap n) (r_esp (regs n) + 4) = e \<and> interrupts_on (cpu_eflags n)"
    unfolding switch_load_def Let_def f(1,2) cells(1) using cells(2,4,5) on by (simp add: cpu_eflags_def g add.assoc)
  then show ?thesis using c f(3,4) by (intro exI [of _ t] exI [of _ ?s]) (simp only: set_eflags_keeps simp_thms if_False)
qed

theorem task_create_correct_witness:
  "\<exists>t s'. task_create boot_tasks 0x12000 boot_ksys = Some (Inr (t, s')) \<and> cpu_eflags s' = 0x202"
proof -
  have "sched boot_tasks boot_ksys [current_task_ptr boot_ksys] [] [] [0x20020]" using boot_sched(1) by (simp add: boot_fields)
  moreover have "cpu_eflags boot_ksys = 0x202" by (simp add: cpu_eflags_def boot_ksys_def boot_heap_def heap_init_def)
  ultimately show ?thesis using task_create_correct [OF boot_tasks_ok _ boot_sched(2), of "[]" "[]" "0x12000"] by auto
qed

text \<open>
  C16: the context switch saves what it restores.  A task that switches away and whose saved frame is
  left alone gets back, when it is switched to again, every register and the flags it had at
  the call, and continues behind the call in \<open>task_yield\<close> with the stack pointer it had.  CR3 is
  loaded with the ECX of the task switched away from, not with the new task's page directory.
\<close>

theorem context_switch_roundtrip:
  assumes s1_def: "s1 = switch_context L p new_esp new_cr3 s"
    and "\<And>x. x \<in> push_cells (r_esp (regs s)) 13 \<Longrightarrow> hmem (heap s2) x = hmem (heap s1) x"
  shows "let b = switch_load (t_esp (pcb s1 p)) s2 in
    regs b = (regs s)\<lparr>r_esp := r_esp (regs s) - 12, r_eip := after_switch L\<rparr> \<and> cpu_eflags b = cpu_eflags s \<and>
    cr3 (vmm s1) = r_ecx (regs s)"
proof -
  let ?sp = "r_esp (regs s) - 52" and ?m = "snd (switch_save L p new_esp new_cr3 s)"
  have m1: "hmem (heap s1) = ?m" "t_esp (pcb s1 p) = ?sp" "cr3 (vmm s1) = r_ecx (regs s)"
    by (simp_all add: s1_def switch_context_eq switch_load_def Let_def)
  have "?sp + of_nat (4 * i) \<in> push_cells (r_esp (regs s)) 13" if "i < 13" for i
  proof -
    have "?sp + of_nat (4 * i) = r_esp (regs s) - 4 * of_nat (Suc (12 - i))"
      using that by (simp add: of_nat_diff algebra_simps)
    then show ?thesis using that unfolding push_cells_def by (intro image_eqI [of _ _ "12 - i"]) simp_all
  qed
  then have cells: "hmem (heap s2) (?sp + of_nat (4 * i)) = ?m (?sp + of_nat (4 * i))" if "i < 13" for i
    using assms(2) m1(1) that by auto
  have c: "hmem (heap s2) ?sp = ?m ?sp" "hmem (heap s2) (?sp + 4) = ?m (?sp + 4)" "hmem (heap s2) (?sp + 8) = ?m (?sp + 8)"
    "hmem (heap s2) (?sp + 16) = ?m (?sp + 16)" "hmem (heap s2) (?sp + 20) = ?m (?sp + 20)"
    "hmem (heap s2) (?sp + 24) = ?m (?sp + 24)" "hmem (heap s2) (?sp + 28) = ?m (?sp + 28)"
    "hmem (heap s2) (?sp + 32) = ?m (?sp + 32)" "hmem (heap s2) (?sp + 36) = ?m (?sp + 36)"
    using cells [of 0] cells [of 1] cells [of 2] cells [of 4] cells [of 5] cells [of 6] cells [of 7] cells [of 8] cells [of 9]
    by simp_all
  have "regs (switch_load ?sp s2) = (regs s)\<lparr>r_esp := ?sp + 40, r_eip := after_switch L\<rparr>" "cpu_eflags (switch_load ?sp s2) = cpu_eflags s"
    unfolding switch_load_def Let_def cpu_eflags_def c switch_save_frame by simp_all
  then show ?thesis unfolding Let_def m1(2,3) by simp
qed

theorem context_switch_roundtrip_witness:
  "let s1 = switch_context boot_tasks 0x20020 0x300000 0 boot_ksys; b = switch_load (t_esp (pcb s1 0x20020)) s1 in
    r_esp (regs b) = r_esp (regs boot_ksys) - 12 \<and> cpu_eflags b = 0x202"
proof -
  have "cpu_eflags boot_ksys = 0x202" by (simp add: cpu_eflags_def boot_ksys_def boot_heap_def heap_init_def)
  then show ?thesis using context_switch_roundtrip [OF refl, of boot_ksys _ boot_tasks "0x20020" "0x300000" 0] unfolding Let_def by simp
qed

end
