(* ===== verification/Console.thy ===== *)
theory Console
  imports Klib_Stdlib Kheap
begin

text \<open>
  The text console, src/src/drivers/print/print.c, and the formatted output of
  src/src/klib/stdio.c on top of it.  Lines are kept in a ring of \<open>max_history_rows\<close> rows of 80
  cells and numbered by a 32-bit counter that never restarts; the screen shows 25 rows of it.
  \<open>print_char\<close> runs a three-state ANSI escape parser in front of the character cells.

  The ring is an array of cells indexed by \<open>row * 80 + column\<close> as in C, video memory the array
  of the 2000 cells at 0xB8000, and \<open>cursor\<close> the location register pair of the CRT controller,
  which \<open>update_cursor\<close> writes byte by byte through ports; theory \<open>Crtc\<close> has the port writes.

  The ring is shown to refine an unbounded scrollback.
\<close>

unbundle bit_operations_syntax

section \<open>State and operations\<close>

record console =
  max_history_rows :: u32
  line_buffer :: "nat \<Rightarrow> u16"
  line_lengths :: "nat \<Rightarrow> u8"
  absolute_write_row :: u32
  write_col :: nat
  view_start_row :: u32
  current_color :: u8
  ansi_state :: nat
  ansi_code :: int
  video :: "nat \<Rightarrow> u16"
  cursor :: u16
  con_flags :: u32

definition mk_cell :: "u8 \<Rightarrow> u8 \<Rightarrow> u16" where
  "mk_cell ch color = ucast ch OR push_bit 8 (ucast color)"

definition blank_cell :: "console \<Rightarrow> u16" where
  "blank_cell s = mk_cell 32 (current_color s)"

definition update_cursor :: "int \<Rightarrow> int \<Rightarrow> console \<Rightarrow> console" where
  "update_cursor x y s = s\<lparr>cursor := of_int (y * 80 + x)\<rparr>"

definition oldest_row :: "console \<Rightarrow> u32" where
  "oldest_row s =
     (if absolute_write_row s \<ge> max_history_rows s
      then absolute_write_row s - max_history_rows s + 1 else 0)"

text \<open>One screen row: the column loop writes the cells \<open>row * 80\<close>, \<open>row * 80 + 1\<close>, ...\<close>

primrec put_row :: "(nat \<Rightarrow> u16) \<Rightarrow> nat \<Rightarrow> nat \<Rightarrow> (nat \<Rightarrow> u16) \<Rightarrow> (nat \<Rightarrow> u16)" where
  "put_row f row 0 v = v"
| "put_row f row (Suc col) v = (put_row f row col v)(row * 80 + col := f col)"

definition screen_row :: "console \<Rightarrow> nat \<Rightarrow> nat \<Rightarrow> u16" where
  "screen_row s row =
     (let abs_row = view_start_row s + of_nat row
      in if abs_row \<ge> oldest_row s \<and> abs_row \<le> absolute_write_row s
         then let buffer_idx = unat (abs_row mod max_history_rows s)
              in (\<lambda>col. line_buffer s (buffer_idx * 80 + col))
         else (\<lambda>col. blank_cell s))"

primrec put_rows :: "console \<Rightarrow> nat \<Rightarrow> (nat \<Rightarrow> u16) \<Rightarrow> (nat \<Rightarrow> u16)" where
  "put_rows s 0 v = v"
| "put_rows s (Suc row) v = put_row (screen_row s row) row 80 (put_rows s row v)"

definition update_screen :: "console \<Rightarrow> console" where
  "update_screen s =
     (let s1 = s\<lparr>video := put_rows s 25 (video s)\<rparr>;
          screen_cursor_y = sint (absolute_write_row s1 - view_start_row s1)
      in if screen_cursor_y \<ge> 0 \<and> screen_cursor_y < 25
         then update_cursor (int (write_col s1)) screen_cursor_y s1
         else update_cursor 0 26 s1)"

text \<open>\<open>memsetw\<close> on part of the ring.\<close>

primrec set_cells :: "(nat \<Rightarrow> u16) \<Rightarrow> nat \<Rightarrow> u16 \<Rightarrow> nat \<Rightarrow> (nat \<Rightarrow> u16)" where
  "set_cells buf start v 0 = buf"
| "set_cells buf start v (Suc n) = (set_cells buf start v n)(start + n := v)"

definition wipe_row :: "console \<Rightarrow> u16 \<Rightarrow> console" where
  "wipe_row s v = s\<lparr>line_buffer :=
     set_cells (line_buffer s) (unat (absolute_write_row s mod max_history_rows s) * 80) v 80\<rparr>"

definition screen_clear :: "console \<Rightarrow> console" where
  "screen_clear s =
     (let (flags, e) = irq_save (con_flags s);
          s0 = s\<lparr>con_flags := e\<rparr>;
          total_cells = max_history_rows s0 * 80;
          s1 = s0\<lparr>line_buffer := set_cells (line_buffer s0) 0 (blank_cell s0) (unat total_cells),
                  absolute_write_row := 0, write_col := 0, view_start_row := 0\<rparr>;
          s2 = s1\<lparr>line_lengths := fill_with (unat (max_history_rows s1)) (\<lambda>_. 0) (line_lengths s1)\<rparr>;
          s3 = update_screen s2
      in s3\<lparr>con_flags := irq_restore flags (con_flags s3)\<rparr>)"

fun ansi_fg :: "int \<Rightarrow> u8 option" where
  "ansi_fg code =
     (if code = 30 then Some 0x00 else if code = 31 then Some 0x04 else if code = 32 then Some 0x02
      else if code = 33 then Some 0x0E else if code = 34 then Some 0x01 else if code = 35 then Some 0x05
      else if code = 36 then Some 0x03 else if code = 37 then Some 0x07 else if code = 90 then Some 0x08
      else if code = 91 then Some 0x0C else if code = 92 then Some 0x0A else if code = 93 then Some 0x0E
      else if code = 94 then Some 0x09 else if code = 95 then Some 0x0D else if code = 96 then Some 0x0B
      else if code = 97 then Some 0x0F else None)"

definition apply_ansi_color :: "int \<Rightarrow> console \<Rightarrow> console" where
  "apply_ansi_color code s =
     (if code = 0 then s\<lparr>current_color := 0x0F\<rparr>
      else case ansi_fg code of
        Some fg \<Rightarrow> s\<lparr>current_color := (current_color s AND 0xF0) OR fg\<rparr>
      | None \<Rightarrow> s)"

text \<open>The part of \<open>print_char\<close> after the escape parser.\<close>

definition put_newline :: "console \<Rightarrow> console" where
  "put_newline s =
     (let idx = unat (absolute_write_row s mod max_history_rows s);
          s1 = s\<lparr>line_lengths := (line_lengths s)(idx := of_nat (write_col s)), write_col := 0,
                 absolute_write_row := absolute_write_row s + 1\<rparr>
      in wipe_row s1 (blank_cell s))"

definition put_backspace :: "console \<Rightarrow> console" where
  "put_backspace s =
     (let idx = unat (absolute_write_row s mod max_history_rows s)
      in if write_col s > 0
         then s\<lparr>write_col := write_col s - 1,
                line_buffer := (line_buffer s)(idx * 80 + (write_col s - 1) := blank_cell s)\<rparr>
         else if absolute_write_row s > 0
         then let s1 = s\<lparr>absolute_write_row := absolute_write_row s - 1\<rparr>;
                  idx' = unat (absolute_write_row s1 mod max_history_rows s1);
                  col = unat (line_lengths s1 idx');
                  col' = (if col \<ge> 80 then 79 else col)
              in s1\<lparr>write_col := col', line_buffer := (line_buffer s1)(idx' * 80 + col' := blank_cell s)\<rparr>
         else s)"

definition put_glyph :: "u8 \<Rightarrow> console \<Rightarrow> console" where
  "put_glyph ch s =
     (let idx = unat (absolute_write_row s mod max_history_rows s);
          s1 = s\<lparr>line_buffer := (line_buffer s)(idx * 80 + write_col s := mk_cell ch (current_color s)),
                 write_col := write_col s + 1\<rparr>
      in if write_col s1 \<ge> 80
         then wipe_row (s1\<lparr>line_lengths := (line_lengths s1)(idx := 80), write_col := 0,
                absolute_write_row := absolute_write_row s1 + 1\<rparr>) (blank_cell s)
         else s1)"

definition auto_scroll :: "console \<Rightarrow> console" where
  "auto_scroll s =
     (if absolute_write_row s \<ge> view_start_row s + 25
      then s\<lparr>view_start_row := absolute_write_row s - 25 + 1\<rparr> else s)"

definition put_char :: "u8 \<Rightarrow> console \<Rightarrow> console" where
  "put_char ch s =
     update_screen (auto_scroll
       (if ch = 10 then put_newline s else if ch = 8 then put_backspace s else put_glyph ch s))"

definition print_char :: "u8 \<Rightarrow> console \<Rightarrow> console" where
  "print_char ch s =
     (let (flags, e) = irq_save (con_flags s);
          s0 = s\<lparr>con_flags := e\<rparr>;
          out = (\<lambda>s. let s' = put_char ch s in s'\<lparr>con_flags := irq_restore flags (con_flags s')\<rparr>)
      in if ansi_state s0 = 0
         then if ch = 27 then s0\<lparr>ansi_state := 1\<rparr> else out s0
         else if ansi_state s0 = 1
         then if ch = 91 then s0\<lparr>ansi_state := 2, ansi_code := 0\<rparr> else out (s0\<lparr>ansi_state := 0\<rparr>)
         else if ansi_state s0 = 2
         then if sint ch \<ge> 48 \<and> sint ch \<le> 57
              then s0\<lparr>ansi_code := s32 (s32 (ansi_code s0 * 10) + (sint ch - 48)),
                      con_flags := irq_restore flags (con_flags s0)\<rparr>
              else if ch = 109
              then let s1 = apply_ansi_color (ansi_code s0) s0
                   in s1\<lparr>ansi_state := 0, con_flags := irq_restore flags (con_flags s1)\<rparr>
              else out (s0\<lparr>ansi_state := 0\<rparr>)
         else out s0)"

partial_function (option) puts_loop :: "chararr \<Rightarrow> nat \<Rightarrow> console \<Rightarrow> console option" where
  "puts_loop str i s = (if str i \<noteq> 0 then puts_loop str (Suc i) (print_char (str i) s) else Some s)"

definition puts :: "chararr \<Rightarrow> console \<Rightarrow> console option" where
  "puts str s = puts_loop str 0 s"

definition scroll_history_up :: "int \<Rightarrow> console \<Rightarrow> console" where
  "scroll_history_up n s =
     (let (flags, e) = irq_save (con_flags s);
          s0 = s\<lparr>con_flags := e\<rparr>;
          s1 = s0\<lparr>view_start_row := (if view_start_row s0 \<ge> of_int n then view_start_row s0 - of_int n else 0)\<rparr>;
          s2 = (if view_start_row s1 < oldest_row s1 then s1\<lparr>view_start_row := oldest_row s1\<rparr> else s1);
          s3 = update_screen s2
      in s3\<lparr>con_flags := irq_restore flags (con_flags s3)\<rparr>)"

definition scroll_history_down :: "int \<Rightarrow> console \<Rightarrow> console" where
  "scroll_history_down n s =
     (let (flags, e) = irq_save (con_flags s);
          s0 = s\<lparr>con_flags := e\<rparr>;
          max_view_start = (if absolute_write_row s0 \<ge> 25 - 1 then absolute_write_row s0 - 25 + 1 else 0);
          s1 = s0\<lparr>view_start_row := view_start_row s0 + of_int n\<rparr>;
          s2 = (if view_start_row s1 > max_view_start then s1\<lparr>view_start_row := max_view_start\<rparr> else s1);
          s3 = update_screen s2
      in s3\<lparr>con_flags := irq_restore flags (con_flags s3)\<rparr>)"

text \<open>The local buffers of these two functions are uninitialised; their contents are an argument.\<close>

definition print_int :: "chararr \<Rightarrow> int \<Rightarrow> console \<Rightarrow> console option" where
  "print_int buffer n s = Option.bind (itoa n buffer) (\<lambda>str. puts str s)"

definition print_hex :: "chararr \<Rightarrow> u32 \<Rightarrow> console \<Rightarrow> console option" where
  "print_hex buffer n s = (case itoh n buffer of (str, start) \<Rightarrow> puts (\<lambda>i. str (start + i)) s)"

definition set_print_color :: "u16 \<Rightarrow> console \<Rightarrow> console" where
  "set_print_color color s =
     (let s1 = s\<lparr>current_color := ucast (color AND 0xFF)\<rparr>;
          idx = unat (absolute_write_row s1 mod max_history_rows s1);
          current_char = line_buffer s1 (idx * 80 + write_col s1) AND 0x00FF;
          s2 = s1\<lparr>line_buffer := (line_buffer s1)
                   (idx * 80 + write_col s1 := current_char OR push_bit 8 (ucast (current_color s1)))\<rparr>;
          screen_y = sint (absolute_write_row s2 - view_start_row s2)
      in if screen_y \<ge> 0 \<and> screen_y < 25
         then s2\<lparr>video := (video s2)(nat (screen_y * 80) + write_col s2 := line_buffer s2 (idx * 80 + write_col s2))\<rparr>
         else s2)"

text \<open>
  The ring moved to heap memory.  What the new memory holds before it is cleared is an argument.
\<close>

definition enable_dynamic_history ::
  "int \<Rightarrow> (addr \<Rightarrow> (nat \<Rightarrow> u16)) \<Rightarrow> (addr \<Rightarrow> (nat \<Rightarrow> u8)) \<Rightarrow> console \<times> heap_state \<Rightarrow> (console \<times> heap_state) option" where
  "enable_dynamic_history total_rows cells lens = (\<lambda>(s, h).
     Option.bind (kmalloc (of_int (s32 (total_rows * 80)) * 2) h) (\<lambda>(new_buffer, h1).
     Option.bind (kmalloc (of_int total_rows * 1) h1) (\<lambda>(new_lengths, h2).
       if new_buffer \<noteq> 0 \<and> new_lengths \<noteq> 0
       then Some (screen_clear (s\<lparr>line_buffer := cells new_buffer, line_lengths := lens new_lengths,
                    max_history_rows := of_int total_rows\<rparr>), h2)
       else Some (s, h2))))"

section \<open>Formatted output\<close>

text \<open>
  The variable arguments of \<open>printf\<close>: integers and strings, a string pointer being NULL or not.
  An argument that is missing or of the other kind is undefined behaviour in C and has no result.
\<close>

datatype va_arg = VaInt int | VaStr "chararr option"

definition null_text :: chararr where
  "null_text = (\<lambda>i. if i < 6 then [40, 110, 117, 108, 108, 41] ! i else 0)"

definition vprintf_directive :: "chararr \<Rightarrow> u8 \<Rightarrow> va_arg list \<Rightarrow> console \<Rightarrow> (va_arg list \<times> console) option" where
  "vprintf_directive buffer ch args s =
     (if ch = 100 \<or> ch = 105
      then (case args of VaInt n # rest \<Rightarrow> map_option (Pair rest) (print_int buffer n s) | _ \<Rightarrow> None)
      else if ch = 120 \<or> ch = 88
      then (case args of VaInt n # rest \<Rightarrow> map_option (Pair rest) (print_hex buffer (of_int n) s) | _ \<Rightarrow> None)
      else if ch = 115
      then (case args of
              VaStr None # rest \<Rightarrow> map_option (Pair rest) (puts null_text s)
            | VaStr (Some str) # rest \<Rightarrow> map_option (Pair rest) (puts str s)
            | _ \<Rightarrow> None)
      else if ch = 99
      then (case args of VaInt n # rest \<Rightarrow> Some (rest, print_char (of_int n) s) | _ \<Rightarrow> None)
      else if ch = 37 then Some (args, print_char 37 s)
      else Some (args, print_char ch (print_char 37 s)))"

partial_function (option) vprintf ::
  "chararr \<Rightarrow> chararr \<Rightarrow> nat \<Rightarrow> va_arg list \<Rightarrow> console \<Rightarrow> console option" where
  "vprintf buffer format i args s =
     (if format i \<noteq> 0
      then if format i = 37
           then if format (Suc i) = 0 then Some s
                else Option.bind (vprintf_directive buffer (format (Suc i)) args s)
                       (\<lambda>(args', s'). vprintf buffer format (Suc (Suc i)) args' s')
           else vprintf buffer format (Suc i) args (print_char (format i) s)
      else Some s)"

definition printf :: "chararr \<Rightarrow> chararr \<Rightarrow> va_arg list \<Rightarrow> console \<Rightarrow> console option" where
  "printf buffer format args s = vprintf buffer format 0 args s"

definition print_scancode :: "chararr \<Rightarrow> u8 \<Rightarrow> console \<Rightarrow> console option" where
  "print_scancode buffer scancode s =
     Option.bind (puts (\<lambda>i. if i < 3 then [83, 67, 58] ! i else 0) s) (\<lambda>s1.
     Option.bind (print_hex buffer (ucast scancode) s1) (\<lambda>s2.
       puts (\<lambda>i. if i < 1 then 32 else 0) s2))"

section \<open>The unbounded scrollback\<close>

text \<open>
  The abstract console never forgets a row.  \<open>sb_low\<close> is the first row whose contents the ring
  still has: it grows as rows are overwritten and does not shrink when backspace goes back.
\<close>

record scrollback =
  sb_cells :: "nat \<Rightarrow> nat \<Rightarrow> u16"
  sb_lens :: "nat \<Rightarrow> nat"
  sb_row :: nat
  sb_col :: nat
  sb_low :: nat

definition sb_next_row :: "nat \<Rightarrow> nat \<Rightarrow> u16 \<Rightarrow> scrollback \<Rightarrow> scrollback" where
  "sb_next_row n len blank b = b\<lparr>sb_lens := (sb_lens b)(sb_row b := len),
     sb_cells := (sb_cells b)(Suc (sb_row b) := (\<lambda>_. blank)), sb_row := Suc (sb_row b), sb_col := 0,
     sb_low := max (sb_low b) (Suc (Suc (sb_row b)) - n)\<rparr>"

definition sb_set :: "nat \<Rightarrow> nat \<Rightarrow> u16 \<Rightarrow> scrollback \<Rightarrow> scrollback" where
  "sb_set row col v b = b\<lparr>sb_cells := (sb_cells b)(row := (sb_cells b row)(col := v))\<rparr>"

definition sb_put :: "nat \<Rightarrow> u16 \<Rightarrow> u16 \<Rightarrow> scrollback \<Rightarrow> scrollback" where
  "sb_put n v blank b =
     (let b1 = sb_set (sb_row b) (sb_col b) v b
      in if Suc (sb_col b) \<ge> 80 then sb_next_row n 80 blank b1 else b1\<lparr>sb_col := Suc (sb_col b)\<rparr>)"

definition sb_backspace :: "u16 \<Rightarrow> scrollback \<Rightarrow> scrollback" where
  "sb_backspace blank b =
     (if sb_col b > 0 then (sb_set (sb_row b) (sb_col b - 1) blank b)\<lparr>sb_col := sb_col b - 1\<rparr>
      else if sb_row b > 0
      then let col = min 79 (sb_lens b (sb_row b - 1))
           in (sb_set (sb_row b - 1) col blank b)\<lparr>sb_row := sb_row b - 1, sb_col := col\<rparr>
      else b)"

text \<open>The ring holds the rows \<open>sb_low, ..., sb_row\<close> of the scrollback.\<close>

definition con_inv :: "console \<Rightarrow> bool" where
  "con_inv s \<longleftrightarrow> 2 \<le> max_history_rows s \<and> write_col s < 80"

definition holds :: "console \<Rightarrow> scrollback \<Rightarrow> bool" where
  "holds s b \<longleftrightarrow> sb_row b = unat (absolute_write_row s) \<and> sb_col b = write_col s \<and>
     sb_row b < sb_low b + unat (max_history_rows s) \<and> sb_low b \<le> sb_row b \<and>
     (\<forall>a c. sb_low b \<le> a \<and> a \<le> sb_row b \<and> c < 80 \<longrightarrow>
        line_buffer s (a mod unat (max_history_rows s) * 80 + c) = sb_cells b a c) \<and>
     (\<forall>a. sb_low b \<le> a \<and> a < sb_row b \<longrightarrow> unat (line_lengths s (a mod unat (max_history_rows s))) = sb_lens b a)"

lemma slot_inj:
  assumes "a \<le> b" "b < a + (n :: nat)" "a mod n = b mod n"
  shows "a = b"
proof -
  have "n dvd b - a" using assms(1,3) by (metis mod_eq_dvd_iff_nat)
  then have "\<not> 0 < b - a" using dvd_imp_le [of n "b - a"] assms(2) by linarith
  then show ?thesis using assms(1) by simp
qed

lemma cell_index_eq: "c < 80 \<Longrightarrow> d < 80 \<Longrightarrow> i * 80 + c = j * 80 + (d :: nat) \<longleftrightarrow> i = j \<and> c = d"
proof -
  assume "c < 80" "d < 80"
  then have "(i * 80 + c) div 80 = i" "(j * 80 + d) div 80 = j" by simp_all
  then have "i * 80 + c = j * 80 + d \<Longrightarrow> i = j" by metis
  then show ?thesis by auto
qed

lemma set_cells_apply: "set_cells buf start v n i = (if start \<le> i \<and> i < start + n then v else buf i)"
  by (induction n) auto

lemma unat_mod_row: "unat ((x :: u32) mod y) = unat x mod unat y"
  by (rule unat_mod)

lemma unat_succ: "unat (x :: u32) < 4294967295 \<Longrightarrow> unat (x + 1) = Suc (unat x)"
  by (simp add: unat_plus_u32)

lemmas row_simps = unat_mod_row unat_succ cell_index_eq

lemma row_range: "c < 80 \<Longrightarrow> j * 80 \<le> i * 80 + c \<and> i * 80 + c < j * 80 + 80 \<longleftrightarrow> i = (j :: nat)"
  by auto

text \<open>Starting a new row: its slot is wiped, which drops the oldest row when the ring is full.\<close>

lemma holds_next_row:
  assumes h: "holds s b" and n: "2 \<le> unat (max_history_rows s)" and big: "unat (absolute_write_row s) < 4294967295"
  defines "r \<equiv> unat (absolute_write_row s)" and "n \<equiv> unat (max_history_rows s)"
  shows "holds (wipe_row (s\<lparr>line_lengths := (line_lengths s)(r mod n := len), write_col := 0,
            absolute_write_row := absolute_write_row s + 1\<rparr>) blank)
          (sb_next_row n (unat len) blank b)"
    (is "holds ?s ?b")
proof -
  have b: "sb_row b = r" "r < sb_low b + n" "sb_low b \<le> r"
    and cells: "\<And>a c. sb_low b \<le> a \<Longrightarrow> a \<le> r \<Longrightarrow> c < 80 \<Longrightarrow> line_buffer s (a mod n * 80 + c) = sb_cells b a c"
    and lens: "\<And>a. sb_low b \<le> a \<Longrightarrow> a < r \<Longrightarrow> unat (line_lengths s (a mod n)) = sb_lens b a"
    using h by (simp_all add: holds_def r_def n_def)
  have r': "unat (absolute_write_row s + 1) = Suc r" using big by (simp add: unat_succ r_def)
  have low: "sb_low ?b = max (sb_low b) (Suc (Suc r) - n)" "sb_row ?b = Suc r" "sb_col ?b = 0"
    using b by (simp_all add: sb_next_row_def)
  have buf: "line_buffer ?s (a mod n * 80 + c) = sb_cells ?b a c"
    if "sb_low ?b \<le> a" "a \<le> Suc r" "c < 80" for a c
  proof (cases "a = Suc r")
    case True
    then show ?thesis using that b
      by (simp add: wipe_row_def set_cells_apply r' row_simps n_def [symmetric] sb_next_row_def)
  next
    case False
    have "Suc (Suc r) - n \<le> a" using that(1) low(1) by simp
    then have "Suc r < a + n" by arith
    then have "a mod n \<noteq> Suc r mod n" using slot_inj [of a "Suc r" n] that(2) False by auto
    then have "\<not> (Suc r mod n * 80 \<le> a mod n * 80 + c \<and> a mod n * 80 + c < Suc r mod n * 80 + 80)"
      using row_range [OF that(3), of "Suc r mod n" "a mod n"] by blast
    moreover have "line_buffer ?s i = (if Suc r mod n * 80 \<le> i \<and> i < Suc r mod n * 80 + 80 then blank
        else line_buffer s i)" for i
      by (simp add: wipe_row_def set_cells_apply r' unat_mod_row n_def [symmetric])
    ultimately have "line_buffer ?s (a mod n * 80 + c) = line_buffer s (a mod n * 80 + c)"
      by (simp only: if_False)
    also have "\<dots> = sb_cells b a c" using that False low by (intro cells) auto
    finally show ?thesis using False b by (simp add: sb_next_row_def)
  qed
  have len: "unat (line_lengths ?s (a mod n)) = sb_lens ?b a" if "sb_low ?b \<le> a" "a < Suc r" for a
  proof (cases "a = r")
    case True
    then show ?thesis using b by (simp add: wipe_row_def sb_next_row_def)
  next
    case False
    have "a mod n \<noteq> r mod n" using slot_inj [of a r n] that False low b by auto
    then show ?thesis using lens [of a] that False low b by (simp add: wipe_row_def sb_next_row_def)
  qed
  have "max_history_rows ?s = max_history_rows s" "absolute_write_row ?s = absolute_write_row s + 1" "write_col ?s = 0"
    by (simp_all add: wipe_row_def)
  moreover have "Suc r < sb_low ?b + n" "sb_low ?b \<le> Suc r"
    unfolding low using b n by (auto simp: n_def max_def)
  ultimately show ?thesis
    unfolding holds_def using buf len low(2,3) by (simp add: r' n_def [symmetric])
qed

lemma put_newline_holds:
  assumes h: "holds s b" and inv: "con_inv s" and big: "unat (absolute_write_row s) < 4294967295"
  shows "holds (put_newline s) (sb_next_row (unat (max_history_rows s)) (write_col s) (blank_cell s) b)"
proof -
  have "2 \<le> unat (max_history_rows s)" "unat (of_nat (write_col s) :: u8) = write_col s"
    using inv by (simp_all add: con_inv_def word_le_nat_alt unat_of_nat)
  with holds_next_row [OF h _ big, of "of_nat (write_col s)" "blank_cell s"] show ?thesis
    by (simp add: put_newline_def unat_mod_row Let_def)
qed

text \<open>Writing one cell of a row the ring holds.\<close>

lemma holds_set:
  assumes h: "holds s b" and row: "sb_low b \<le> row" "row \<le> sb_row b" and col: "col < 80"
    and s': "line_buffer s' = (line_buffer s)(row mod unat (max_history_rows s) * 80 + col := v)"
      "max_history_rows s' = max_history_rows s" "line_lengths s' = line_lengths s"
      "unat (absolute_write_row s') = row'" "write_col s' = col'"
    and row': "sb_low b \<le> row'" "row' \<le> sb_row b"
  shows "holds s' ((sb_set row col v b)\<lparr>sb_row := row', sb_col := col'\<rparr>)"
proof -
  let ?n = "unat (max_history_rows s)"
  have w: "sb_row b < sb_low b + ?n" using h by (simp add: holds_def)
  have "line_buffer s' (a mod ?n * 80 + c) = (sb_cells (sb_set row col v b)) a c"
    if "sb_low b \<le> a" "a \<le> sb_row b" "c < 80" for a c
  proof -
    have "a mod ?n = row mod ?n \<longleftrightarrow> a = row"
      using slot_inj [of a row ?n] slot_inj [of row a ?n] that row w by (cases "a \<le> row") auto
    then show ?thesis using h that col by (auto simp: s'(1) sb_set_def holds_def cell_index_eq)
  qed
  then show ?thesis using h s' row' w by (auto simp: holds_def sb_set_def)
qed

lemma put_glyph_holds:
  assumes h: "holds s b" and inv: "con_inv s" and big: "unat (absolute_write_row s) < 4294967295"
  shows "holds (put_glyph ch s) (sb_put (unat (max_history_rows s)) (mk_cell ch (current_color s)) (blank_cell s) b)"
proof -
  let ?n = "unat (max_history_rows s)" and ?r = "unat (absolute_write_row s)"
  let ?v = "mk_cell ch (current_color s)"
  have b: "sb_row b = ?r" "sb_col b = write_col s" "sb_low b \<le> ?r" "write_col s < 80" "2 \<le> ?n"
    using h inv by (auto simp: holds_def con_inv_def word_le_nat_alt)
  let ?s1 = "s\<lparr>line_buffer := (line_buffer s)(?r mod ?n * 80 + write_col s := ?v), write_col := Suc (write_col s)\<rparr>"
  let ?b1 = "(sb_set ?r (write_col s) ?v b)\<lparr>sb_row := ?r, sb_col := Suc (write_col s)\<rparr>"
  have h1: "holds ?s1 ?b1" using b by (intro holds_set [OF h]) simp_all
  show ?thesis
  proof (cases "80 \<le> Suc (write_col s)")
    case False
    moreover have "?b1 = (sb_set ?r (write_col s) ?v b)\<lparr>sb_col := Suc (write_col s)\<rparr>"
      using b by (simp add: sb_set_def)
    ultimately show ?thesis using h1 b by (simp add: put_glyph_def sb_put_def unat_mod_row Let_def)
  next
    case True
    have "sb_next_row ?n 80 (blank_cell s) ?b1 = sb_next_row ?n 80 (blank_cell s) (sb_set ?r (write_col s) ?v b)"
      using b by (simp add: sb_next_row_def sb_set_def)
    with True holds_next_row [OF h1, of 80 "blank_cell s"] big b show ?thesis
      by (simp add: put_glyph_def sb_put_def unat_mod_row Let_def)
  qed
qed

lemma put_backspace_holds:
  assumes h: "holds s b" and inv: "con_inv s" and bk: "0 < write_col s \<or> sb_low b < sb_row b \<or> sb_row b = 0"
  shows "holds (put_backspace s) (sb_backspace (blank_cell s) b)"
proof -
  let ?n = "unat (max_history_rows s)" and ?r = "unat (absolute_write_row s)"
  have b: "sb_row b = ?r" "sb_col b = write_col s" "sb_low b \<le> ?r" "write_col s < 80"
    and lens: "\<And>a. sb_low b \<le> a \<Longrightarrow> a < ?r \<Longrightarrow> unat (line_lengths s (a mod ?n)) = sb_lens b a"
    using h inv by (auto simp: holds_def con_inv_def)
  consider (col) "0 < write_col s" | (row) "write_col s = 0" "0 < ?r" | (start) "write_col s = 0" "?r = 0" by auto
  then show ?thesis
  proof cases
    case col
    have "holds (put_backspace s) ((sb_set ?r (write_col s - 1) (blank_cell s) b)\<lparr>sb_row := ?r, sb_col := write_col s - 1\<rparr>)"
      using b col by (intro holds_set [OF h]) (simp_all add: put_backspace_def unat_mod_row Let_def)
    moreover have "(sb_set ?r (write_col s - 1) (blank_cell s) b)\<lparr>sb_row := ?r, sb_col := write_col s - 1\<rparr> =
        (sb_set ?r (write_col s - 1) (blank_cell s) b)\<lparr>sb_col := write_col s - 1\<rparr>"
      using b(1) by (simp add: sb_set_def)
    ultimately show ?thesis using b col by (simp add: sb_backspace_def)
  next
    case row
    have r1: "unat (absolute_write_row s - 1) = ?r - 1" using row(2) by (simp add: unat_sub_if')
    have low: "sb_low b \<le> ?r - 1" using bk b row by auto
    let ?c = "min 79 (sb_lens b (?r - 1))"
    have l: "unat (line_lengths s ((?r - 1) mod ?n)) = sb_lens b (?r - 1)" using lens [OF low] row by simp
    have ceq: "(if 80 \<le> sb_lens b (?r - 1) then 79 else sb_lens b (?r - 1)) = ?c" by simp
    have "0 < absolute_write_row s" using row(2) by (simp add: word_less_nat_alt)
    then have "put_backspace s = s\<lparr>absolute_write_row := absolute_write_row s - 1, write_col := ?c,
        line_buffer := (line_buffer s)((?r - 1) mod ?n * 80 + ?c := blank_cell s)\<rparr>"
      using row(1) l ceq by (simp add: put_backspace_def unat_mod_row Let_def r1)
    then have "holds (put_backspace s) ((sb_set (?r - 1) ?c (blank_cell s) b)\<lparr>sb_row := ?r - 1, sb_col := ?c\<rparr>)"
      using b low row r1 by (intro holds_set [OF h]) simp_all
    then show ?thesis using b row by (simp add: sb_backspace_def Let_def)
  next
    case start
    then show ?thesis using h b by (simp add: put_backspace_def sb_backspace_def word_less_nat_alt)
  qed
qed

section \<open>The screen\<close>

lemma put_row_apply:
  "n \<le> 80 \<Longrightarrow> put_row f row n v i = (if row * 80 \<le> i \<and> i < row * 80 + n then f (i - row * 80) else v i)"
  by (induction n) auto

lemma put_rows_apply:
  "put_rows s n v i = (if i < n * 80 then screen_row s (i div 80) (i mod 80) else v i)"
proof (induction n)
  case (Suc n)
  have d: "i div 80 = n" "i - n * 80 = i mod 80" if "n * 80 \<le> i" "i < Suc n * 80"
  proof -
    show "i div 80 = n" using that by (simp add: div_nat_eqI)
    then show "i - n * 80 = i mod 80" using that by (simp add: minus_div_mult_eq_mod [symmetric])
  qed
  show ?case using Suc d by (auto simp: put_row_apply)
qed simp

lemma update_screen_simps [simp]:
  "line_buffer (update_screen s) = line_buffer s" "line_lengths (update_screen s) = line_lengths s"
  "absolute_write_row (update_screen s) = absolute_write_row s" "write_col (update_screen s) = write_col s"
  "view_start_row (update_screen s) = view_start_row s" "max_history_rows (update_screen s) = max_history_rows s"
  "current_color (update_screen s) = current_color s" "ansi_state (update_screen s) = ansi_state s"
  "con_flags (update_screen s) = con_flags s" "ansi_code (update_screen s) = ansi_code s"
  by (simp_all add: update_screen_def update_cursor_def Let_def)

lemma update_screen_video:
  "r < 25 \<Longrightarrow> c < 80 \<Longrightarrow> video (update_screen s) (r * 80 + c) = screen_row s r c"
  by (simp add: update_screen_def update_cursor_def Let_def put_rows_apply)

lemma holds_cong:
  "\<lbrakk>line_buffer s' = line_buffer s; line_lengths s' = line_lengths s; max_history_rows s' = max_history_rows s;
    absolute_write_row s' = absolute_write_row s; write_col s' = write_col s\<rbrakk> \<Longrightarrow> holds s' b \<longleftrightarrow> holds s b"
  by (simp add: holds_def)

text \<open>A screen row shows the row of the scrollback it is scrolled to, and nothing below the last row.\<close>

lemma screen_row_shows:
  assumes h: "holds s b" and big: "unat (absolute_write_row s) + 1 < 2 ^ 32" "unat (view_start_row s) + 25 < 2 ^ 32"
    and rc: "r < 25" "c < 80"
  defines "a \<equiv> unat (view_start_row s) + r"
  shows "sb_low b \<le> a \<Longrightarrow> a \<le> sb_row b \<Longrightarrow> screen_row s r c = sb_cells b a c"
    and "sb_row b < a \<Longrightarrow> screen_row s r c = blank_cell s"
proof -
  let ?n = "unat (max_history_rows s)" and ?x = "view_start_row s + of_nat r"
  have b: "sb_row b = unat (absolute_write_row s)" "sb_row b < sb_low b + ?n"
    using h by (simp_all add: holds_def)
  have x: "unat ?x = a"
    using big(2) rc(1) by (simp add: a_def unat_plus_u32 unat_of_nat_u32)
  have old: "unat (oldest_row s) = (if ?n \<le> sb_row b then sb_row b - ?n + 1 else 0)"
  proof (cases "?n \<le> sb_row b")
    case True
    then have "unat (absolute_write_row s - max_history_rows s) = sb_row b - ?n"
      using b(1) by (simp add: unat_minus_u32)
    then show ?thesis using True b(1) big
      by (simp add: oldest_row_def word_le_nat_alt unat_plus_u32)
  next
    case False
    then show ?thesis using b(1) by (simp add: oldest_row_def word_le_nat_alt)
  qed
  have cond: "oldest_row s \<le> ?x \<and> ?x \<le> absolute_write_row s \<longleftrightarrow>
      (if ?n \<le> sb_row b then sb_row b - ?n + 1 else 0) \<le> a \<and> a \<le> sb_row b"
    using x old b(1) by (simp add: word_le_nat_alt)
  show "screen_row s r c = sb_cells b a c" if "sb_low b \<le> a" "a \<le> sb_row b"
  proof -
    have "(if ?n \<le> sb_row b then sb_row b - ?n + 1 else 0) \<le> a" using that b(2) by auto
    then show ?thesis using that cond h rc(2) x by (simp add: screen_row_def Let_def unat_mod_row holds_def)
  qed
  show "screen_row s r c = blank_cell s" if "sb_row b < a"
    using that cond by (auto simp: screen_row_def Let_def)
qed

section \<open>Printing text\<close>

text \<open>The abstract effect of one character outside an escape sequence.\<close>

definition sb_char :: "console \<Rightarrow> u8 \<Rightarrow> scrollback \<Rightarrow> scrollback" where
  "sb_char s ch b =
     (if ch = 10 then sb_next_row (unat (max_history_rows s)) (write_col s) (blank_cell s) b
      else if ch = 8 then sb_backspace (blank_cell s) b
      else sb_put (unat (max_history_rows s)) (mk_cell ch (current_color s)) (blank_cell s) b)"

lemma auto_scroll_simps [simp]:
  "line_buffer (auto_scroll s) = line_buffer s" "line_lengths (auto_scroll s) = line_lengths s"
  "absolute_write_row (auto_scroll s) = absolute_write_row s" "write_col (auto_scroll s) = write_col s"
  "max_history_rows (auto_scroll s) = max_history_rows s" "current_color (auto_scroll s) = current_color s"
  "con_flags (auto_scroll s) = con_flags s" "ansi_state (auto_scroll s) = ansi_state s"
  "ansi_code (auto_scroll s) = ansi_code s"
  by (simp_all add: auto_scroll_def)

lemma put_char_holds:
  assumes "holds s b" "con_inv s" "unat (absolute_write_row s) < 4294967295"
    and "ch = 8 \<Longrightarrow> 0 < write_col s \<or> sb_low b < sb_row b \<or> sb_row b = 0"
  shows "holds (put_char ch s) (sb_char s ch b)"
  using put_newline_holds [OF assms(1-3)] put_backspace_holds [OF assms(1,2)] put_glyph_holds [OF assms(1-3), of ch]
    assms(4)
  by (simp add: put_char_def sb_char_def holds_cong [of "update_screen _"] holds_cong [of "auto_scroll _"])

lemma put_char_inv:
  assumes "con_inv s"
  shows "con_inv (put_char ch s)"
  using assms
  by (auto simp: con_inv_def put_char_def put_newline_def put_backspace_def put_glyph_def wipe_row_def Let_def)

lemma put_char_fields [simp]:
  "con_flags (put_char ch s) = con_flags s" "current_color (put_char ch s) = current_color s"
  "ansi_state (put_char ch s) = ansi_state s" "max_history_rows (put_char ch s) = max_history_rows s"
  by (auto simp: put_char_def put_newline_def put_backspace_def put_glyph_def wipe_row_def Let_def)

lemma put_char_video:
  "r < 25 \<Longrightarrow> c < 80 \<Longrightarrow> video (put_char ch s) (r * 80 + c) = screen_row (put_char ch s) r c"
  by (simp add: put_char_def update_screen_video)
    (simp add: screen_row_def oldest_row_def blank_cell_def Let_def)

text \<open>The row written to is not below the screen, and the view only moves to follow it.\<close>

lemma put_char_view:
  assumes "unat (absolute_write_row s) + 1 < 2 ^ 32" "unat (view_start_row s) + 25 < 2 ^ 32"
  shows "unat (absolute_write_row (put_char ch s)) < unat (view_start_row (put_char ch s)) + 25"
    and "unat (view_start_row (put_char ch s)) + 24 \<le> max (unat (view_start_row s) + 24) (Suc (unat (absolute_write_row s)))"
    and "unat (absolute_write_row (put_char ch s)) \<le> Suc (unat (absolute_write_row s))"
proof -
  define t where "t = (if ch = 10 then put_newline s else if ch = 8 then put_backspace s else put_glyph ch s)"
  have v: "view_start_row t = view_start_row s"
    by (simp add: t_def put_newline_def put_backspace_def put_glyph_def wipe_row_def Let_def)
  have a: "unat (absolute_write_row t) \<le> Suc (unat (absolute_write_row s))"
  proof -
    have "absolute_write_row t \<in> {absolute_write_row s, absolute_write_row s + 1} \<or>
        absolute_write_row t = absolute_write_row s - 1 \<and> 0 < absolute_write_row s"
      by (auto simp: t_def put_newline_def put_backspace_def put_glyph_def wipe_row_def Let_def)
    then show ?thesis using assms(1)
      by (auto simp: unat_succ unat_sub_if' word_less_nat_alt)
  qed
  have p: "put_char ch s = update_screen (auto_scroll t)" by (simp add: put_char_def t_def)
  have v25: "unat (view_start_row s + 25) = unat (view_start_row s) + 25" using assms(2) by (simp add: unat_plus_u32)
  show "unat (absolute_write_row (put_char ch s)) \<le> Suc (unat (absolute_write_row s))" using a by (simp add: p)
  show "unat (absolute_write_row (put_char ch s)) < unat (view_start_row (put_char ch s)) + 25"
    and "unat (view_start_row (put_char ch s)) + 24 \<le> max (unat (view_start_row s) + 24) (Suc (unat (absolute_write_row s)))"
  proof -
    have "unat (absolute_write_row t) < unat (view_start_row (auto_scroll t)) + 25 \<and>
      unat (view_start_row (auto_scroll t)) + 24 \<le> max (unat (view_start_row s) + 24) (Suc (unat (absolute_write_row s)))"
    proof (cases "view_start_row t + 25 \<le> absolute_write_row t")
      case True
      then have ge: "unat (view_start_row s) + 25 \<le> unat (absolute_write_row t)"
        using v v25 by (simp add: word_le_nat_alt)
      then have "unat (absolute_write_row t - 24) = unat (absolute_write_row t) - 24" by (simp add: unat_minus_u32)
      then show ?thesis using True ge a by (simp add: auto_scroll_def)
    next
      case False
      then show ?thesis using v v25 by (simp add: auto_scroll_def word_le_nat_alt)
    qed
    then show "unat (absolute_write_row (put_char ch s)) < unat (view_start_row (put_char ch s)) + 25"
      and "unat (view_start_row (put_char ch s)) + 24 \<le> max (unat (view_start_row s) + 24) (Suc (unat (absolute_write_row s)))"
      by (simp_all add: p)
  qed
qed

section \<open>Strings, numbers and formats\<close>

lemma puts_loop_arr_str:
  assumes "arr_str str xs" "i \<le> length xs"
  shows "puts_loop str i s = Some (fold print_char (drop i xs) s)"
  using assms(2)
proof (induction "length xs - i" arbitrary: i s)
  case 0
  with assms(1) show ?case by (subst puts_loop.simps) (simp add: arr_str_def)
next
  case (Suc d)
  then have "puts_loop str (Suc i) s' = Some (fold print_char (drop (Suc i) xs) s')" for s' by simp
  with Suc assms(1) show ?case
    by (subst puts_loop.simps) (simp add: arr_str_def Cons_nth_drop_Suc [symmetric])
qed

lemma puts_arr_str: "arr_str str xs \<Longrightarrow> puts str s = Some (fold print_char xs s)"
  using puts_loop_arr_str [of str xs 0 s] by (simp add: puts_def)

lemma print_int_decimal:
  assumes "- (2 ^ 31) < n" "n < 2 ^ 31"
  shows "print_int buffer n s = Some (fold print_char (decimal n) s)"
  using itoa_decimal [OF assms, of buffer] puts_arr_str by (auto simp: print_int_def)

text \<open>The significant hexadecimal digits of a number.\<close>

definition hex_text :: "u32 \<Rightarrow> u8 list" where
  "hex_text n = (case itoh n (\<lambda>_. 0) of (str, start) \<Rightarrow> drop start (map str [0..<8]))"

lemma itoh_trim_cong:
  "(\<And>k. k \<le> 7 \<Longrightarrow> str k = str' k) \<Longrightarrow> i \<le> 7 \<Longrightarrow> itoh_trim str i = itoh_trim str' i"
proof (induction "7 - i" arbitrary: i)
  case 0
  then show ?case by (simp add: itoh_trim.simps)
next
  case (Suc d)
  then have "itoh_trim str (Suc i) = itoh_trim str' (Suc i)" by simp
  with Suc show ?case by (subst (1 2) itoh_trim.simps) simp
qed

lemma print_hex_text: "print_hex buffer n s = Some (fold print_char (hex_text n) s)"
proof -
  let ?st = "(fill_with 8 (itoh_char n) buffer)(8 := 0)" and ?s0 = "(fill_with 8 (itoh_char n) (\<lambda>_. 0))(8 := 0)"
  define k where "k = itoh_trim ?st 0"
  have k0: "itoh_trim ?s0 0 = k" unfolding k_def by (rule itoh_trim_cong) simp_all
  have k: "k \<le> 7" using itoh_trim_bounds [of 0 ?st] by (simp add: k_def)
  have i0: "itoh n (\<lambda>_. 0) = (?s0, k)" and i1: "itoh n buffer = (?st, k)"
    unfolding itoh_def Let_def k0 k_def [symmetric] by (rule refl)+
  have "map ?s0 [0..<8] = map (itoh_char n) [0..<8]" by simp
  then have ht: "hex_text n = drop k (map (itoh_char n) [0..<8])" unfolding hex_text_def i0 prod.case by (rule arg_cong)
  have nz: "itoh_char n i \<noteq> 0" if "i < 8" for i using hex_digit_itoh_char(2) [OF that, of n] by auto
  have "arr_str (\<lambda>i. ?st (k + i)) (hex_text n)"
    using k nz by (auto simp: arr_str_def ht)
  then show ?thesis unfolding print_hex_def i1 prod.case by (rule puts_arr_str)
qed

text \<open>What a format stands for, with the arguments as numbers and texts.\<close>

datatype text_arg = TInt int | TStr "u8 list option"

definition arg_text :: "va_arg \<Rightarrow> text_arg \<Rightarrow> bool" where
  "arg_text v t = (case (v, t) of
     (VaInt n, TInt k) \<Rightarrow> n = k
   | (VaStr None, TStr None) \<Rightarrow> True
   | (VaStr (Some str), TStr (Some xs)) \<Rightarrow> arr_str str xs
   | _ \<Rightarrow> False)"

definition directive_text :: "u8 \<Rightarrow> text_arg list \<Rightarrow> (text_arg list \<times> u8 list) option" where
  "directive_text ch args =
     (if ch = 100 \<or> ch = 105
      then (case args of TInt n # rest \<Rightarrow> if - (2 ^ 31) < n \<and> n < 2 ^ 31 then Some (rest, decimal n) else None | _ \<Rightarrow> None)
      else if ch = 120 \<or> ch = 88 then (case args of TInt n # rest \<Rightarrow> Some (rest, hex_text (of_int n)) | _ \<Rightarrow> None)
      else if ch = 115
      then (case args of
              TStr None # rest \<Rightarrow> Some (rest, [40, 110, 117, 108, 108, 41])
            | TStr (Some xs) # rest \<Rightarrow> Some (rest, xs) | _ \<Rightarrow> None)
      else if ch = 99 then (case args of TInt n # rest \<Rightarrow> Some (rest, [of_int n]) | _ \<Rightarrow> None)
      else if ch = 37 then Some (args, [37])
      else Some (args, [37, ch]))"

fun format_text :: "u8 list \<Rightarrow> text_arg list \<Rightarrow> u8 list option" where
  "format_text [] args = Some []"
| "format_text [ch] args = Some (if ch = 37 then [] else [ch])"
| "format_text (ch # d # f) args =
     (if ch = 37
      then (case directive_text d args of
              Some (rest, out) \<Rightarrow> map_option ((@) out) (format_text f rest) | None \<Rightarrow> None)
      else map_option ((#) ch) (format_text (d # f) args))"

lemma null_text_arr_str: "arr_str null_text [40, 110, 117, 108, 108, 41]"
proof -
  let ?xs = "[40, 110, 117, 108, 108, 41] :: u8 list"
  have "0 \<notin> set ?xs" by simp
  then have "?xs ! k \<noteq> 0" if "k < length ?xs" for k using that nth_mem by metis
  then show ?thesis by (simp add: arr_str_def null_text_def)
qed

lemma vprintf_directive_text:
  assumes "list_all2 arg_text args targs" "directive_text ch targs = Some (trest, out)"
  shows "\<exists>rest. vprintf_directive buffer ch args s = Some (rest, fold print_char out s) \<and> list_all2 arg_text rest trest"
proof (cases targs)
  case Nil
  then show ?thesis using assms by (auto simp: directive_text_def vprintf_directive_def split: if_splits)
next
  case (Cons t ts)
  then obtain v vs where v: "args = v # vs" "arg_text v t" "list_all2 arg_text vs ts"
    using assms(1) by (auto simp: list_all2_Cons2)
  show ?thesis
  proof (cases t)
    case (TInt n)
    then have "v = VaInt n"
      using v(2) by (auto simp: arg_text_def split: va_arg.splits option.splits)
    then show ?thesis using assms Cons v TInt print_int_decimal [of n buffer s] print_hex_text [of buffer "of_int n" s]
      by (auto simp: directive_text_def vprintf_directive_def split: if_splits)
  next
    case (TStr ob)
    then show ?thesis
    proof (cases ob)
      case None
      then have "v = VaStr None" using v(2) TStr by (auto simp: arg_text_def split: va_arg.splits option.splits)
      then show ?thesis using assms Cons v TStr None puts_arr_str [OF null_text_arr_str, of s]
        by (auto simp: directive_text_def vprintf_directive_def split: if_splits)
    next
      case (Some xs)
      then obtain str where "v = VaStr (Some str)" "arr_str str xs"
        using v(2) TStr by (auto simp: arg_text_def split: va_arg.splits option.splits)
      then show ?thesis using assms Cons v TStr Some puts_arr_str [of str xs s]
        by (auto simp: directive_text_def vprintf_directive_def split: if_splits)
    qed
  qed
qed

lemma vprintf_text:
  assumes "arr_str fmt (pre @ f)" "list_all2 arg_text args targs" "format_text f targs = Some out"
  shows "vprintf buffer fmt (length pre) args s = Some (fold print_char out s)"
  using assms
proof (induction f targs arbitrary: pre args out s rule: format_text.induct)
  case (1 targs)
  then show ?case by (subst vprintf.simps) (simp add: arr_str_def)
next
  case (2 ch targs)
  have c: "fmt (length pre) = ch" "ch \<noteq> 0" "fmt (Suc (length pre)) = 0"
    using 2(1) by (auto simp: arr_str_def nth_append)
  show ?case using 2(3) c by (subst vprintf.simps, subst vprintf.simps) auto
next
  case (3 ch d f targs)
  have c: "fmt (length pre) = ch" "ch \<noteq> 0" "fmt (Suc (length pre)) = d" "d \<noteq> 0"
  proof -
    have "\<forall>k < length (pre @ ch # d # f). fmt k = (pre @ ch # d # f) ! k \<and> (pre @ ch # d # f) ! k \<noteq> 0"
      using 3(3) unfolding arr_str_def by (rule conjunct1)
    from spec [OF this, of "length pre"] spec [OF this, of "Suc (length pre)"]
    show "fmt (length pre) = ch" "ch \<noteq> 0" "fmt (Suc (length pre)) = d" "d \<noteq> 0" by (simp_all add: nth_append)
  qed
  show ?case
  proof (cases "ch = 37")
    case True
    with 3(5) obtain trest out1 out2 where o: "directive_text d targs = Some (trest, out1)"
      "format_text f trest = Some out2" "out = out1 @ out2" by (auto split: option.splits)
    from vprintf_directive_text [OF 3(4) o(1)] obtain rest where
      r: "vprintf_directive buffer d args s = Some (rest, fold print_char out1 s)" "list_all2 arg_text rest trest" by blast
    have "vprintf buffer fmt (length (pre @ [ch, d])) rest (fold print_char out1 s) =
        Some (fold print_char out2 (fold print_char out1 s))"
      using 3(3) by (intro 3(1) [OF True o(1) refl _ r(2) o(2)]) simp
    then show ?thesis using True c r(1) o(3) by (subst vprintf.simps) simp
  next
    case False
    with 3(5) obtain out2 where o: "format_text (d # f) targs = Some out2" "out = ch # out2" by auto
    have "vprintf buffer fmt (length (pre @ [ch])) args (print_char ch s) = Some (fold print_char out2 (print_char ch s))"
      using 3(3) by (intro 3(2) [OF False _ 3(4) o(1)]) simp
    then show ?thesis using False c o(2) by (subst vprintf.simps) simp
  qed
qed

section \<open>Escape sequences\<close>

definition ansi_digit :: "u8 \<Rightarrow> bool" where
  "ansi_digit ch \<longleftrightarrow> sint ch \<ge> 48 \<and> sint ch \<le> 57"

definition ansi_value :: "int \<Rightarrow> u8 list \<Rightarrow> int" where
  "ansi_value v ds = foldl (\<lambda>v d. s32 (s32 (v * 10) + (sint d - 48))) v ds"

lemma print_ansi_digits:
  "ansi_state s = 2 \<Longrightarrow> \<not> interrupts_on (con_flags s) \<Longrightarrow> list_all ansi_digit ds \<Longrightarrow>
     fold print_char ds s = s\<lparr>ansi_code := ansi_value (ansi_code s) ds\<rparr>"
proof (induction ds arbitrary: s)
  case (Cons d ds)
  then have "print_char d s = s\<lparr>ansi_code := s32 (s32 (ansi_code s * 10) + (sint d - 48))\<rparr>"
    by (simp add: print_char_def irq_save_def irq_restore_def ansi_digit_def Let_def)
  with Cons show ?case by (simp add: ansi_value_def)
qed (simp add: ansi_value_def)

section \<open>Properties\<close>

text \<open>
  C31: outside escape sequences \<open>print_char\<close> refines the unbounded scrollback: the ring holds the
  rows the scrollback has after the same character, the interrupt flag is restored, the row
  written to is not below the screen, and video memory shows, row by row, the scrollback from
  the first visible row on, with blank cells below the last row.
\<close>

theorem print_char_correct:
  assumes "holds s b" "con_inv s" "ansi_state s = 0" "ch \<noteq> 27"
    and "ch = 8 \<Longrightarrow> 0 < write_col s \<or> sb_low b < sb_row b \<or> sb_row b = 0"
    and "unat (absolute_write_row s) + 30 < 2 ^ 32" "unat (view_start_row s) + 30 < 2 ^ 32"
  shows "let s' = print_char ch s; b' = sb_char s ch b in
    holds s' b' \<and> con_inv s' \<and> con_flags s' = con_flags s \<and> sb_row b' < unat (view_start_row s') + 25 \<and>
    (\<forall>r < 25. \<forall>c < 80. let a = unat (view_start_row s') + r in
       (sb_low b' \<le> a \<and> a \<le> sb_row b' \<longrightarrow> video s' (r * 80 + c) = sb_cells b' a c) \<and>
       (sb_row b' < a \<longrightarrow> video s' (r * 80 + c) = blank_cell s'))"
proof -
  let ?s0 = "s\<lparr>con_flags := con_flags s AND NOT interrupt_flag\<rparr>"
  let ?t = "put_char ch ?s0" and ?b = "sb_char s ch b"
  have eq: "print_char ch s = ?t\<lparr>con_flags := con_flags s\<rparr>"
    using assms(3,4) by (simp add: print_char_def irq_save_def irq_restore_def Let_def)
  have pre: "holds ?s0 b" "con_inv ?s0" "unat (absolute_write_row ?s0) + 1 < 2 ^ 32"
    "unat (view_start_row ?s0) + 25 < 2 ^ 32"
    using assms(1,2,6,7) by (simp_all add: holds_cong [of ?s0 s] con_inv_def)
  have bc: "sb_char ?s0 ch b = ?b" by (simp add: sb_char_def blank_cell_def)
  have h: "holds ?t ?b"
    using put_char_holds [OF pre(1,2), of ch] pre(3) assms(5) by (simp add: bc)
  have row: "sb_row ?b = unat (absolute_write_row ?t)" using h by (simp add: holds_def)
  note view = put_char_view [OF pre(3,4), of ch]
  have big: "unat (absolute_write_row ?t) + 1 < 2 ^ 32" "unat (view_start_row ?t) + 25 < 2 ^ 32"
    using view(2,3) assms(6,7) by simp_all
  have shown: "(sb_low ?b \<le> a \<and> a \<le> sb_row ?b \<longrightarrow> video ?t (r * 80 + c) = sb_cells ?b a c) \<and>
      (sb_row ?b < a \<longrightarrow> video ?t (r * 80 + c) = blank_cell ?t)"
    if "r < 25" "c < 80" "a = unat (view_start_row ?t) + r" for r c a
    using screen_row_shows [OF h big that(1,2)] that by (simp add: put_char_video)
  have inv: "con_inv (print_char ch s)" using put_char_inv [OF pre(2), of ch] by (simp add: eq con_inv_def)
  have blank: "blank_cell (print_char ch s) = blank_cell ?t" by (simp add: eq blank_cell_def)
  have hold: "holds (print_char ch s) ?b" using h by (simp add: eq holds_cong [of "?t\<lparr>con_flags := con_flags s\<rparr>" ?t])
  show ?thesis
    unfolding Let_def using hold inv view(1) shown row by (simp add: eq blank_cell_def)
qed

text \<open>The console as it is at boot, cleared.\<close>

definition empty_scrollback :: "u16 \<Rightarrow> scrollback" where
  "empty_scrollback blank = \<lparr>sb_cells = (\<lambda>_ _. blank), sb_lens = (\<lambda>_. 0), sb_row = 0, sb_col = 0, sb_low = 0\<rparr>"

lemma screen_clear_fields:
  "max_history_rows (screen_clear s) = max_history_rows s" "absolute_write_row (screen_clear s) = 0"
  "write_col (screen_clear s) = 0" "view_start_row (screen_clear s) = 0" "ansi_state (screen_clear s) = ansi_state s"
  "con_flags (screen_clear s) = con_flags s" "current_color (screen_clear s) = current_color s"
  by (simp_all add: screen_clear_def irq_save_def irq_restore_def Let_def)

lemma screen_clear_holds:
  assumes "0 < max_history_rows s" "unat (max_history_rows s) * 80 < 2 ^ 32"
  shows "holds (screen_clear s) (empty_scrollback (blank_cell s))"
proof -
  have "unat (max_history_rows s * 80) = unat (max_history_rows s) * 80"
    using assms(2) by (simp add: unat_word_ariths)
  moreover have "0 < unat (max_history_rows s)" using assms(1) by (simp add: word_less_nat_alt)
  ultimately have "line_buffer (screen_clear s) c = blank_cell s" if "c < 80" for c
    using that by (simp add: screen_clear_def irq_save_def Let_def set_cells_apply blank_cell_def)
  then show ?thesis using \<open>0 < unat (max_history_rows s)\<close>
    by (simp add: holds_def screen_clear_fields empty_scrollback_def)
qed

definition boot_console :: console where
  "boot_console = screen_clear \<lparr>max_history_rows = 25, line_buffer = (\<lambda>_. 0), line_lengths = (\<lambda>_. 0),
     absolute_write_row = 0, write_col = 0, view_start_row = 0, current_color = 0x0F, ansi_state = 0,
     ansi_code = 0, video = (\<lambda>_. 0), cursor = 0, con_flags = 0x202\<rparr>"

lemma boot_console_holds: "holds boot_console (empty_scrollback 0x0F20)" "con_inv boot_console"
  "ansi_state boot_console = 0" "current_color boot_console = 0x0F" "con_flags boot_console = 0x202"
  "absolute_write_row boot_console = 0" "view_start_row boot_console = 0" "write_col boot_console = 0"
  using screen_clear_holds [of "\<lparr>max_history_rows = 25, line_buffer = (\<lambda>_. 0), line_lengths = (\<lambda>_. 0),
     absolute_write_row = 0, write_col = 0, view_start_row = 0, current_color = 0x0F, ansi_state = 0,
     ansi_code = 0, video = (\<lambda>_. 0), cursor = 0, con_flags = 0x202\<rparr>"]
  by (simp_all add: boot_console_def con_inv_def screen_clear_fields blank_cell_def mk_cell_def)

theorem print_char_correct_witness:
  "video (print_char 65 boot_console) 0 = 0x0F41 \<and> write_col (print_char 65 boot_console) = 1"
proof -
  have "let s' = print_char 65 boot_console; b' = sb_char boot_console 65 (empty_scrollback 0x0F20) in
    holds s' b' \<and> con_inv s' \<and> con_flags s' = con_flags boot_console \<and> sb_row b' < unat (view_start_row s') + 25 \<and>
    (\<forall>r < 25. \<forall>c < 80. let a = unat (view_start_row s') + r in
       (sb_low b' \<le> a \<and> a \<le> sb_row b' \<longrightarrow> video s' (r * 80 + c) = sb_cells b' a c) \<and>
       (sb_row b' < a \<longrightarrow> video s' (r * 80 + c) = blank_cell s'))"
    by (rule print_char_correct) (simp_all add: boot_console_holds)
  moreover have b: "sb_char boot_console 65 (empty_scrollback 0x0F20) =
      (sb_set 0 0 0x0F41 (empty_scrollback 0x0F20))\<lparr>sb_col := 1\<rparr>"
    by (simp add: sb_char_def sb_put_def empty_scrollback_def boot_console_holds mk_cell_def sb_set_def)
  moreover have "view_start_row (print_char 65 boot_console) = 0"
    by (simp add: print_char_def irq_save_def boot_console_holds put_char_def auto_scroll_def put_glyph_def Let_def)
  ultimately show ?thesis
    by (auto simp: Let_def holds_def sb_set_def empty_scrollback_def dest!: spec [of _ 0])
qed

text \<open>
  the escape sequence ESC [ digits m changes the colour to the one of its code and nothing on
  the screen; it leaves interrupts disabled, because the parser returns without restoring the
  flag after ESC and after the bracket.
\<close>

theorem ansi_sequence_sets_color:
  assumes "ansi_state s = 0" "list_all ansi_digit ds"
  shows "fold print_char ([27, 91] @ ds @ [109]) s =
    (apply_ansi_color (ansi_value 0 ds) s)\<lparr>ansi_state := 0, ansi_code := ansi_value 0 ds,
       con_flags := con_flags s AND NOT interrupt_flag\<rparr> \<and>
    \<not> interrupts_on (con_flags (fold print_char ([27, 91] @ ds @ [109]) s))"
proof -
  let ?e = "con_flags s AND NOT interrupt_flag"
  let ?s2 = "s\<lparr>ansi_state := 2, ansi_code := 0, con_flags := ?e\<rparr>"
  have off: "\<not> interrupts_on ?e" by (simp add: interrupts_on_def and.assoc)
  have "fold print_char [27, 91] s = ?s2"
    using assms(1) by (simp add: print_char_def irq_save_def Let_def and.assoc)
  moreover have "fold print_char ds ?s2 = ?s2\<lparr>ansi_code := ansi_value 0 ds\<rparr>"
    using print_ansi_digits [of ?s2 ds] assms(2) off by simp
  moreover have "print_char 109 (?s2\<lparr>ansi_code := ansi_value 0 ds\<rparr>) =
      (apply_ansi_color (ansi_value 0 ds) s)\<lparr>ansi_state := 0, ansi_code := ansi_value 0 ds, con_flags := ?e\<rparr>"
    by (auto simp: print_char_def irq_save_def irq_restore_def apply_ansi_color_def Let_def and.assoc split: option.splits)
  ultimately have "fold print_char ([27, 91] @ ds @ [109]) s =
    (apply_ansi_color (ansi_value 0 ds) s)\<lparr>ansi_state := 0, ansi_code := ansi_value 0 ds, con_flags := ?e\<rparr>" by simp
  then show ?thesis using off by simp
qed

theorem ansi_sequence_sets_color_witness:
  "current_color (fold print_char [27, 91, 51, 49, 109] boot_console) = 0x04 \<and>
   interrupts_on (con_flags boot_console) \<and>
   \<not> interrupts_on (con_flags (fold print_char [27, 91, 51, 49, 109] boot_console))"
proof -
  have v: "ansi_value 0 [51, 49] = 31" by (simp add: ansi_value_def s32_id)
  have "list_all ansi_digit [51, 49]" by (simp add: ansi_digit_def)
  from ansi_sequence_sets_color [OF boot_console_holds(3) this] v show ?thesis
    by (simp add: apply_ansi_color_def boot_console_holds interrupts_on_def interrupt_flag_def)
qed



lemma scroll_view:
  assumes "unat (view_start_row s) + n < 2 ^ 32" "n < 2 ^ 31" "0 < max_history_rows s"
  shows "unat (view_start_row (scroll_history_up (int n) s)) =
      max (unat (view_start_row s) - n) (unat (oldest_row s))"
    and "unat (view_start_row (scroll_history_down (int n) s)) =
      min (unat (view_start_row s) + n) (unat (absolute_write_row s) - 24)"
proof -
  have n: "unat (of_int (int n) :: u32) = n" using assms(2) by (simp add: unat_of_nat_u32)
  have old: "oldest_row (s\<lparr>con_flags := e, view_start_row := v\<rparr>) = oldest_row s" for e v by (simp add: oldest_row_def)
  show "unat (view_start_row (scroll_history_up (int n) s)) =
      max (unat (view_start_row s) - n) (unat (oldest_row s))"
    using n by (auto simp: scroll_history_up_def irq_save_def Let_def old word_le_nat_alt word_less_nat_alt
        unat_minus_u32 max_def)
  have "unat (absolute_write_row s - 24) = unat (absolute_write_row s) - 24" if "24 \<le> absolute_write_row s"
    using that by (simp add: unat_minus_u32 word_le_nat_alt)
  moreover have "unat (view_start_row s + of_int (int n)) = unat (view_start_row s) + n"
    using n assms(1) by (simp add: unat_plus_u32)
  ultimately show "unat (view_start_row (scroll_history_down (int n) s)) =
      min (unat (view_start_row s) + n) (unat (absolute_write_row s) - 24)"
    by (auto simp: scroll_history_down_def irq_save_def Let_def word_le_nat_alt word_less_nat_alt min_def)
qed

lemma scroll_text:
  "line_buffer (scroll_history_up n s) = line_buffer s" "line_buffer (scroll_history_down n s) = line_buffer s"
  "con_flags (scroll_history_up n s) = con_flags s" "con_flags (scroll_history_down n s) = con_flags s"
  by (simp_all add: scroll_history_up_def scroll_history_down_def irq_save_def irq_restore_def Let_def)

lemma scroll_video:
  "r < 25 \<Longrightarrow> c < 80 \<Longrightarrow> video (scroll_history_up n s) (r * 80 + c) = screen_row (scroll_history_up n s) r c"
  "r < 25 \<Longrightarrow> c < 80 \<Longrightarrow> video (scroll_history_down n s) (r * 80 + c) = screen_row (scroll_history_down n s) r c"
  by (simp_all add: scroll_history_up_def scroll_history_down_def irq_save_def Let_def update_screen_video)
    (simp_all add: screen_row_def oldest_row_def blank_cell_def Let_def)

text \<open>
  scrolling never touches the text and keeps the view in range: scrolling up stops at the
  oldest row the ring has, scrolling down at the row that puts the last line at the bottom of
  the screen, and the screen is redrawn from the new view.
\<close>

theorem scroll_history_in_range:
  assumes "unat (view_start_row s) + n < 2 ^ 32" "n < 2 ^ 31" "0 < max_history_rows s"
  shows "let u = scroll_history_up (int n) s; d = scroll_history_down (int n) s in
    unat (view_start_row u) = max (unat (view_start_row s) - n) (unat (oldest_row s)) \<and>
    unat (view_start_row d) = min (unat (view_start_row s) + n) (unat (absolute_write_row s) - 24) \<and>
    line_buffer u = line_buffer s \<and> line_buffer d = line_buffer s \<and>
    con_flags u = con_flags s \<and> con_flags d = con_flags s \<and>
    (\<forall>r < 25. \<forall>c < 80. video u (r * 80 + c) = screen_row u r c \<and> video d (r * 80 + c) = screen_row d r c)"
  using scroll_view [OF assms] by (simp add: scroll_text scroll_video Let_def)

theorem scroll_history_in_range_witness:
  "view_start_row (scroll_history_down 5 boot_console) = 0"
proof -
  have "0 < max_history_rows boot_console" using boot_console_holds(2) by (auto simp: con_inv_def word_le_nat_alt word_less_nat_alt)
  from scroll_history_in_range [of boot_console 5, OF _ _ this] show ?thesis
    by (simp add: boot_console_holds Let_def unat_eq_zero)
qed

end
