(* ===== verification/Keyboard.thy ===== *)
theory Keyboard
  imports Console
begin

text \<open>
  The keyboard driver, src/src/drivers/keyboard/keyboard.c: the interrupt handler turns scan codes
  into characters and appends them to a ring of 128 bytes, from which \<open>kbd_getchar\<close> takes them.
  The byte the handler reads from port 0x60 is an argument; Page Up and Page Down scroll the
  console, so the handler acts on the keyboard and the console together.

  The ring is shown to be a bounded queue of at most 127 characters.
\<close>

unbundle bit_operations_syntax

section \<open>State and operations\<close>

record keyboard =
  shift_pressed :: bool
  ctrl_pressed :: bool
  kbd_fifo :: "nat \<Rightarrow> u8"
  kbd_head :: nat
  kbd_tail :: nat

text \<open>The tables have 58 initialised entries; the rest of the 128 are zero.\<close>

definition scancode_map_normal :: "nat \<Rightarrow> u8" where
  "scancode_map_normal i = (let t =
     [0, 27, 49, 50, 51, 52, 53, 54, 55, 56, 57, 48, 45, 61, 8,
      9, 113, 119, 101, 114, 116, 121, 117, 105, 111, 112, 91, 93, 10,
      0, 97, 115, 100, 102, 103, 104, 106, 107, 108, 59, 39, 96, 0, 92,
      122, 120, 99, 118, 98, 110, 109, 44, 46, 47, 0, 42, 0, 32]
     in if i < length t then t ! i else 0)"

definition scancode_map_shifted :: "nat \<Rightarrow> u8" where
  "scancode_map_shifted i = (let t =
     [0, 27, 33, 64, 35, 36, 37, 94, 38, 42, 40, 41, 95, 43, 8,
      9, 81, 87, 69, 82, 84, 89, 85, 73, 79, 80, 123, 125, 10,
      0, 65, 83, 68, 70, 71, 72, 74, 75, 76, 58, 34, 126, 0, 124,
      90, 88, 67, 86, 66, 78, 77, 60, 62, 63, 0, 42, 0, 32]
     in if i < length t then t ! i else 0)"

definition kbd_getchar :: "keyboard \<Rightarrow> u8 \<times> keyboard" where
  "kbd_getchar k =
     (if kbd_head k = kbd_tail k then (0, k)
      else (kbd_fifo k (kbd_tail k), k\<lparr>kbd_tail := (kbd_tail k + 1) mod 128\<rparr>))"

definition keyboard_pop_char :: "keyboard \<Rightarrow> u8 \<times> keyboard" where
  "keyboard_pop_char k =
     (if kbd_head k = kbd_tail k then (0, k)
      else (kbd_fifo k (kbd_tail k), k\<lparr>kbd_tail := (kbd_tail k + 1) mod 128\<rparr>))"

definition kbd_push :: "u8 \<Rightarrow> keyboard \<Rightarrow> keyboard" where
  "kbd_push c k =
     (let next = (kbd_head k + 1) mod 128
      in if next \<noteq> kbd_tail k then k\<lparr>kbd_fifo := (kbd_fifo k)(kbd_head k := c), kbd_head := next\<rparr> else k)"

definition scancode_char :: "u8 \<Rightarrow> keyboard \<Rightarrow> u8" where
  "scancode_char scancode k =
     (if scancode = 0x1C then 10
      else if scancode = 0x0E then 8
      else if ctrl_pressed k \<and> scancode = 0x2E then 3
      else if scancode = 72 then 0x11
      else if scancode = 80 then 0x12
      else if scancode < 128
      then (if shift_pressed k then scancode_map_shifted (unat scancode) else scancode_map_normal (unat scancode))
      else 0)"

definition keyboard_handler :: "u8 \<Rightarrow> keyboard \<times> console \<Rightarrow> keyboard \<times> console" where
  "keyboard_handler scancode = (\<lambda>(k, s).
     if scancode AND 0x80 \<noteq> 0
     then let key_released = scancode AND 0x7F
          in if key_released = 0x2A \<or> key_released = 0x36 then (k\<lparr>shift_pressed := False\<rparr>, s)
             else if key_released = 0x1D then (k\<lparr>ctrl_pressed := False\<rparr>, s)
             else (k, s)
     else if scancode = 0x2A \<or> scancode = 0x36 then (k\<lparr>shift_pressed := True\<rparr>, s)
     else if scancode = 0x1D then (k\<lparr>ctrl_pressed := True\<rparr>, s)
     else if scancode = 0x49 then (k, scroll_history_up 5 s)
     else if scancode = 0x51 then (k, scroll_history_down 5 s)
     else let c = scancode_char scancode k
          in if c \<noteq> 0 then (kbd_push c k, s) else (k, s))"

section \<open>The ring as a bounded queue\<close>

definition kbd_ok :: "keyboard \<Rightarrow> bool" where
  "kbd_ok k \<longleftrightarrow> kbd_head k < 128 \<and> kbd_tail k < 128"

definition kbd_length :: "keyboard \<Rightarrow> nat" where
  "kbd_length k = (kbd_head k + 128 - kbd_tail k) mod 128"

definition kbd_contents :: "keyboard \<Rightarrow> u8 list" where
  "kbd_contents k = map (\<lambda>i. kbd_fifo k ((kbd_tail k + i) mod 128)) [0..<kbd_length k]"

text \<open>Taking \<open>n\<close> elements one after the other.\<close>

fun pops :: "('s \<Rightarrow> 'a \<times> 's) \<Rightarrow> nat \<Rightarrow> 's \<Rightarrow> 'a list \<times> 's" where
  "pops pop 0 s = ([], s)"
| "pops pop (Suc n) s = (let (x, s') = pop s; (xs, s'') = pops pop n s' in (x # xs, s''))"

locale bounded_fifo =
  fixes ok :: "'s \<Rightarrow> bool"
    and contents :: "'s \<Rightarrow> 'a list"
    and capacity :: nat
    and push :: "'a \<Rightarrow> 's \<Rightarrow> 's"
    and pop :: "'s \<Rightarrow> 'a \<times> 's"
  assumes bound: "ok s \<Longrightarrow> length (contents s) \<le> capacity"
    and push_ok: "ok s \<Longrightarrow> ok (push x s)"
    and push_contents: "ok s \<Longrightarrow>
      contents (push x s) = (if length (contents s) < capacity then contents s @ [x] else contents s)"
    and pop_ok: "ok s \<Longrightarrow> ok (snd (pop s))"
    and pop_contents: "ok s \<Longrightarrow> contents s \<noteq> [] \<Longrightarrow>
      fst (pop s) = hd (contents s) \<and> contents (snd (pop s)) = tl (contents s)"
begin

lemma push_all:
  "ok s \<Longrightarrow> ok (fold push xs s) \<and>
     contents (fold push xs s) = contents s @ take (capacity - length (contents s)) xs"
proof (induction xs arbitrary: s)
  case (Cons x xs)
  have "length (contents s) \<le> capacity" using bound Cons.prems by simp
  then show ?case using Cons.IH [OF push_ok [OF Cons.prems], of x] Cons.prems
    by (auto simp: push_contents take_Cons' Suc_diff_le)
qed simp

lemma pop_all:
  "ok s \<Longrightarrow> n \<le> length (contents s) \<Longrightarrow>
     fst (pops pop n s) = take n (contents s) \<and> ok (snd (pops pop n s)) \<and> contents (snd (pops pop n s)) = drop n (contents s)"
proof (induction n arbitrary: s)
  case (Suc n)
  then have ne: "contents s \<noteq> []" by auto
  note p = pop_contents [OF Suc.prems(1) ne] pop_ok [OF Suc.prems(1)]
  have "n \<le> length (contents (snd (pop s)))" using p Suc.prems(2) by simp
  note IH = Suc.IH [OF p(2) this]
  show ?case using IH p ne by (auto simp: case_prod_beta Let_def take_Suc drop_Suc)
qed simp

text \<open>Pushing a run of elements that fits and popping as many gives them back in order.\<close>

lemma push_pop_all:
  assumes "ok s" "contents s = []" "length xs \<le> capacity"
  shows "fst (pops pop (length xs) (fold push xs s)) = xs \<and> contents (snd (pops pop (length xs) (fold push xs s))) = []"
  using push_all [OF assms(1), of xs] pop_all [of "fold push xs s" "length xs"] assms(2,3) by simp

end

lemma kbd_length_cases:
  assumes "kbd_ok k"
  shows "kbd_length k = (if kbd_tail k \<le> kbd_head k then kbd_head k - kbd_tail k else kbd_head k + 128 - kbd_tail k)"
proof (cases "kbd_tail k \<le> kbd_head k")
  case True
  have "(kbd_head k + 128 - kbd_tail k) mod 128 = (kbd_head k - kbd_tail k + 128) mod 128" using True by simp
  also have "\<dots> = kbd_head k - kbd_tail k" using assms by (simp add: kbd_ok_def less_imp_diff_less)
  finally show ?thesis using True by (simp add: kbd_length_def)
next
  case False
  then show ?thesis using assms by (simp add: kbd_length_def kbd_ok_def)
qed

lemma kbd_length_lt [simp]: "kbd_length k < 128"
  by (simp add: kbd_length_def)

lemma kbd_empty_iff: "kbd_ok k \<Longrightarrow> kbd_head k = kbd_tail k \<longleftrightarrow> kbd_contents k = []"
  by (auto simp: kbd_contents_def kbd_length_cases kbd_ok_def)

lemma mod_128_Suc: "i < 128 \<Longrightarrow> Suc i mod 128 = (if i = 127 then 0 else Suc i)"
  by auto

lemma kbd_push_contents:
  assumes "kbd_ok k"
  shows "kbd_ok (kbd_push c k)"
    and "kbd_contents (kbd_push c k) = (if kbd_length k < 127 then kbd_contents k @ [c] else kbd_contents k)"
proof -
  let ?h = "kbd_head k" and ?t = "kbd_tail k" and ?n = "kbd_length k"
  have b: "?h < 128" "?t < 128" using assms by (simp_all add: kbd_ok_def)
  show ok: "kbd_ok (kbd_push c k)" using assms by (simp add: kbd_push_def kbd_ok_def Let_def)
  have full: "(?h + 1) mod 128 \<noteq> ?t \<longleftrightarrow> ?n < 127"
    using b by (auto simp: kbd_length_cases [OF assms] mod_128_Suc)
  show "kbd_contents (kbd_push c k) = (if ?n < 127 then kbd_contents k @ [c] else kbd_contents k)"
  proof (cases "?n < 127")
    case True
    then have p: "kbd_push c k = k\<lparr>kbd_fifo := (kbd_fifo k)(?h := c), kbd_head := (?h + 1) mod 128\<rparr>"
      using full by (simp add: kbd_push_def)
    have n: "kbd_length (kbd_push c k) = Suc ?n"
      using b True kbd_length_cases [OF assms] kbd_length_cases [OF ok] by (auto simp: p mod_128_Suc split: if_splits)
    have last: "(?t + ?n) mod 128 = ?h" using b by (auto simp: kbd_length_cases [OF assms])
    have other: "(?t + i) mod 128 \<noteq> ?h" if "i < ?n" for i
    proof
      assume "(?t + i) mod 128 = ?h"
      then have "(?t + i) mod 128 = (?t + ?n) mod 128" using last by simp
      then have "?t + i = ?t + ?n" using slot_inj [of "?t + i" "?t + ?n" 128] that True by simp
      then show False using that by simp
    qed
    have "kbd_contents (kbd_push c k) = map (\<lambda>i. kbd_fifo (kbd_push c k) ((?t + i) mod 128)) [0..<Suc ?n]"
      unfolding kbd_contents_def n by (simp add: p)
    also have "\<dots> = kbd_contents k @ [c]" using last other by (simp add: p kbd_contents_def)
    finally show ?thesis using True by simp
  next
    case False
    then show ?thesis using full by (simp add: kbd_push_def)
  qed
qed

lemma kbd_getchar_contents:
  assumes "kbd_ok k" "kbd_contents k \<noteq> []"
  shows "fst (kbd_getchar k) = hd (kbd_contents k)" and "kbd_contents (snd (kbd_getchar k)) = tl (kbd_contents k)"
proof -
  let ?h = "kbd_head k" and ?t = "kbd_tail k"
  have b: "?h < 128" "?t < 128" "?h \<noteq> ?t" using assms kbd_empty_iff [OF assms(1)] by (auto simp: kbd_ok_def)
  have ok: "kbd_ok (k\<lparr>kbd_tail := (?t + 1) mod 128\<rparr>)" using b by (simp add: kbd_ok_def)
  have g: "kbd_getchar k = (kbd_fifo k ?t, k\<lparr>kbd_tail := (?t + 1) mod 128\<rparr>)" using b by (simp add: kbd_getchar_def)
  have n: "kbd_length k = Suc (kbd_length (k\<lparr>kbd_tail := (?t + 1) mod 128\<rparr>))"
    using b kbd_length_cases [OF assms(1)] kbd_length_cases [OF ok] by (auto simp: mod_128_Suc split: if_splits)
  have c: "kbd_contents k = kbd_fifo k ?t # kbd_contents (k\<lparr>kbd_tail := (?t + 1) mod 128\<rparr>)"
  proof -
    let ?m = "kbd_length (k\<lparr>kbd_tail := (?t + 1) mod 128\<rparr>)"
    have "kbd_contents k = map (\<lambda>i. kbd_fifo k ((?t + i) mod 128)) [0..<Suc ?m]"
      unfolding kbd_contents_def n ..
    also have "[0..<Suc ?m] = 0 # map Suc [0..<?m]" by (simp add: upt_conv_Cons map_Suc_upt del: upt_Suc)
    finally show ?thesis using b(2) by (simp add: kbd_contents_def mod_add_left_eq)
  qed
  show "fst (kbd_getchar k) = hd (kbd_contents k)" and "kbd_contents (snd (kbd_getchar k)) = tl (kbd_contents k)"
    unfolding c by (simp_all add: g)
qed

lemma kbd_getchar_ok: "kbd_ok k \<Longrightarrow> kbd_ok (snd (kbd_getchar k))"
  by (simp add: kbd_getchar_def kbd_ok_def)

interpretation kbd: bounded_fifo kbd_ok kbd_contents 127 kbd_push kbd_getchar
proof
  fix k :: keyboard and c :: u8
  assume ok: "kbd_ok k"
  show "length (kbd_contents k) \<le> 127" using kbd_length_lt [of k] by (simp add: kbd_contents_def del: kbd_length_lt)
  show "kbd_ok (kbd_push c k)" by (rule kbd_push_contents(1) [OF ok])
  show "kbd_contents (kbd_push c k) = (if length (kbd_contents k) < 127 then kbd_contents k @ [c] else kbd_contents k)"
    using kbd_push_contents(2) [OF ok] by (simp add: kbd_contents_def)
  show "kbd_ok (snd (kbd_getchar k))" by (rule kbd_getchar_ok [OF ok])
  show "fst (kbd_getchar k) = hd (kbd_contents k) \<and> kbd_contents (snd (kbd_getchar k)) = tl (kbd_contents k)"
    if "kbd_contents k \<noteq> []" using kbd_getchar_contents [OF ok that] by simp
qed

section \<open>Properties\<close>

text \<open>
  Characters come out of the keyboard buffer in the order they went in: from an empty buffer,
  any run of at most 127 characters is read back unchanged, and the buffer is empty again.
\<close>

theorem keyboard_fifo_order:
  assumes "kbd_ok k" "kbd_contents k = []" "length cs \<le> 127"
  shows "fst (pops kbd_getchar (length cs) (fold kbd_push cs k)) = cs \<and>
    kbd_contents (snd (pops kbd_getchar (length cs) (fold kbd_push cs k))) = []"
  by (rule kbd.push_pop_all [OF assms])

definition idle_keyboard :: keyboard where
  "idle_keyboard = \<lparr>shift_pressed = True, ctrl_pressed = False, kbd_fifo = (\<lambda>_. 0), kbd_head = 126, kbd_tail = 126\<rparr>"

lemma idle_keyboard_ok: "kbd_ok idle_keyboard" "kbd_contents idle_keyboard = []"
  by (simp_all add: idle_keyboard_def kbd_ok_def kbd_contents_def kbd_length_def)

theorem keyboard_fifo_order_witness:
  "fst (pops kbd_getchar (length [97, 98, 99, 100 :: u8]) (fold kbd_push [97, 98, 99, 100] idle_keyboard)) = [97, 98, 99, 100]"
  by (rule keyboard_fifo_order [THEN conjunct1]) (simp_all add: idle_keyboard_ok)

text \<open>
  One keyboard interrupt keeps the buffer well formed and appends at most one character, never
  a zero byte and nothing when 127 characters are waiting; only Page Up and Page Down change the
  console, and then not its text; only the modifier keys change the modifier state.
\<close>

theorem keyboard_handler_effect:
  assumes "kbd_ok k"
  shows "case keyboard_handler sc (k, s) of (k', s') \<Rightarrow>
    kbd_ok k' \<and> line_buffer s' = line_buffer s \<and> (sc \<noteq> 0x49 \<and> sc \<noteq> 0x51 \<longrightarrow> s' = s) \<and>
    (kbd_contents k' = kbd_contents k \<or>
     (\<exists>c. c \<noteq> 0 \<and> length (kbd_contents k) < 127 \<and> kbd_contents k' = kbd_contents k @ [c])) \<and>
    (sc AND 0x7F \<notin> {0x2A, 0x36} \<longrightarrow> shift_pressed k' = shift_pressed k) \<and>
    (sc AND 0x7F \<noteq> 0x1D \<longrightarrow> ctrl_pressed k' = ctrl_pressed k)"
proof -
  have mods: "kbd_contents (k\<lparr>shift_pressed := x\<rparr>) = kbd_contents k" "kbd_contents (k\<lparr>ctrl_pressed := x\<rparr>) = kbd_contents k"
    "kbd_ok (k\<lparr>shift_pressed := x\<rparr>)" "kbd_ok (k\<lparr>ctrl_pressed := x\<rparr>)" for x
    using assms by (simp_all add: kbd_contents_def kbd_length_def kbd_ok_def)
  have keep: "shift_pressed (kbd_push c k) = shift_pressed k" "ctrl_pressed (kbd_push c k) = ctrl_pressed k" for c
    by (simp_all add: kbd_push_def Let_def)
  show ?thesis
    using assms kbd.push_contents [OF assms] kbd.push_ok [OF assms]
    by (auto simp: keyboard_handler_def Let_def mods keep scroll_text)
qed

theorem keyboard_handler_effect_witness:
  "kbd_ok (fst (keyboard_handler 0x1E (idle_keyboard, boot_console))) \<and>
   kbd_fifo (fst (keyboard_handler 0x1E (idle_keyboard, boot_console))) 126 = 65"
proof -
  have "kbd_ok (fst (keyboard_handler 0x1E (idle_keyboard, boot_console)))"
    using keyboard_handler_effect [OF idle_keyboard_ok(1), where sc = "0x1E" and s = boot_console] by (simp add: case_prod_beta)
  then show ?thesis
    by (simp add: idle_keyboard_def keyboard_handler_def scancode_char_def scancode_map_shifted_def kbd_push_def Let_def)
qed

end
