(* ===== verification/Bytes.thy ===== *)
theory Bytes
  imports Prelude
begin

text \<open>
  Little-endian integers inside byte buffers: what \<open>*(uint16_t*)&buffer[i]\<close> and
  \<open>*(uint32_t*)&buffer[i]\<close> read and write on i386, and 32-byte records at multiples of 32.
\<close>

unbundle bit_operations_syntax

definition get16 :: "u8 list \<Rightarrow> nat \<Rightarrow> u16" where
  "get16 b i = ucast (b ! i) OR push_bit 8 (ucast (b ! Suc i))"

definition put16 :: "u8 list \<Rightarrow> nat \<Rightarrow> u16 \<Rightarrow> u8 list" where
  "put16 b i v = b[i := ucast v, Suc i := ucast (drop_bit 8 v)]"

definition get32 :: "u8 list \<Rightarrow> nat \<Rightarrow> u32" where
  "get32 b i = ucast (get16 b i) OR push_bit 16 (ucast (get16 b (i + 2)))"

definition put32 :: "u8 list \<Rightarrow> nat \<Rightarrow> u32 \<Rightarrow> u8 list" where
  "put32 b i v = put16 (put16 b i (ucast v)) (i + 2) (ucast (drop_bit 16 v))"

lemma put_length [simp]: "length (put16 b i v) = length b" "length (put32 b i w) = length b"
  by (simp_all add: put16_def put32_def)

lemma halves16: "ucast (ucast v :: u8) OR push_bit 8 (ucast (ucast (drop_bit 8 v) :: u8)) = (v :: u16)"
  by (rule bit_word_eqI) (auto simp: bit_simps)

lemma halves8 [simp]:
  "ucast (ucast (lo :: u8) OR push_bit 8 (ucast (hi :: u8)) :: u16) = lo"
  "ucast (drop_bit 8 (ucast (lo :: u8) OR push_bit 8 (ucast (hi :: u8)) :: u16)) = hi"
  "ucast (drop_bit 8 (ucast (lo :: u8)) OR drop_bit 8 (push_bit 8 (ucast (hi :: u8))) :: u16) = hi"
  by (rule bit_word_eqI, auto simp: bit_simps dest: bit_imp_le_length)+

lemma halves32: "ucast (ucast v :: u16) OR push_bit 16 (ucast (ucast (drop_bit 16 v) :: u16)) = (v :: u32)"
  by (rule bit_word_eqI) (auto simp: bit_simps)

lemma get16_put16 [simp]: "Suc i < length b \<Longrightarrow> get16 (put16 b i v) i = v"
  by (simp add: get16_def put16_def halves16)

lemma get16_put16_other: "Suc j < i \<or> Suc i < j \<Longrightarrow> get16 (put16 b i v) j = get16 b j"
  by (auto simp: get16_def put16_def)

lemma put16_get16: "put16 b i (get16 b i) = b"
  by (simp add: get16_def put16_def)

lemma get32_put32 [simp]: "i + 3 < length b \<Longrightarrow> get32 (put32 b i v) i = v"
  by (simp add: get32_def put32_def get16_put16_other halves32)


text \<open>Reading a buffer out word by word and storing the words gives the buffer back.\<close>

lemma put16_copy:
  assumes "length b = 2 * n" "length c = 2 * n" "k \<le> n"
  shows "fold (\<lambda>i d. put16 d (2 * i) (get16 b (2 * i))) [0..<k] c = take (2 * k) b @ drop (2 * k) c"
  using assms(3)
proof (induction k)
  case (Suc k)
  then have "k < n" by simp
  then have "take (2 * Suc k) b = take (2 * k) b @ [b ! (2 * k), b ! Suc (2 * k)]"
    using assms(1) by (simp add: take_Suc_conv_app_nth)
  moreover have "drop (2 * k) c = c ! (2 * k) # c ! Suc (2 * k) # drop (2 * Suc k) c"
    using \<open>k < n\<close> assms(2) by (simp add: Cons_nth_drop_Suc)
  ultimately show ?case
    using Suc assms \<open>k < n\<close> by (simp add: put16_def get16_def list_update_append)
qed simp

section \<open>Records of 32 bytes\<close>

definition slot_of :: "u8 list \<Rightarrow> nat \<Rightarrow> u8 list" where
  "slot_of b i = take 32 (drop (32 * i) b)"

definition put_slot :: "u8 list \<Rightarrow> nat \<Rightarrow> u8 list \<Rightarrow> u8 list" where
  "put_slot b i e = take (32 * i) b @ e @ drop (32 * i + 32) b"

lemma put_slot_length: "i < 16 \<Longrightarrow> length b = 512 \<Longrightarrow> length e = 32 \<Longrightarrow> length (put_slot b i e) = 512"
  by (simp add: put_slot_def)

lemma slot_of_length: "i < 16 \<Longrightarrow> length b = 512 \<Longrightarrow> length (slot_of b i) = 32"
  by (simp add: slot_of_def)

lemma slot_of_put_slot:
  assumes "i < 16" "j < 16" "length b = 512" "length e = 32"
  shows "slot_of (put_slot b i e) j = (if j = i then e else slot_of b j)"
proof (rule nth_equalityI)
  have l: "length (put_slot b i e) = 512" using assms put_slot_length by blast
  show "length (slot_of (put_slot b i e) j) = length (if j = i then e else slot_of b j)"
    using assms slot_of_length [OF assms(2) l] slot_of_length [OF assms(2,3)] by simp
  fix k
  assume "k < length (slot_of (put_slot b i e) j)"
  then have k: "k < 32" using slot_of_length [OF assms(2) l] by simp
  have "put_slot b i e ! (32 * j + k) = (if j = i then e ! k else b ! (32 * j + k))"
  proof (cases "j = i")
    case False
    show ?thesis
    proof (cases "j < i")
      case True
      then have "32 * j + k < 32 * i" using k by simp
      then show ?thesis using assms False by (simp add: put_slot_def nth_append)
    next
      case False
      with \<open>j \<noteq> i\<close> have "32 * i + 32 \<le> 32 * j + k" by simp
      then have "\<not> 32 * j + k < 32 * i" "\<not> 32 * j + k - 32 * i < 32" by linarith+
      then show ?thesis using assms \<open>j \<noteq> i\<close> by (simp add: put_slot_def nth_append)
    qed
  qed (use assms k in \<open>simp add: put_slot_def nth_append\<close>)
  then show "slot_of (put_slot b i e) j ! k = (if j = i then e else slot_of b j) ! k"
    using assms k by (simp add: slot_of_def put_slot_length)
qed

lemma put_slot_same: "i < 16 \<Longrightarrow> length b = 512 \<Longrightarrow> put_slot b i (slot_of b i) = b"
  unfolding put_slot_def slot_of_def by (metis append_assoc append_take_drop_id take_add)

end
