(* ===== verification/Ata.thy ===== *)
theory Ata
  imports Bytes Console
begin

text \<open>
  The polled ATA driver, src/src/drivers/ata/ata.c.  The drive is what its ports do: the task file
  registers, the status register and the data port of the primary bus.  A disk is its sectors and
  the answers it gives: \<open>answers d p n\<close> is the status byte the \<open>n\<close>-th poll reads in phase \<open>p\<close> of a
  command, so a busy, slow, failing or absent drive is a choice of answers.  Every register is
  written before it is used, so a command starts from cleared ones.

  The driver is shown to succeed exactly when the first decisive answer of each phase is the one it
  waits for, and then to transfer the sector its 28-bit address selects.
\<close>

unbundle bit_operations_syntax

section \<open>The drive\<close>

datatype ata_phase = Idle | Reading u32 | Writing u32 | Written u32 | Flushing

record ata_disk =
  sectors :: "u32 \<Rightarrow> u8 list"
  answers :: "ata_phase \<Rightarrow> nat \<Rightarrow> u8"

record ata_regs =
  disk :: ata_disk
  reg_drive :: u8
  reg_count :: u8
  reg_lo :: u8
  reg_mid :: u8
  reg_hi :: u8
  phase :: ata_phase
  polls :: nat
  data_pos :: nat

definition start_regs :: "ata_disk \<Rightarrow> ata_regs" where
  "start_regs d = \<lparr>disk = d, reg_drive = 0, reg_count = 0, reg_lo = 0, reg_mid = 0, reg_hi = 0,
     phase = Idle, polls = 0, data_pos = 0\<rparr>"

definition selected_lba :: "ata_regs \<Rightarrow> u32" where
  "selected_lba a = push_bit 24 (ucast (reg_drive a AND 0x0F)) OR push_bit 16 (ucast (reg_hi a)) OR
     push_bit 8 (ucast (reg_mid a)) OR ucast (reg_lo a)"

definition enter_phase :: "ata_phase \<Rightarrow> ata_regs \<Rightarrow> ata_regs" where
  "enter_phase p a = a\<lparr>phase := p, polls := 0, data_pos := 0\<rparr>"

definition inportb :: "u16 \<Rightarrow> ata_regs \<Rightarrow> u8 \<times> ata_regs" where
  "inportb port a =
     (if port = 0x1F7 then (answers (disk a) (phase a) (polls a), a\<lparr>polls := Suc (polls a)\<rparr>) else (0xFF, a))"

definition outportb :: "u16 \<Rightarrow> u8 \<Rightarrow> ata_regs \<Rightarrow> ata_regs" where
  "outportb port v a =
     (if port = 0x1F6 then a\<lparr>reg_drive := v\<rparr>
      else if port = 0x1F2 then a\<lparr>reg_count := v\<rparr>
      else if port = 0x1F3 then a\<lparr>reg_lo := v\<rparr>
      else if port = 0x1F4 then a\<lparr>reg_mid := v\<rparr>
      else if port = 0x1F5 then a\<lparr>reg_hi := v\<rparr>
      else if port = 0x1F7 \<and> v = 0x20 then enter_phase (Reading (selected_lba a)) a
      else if port = 0x1F7 \<and> v = 0x30 then enter_phase (Writing (selected_lba a)) a
      else if port = 0x1F7 \<and> v = 0xE7 then enter_phase Flushing a
      else a)"

definition inportw :: "u16 \<Rightarrow> ata_regs \<Rightarrow> u16 \<times> ata_regs" where
  "inportw port a =
     (case phase a of
        Reading lba \<Rightarrow>
          if port = 0x1F0 then (get16 (sectors (disk a) lba) (2 * data_pos a), a\<lparr>data_pos := Suc (data_pos a)\<rparr>)
          else (0xFFFF, a)
      | _ \<Rightarrow> (0xFFFF, a))"

text \<open>The drive leaves the data phase of a write when it has the 256 words of the sector.\<close>

definition outportw :: "u16 \<Rightarrow> u16 \<Rightarrow> ata_regs \<Rightarrow> ata_regs" where
  "outportw port v a =
     (case phase a of
        Writing lba \<Rightarrow>
          if port = 0x1F0
          then let d = disk a;
                   a1 = a\<lparr>disk := d\<lparr>sectors := (sectors d)(lba := put16 (sectors d lba) (2 * data_pos a) v)\<rparr>,
                          data_pos := Suc (data_pos a)\<rparr>
               in if data_pos a1 = 256 then enter_phase (Written lba) a1 else a1
          else a
      | _ \<Rightarrow> a)"

section \<open>The driver\<close>

record ata_sys =
  dev :: ata_disk
  con :: console

text \<open>The text of a literal; \<open>puts_text_puts\<close> below relates it to the loop of \<open>puts\<close>.\<close>

definition puts_text :: "string \<Rightarrow> console \<Rightarrow> console" where
  "puts_text str s = fold print_char (map of_char str) s"

definition newline :: string where
  "newline = [CHR 0x0A]"

fun ata_wait :: "u8 \<Rightarrow> nat \<Rightarrow> ata_regs \<Rightarrow> bool \<times> ata_regs" where
  "ata_wait wanted 0 a = (False, a)"
| "ata_wait wanted (Suc timeout) a =
     (let (status, a1) = inportb 0x1F7 a
      in if status AND 0x01 \<noteq> 0 then (False, a1)
         else if status AND 0x80 = 0 \<and> status AND wanted \<noteq> 0 then (True, a1)
         else ata_wait wanted timeout a1)"

definition ata_wait_ready :: "ata_regs \<Rightarrow> bool \<times> ata_regs" where
  "ata_wait_ready a = ata_wait 0x40 1000000 a"

definition ata_wait_drq :: "ata_regs \<Rightarrow> bool \<times> ata_regs" where
  "ata_wait_drq a = ata_wait 0x08 1000000 a"

definition ata_select :: "u32 \<Rightarrow> ata_regs \<Rightarrow> ata_regs" where
  "ata_select lba a =
     outportb 0x1F5 (ucast (drop_bit 16 lba AND 0xFF))
       (outportb 0x1F4 (ucast (drop_bit 8 lba AND 0xFF))
         (outportb 0x1F3 (ucast (lba AND 0xFF))
           (outportb 0x1F2 1
             (outportb 0x1F6 (0xE0 OR ucast (drop_bit 24 lba AND 0x0F)) a))))"

definition ata_fail :: "string \<Rightarrow> 's ata_sys_scheme \<Rightarrow> 's ata_sys_scheme" where
  "ata_fail msg s = s\<lparr>con := puts_text (msg @ newline) (con s)\<rparr>"

text \<open>\<open>Some\<close> the buffer stands for the return value 0, \<open>None\<close> for 1.\<close>

definition ata_read_sector :: "u32 \<Rightarrow> 's ata_sys_scheme \<Rightarrow> u8 list option \<times> 's ata_sys_scheme" where
  "ata_read_sector lba s =
     (let (ready, a1) = ata_wait_ready (start_regs (dev s))
      in if \<not> ready then (None, ata_fail ''Error: ATA drive is not responding, busy, or error state.'' s)
         else let a2 = outportb 0x1F7 0x20 (ata_select lba a1);
                  (drq, a3) = ata_wait_drq a2
              in if \<not> drq then (None, ata_fail ''Error: ATA read DRQ timeout or error.'' s)
                 else let (target, a4) = fold (\<lambda>i (target, a). let (w, a') = inportw 0x1F0 a in (put16 target (2 * i) w, a'))
                                           [0..<256] (replicate 512 0, a3)
                      in (Some target, s\<lparr>dev := disk a4\<rparr>))"

text \<open>The result says whether the call returned 0.\<close>

definition ata_write_sector :: "u32 \<Rightarrow> u8 list \<Rightarrow> 's ata_sys_scheme \<Rightarrow> bool \<times> 's ata_sys_scheme" where
  "ata_write_sector lba buffer s =
     (let (ready, a1) = ata_wait_ready (start_regs (dev s))
      in if \<not> ready then (False, ata_fail ''Error: ATA drive is not responding, busy, or error state.'' s)
         else let a2 = outportb 0x1F7 0x30 (ata_select lba a1);
                  (drq, a3) = ata_wait_drq a2
              in if \<not> drq then (False, ata_fail ''Error: ATA write DRQ timeout or error.'' s)
                 else let a4 = fold (\<lambda>i a. outportw 0x1F0 (get16 buffer (2 * i)) a) [0..<256] a3;
                          s1 = s\<lparr>dev := disk a4\<rparr>;
                          (done, a5) = ata_wait_ready a4
                      in if \<not> done then (False, ata_fail ''Error: ATA write completion timeout or error.'' s1)
                         else let (flushed, a6) = ata_wait_ready (outportb 0x1F7 0xE7 a5)
                              in if \<not> flushed then (False, ata_fail ''Error: ATA cache flush failed.'' s1)
                                 else (True, s\<lparr>dev := disk a6\<rparr>))"

section \<open>What the driver does\<close>

text \<open>A poll loop sees the wanted answer before an error and before the timeout.\<close>

definition answered :: "nat \<Rightarrow> u8 \<Rightarrow> (nat \<Rightarrow> u8) \<Rightarrow> bool" where
  "answered timeout wanted f \<longleftrightarrow>
     (\<exists>n < timeout. f n AND 0x80 = 0 \<and> f n AND wanted \<noteq> 0 \<and> (\<forall>m \<le> n. f m AND 0x01 = 0))"

lemma answered_Suc:
  "answered (Suc t) w f \<longleftrightarrow> f 0 AND 0x01 = 0 \<and> (f 0 AND 0x80 = 0 \<and> f 0 AND w \<noteq> 0 \<or> answered t w (\<lambda>n. f (Suc n)))"
  (is "?l \<longleftrightarrow> ?r")
proof
  assume ?l
  then obtain n where n: "n < Suc t" "f n AND 0x80 = 0" "f n AND w \<noteq> 0" "\<forall>m \<le> n. f m AND 0x01 = 0"
    by (auto simp: answered_def)
  then show ?r by (cases n) (auto simp: answered_def)
next
  assume r: ?r
  show ?l
  proof (cases "f 0 AND 0x80 = 0 \<and> f 0 AND w \<noteq> 0")
    case True
    then show ?thesis using r by (auto simp: answered_def intro!: exI [of _ 0])
  next
    case False
    with r obtain n where n: "n < t" "f (Suc n) AND 0x80 = 0" "f (Suc n) AND w \<noteq> 0" "\<forall>m \<le> n. f (Suc m) AND 0x01 = 0"
      by (auto simp: answered_def)
    have "f m AND 0x01 = 0" if "m \<le> Suc n" for m using that r n(4) by (cases m) auto
    then show ?thesis using n by (auto simp: answered_def intro!: exI [of _ "Suc n"])
  qed
qed

lemma ata_wait_answered:
  "\<exists>k. ata_wait w t a = (answered t w (\<lambda>n. answers (disk a) (phase a) (polls a + n)), a\<lparr>polls := k\<rparr>)"
proof (induction t arbitrary: a)
  case 0
  show ?case by (auto simp: answered_def intro!: exI [of _ "polls a"])
next
  case (Suc t)
  obtain k where "ata_wait w t (a\<lparr>polls := Suc (polls a)\<rparr>) =
      (answered t w (\<lambda>n. answers (disk a) (phase a) (Suc (polls a) + n)), a\<lparr>polls := k\<rparr>)"
    using Suc [of "a\<lparr>polls := Suc (polls a)\<rparr>"] by auto
  then show ?case
    by (auto simp: inportb_def answered_Suc intro: exI [of _ "Suc (polls a)"])
qed

text \<open>The address registers hold 28 bits of the sector number.\<close>

lemma lba_bytes:
  "push_bit 24 (ucast (take_bit 4 (ucast (take_bit 4 (drop_bit 24 lba))) :: u8)) OR
     push_bit 16 (ucast (ucast (take_bit 8 (drop_bit 16 lba)) :: u8)) OR
     push_bit 8 (ucast (ucast (take_bit 8 (drop_bit 8 lba)) :: u8)) OR ucast (ucast (take_bit 8 lba) :: u8)
   = take_bit 28 (lba :: u32)" (is "?l = _")
proof (rule bit_word_eqI)
  fix n :: nat
  consider "24 \<le> n" | "16 \<le> n" "n < 24" | "8 \<le> n" "n < 16" | "n < 8" by linarith
  then show "bit ?l n = bit (take_bit 28 lba) n"
    by cases (auto simp: bit_simps)
qed

lemma selected_lba_parts:
  "push_bit 24 (ucast ((0xE0 OR ucast (drop_bit 24 lba AND 0x0F)) AND 0x0F :: u8)) OR
     push_bit 16 (ucast (ucast (drop_bit 16 lba AND 0xFF) :: u8)) OR
     push_bit 8 (ucast (ucast (drop_bit 8 lba AND 0xFF) :: u8)) OR ucast (ucast (lba AND 0xFF) :: u8)
   = take_bit 28 (lba :: u32)"
proof -
  have m: "(0x0F :: u8) = mask 4" "(0x0F :: u32) = mask 4" "(0xFF :: u32) = mask 8" by (simp_all add: mask_eq_exp_minus_1)
  have "(0xE0 :: u8) AND mask 4 = 0" by (simp add: mask_eq_exp_minus_1)
  then have e: "(0xE0 OR x) AND mask 4 = x AND mask 4" for x :: u8 by (simp add: bit.conj_disj_distrib2)
  show ?thesis unfolding m e unfolding take_bit_eq_mask [symmetric] by (rule lba_bytes)
qed

lemma ata_select_fields:
  "selected_lba (ata_select lba a) = take_bit 28 lba" "disk (ata_select lba a) = disk a"
  unfolding ata_select_def selected_lba_def by (simp_all add: outportb_def selected_lba_parts)

lemma read_words:
  assumes "phase a = Reading lba" "data_pos a = 0" "length t = 2 * n" "length (sectors (disk a) lba) = 2 * n" "k \<le> n"
  shows "fold (\<lambda>i (target, a). let (w, a') = inportw 0x1F0 a in (put16 target (2 * i) w, a')) [0..<k] (t, a) =
    (take (2 * k) (sectors (disk a) lba) @ drop (2 * k) t, a\<lparr>data_pos := k\<rparr>)"
proof -
  have "fold (\<lambda>i (target, a). let (w, a') = inportw 0x1F0 a in (put16 target (2 * i) w, a')) [0..<k] (t, a) =
    (fold (\<lambda>i d. put16 d (2 * i) (get16 (sectors (disk a) lba) (2 * i))) [0..<k] t, a\<lparr>data_pos := k\<rparr>)"
    using assms(1,2) by (induction k) (simp_all add: inportw_def)
  then show ?thesis using put16_copy [OF assms(4,3,5)] by simp
qed

lemma write_words:
  assumes "phase a = Writing lba" "data_pos a = 0" "k < 256"
  shows "fold (\<lambda>i a. outportw 0x1F0 (get16 b (2 * i)) a) [0..<k] a =
    a\<lparr>disk := (disk a)\<lparr>sectors := (sectors (disk a))
        (lba := fold (\<lambda>i d. put16 d (2 * i) (get16 b (2 * i))) [0..<k] (sectors (disk a) lba))\<rparr>, data_pos := k\<rparr>"
  using assms by (induction k) (simp_all add: outportw_def Let_def)

lemma write_sector_words:
  assumes "phase a = Writing lba" "data_pos a = 0" "length b = 512" "length (sectors (disk a) lba) = 512"
  shows "fold (\<lambda>i a. outportw 0x1F0 (get16 b (2 * i)) a) [0..<256] a =
    enter_phase (Written lba) (a\<lparr>disk := (disk a)\<lparr>sectors := (sectors (disk a))(lba := b)\<rparr>\<rparr>)"
proof -
  let ?d = "fold (\<lambda>i d. put16 d (2 * i) (get16 b (2 * i))) [0..<255] (sectors (disk a) lba)"
  have u: "[0..<256] = [0..<255] @ [255]" using upt_Suc_append [of 0 255] by simp
  have "put16 ?d (2 * 255) (get16 b (2 * 255)) = fold (\<lambda>i d. put16 d (2 * i) (get16 b (2 * i))) [0..<256] (sectors (disk a) lba)"
    unfolding u by simp
  also have "\<dots> = b" using put16_copy [of b 256 "sectors (disk a) lba" 256] assms(3,4) by simp
  finally have l: "put16 ?d (2 * 255) (get16 b (2 * 255)) = b" .
  have "fold (\<lambda>i a. outportw 0x1F0 (get16 b (2 * i)) a) [0..<256] a =
      outportw 0x1F0 (get16 b (2 * 255)) (a\<lparr>disk := (disk a)\<lparr>sectors := (sectors (disk a))(lba := ?d)\<rparr>, data_pos := 255\<rparr>)"
    unfolding u using write_words [OF assms(1,2), of 255 b] by simp
  also have "\<dots> = enter_phase (Written lba) (a\<lparr>disk := (disk a)\<lparr>sectors := (sectors (disk a))(lba := b)\<rparr>, data_pos := 256\<rparr>)"
    using assms(1) l by (simp add: outportw_def Let_def)
  finally show ?thesis by (simp add: enter_phase_def)
qed

definition drive_ready :: "ata_disk \<Rightarrow> bool" where
  "drive_ready d \<longleftrightarrow> answered 1000000 0x40 (answers d Idle)"

definition read_answered :: "ata_disk \<Rightarrow> u32 \<Rightarrow> bool" where
  "read_answered d lba \<longleftrightarrow> drive_ready d \<and> answered 1000000 0x08 (answers d (Reading lba))"

definition write_answered :: "ata_disk \<Rightarrow> u32 \<Rightarrow> bool" where
  "write_answered d lba \<longleftrightarrow> drive_ready d \<and> answered 1000000 0x08 (answers d (Writing lba)) \<and>
     answered 1000000 0x40 (answers d (Written lba)) \<and> answered 1000000 0x40 (answers d Flushing)"

lemma wait_start:
  "\<exists>k. ata_wait_ready (start_regs d) = (drive_ready d, (start_regs d)\<lparr>polls := k\<rparr>)"
  unfolding ata_wait_ready_def drive_ready_def using ata_wait_answered [of "0x40" 1000000 "start_regs d"]
  by (simp add: start_regs_def)

lemma ata_read_sector_eq:
  fixes lba defines "l \<equiv> take_bit 28 lba"
  assumes "length (sectors (dev s) l) = 512"
  shows "\<exists>msg. ata_read_sector lba s =
    (if read_answered (dev s) l then (Some (sectors (dev s) l), s) else (None, ata_fail msg s))"
proof -
  obtain k where w: "ata_wait_ready (start_regs (dev s)) = (drive_ready (dev s), (start_regs (dev s))\<lparr>polls := k\<rparr>)"
    using wait_start by blast
  show ?thesis
  proof (cases "drive_ready (dev s)")
    case False
    with w show ?thesis by (auto simp: ata_read_sector_def read_answered_def)
  next
    case True
    let ?a = "outportb 0x1F7 0x20 (ata_select lba ((start_regs (dev s))\<lparr>polls := k\<rparr>))"
    have a: "phase ?a = Reading l" "polls ?a = 0" "disk ?a = dev s" "data_pos ?a = 0"
      using ata_select_fields [of lba "(start_regs (dev s))\<lparr>polls := k\<rparr>"]
      by (simp_all add: outportb_def enter_phase_def l_def start_regs_def)
    obtain k2 where k2: "ata_wait_drq ?a = (answered 1000000 0x08 (answers (dev s) (Reading l)), ?a\<lparr>polls := k2\<rparr>)"
      unfolding ata_wait_drq_def using ata_wait_answered [of "0x08" 1000000 ?a] a by auto
    have r: "fold (\<lambda>i (target, a). let (w, a') = inportw 0x1F0 a in (put16 target (2 * i) w, a')) [0..<256]
        (replicate 512 0, ?a\<lparr>polls := k2\<rparr>) = (sectors (dev s) l, ?a\<lparr>polls := k2, data_pos := 256\<rparr>)"
      using read_words [of "?a\<lparr>polls := k2\<rparr>" l "replicate 512 0" 256 256] a assms by simp
    show ?thesis
      unfolding ata_read_sector_def w prod.case Let_def k2
      using True a r by (auto simp: read_answered_def Let_def)
  qed
qed

lemma ata_write_sector_eq:
  fixes lba defines "l \<equiv> take_bit 28 lba"
  assumes "length (sectors (dev s) l) = 512" "length b = 512"
  shows "\<exists>msg. ata_write_sector lba b s =
    (let s1 = s\<lparr>dev := (dev s)\<lparr>sectors := (sectors (dev s))(l := b)\<rparr>\<rparr> in
     if write_answered (dev s) l then (True, s1)
     else (False, ata_fail msg (if drive_ready (dev s) \<and> answered 1000000 0x08 (answers (dev s) (Writing l)) then s1 else s)))"
proof -
  let ?d = "(dev s)\<lparr>sectors := (sectors (dev s))(l := b)\<rparr>"
  obtain k where w: "ata_wait_ready (start_regs (dev s)) = (drive_ready (dev s), (start_regs (dev s))\<lparr>polls := k\<rparr>)"
    using wait_start by blast
  show ?thesis
  proof (cases "drive_ready (dev s)")
    case False
    with w show ?thesis by (auto simp: ata_write_sector_def write_answered_def)
  next
    case True
    let ?a = "outportb 0x1F7 0x30 (ata_select lba ((start_regs (dev s))\<lparr>polls := k\<rparr>))"
    have a: "phase ?a = Writing l" "polls ?a = 0" "disk ?a = dev s" "data_pos ?a = 0"
      using ata_select_fields [of lba "(start_regs (dev s))\<lparr>polls := k\<rparr>"]
      by (simp_all add: outportb_def enter_phase_def l_def start_regs_def)
    obtain k2 where k2: "ata_wait_drq ?a = (answered 1000000 0x08 (answers (dev s) (Writing l)), ?a\<lparr>polls := k2\<rparr>)"
      unfolding ata_wait_drq_def using ata_wait_answered [of "0x08" 1000000 ?a] a by auto
    let ?a4 = "enter_phase (Written l) (?a\<lparr>polls := k2, disk := ?d\<rparr>)"
    have r: "fold (\<lambda>i a. outportw 0x1F0 (get16 b (2 * i)) a) [0..<256] (?a\<lparr>polls := k2\<rparr>) = ?a4"
      using write_sector_words [of "?a\<lparr>polls := k2\<rparr>" l b] a assms by simp
    have d4: "disk ?a4 = ?d" by (simp add: enter_phase_def)
    obtain k3 where k3: "ata_wait_ready ?a4 = (answered 1000000 0x40 (answers (dev s) (Written l)), ?a4\<lparr>polls := k3\<rparr>)"
      unfolding ata_wait_ready_def using ata_wait_answered [of "0x40" 1000000 ?a4] by (auto simp: enter_phase_def)
    let ?a5 = "outportb 0x1F7 0xE7 (?a4\<lparr>polls := k3\<rparr>)"
    obtain k4 where k4: "ata_wait_ready ?a5 = (answered 1000000 0x40 (answers (dev s) Flushing), ?a5\<lparr>polls := k4\<rparr>)"
      unfolding ata_wait_ready_def using ata_wait_answered [of "0x40" 1000000 ?a5] by (auto simp: enter_phase_def outportb_def)
    have d5: "disk (?a5\<lparr>polls := k4\<rparr>) = ?d" by (simp add: enter_phase_def outportb_def)
    show ?thesis
      unfolding ata_write_sector_def w prod.case Let_def k2 r k3 k4 d4 d5
      using True by (auto simp: write_answered_def)
  qed
qed

section \<open>A working disk as a store of sectors\<close>

text \<open>
  The contract the file system relies on: within the 28-bit range a read returns the sector and
  changes nothing, a write replaces the sector and changes nothing else.
\<close>

locale sector_store =
  fixes rd :: "u32 \<Rightarrow> 's \<Rightarrow> u8 list option \<times> 's"
    and wr :: "u32 \<Rightarrow> u8 list \<Rightarrow> 's \<Rightarrow> bool \<times> 's"
    and sec :: "'s \<Rightarrow> u32 \<Rightarrow> u8 list"
    and upd :: "u32 \<Rightarrow> u8 list \<Rightarrow> 's \<Rightarrow> 's"
    and good :: "'s \<Rightarrow> bool"
  assumes rd_sec: "good s \<Longrightarrow> l < 0x10000000 \<Longrightarrow> rd l s = (Some (sec s l), s)"
    and wr_upd: "good s \<Longrightarrow> l < 0x10000000 \<Longrightarrow> length b = 512 \<Longrightarrow> wr l b s = (True, upd l b s)"
    and sec_upd: "sec (upd l b s) = (sec s)(l := b)"
    and good_upd: "good s \<Longrightarrow> length b = 512 \<Longrightarrow> good (upd l b s)"
    and sec_length: "good s \<Longrightarrow> length (sec s l) = 512"
begin

text \<open>Read, change, write back: the only sector that changes is the one addressed.\<close>

lemma read_modify_write:
  assumes "good s" "l < 0x10000000" "\<And>b. length b = 512 \<Longrightarrow> length (f b) = 512"
  shows "\<exists>b s'. rd l s = (Some b, s) \<and> wr l (f b) s = (True, s') \<and> good s' \<and> sec s' = (sec s)(l := f (sec s l))"
  using assms rd_sec wr_upd good_upd sec_upd sec_length by metis

end

definition set_sector :: "u32 \<Rightarrow> u8 list \<Rightarrow> 's ata_sys_scheme \<Rightarrow> 's ata_sys_scheme" where
  "set_sector l b s = s\<lparr>dev := (dev s)\<lparr>sectors := (sectors (dev s))(l := b)\<rparr>\<rparr>"

definition disk_ok :: "'s ata_sys_scheme \<Rightarrow> bool" where
  "disk_ok s \<longleftrightarrow> (\<forall>l. length (sectors (dev s) l) = 512) \<and>
     (\<forall>l < 0x10000000. read_answered (dev s) l \<and> write_answered (dev s) l)"

lemma take_bit_28: "l < 0x10000000 \<Longrightarrow> take_bit 28 l = (l :: u32)"
  unfolding word_unat_eq_iff unsigned_take_bit_eq by (rule take_bit_nat_eq_self) (simp add: word_less_nat_alt)

lemma disk_ok_read [simp]:
  assumes "disk_ok s" "l < 0x10000000"
  shows "ata_read_sector l s = (Some (sectors (dev s) l), s)"
  using ata_read_sector_eq [of s l] assms by (auto simp: disk_ok_def take_bit_28)

lemma disk_ok_write [simp]:
  assumes "disk_ok s" "l < 0x10000000" "length b = 512"
  shows "ata_write_sector l b s = (True, set_sector l b s)"
  using ata_write_sector_eq [of s l b] assms by (auto simp: disk_ok_def take_bit_28 set_sector_def Let_def)

lemma set_sector_simps [simp]:
  "sectors (dev (set_sector l b s)) = (sectors (dev s))(l := b)" "con (set_sector l b s) = con s"
  "ata_sys.more (set_sector l b s) = ata_sys.more s" "answers (dev (set_sector l b s)) = answers (dev s)"
  by (simp_all add: set_sector_def)

lemma ata_fail_dev [simp]: "dev (ata_fail msg s) = dev s"
  by (simp add: ata_fail_def)

lemma answered_sectors [simp]:
  "read_answered (d\<lparr>sectors := f\<rparr>) l = read_answered d l" "write_answered (d\<lparr>sectors := f\<rparr>) l = write_answered d l"
  "read_answered (dev (set_sector l' b s)) l = read_answered (dev s) l"
  by (simp_all add: read_answered_def write_answered_def drive_ready_def)

lemma disk_ok_set_sector [simp]: "disk_ok s \<Longrightarrow> length b = 512 \<Longrightarrow> disk_ok (set_sector l b s)"
  by (simp add: disk_ok_def set_sector_def)

lemma disk_ok_length [simp]: "disk_ok s \<Longrightarrow> length (sectors (dev s) l) = 512"
  by (simp add: disk_ok_def)

interpretation ata: sector_store ata_read_sector ata_write_sector "\<lambda>s. sectors (dev s)" set_sector disk_ok
  by unfold_locales simp_all

lemma puts_text_puts:
  assumes "\<forall>c \<in> set str. of_char c \<noteq> (0 :: u8)"
  shows "puts (\<lambda>i. if i < length str then of_char (str ! i) else 0) s = Some (puts_text str s)"
proof -
  have "arr_str (\<lambda>i. if i < length str then of_char (str ! i) else 0) (map of_char str)"
    using assms by (auto simp: arr_str_def)
  then show ?thesis by (simp add: puts_arr_str puts_text_def)
qed

section \<open>Properties\<close>

definition quiet_disk :: ata_disk where
  "quiet_disk = \<lparr>sectors = (\<lambda>_. replicate 512 0), answers = (\<lambda>_ _. 0x48)\<rparr>"

definition ata_boot :: ata_sys where
  "ata_boot = \<lparr>dev = quiet_disk, con = boot_console\<rparr>"


lemma quiet_answered: "0 < t \<Longrightarrow> w \<in> {0x40, 0x08} \<Longrightarrow> answered t w (\<lambda>_. 0x48)"
  by (auto simp: answered_def)

lemma quiet_disk_ok: "disk_ok (s\<lparr>dev := quiet_disk\<rparr>)"
  by (simp add: disk_ok_def quiet_disk_def read_answered_def write_answered_def drive_ready_def quiet_answered)

text \<open>
  C30: on a drive that answers, a sector written is what is read back, and no other sector changes;
  the address is taken modulo 2 to the 28.  A read the drive does not answer reports failure and
  leaves the disk as it is.
\<close>

theorem ata_sector_roundtrip:
  assumes "\<forall>l. length (sectors (dev s) l) = 512" "length b = 512" "write_answered (dev s) (take_bit 28 lba)"
  shows "\<exists>s'. ata_write_sector lba b s = (True, s') \<and>
    (\<forall>lba'. if read_answered (dev s) (take_bit 28 lba')
       then ata_read_sector lba' s' =
         (Some (if take_bit 28 lba' = take_bit 28 lba then b else sectors (dev s) (take_bit 28 lba')), s')
       else fst (ata_read_sector lba' s') = None \<and> dev (snd (ata_read_sector lba' s')) = dev s')"
proof -
  let ?s = "set_sector (take_bit 28 lba) b s"
  have w: "ata_write_sector lba b s = (True, ?s)"
    using ata_write_sector_eq [of s lba b] assms by (auto simp: Let_def set_sector_def)
  have "\<exists>msg. ata_read_sector lba' ?s =
      (if read_answered (dev s) (take_bit 28 lba')
       then (Some (if take_bit 28 lba' = take_bit 28 lba then b else sectors (dev s) (take_bit 28 lba')), ?s)
       else (None, ata_fail msg ?s))" for lba'
    using ata_read_sector_eq [of ?s lba'] assms by (cases "read_answered (dev s) (take_bit 28 lba')"; cases "take_bit 28 lba' = take_bit 28 lba") simp_all
  then have "if read_answered (dev s) (take_bit 28 lba')
      then ata_read_sector lba' ?s = (Some (if take_bit 28 lba' = take_bit 28 lba then b else sectors (dev s) (take_bit 28 lba')), ?s)
      else fst (ata_read_sector lba' ?s) = None \<and> dev (snd (ata_read_sector lba' ?s)) = dev ?s" for lba'
    by (cases "read_answered (dev s) (take_bit 28 lba')") (metis, metis fst_conv snd_conv ata_fail_dev)
  then show ?thesis using w by blast
qed

theorem ata_sector_roundtrip_witness:
  "\<exists>s'. ata_write_sector 5 (replicate 512 7) ata_boot = (True, s') \<and>
     ata_read_sector 0x10000005 s' = (Some (replicate 512 7), s') \<and> ata_read_sector 6 s' = (Some (replicate 512 0), s')"
proof -
  have a: "\<forall>l. length (sectors (dev ata_boot) l) = 512" "write_answered (dev ata_boot) l" "read_answered (dev ata_boot) l" for l
    by (simp_all add: ata_boot_def quiet_disk_def read_answered_def write_answered_def drive_ready_def quiet_answered)
  have t: "take_bit 28 (0x10000005 :: u32) = 5" "take_bit 28 (6 :: u32) = 6" "take_bit 28 (5 :: u32) = 5"
    by (simp_all add: take_bit_eq_mod)
  have z: "sectors (dev ata_boot) 6 = replicate 512 0" by (simp add: ata_boot_def quiet_disk_def)
  obtain s' where s: "ata_write_sector 5 (replicate 512 7) ata_boot = (True, s')"
    and r: "ata_read_sector lba' s' = (Some (if take_bit 28 lba' = take_bit 28 5 then replicate 512 7 else sectors (dev ata_boot) (take_bit 28 lba')), s')" for lba'
    using ata_sector_roundtrip [OF a(1) _ a(2), of "replicate 512 7" 5] a(3) by auto
  show ?thesis using s r [of "0x10000005"] r [of 6] unfolding t z by simp
qed

end
