(* ===== verification/Fat16_Table.thy ===== *)
theory Fat16_Table
  imports Ata "HOL-Library.Monad_Syntax"
begin

text \<open>
  Layer 1 of the FAT16 driver, src/src/fs/fat16.c: the geometry read from the boot sector, entries
  of the file allocation table and its copies, allocation of clusters and release of chains.  All
  access to the disk goes through the model of the ATA driver.

  Functions that call \<open>ensure_init\<close> have results of type \<open>option\<close>: \<open>None\<close> is the divide fault
  \<open>fat16_init\<close> runs into when the boot sector says zero sectors per cluster (or, in the later
  theories, a loop that does not end).
\<close>

unbundle bit_operations_syntax

section \<open>Geometry\<close>

record fat16_cache_t =
  fat_start_sector :: u32
  root_dir_sector :: u32
  data_start_sector :: u32
  root_dir_size_sectors :: u32
  sectors_per_fat :: u16
  fat_count :: u8
  sectors_per_cluster :: u8
  total_sectors :: u32
  total_clusters :: u16
  initialized :: bool

record fat_sys = ata_sys +
  fs_cache :: fat16_cache_t
  fheap :: heap_state

text \<open>Fields of the packed \<open>bpb_t\<close> at the start of sector 0.\<close>

definition bpb_sectors_per_cluster :: "u8 list \<Rightarrow> u8" where "bpb_sectors_per_cluster b = b ! 13"
definition bpb_reserved_sectors :: "u8 list \<Rightarrow> u16" where "bpb_reserved_sectors b = get16 b 14"
definition bpb_fat_count :: "u8 list \<Rightarrow> u8" where "bpb_fat_count b = b ! 16"
definition bpb_root_dir_entries :: "u8 list \<Rightarrow> u16" where "bpb_root_dir_entries b = get16 b 17"
definition bpb_total_sectors_16 :: "u8 list \<Rightarrow> u16" where "bpb_total_sectors_16 b = get16 b 19"
definition bpb_sectors_per_fat :: "u8 list \<Rightarrow> u16" where "bpb_sectors_per_fat b = get16 b 22"

definition geometry :: "u8 list \<Rightarrow> fat16_cache_t" where
  "geometry buffer =
     (let fat_start = ucast (bpb_reserved_sectors buffer);
          root = fat_start + ucast (bpb_fat_count buffer) * ucast (bpb_sectors_per_fat buffer);
          root_size = ucast (bpb_root_dir_entries buffer) * 32 div 512;
          data = root + root_size;
          tot_sec = (if bpb_total_sectors_16 buffer = 0 then get32 buffer 32 else ucast (bpb_total_sectors_16 buffer))
      in \<lparr>fat_start_sector = fat_start, root_dir_sector = root, data_start_sector = data,
          root_dir_size_sectors = root_size, sectors_per_fat = bpb_sectors_per_fat buffer,
          fat_count = bpb_fat_count buffer, sectors_per_cluster = bpb_sectors_per_cluster buffer,
          total_sectors = tot_sec,
          total_clusters = ucast ((tot_sec - data) div ucast (bpb_sectors_per_cluster buffer)),
          initialized = True\<rparr>)"

definition fat16_init :: "fat_sys \<Rightarrow> fat_sys option" where
  "fat16_init s =
     (case ata_read_sector 0 s of
        (None, s1) \<Rightarrow> Some s1
      | (Some buffer, s1) \<Rightarrow>
          if bpb_sectors_per_cluster buffer = 0 then None
          else Some (s1\<lparr>fs_cache := geometry buffer\<rparr>))"

definition ensure_init :: "fat_sys \<Rightarrow> fat_sys option" where
  "ensure_init s = (if \<not> initialized (fs_cache s) then fat16_init s else Some s)"

section \<open>Table entries\<close>

definition fat16_read_fat_entry :: "u16 \<Rightarrow> fat_sys \<Rightarrow> (u16 \<times> fat_sys) option" where
  "fat16_read_fat_entry cluster s = do {
     s \<leftarrow> ensure_init s;
     let fat_sector = fat_start_sector (fs_cache s) + ucast cluster * 2 div 512;
     let fat_offset = unat cluster * 2 mod 512;
     case ata_read_sector fat_sector s of
       (None, s1) \<Rightarrow> Some (0xFFFF, s1)
     | (Some buffer, s1) \<Rightarrow> Some (get16 buffer fat_offset, s1)}"

fun write_copies :: "u32 list \<Rightarrow> u8 list \<Rightarrow> fat_sys \<Rightarrow> bool \<times> fat_sys" where
  "write_copies [] buffer s = (True, s)"
| "write_copies (target_sec # rest) buffer s =
     (let (ok, s1) = ata_write_sector target_sec buffer s
      in if ok then write_copies rest buffer s1 else (False, s1))"

definition fat_copies :: "fat16_cache_t \<Rightarrow> u32 \<Rightarrow> u32 list" where
  "fat_copies c sector_offset =
     map (\<lambda>i. fat_start_sector c + of_nat i * ucast (sectors_per_fat c) + sector_offset) [0..<unat (fat_count c)]"

text \<open>The result says whether the call returned EOK; otherwise it is -EIO.\<close>

definition fat16_write_fat_entry :: "u16 \<Rightarrow> u16 \<Rightarrow> fat_sys \<Rightarrow> (bool \<times> fat_sys) option" where
  "fat16_write_fat_entry cluster v s = do {
     s \<leftarrow> ensure_init s;
     let sector_offset = ucast cluster * 2 div 512;
     let byte_offset = unat cluster * 2 mod 512;
     case ata_read_sector (fat_start_sector (fs_cache s) + sector_offset) s of
       (None, s1) \<Rightarrow> Some (False, s1)
     | (Some buffer, s1) \<Rightarrow>
         Some (write_copies (fat_copies (fs_cache s1) sector_offset) (put16 buffer byte_offset v) s1)}"

section \<open>Allocation\<close>

text \<open>
  The scan of the 256 entries of one table sector: \<open>None\<close> when the scan goes on with the next
  sector, \<open>Some 0\<close> for \<open>return 0\<close>, \<open>Some c\<close> for the first free cluster.
\<close>

function alloc_entries :: "u16 \<Rightarrow> u8 list \<Rightarrow> u32 \<Rightarrow> nat \<Rightarrow> u16 option" where
  "alloc_entries clusters buffer sec i =
     (if i < 256
      then let cluster_idx = ucast (sec * 256 + of_nat i) :: u16
           in if cluster_idx < 2 then alloc_entries clusters buffer sec (Suc i)
              else if unat cluster_idx \<ge> unat clusters + 2 then Some 0
              else if get16 buffer (2 * i) = 0 then Some cluster_idx
              else alloc_entries clusters buffer sec (Suc i)
      else None)"
  by pat_completeness auto
termination by (relation "measure (\<lambda>(_, _, _, i). 256 - i)") auto

declare alloc_entries.simps [simp del]

text \<open>The sectors of the table still to be scanned are given as a list of their numbers in it.\<close>

fun alloc_sectors :: "nat list \<Rightarrow> fat_sys \<Rightarrow> (u16 \<times> fat_sys) option" where
  "alloc_sectors [] s = Some (0, s)"
| "alloc_sectors (k # ks) s =
     (case ata_read_sector (fat_start_sector (fs_cache s) + of_nat k) s of
        (None, s1) \<Rightarrow> Some (0, s1)
      | (Some buffer, s1) \<Rightarrow>
          (case alloc_entries (total_clusters (fs_cache s1)) buffer (of_nat k) 0 of
             None \<Rightarrow> alloc_sectors ks s1
           | Some c \<Rightarrow>
               if c = 0 then Some (0, s1)
               else do { (_, s2) \<leftarrow> fat16_write_fat_entry c 0xFFFF s1; Some (c, s2) }))"

definition fat16_alloc_cluster :: "fat_sys \<Rightarrow> (u16 \<times> fat_sys) option" where
  "fat16_alloc_cluster s = do {
     s \<leftarrow> ensure_init s;
     alloc_sectors [0..<unat (sectors_per_fat (fs_cache s))] s}"

section \<open>Release\<close>

fun free_loop :: "nat \<Rightarrow> u16 \<Rightarrow> fat_sys \<Rightarrow> fat_sys option" where
  "free_loop 0 cur s = Some s"
| "free_loop (Suc safety_counter) cur s =
     (if cur \<ge> 2 \<and> cur < 0xFFF0
      then do {
        (next_c, s1) \<leftarrow> fat16_read_fat_entry cur s;
        (_, s2) \<leftarrow> fat16_write_fat_entry cur 0 s1;
        free_loop safety_counter next_c s2 }
      else Some s)"

definition fat16_free_chain :: "u16 \<Rightarrow> fat_sys \<Rightarrow> fat_sys option" where
  "fat16_free_chain start_cluster s =
     (if start_cluster < 2 \<or> start_cluster \<ge> 0xFFF8 then Some s
      else free_loop (unat (total_clusters (fs_cache s))) start_cluster s)"

section \<open>A volume in order\<close>

text \<open>The regions follow each other and fit the disk, and the table has an entry for every cluster.\<close>

definition geometry_ok :: "fat16_cache_t \<Rightarrow> bool" where
  "geometry_ok c \<longleftrightarrow> initialized c \<and> 1 \<le> unat (fat_count c) \<and> 1 \<le> unat (sectors_per_cluster c) \<and>
     unat (total_clusters c) + 2 \<le> 0xFFF0 \<and> unat (total_clusters c) + 2 \<le> 256 * unat (sectors_per_fat c) \<and>
     unat (root_dir_sector c) = unat (fat_start_sector c) + unat (fat_count c) * unat (sectors_per_fat c) \<and>
     unat (data_start_sector c) = unat (root_dir_sector c) + unat (root_dir_size_sectors c) \<and>
     unat (data_start_sector c) + unat (total_clusters c) * unat (sectors_per_cluster c) < 0x10000000"

definition fat_ok :: "fat_sys \<Rightarrow> bool" where
  "fat_ok s \<longleftrightarrow> disk_ok s \<and> geometry_ok (fs_cache s)"

definition valid_cluster :: "fat_sys \<Rightarrow> u16 \<Rightarrow> bool" where
  "valid_cluster s c \<longleftrightarrow> 2 \<le> unat c \<and> unat c < unat (total_clusters (fs_cache s)) + 2"

text \<open>The entry of a cluster in the first copy of the table.\<close>

definition fat_sector_of :: "fat_sys \<Rightarrow> u16 \<Rightarrow> u32" where
  "fat_sector_of s c = fat_start_sector (fs_cache s) + of_nat (unat c div 256)"

definition fat_entry :: "fat_sys \<Rightarrow> u16 \<Rightarrow> u16" where
  "fat_entry s c = get16 (sectors (dev s) (fat_sector_of s c)) (2 * (unat c mod 256))"

definition set_fat :: "u16 \<Rightarrow> u16 \<Rightarrow> fat_sys \<Rightarrow> fat_sys" where
  "set_fat c v s =
     fold (\<lambda>l. set_sector l (put16 (sectors (dev s) (fat_sector_of s c)) (2 * (unat c mod 256)) v))
       (fat_copies (fs_cache s) (of_nat (unat c div 256))) s"

lemma unat_widen [simp]: "unat (ucast (c :: u16) :: u32) = unat c" "unat (ucast (b :: u8) :: u32) = unat b"
proof -
  have "unat c < 4294967296" "unat b < 4294967296" using unat_lt_u16 [of c] unat_lt_u8 [of b] by linarith+
  then show "unat (ucast c :: u32) = unat c" "unat (ucast b :: u32) = unat b"
    by (simp_all add: unsigned_ucast_eq take_bit_nat_eq_self)
qed

lemma entry_index:
  "ucast (c :: u16) * 2 div 512 = (of_nat (unat c div 256) :: u32)" "unat c * 2 mod 512 = 2 * (unat c mod 256)"
proof -
  have "unat (ucast c * 2 :: u32) = unat c * 2" 
  proof -
    have "unat c * 2 < 4294967296" using unat_lt_u16 [of c] by linarith
    then show ?thesis by (simp add: unat_word_ariths)
  qed
  then have "unat (ucast c * 2 div 512 :: u32) = unat c div 256" by (simp add: unat_div div_mult2_eq [symmetric])
  then show "ucast c * 2 div 512 = (of_nat (unat c div 256) :: u32)" by (metis of_nat_unat ucast_id)
  show "unat c * 2 mod 512 = 2 * (unat c mod 256)" using mod_mult_mult1 [of 2 "unat c" 256] by (simp add: mult.commute)
qed

lemma fold_set_sector:
  "fold (\<lambda>l. set_sector l b) ls s =
     s\<lparr>dev := (dev s)\<lparr>sectors := (\<lambda>l. if l \<in> set ls then b else sectors (dev s) l)\<rparr>\<rparr>"
  by (induction ls arbitrary: s) (auto simp: set_sector_def fun_eq_iff)

lemma write_copies_ok:
  assumes "disk_ok s" "length b = 512" "\<And>l. l \<in> set ls \<Longrightarrow> l < 0x10000000"
  shows "write_copies ls b s = (True, fold (\<lambda>l. set_sector l b) ls s)"
  using assms by (induction ls arbitrary: s) simp_all

lemma geometry_bounds:
  assumes "geometry_ok c" "i < unat (fat_count c)" "k < unat (sectors_per_fat c)"
  shows "unat (fat_start_sector c + of_nat i * ucast (sectors_per_fat c) + of_nat k :: u32) =
      unat (fat_start_sector c) + i * unat (sectors_per_fat c) + k"
    and "unat (fat_start_sector c) + i * unat (sectors_per_fat c) + k < unat (root_dir_sector c)"
    and "unat (root_dir_sector c) \<le> 0x10000000"
proof -
  let ?f = "unat (sectors_per_fat c)"
  have "i * ?f + ?f \<le> unat (fat_count c) * ?f"
    using assms(2) by (metis Suc_leI mult_Suc add.commute mult_le_mono1)
  then have n: "i * ?f + k < unat (fat_count c) * ?f" using assms(3) by linarith
  then show r: "unat (fat_start_sector c) + i * ?f + k < unat (root_dir_sector c)" using assms(1) by (simp add: geometry_ok_def)
  show b: "unat (root_dir_sector c) \<le> 0x10000000" using assms(1) by (simp add: geometry_ok_def)
  have s: "i * ?f < 4294967296" "k < 4294967296" "i < 4294967296" 
    using r b assms(2) unat_lt_u8 [of "fat_count c"] by linarith+
  have m: "unat (of_nat i * ucast (sectors_per_fat c) :: u32) = i * ?f"
    using s by (simp add: unat_word_ariths word_bounds)
  have p: "unat (fat_start_sector c + of_nat i * ucast (sectors_per_fat c) :: u32) = unat (fat_start_sector c) + i * ?f"
    using r b m by (subst unat_plus_u32) simp_all
  show "unat (fat_start_sector c + of_nat i * ucast (sectors_per_fat c) + of_nat k :: u32) = unat (fat_start_sector c) + i * ?f + k"
    using r b p s by (subst unat_plus_u32) (simp_all add: word_bounds)
qed

text \<open>The sectors of the table and its copies.\<close>

definition fat_area :: "fat_sys \<Rightarrow> u32 set" where
  "fat_area s = {l. unat (fat_start_sector (fs_cache s)) \<le> unat l \<and> unat l < unat (root_dir_sector (fs_cache s))}"

lemma valid_index:
  assumes "fat_ok s" "valid_cluster s c"
  shows "unat c div 256 < unat (sectors_per_fat (fs_cache s))"
proof -
  have "unat c < 256 * unat (sectors_per_fat (fs_cache s))" using assms by (simp add: fat_ok_def geometry_ok_def valid_cluster_def)
  then show ?thesis by (simp add: less_mult_imp_div_less mult.commute)
qed

lemma fat_copies_area:
  assumes "geometry_ok (fs_cache s)" "k < unat (sectors_per_fat (fs_cache s))" "l \<in> set (fat_copies (fs_cache s) (of_nat k))"
  shows "l \<in> fat_area s" "l < 0x10000000"
proof -
  obtain i where i: "i < unat (fat_count (fs_cache s))"
    "l = fat_start_sector (fs_cache s) + of_nat i * ucast (sectors_per_fat (fs_cache s)) + of_nat k"
    using assms(3) by (auto simp: fat_copies_def)
  note b = geometry_bounds [OF assms(1) i(1) assms(2)]
  show "l \<in> fat_area s" unfolding fat_area_def i(2) mem_Collect_eq b(1) using b(2) by simp
  have "unat l < 0x10000000" unfolding i(2) b(1) using b(2,3) by linarith
  then show "l < 0x10000000" by (simp add: word_less_nat_alt)
qed

lemma fat_sector_first:
  assumes "geometry_ok (fs_cache s)"
  shows "fat_start_sector (fs_cache s) + of_nat k \<in> set (fat_copies (fs_cache s) (of_nat k))"
  using assms by (auto simp: fat_copies_def geometry_ok_def intro!: image_eqI [of _ _ 0])

lemma ensure_init_ok [simp]: "fat_ok s \<Longrightarrow> ensure_init s = Some s"
  by (simp add: ensure_init_def fat_ok_def geometry_ok_def)

lemma fat_sector_bound:
  assumes "fat_ok s" "k < unat (sectors_per_fat (fs_cache s))"
  shows "fat_start_sector (fs_cache s) + of_nat k < 0x10000000"
    and "fat_start_sector (fs_cache s) + of_nat k \<in> fat_area s"
  using fat_copies_area [OF _ assms(2) fat_sector_first] assms(1) by (auto simp: fat_ok_def)

lemma read_fat_entry_ok:
  assumes "fat_ok s" "valid_cluster s c"
  shows "fat16_read_fat_entry c s = Some (fat_entry s c, s)"
  using assms fat_sector_bound(1) [OF assms(1) valid_index [OF assms]]
  by (simp add: fat16_read_fat_entry_def fat_entry_def fat_sector_of_def entry_index) (simp add: fat_ok_def)

lemma write_fat_entry_ok:
  assumes "fat_ok s" "valid_cluster s c"
  shows "fat16_write_fat_entry c v s = Some (True, set_fat c v s)"
proof -
  let ?l = "fat_start_sector (fs_cache s) + of_nat (unat c div 256)"
  have d: "disk_ok s" "geometry_ok (fs_cache s)" using assms(1) by (simp_all add: fat_ok_def)
  have "write_copies (fat_copies (fs_cache s) (of_nat (unat c div 256))) (put16 (sectors (dev s) ?l) (2 * (unat c mod 256)) v) s =
      (True, set_fat c v s)"
    unfolding set_fat_def fat_sector_of_def
    using fat_copies_area(2) [OF d(2) valid_index [OF assms]] d(1) by (intro write_copies_ok) simp_all
  then show ?thesis
    using assms(1) fat_sector_bound(1) [OF assms(1) valid_index [OF assms]] d(1)
    by (simp add: fat16_write_fat_entry_def entry_index)
qed

lemma set_fat_eq:
  "set_fat c v s = s\<lparr>dev := (dev s)\<lparr>sectors := (\<lambda>l. if l \<in> set (fat_copies (fs_cache s) (of_nat (unat c div 256)))
     then put16 (sectors (dev s) (fat_sector_of s c)) (2 * (unat c mod 256)) v else sectors (dev s) l)\<rparr>\<rparr>"
  unfolding set_fat_def by (rule fold_set_sector)

lemma set_fat_fields [simp]:
  "fs_cache (set_fat c v s) = fs_cache s" "con (set_fat c v s) = con s" "fheap (set_fat c v s) = fheap s"
  "valid_cluster (set_fat c v s) = valid_cluster s" "fat_area (set_fat c v s) = fat_area s"
  "fat_sector_of (set_fat c v s) = fat_sector_of s"
  by (simp_all add: set_fat_eq valid_cluster_def fat_area_def fat_sector_of_def fun_eq_iff)

lemma set_fat_ok [simp]: "fat_ok s \<Longrightarrow> fat_ok (set_fat c v s)"
  unfolding fat_ok_def set_fat_eq by (simp add: disk_ok_def)

lemma set_fat_outside:
  assumes "fat_ok s" "valid_cluster s c" "l \<notin> fat_area s"
  shows "sectors (dev (set_fat c v s)) l = sectors (dev s) l"
proof -
  have "l \<notin> set (fat_copies (fs_cache s) (of_nat (unat c div 256)))"
    using fat_copies_area(1) [OF _ valid_index [OF assms(1,2)]] assms(1,3) by (auto simp: fat_ok_def)
  then show ?thesis by (simp add: set_fat_eq)
qed

text \<open>The first copy: the sector of another entry is a copy of the changed one only if it is the same sector.\<close>

lemma fat_sector_copy:
  assumes "fat_ok s" "k < unat (sectors_per_fat (fs_cache s))" "j < unat (sectors_per_fat (fs_cache s))"
    and "fat_start_sector (fs_cache s) + of_nat j \<in> set (fat_copies (fs_cache s) (of_nat k))"
  shows "j = k"
proof -
  let ?c = "fs_cache s"
  have g: "geometry_ok ?c" using assms(1) by (simp add: fat_ok_def)
  obtain i where i: "i < unat (fat_count ?c)"
    "fat_start_sector ?c + of_nat j = fat_start_sector ?c + of_nat i * ucast (sectors_per_fat ?c) + of_nat k"
    using assms(4) by (auto simp: fat_copies_def)
  have "0 < unat (fat_count ?c)" using g by (simp add: geometry_ok_def)
  from geometry_bounds(1) [OF g this assms(3)] have "unat (fat_start_sector ?c + of_nat j) = unat (fat_start_sector ?c) + j" by simp
  with i(2) geometry_bounds(1) [OF g i(1) assms(2)] 
  have "unat (fat_start_sector ?c) + j = unat (fat_start_sector ?c) + i * unat (sectors_per_fat ?c) + k" by metis
  then have e: "j = i * unat (sectors_per_fat ?c) + k" by linarith
  show ?thesis
  proof (cases i)
    case (Suc n)
    then have "unat (sectors_per_fat ?c) \<le> j" using e by simp
    with assms(3) show ?thesis by simp
  qed (use e in simp)
qed

lemma fat_entry_set_fat:
  assumes "fat_ok s" "valid_cluster s c" "valid_cluster s c'"
  shows "fat_entry (set_fat c v s) c' = (if c' = c then v else fat_entry s c')"
proof (cases "unat c' div 256 = unat c div 256")
  case True
  have f: "fat_sector_of s c' = fat_sector_of s c" using True by (simp add: fat_sector_of_def)
  have g: "geometry_ok (fs_cache s)" and d: "disk_ok s" using assms(1) by (simp_all add: fat_ok_def)
  have e: "fat_entry (set_fat c v s) c' = get16 (put16 (sectors (dev s) (fat_sector_of s c)) (2 * (unat c mod 256)) v) (2 * (unat c' mod 256))"
    using fat_sector_first [OF g, of "unat c div 256"] unfolding fat_entry_def set_fat_fields f
    by (simp add: set_fat_eq fat_sector_of_def)
  show ?thesis
  proof (cases "c' = c")
    case True
    have "Suc (2 * (unat c mod 256)) < 512" by linarith
    then show ?thesis using e d True by simp
  next
    case False
    have "unat c' mod 256 \<noteq> unat c mod 256" using False True by (metis div_mult_mod_eq word_unat_eq_iff)
    then show ?thesis using e False f unfolding fat_entry_def by (subst (asm) get16_put16_other) auto
  qed
next
  case False
  then have "c' \<noteq> c" by auto
  moreover have "fat_sector_of s c' \<notin> set (fat_copies (fs_cache s) (of_nat (unat c div 256)))"
    using fat_sector_copy [OF assms(1) valid_index [OF assms(1,2)] valid_index [OF assms(1,3)]] False
    by (auto simp: fat_sector_of_def)
  ultimately show ?thesis unfolding fat_entry_def set_fat_fields by (simp add: set_fat_eq)
qed

lemma cluster_index:
  assumes "256 * k + i < 65536"
  shows "unat (ucast (of_nat k * 256 + of_nat i :: u32) :: u16) = 256 * k + i"
proof -
  have "of_nat k * 256 + of_nat i = (of_nat (256 * k + i) :: u32)" by simp
  moreover have "unat (of_nat (256 * k + i) :: u32) = 256 * k + i" using assms by (intro unat_of_nat_u32) simp
  ultimately show ?thesis using assms by (simp add: unsigned_ucast_eq take_bit_nat_eq_self mult.commute)
qed

text \<open>One sector of the table: \<open>free j\<close> says that its entry \<open>j\<close> is free.\<close>

lemma alloc_entries_spec:
  fixes k clusters b defines "n \<equiv> unat clusters + 2" and "free \<equiv> \<lambda>j. get16 b (2 * j) = 0"
  assumes "n \<le> 0xFFF0" "256 * k \<le> n" "i \<le> 256"
  shows "case alloc_entries clusters b (of_nat k) i of
      None \<Rightarrow> (\<forall>j. i \<le> j \<and> j < 256 \<and> 2 \<le> 256 * k + j \<longrightarrow> \<not> free j) \<and> (i < 256 \<longrightarrow> 256 * k + 256 \<le> n)
    | Some c \<Rightarrow> if c = 0 then (\<forall>j. i \<le> j \<and> j < 256 \<and> 2 \<le> 256 * k + j \<and> 256 * k + j < n \<longrightarrow> \<not> free j) \<and> n < 256 * k + 256
       else \<exists>j. i \<le> j \<and> j < 256 \<and> unat c = 256 * k + j \<and> 2 \<le> unat c \<and> unat c < n \<and> free j \<and>
         (\<forall>j'. i \<le> j' \<and> j' < j \<and> 2 \<le> 256 * k + j' \<longrightarrow> \<not> free j')"
  using assms(5)
proof (induction "256 - i" arbitrary: i)
  case 0
  then show ?case by (subst alloc_entries.simps) (auto simp: not_less)
next
  case (Suc d)
  then have i: "i < 256" by simp
  let ?r = "alloc_entries clusters b (of_nat k) (Suc i)"
  have "k \<le> 255" using assms(3,4) by presburger
  then have bound: "256 * k + i < 65536" using i by simp
  note c = cluster_index [OF bound]
  have step: "j = i \<or> Suc i \<le> j" if "i \<le> j" for j using that by auto
  have IH: "case ?r of
      None \<Rightarrow> (\<forall>j. Suc i \<le> j \<and> j < 256 \<and> 2 \<le> 256 * k + j \<longrightarrow> \<not> free j) \<and> (Suc i < 256 \<longrightarrow> 256 * k + 256 \<le> n)
    | Some c \<Rightarrow> if c = 0 then (\<forall>j. Suc i \<le> j \<and> j < 256 \<and> 2 \<le> 256 * k + j \<and> 256 * k + j < n \<longrightarrow> \<not> free j) \<and> n < 256 * k + 256
       else \<exists>j. Suc i \<le> j \<and> j < 256 \<and> unat c = 256 * k + j \<and> 2 \<le> unat c \<and> unat c < n \<and> free j \<and>
         (\<forall>j'. Suc i \<le> j' \<and> j' < j \<and> 2 \<le> 256 * k + j' \<longrightarrow> \<not> free j')"
    using Suc(1) [of "Suc i"] Suc(2,3) i by simp
  consider "256 * k + i < 2" | "2 \<le> 256 * k + i" "n \<le> 256 * k + i" | "2 \<le> 256 * k + i" "256 * k + i < n" "free i"
    | "2 \<le> 256 * k + i" "256 * k + i < n" "\<not> free i" by linarith
  then show ?case
  proof cases
    case 1
    then have "alloc_entries clusters b (of_nat k) i = ?r"
      using i c by (subst alloc_entries.simps) (simp add: word_less_nat_alt Let_def)
    moreover have "Suc i < 256" "\<not> 2 \<le> 256 * k + i" using 1 by simp_all
    ultimately show ?thesis using IH step by (auto split: option.splits if_splits; force)
  next
    case 2
    then have "alloc_entries clusters b (of_nat k) i = Some 0"
      using i c by (subst alloc_entries.simps) (simp add: word_less_nat_alt Let_def n_def)
    then show ?thesis using 2 i by auto
  next
    case 3
    then have "alloc_entries clusters b (of_nat k) i = Some (ucast (of_nat k * 256 + of_nat i :: u32))"
      using i c by (subst alloc_entries.simps) (simp add: word_less_nat_alt Let_def n_def free_def)
    moreover have "ucast (of_nat k * 256 + of_nat i :: u32) \<noteq> (0 :: u16)" using c 3(1) by (metis unat_0 not_numeral_le_zero)
    ultimately show ?thesis using 3 i c by auto
  next
    case 4
    then have "alloc_entries clusters b (of_nat k) i = ?r"
      using i c by (subst alloc_entries.simps) (simp add: word_less_nat_alt Let_def n_def free_def)
    moreover have "Suc i < 256 \<or> 256 * k + 256 \<le> n" using 4(2) i by linarith
    ultimately show ?thesis using IH step 4(3) by (auto split: option.splits if_splits; force)
  qed
qed

definition free_cluster :: "fat_sys \<Rightarrow> u16 \<Rightarrow> bool" where
  "free_cluster s c \<longleftrightarrow> valid_cluster s c \<and> fat_entry s c = 0"

lemma fat_entry_split:
  assumes "unat c = 256 * k + j" "j < 256"
  shows "fat_entry s c = get16 (sectors (dev s) (fat_start_sector (fs_cache s) + of_nat k)) (2 * j)"
proof -
  have "unat c div 256 = k" "unat c mod 256 = j" using assms by simp_all
  then show ?thesis by (simp add: fat_entry_def fat_sector_of_def)
qed

lemma cluster_split: "unat (c :: u16) = 256 * (unat c div 256) + unat c mod 256"
  by simp

lemma alloc_sectors_ok:
  assumes ok: "fat_ok s" and k: "k \<le> unat (sectors_per_fat (fs_cache s))" "256 * k \<le> unat (total_clusters (fs_cache s)) + 2"
    and before: "\<And>c. free_cluster s c \<Longrightarrow> 256 * k \<le> unat c"
  shows "(\<exists>c. free_cluster s c \<and> (\<forall>c'. free_cluster s c' \<longrightarrow> c \<le> c') \<and>
      alloc_sectors [k..<unat (sectors_per_fat (fs_cache s))] s = Some (c, set_fat c 0xFFFF s)) \<or>
    (\<forall>c. \<not> free_cluster s c) \<and> alloc_sectors [k..<unat (sectors_per_fat (fs_cache s))] s = Some (0, s)"
  using k before
proof (induction "unat (sectors_per_fat (fs_cache s)) - k" arbitrary: k)
  case 0
  then have e: "k = unat (sectors_per_fat (fs_cache s))" by simp
  have "\<not> free_cluster s c" for c
    using 0(4) [of c] ok e by (auto simp: free_cluster_def valid_cluster_def fat_ok_def geometry_ok_def)
  then show ?case using e by simp
next
  case (Suc d)
  let ?spf = "unat (sectors_per_fat (fs_cache s))" and ?n = "unat (total_clusters (fs_cache s)) + 2"
  let ?b = "sectors (dev s) (fat_start_sector (fs_cache s) + of_nat k)"
  let ?r = "alloc_entries (total_clusters (fs_cache s)) ?b (of_nat k) 0"
  have kl: "k < ?spf" using Suc(2,3) by simp
  have d: "disk_ok s" and n: "?n \<le> 0xFFF0" using ok by (simp_all add: fat_ok_def geometry_ok_def)
  have u: "[k..<?spf] = k # [Suc k..<?spf]" using kl by (simp add: upt_rec)
  have sp: "case ?r of
      None \<Rightarrow> (\<forall>j. 0 \<le> j \<and> j < 256 \<and> 2 \<le> 256 * k + j \<longrightarrow> \<not> get16 ?b (2 * j) = 0) \<and> (0 < (256 :: nat) \<longrightarrow> 256 * k + 256 \<le> ?n)
    | Some c \<Rightarrow> if c = 0 then (\<forall>j. 0 \<le> j \<and> j < 256 \<and> 2 \<le> 256 * k + j \<and> 256 * k + j < ?n \<longrightarrow> \<not> get16 ?b (2 * j) = 0) \<and> ?n < 256 * k + 256
       else \<exists>j. 0 \<le> j \<and> j < 256 \<and> unat c = 256 * k + j \<and> 2 \<le> unat c \<and> unat c < ?n \<and> get16 ?b (2 * j) = 0 \<and>
         (\<forall>j'. 0 \<le> j' \<and> j' < j \<and> 2 \<le> 256 * k + j' \<longrightarrow> \<not> get16 ?b (2 * j') = 0)"
    by (rule alloc_entries_spec) (use n Suc(4) in simp_all)
  have in_sector: "\<exists>j. unat c = 256 * k + j \<and> j < 256 \<and> 2 \<le> unat c \<and> unat c < ?n \<and> get16 ?b (2 * j) = 0"
    if "free_cluster s c" "unat c < 256 * k + 256" for c
  proof -
    have "unat c = 256 * k + (unat c - 256 * k)" "unat c - 256 * k < 256" using Suc(5) [OF that(1)] that(2) by simp_all
    moreover from fat_entry_split [OF this, of s] that(1) have "get16 ?b (2 * (unat c - 256 * k)) = 0" by (simp add: free_cluster_def)
    ultimately show ?thesis using that(1) by (auto simp: free_cluster_def valid_cluster_def)
  qed
  have rd: "alloc_sectors [k..<?spf] s = (case ?r of None \<Rightarrow> alloc_sectors [Suc k..<?spf] s
      | Some c \<Rightarrow> if c = 0 then Some (0, s) else do { (_, s2) \<leftarrow> fat16_write_fat_entry c 0xFFFF s; Some (c, s2) })"
    unfolding u using d fat_sector_bound(1) [OF ok kl] by simp
  show ?case
  proof (cases ?r)
    case None
    with sp have "\<And>j. j < 256 \<Longrightarrow> 2 \<le> 256 * k + j \<Longrightarrow> get16 ?b (2 * j) \<noteq> 0" "256 * k + 256 \<le> ?n" by auto
    then have "256 * Suc k \<le> unat c" if "free_cluster s c" for c using in_sector [OF that] by (force simp: not_less)
    then show ?thesis using Suc(1) [of "Suc k"] Suc(2) kl None rd \<open>256 * k + 256 \<le> ?n\<close> by simp
  next
    case (Some c)
    show ?thesis
    proof (cases "c = 0")
      case True
      with sp Some have "\<And>j. j < 256 \<Longrightarrow> 2 \<le> 256 * k + j \<Longrightarrow> 256 * k + j < ?n \<Longrightarrow> get16 ?b (2 * j) \<noteq> 0" "?n < 256 * k + 256" by auto
      then have "\<not> free_cluster s c'" for c'
        using in_sector [of c'] by (auto simp: free_cluster_def valid_cluster_def)
      then show ?thesis using rd Some True by simp
    next
      case False
      with sp Some obtain j where j: "j < 256" "unat c = 256 * k + j" "2 \<le> unat c" "unat c < ?n" "get16 ?b (2 * j) = 0"
        "\<And>j'. j' < j \<Longrightarrow> 2 \<le> 256 * k + j' \<Longrightarrow> get16 ?b (2 * j') \<noteq> 0" by auto
      have v: "valid_cluster s c" using j(3,4) by (simp add: valid_cluster_def)
      then have f: "free_cluster s c" using fat_entry_split [OF j(2,1), of s] j(5) by (simp add: free_cluster_def)
      have "c \<le> c'" if fc: "free_cluster s c'" for c'
      proof (rule ccontr)
        assume "\<not> c \<le> c'"
        then have l: "unat c' < 256 * k + j" using j(2) by (simp add: word_le_nat_alt)
        obtain j' where "unat c' = 256 * k + j'" "2 \<le> unat c'" "get16 ?b (2 * j') = 0"
          using in_sector [OF fc] l j(1) by auto
        then show False using j(6) [of j'] l by simp
      qed
      then show ?thesis using f rd Some False write_fat_entry_ok [OF ok v] by auto
    qed
  qed
qed

lemma alloc_cluster_ok:
  assumes "fat_ok s"
  shows "(\<exists>c. free_cluster s c \<and> (\<forall>c'. free_cluster s c' \<longrightarrow> c \<le> c') \<and>
      fat16_alloc_cluster s = Some (c, set_fat c 0xFFFF s)) \<or>
    (\<forall>c. \<not> free_cluster s c) \<and> fat16_alloc_cluster s = Some (0, s)"
  using alloc_sectors_ok [OF assms, of 0] assms by (simp add: fat16_alloc_cluster_def)

section \<open>Chains\<close>

text \<open>The clusters a chain visits, in order, up to an end marker.\<close>

fun fat_chain :: "fat_sys \<Rightarrow> u16 \<Rightarrow> u16 list \<Rightarrow> bool" where
  "fat_chain s c [] \<longleftrightarrow> c \<ge> 0xFFF8"
| "fat_chain s c (x # xs) \<longleftrightarrow> c = x \<and> valid_cluster s x \<and> fat_chain s (fat_entry s x) xs"

lemma valid_cluster_range: "fat_ok s \<Longrightarrow> valid_cluster s c \<Longrightarrow> 2 \<le> c \<and> c < 0xFFF0"
  by (simp add: fat_ok_def geometry_ok_def valid_cluster_def word_le_nat_alt word_less_nat_alt)

lemma fat_chain_unique:
  assumes "fat_ok s" "fat_chain s c xs" "fat_chain s c ys"
  shows "ys = xs"
  using assms(2,3)
proof (induction xs arbitrary: c ys)
  case Nil
  then show ?case using valid_cluster_range [OF assms(1)] by (cases ys) (fastforce simp: word_le_nat_alt word_less_nat_alt)+
next
  case (Cons x xs)
  then show ?case using valid_cluster_range [OF assms(1)] by (cases ys) (fastforce simp: word_le_nat_alt word_less_nat_alt)+
qed

lemma fat_chain_suffix: "fat_chain s c (xs @ y # ys) \<Longrightarrow> fat_chain s y (y # ys)"
  by (induction xs arbitrary: c) auto

text \<open>A chain that ends visits no cluster twice, so it is no longer than the volume.\<close>

lemma fat_chain_distinct:
  assumes "fat_ok s" "fat_chain s c xs"
  shows "distinct xs"
  using assms(2)
proof (induction xs arbitrary: c)
  case (Cons x xs)
  have "x \<notin> set xs"
  proof
    assume "x \<in> set xs"
    then obtain as bs where "xs = as @ x # bs" by (meson split_list)
    moreover from this Cons.prems have "fat_chain s x (x # as @ x # bs)" by simp
    moreover from this have "fat_chain s x (x # bs)" using fat_chain_suffix [of s x "x # as" x bs] by simp
    ultimately show False using fat_chain_unique [OF assms(1), of x "x # bs" "x # as @ x # bs"] by simp
  qed
  with Cons show ?case by auto
qed simp

lemma fat_chain_valid: "fat_chain s c xs \<Longrightarrow> x \<in> set xs \<Longrightarrow> valid_cluster s x"
  by (induction xs arbitrary: c) auto

lemma fat_chain_length:
  assumes "fat_ok s" "fat_chain s c xs"
  shows "length xs \<le> unat (total_clusters (fs_cache s))"
proof -
  let ?n = "unat (total_clusters (fs_cache s))"
  have "unat ` set xs \<subseteq> {2..<?n + 2}" using fat_chain_valid [OF assms(2)] by (auto simp: valid_cluster_def)
  then have "card (unat ` set xs) \<le> ?n" using card_mono [of "{2..<?n + 2}"] by fastforce
  moreover have "card (unat ` set xs) = length xs"
    using fat_chain_distinct [OF assms] by (simp add: card_image inj_on_def word_unat_eq_iff [symmetric] distinct_card)
  ultimately show ?thesis by simp
qed

lemma fat_chain_cong:
  assumes "fat_chain s c xs" "\<And>x. x \<in> set xs \<Longrightarrow> fat_entry s' x = fat_entry s x" "valid_cluster s' = valid_cluster s"
  shows "fat_chain s' c xs"
  using assms by (induction xs arbitrary: c) auto

lemma free_loop_ok:
  assumes "fat_ok s" "fat_chain s c xs" "length xs \<le> n"
  shows "free_loop n c s = Some (fold (\<lambda>x. set_fat x 0) xs s)"
  using assms
proof (induction xs arbitrary: s c n)
  case Nil
  then have "\<not> c < 0xFFF0" by (simp add: word_le_nat_alt word_less_nat_alt)
  then show ?case by (cases n) simp_all
next
  case (Cons x xs)
  then obtain m where n: "n = Suc m" "length xs \<le> m" by (cases n) auto
  have v: "valid_cluster s x" "c = x" using Cons.prems by simp_all
  have "fat_chain (set_fat x 0 s) (fat_entry s x) xs"
  proof (rule fat_chain_cong)
    show "fat_chain s (fat_entry s x) xs" using Cons.prems(2) by simp
    show "fat_entry (set_fat x 0 s) y = fat_entry s y" if "y \<in> set xs" for y
      using fat_entry_set_fat [OF Cons.prems(1) v(1) fat_chain_valid [OF Cons.prems(2)], of y 0]
        fat_chain_distinct [OF Cons.prems(1,2)] that by auto
  qed simp
  from Cons.IH [OF _ this n(2)] show ?case
    using Cons.prems(1) v valid_cluster_range [OF Cons.prems(1) v(1)] n(1)
    by (simp add: read_fat_entry_ok write_fat_entry_ok)
qed

lemma fold_set_fat:
  assumes "fat_ok s" "\<And>x. x \<in> set xs \<Longrightarrow> valid_cluster s x"
  shows "fat_ok (fold (\<lambda>x. set_fat x v) xs s)"
    and "valid_cluster s c \<Longrightarrow> fat_entry (fold (\<lambda>x. set_fat x v) xs s) c = (if c \<in> set xs then v else fat_entry s c)"
    and "l \<notin> fat_area s \<Longrightarrow> sectors (dev (fold (\<lambda>x. set_fat x v) xs s)) l = sectors (dev s) l"
    and "fs_cache (fold (\<lambda>x. set_fat x v) xs s) = fs_cache s" "con (fold (\<lambda>x. set_fat x v) xs s) = con s"
      "fheap (fold (\<lambda>x. set_fat x v) xs s) = fheap s"
proof -
  show "fat_ok (fold (\<lambda>x. set_fat x v) xs s)" using assms by (induction xs arbitrary: s) simp_all
  show "fat_entry (fold (\<lambda>x. set_fat x v) xs s) c = (if c \<in> set xs then v else fat_entry s c)" if "valid_cluster s c"
    using assms that by (induction xs arbitrary: s) (simp_all add: fat_entry_set_fat)
  show "sectors (dev (fold (\<lambda>x. set_fat x v) xs s)) l = sectors (dev s) l" if "l \<notin> fat_area s"
    using assms that by (induction xs arbitrary: s) (simp_all add: set_fat_outside)
qed (induction xs arbitrary: s; simp)+

lemma free_chain_ok:
  assumes "fat_ok s" "fat_chain s c xs"
  shows "fat16_free_chain c s = Some (fold (\<lambda>x. set_fat x 0) xs s)"
proof (cases "c < 2 \<or> c \<ge> 0xFFF8")
  case True
  then have "xs = []"
    using assms valid_cluster_range [of s c] by (cases xs) (auto simp: word_le_nat_alt word_less_nat_alt)
  then show ?thesis using True by (simp add: fat16_free_chain_def)
next
  case False
  then show ?thesis using free_loop_ok [OF assms fat_chain_length [OF assms]] by (simp add: fat16_free_chain_def)
qed

section \<open>Properties\<close>

lemma ata_keeps_more:
  "fs_cache (snd (ata_read_sector l s)) = fs_cache s" "fs_cache (snd (ata_write_sector l b s)) = fs_cache s"
  by (simp_all add: ata_read_sector_def ata_write_sector_def ata_fail_def Let_def split: prod.splits)

lemma write_copies_cache: "fs_cache (snd (write_copies ls b s)) = fs_cache s"
proof (induction ls arbitrary: s)
  case (Cons l ls)
  then show ?case using ata_keeps_more(2) [of l b s] by (auto split: prod.splits)
qed simp

lemma fat_entry_ops_return:
  assumes "initialized (fs_cache s)"
  shows "\<exists>v s'. fat16_read_fat_entry c s = Some (v, s') \<and> fs_cache s' = fs_cache s"
    and "\<exists>b s'. fat16_write_fat_entry c w s = Some (b, s') \<and> fs_cache s' = fs_cache s"
proof -
  have e: "ensure_init s = Some s" using assms by (simp add: ensure_init_def)
  show "\<exists>v s'. fat16_read_fat_entry c s = Some (v, s') \<and> fs_cache s' = fs_cache s"
    using ata_keeps_more(1) [of "fat_start_sector (fs_cache s) + ucast c * 2 div 512" s]
    by (auto simp: fat16_read_fat_entry_def e split: prod.splits option.splits)
  show "\<exists>b s'. fat16_write_fat_entry c w s = Some (b, s') \<and> fs_cache s' = fs_cache s"
  proof (cases "ata_read_sector (fat_start_sector (fs_cache s) + ucast c * 2 div 512) s")
    case (Pair r s1)
    then have s1: "fs_cache s1 = fs_cache s"
      using ata_keeps_more(1) [of "fat_start_sector (fs_cache s) + ucast c * 2 div 512" s] by simp
    show ?thesis
    proof (cases r)
      case (Some b)
      then show ?thesis using Pair s1 e write_copies_cache [of "fat_copies (fs_cache s1) (ucast c * 2 div 512)" "put16 b (unat c * 2 mod 512) w" s1]
        by (cases "write_copies (fat_copies (fs_cache s1) (ucast c * 2 div 512)) (put16 b (unat c * 2 mod 512) w) s1")
          (simp add: fat16_write_fat_entry_def)
    qed (use Pair s1 e in \<open>auto simp: fat16_write_fat_entry_def intro: exI [of _ False]\<close>)
  qed
qed

lemma free_loop_returns:
  assumes "initialized (fs_cache s)"
  shows "\<exists>s'. free_loop n c s = Some s'"
  using assms
proof (induction n arbitrary: c s)
  case (Suc n)
  obtain v s1 where r: "fat16_read_fat_entry c s = Some (v, s1)" "fs_cache s1 = fs_cache s"
    using fat_entry_ops_return(1) [OF Suc.prems] by blast
  then obtain b s2 where w: "fat16_write_fat_entry c 0 s1 = Some (b, s2)" "fs_cache s2 = fs_cache s"
    using fat_entry_ops_return(2) [of s1] Suc.prems by metis
  show ?case using Suc.IH [of s2 v] Suc.prems r w by simp
qed simp

text \<open>
  C26: writing an entry of the table stores it in every copy, reading returns what was written, and
  all other entries and all sectors outside the table keep their contents.
\<close>

theorem fat_entry_roundtrip:
  assumes "fat_ok s" "valid_cluster s c"
  shows "\<exists>s'. fat16_write_fat_entry c v s = Some (True, s') \<and> fat_ok s' \<and>
    (\<forall>c'. valid_cluster s c' \<longrightarrow> fat16_read_fat_entry c' s' = Some (if c' = c then v else fat_entry s c', s')) \<and>
    (\<forall>l \<in> set (fat_copies (fs_cache s) (of_nat (unat c div 256))). sectors (dev s') l = sectors (dev s') (fat_sector_of s c)) \<and>
    (\<forall>l. l \<notin> fat_area s \<longrightarrow> sectors (dev s') l = sectors (dev s) l)"
proof (intro exI conjI allI impI ballI)
  show "fat16_write_fat_entry c v s = Some (True, set_fat c v s)" by (rule write_fat_entry_ok [OF assms])
  show "fat_ok (set_fat c v s)" using assms(1) by simp
  show "fat16_read_fat_entry c' (set_fat c v s) = Some (if c' = c then v else fat_entry s c', set_fat c v s)"
    if "valid_cluster s c'" for c'
    using read_fat_entry_ok [of "set_fat c v s" c'] fat_entry_set_fat [OF assms that, of v] assms(1) that by simp
  show "sectors (dev (set_fat c v s)) l = sectors (dev (set_fat c v s)) (fat_sector_of s c)"
    if "l \<in> set (fat_copies (fs_cache s) (of_nat (unat c div 256)))" for l
    using that fat_sector_first [of s "unat c div 256"] assms(1) by (simp add: set_fat_eq fat_sector_of_def fat_ok_def)
  show "sectors (dev (set_fat c v s)) l = sectors (dev s) l" if "l \<notin> fat_area s" for l
    by (rule set_fat_outside [OF assms that])
qed

text \<open>A small volume: two copies of a one-sector table, a root directory of one sector, eight clusters.\<close>

definition small_cache :: fat16_cache_t where
  "small_cache = \<lparr>fat_start_sector = 1, root_dir_sector = 3, data_start_sector = 4, root_dir_size_sectors = 1,
     sectors_per_fat = 1, fat_count = 2, sectors_per_cluster = 1, total_sectors = 12, total_clusters = 8, initialized = True\<rparr>"

definition chain_sector :: "u8 list" where
  "chain_sector = put16 (put16 (replicate 512 0) 4 3) 6 0xFFFF"

text \<open>Cluster 2 is followed by cluster 3, which ends the chain.\<close>

definition small_volume :: fat_sys where
  "small_volume = \<lparr>dev = quiet_disk\<lparr>sectors := (\<lambda>l. if l = 1 \<or> l = 2 then chain_sector else replicate 512 0)\<rparr>,
     con = boot_console, fs_cache = small_cache, fheap = boot_heap\<rparr>"

lemma small_volume_ok: "fat_ok small_volume"
proof -
  have "disk_ok small_volume"
    by (simp add: disk_ok_def small_volume_def chain_sector_def quiet_disk_def read_answered_def write_answered_def
        drive_ready_def quiet_answered)
  then show ?thesis by (simp add: fat_ok_def small_volume_def geometry_ok_def small_cache_def)
qed

lemma small_volume_entries:
  "valid_cluster small_volume 2" "valid_cluster small_volume 3" "valid_cluster small_volume 4"
  "fat_entry small_volume 2 = 3" "fat_entry small_volume 3 = 0xFFFF" "fat_entry small_volume 4 = 0"
proof -
  have s: "sectors (dev small_volume) (fat_sector_of small_volume c) = chain_sector" if "unat c < 256" for c
    using that by (simp add: small_volume_def fat_sector_of_def small_cache_def)
  show "fat_entry small_volume 2 = 3" "fat_entry small_volume 3 = 0xFFFF" "fat_entry small_volume 4 = 0"
    unfolding fat_entry_def by (subst s; simp add: chain_sector_def get16_put16_other get16_def [of "replicate _ _"])+
qed (simp_all add: valid_cluster_def small_volume_def small_cache_def)

theorem fat_entry_roundtrip_witness:
  "\<exists>s'. fat16_write_fat_entry 4 9 small_volume = Some (True, s') \<and> fat16_read_fat_entry 4 s' = Some (9, s') \<and>
     fat16_read_fat_entry 2 s' = Some (3, s')"
  using fat_entry_roundtrip [OF small_volume_ok small_volume_entries(3), of 9] small_volume_entries by force

text \<open>
  C27: \<open>fat16_alloc_cluster\<close> returns the lowest free cluster, marked as the end of a chain, and leaves
  every other entry alone; it returns 0, with nothing changed, exactly when no cluster is free.
\<close>

theorem fat_alloc_cluster_lowest:
  assumes "fat_ok s"
  shows "\<exists>c s'. fat16_alloc_cluster s = Some (c, s') \<and> fat_ok s' \<and>
    (if c = 0 then (\<forall>x. valid_cluster s x \<longrightarrow> fat_entry s x \<noteq> 0) \<and> s' = s
     else valid_cluster s c \<and> fat_entry s c = 0 \<and> (\<forall>x. valid_cluster s x \<and> x < c \<longrightarrow> fat_entry s x \<noteq> 0) \<and>
       (\<forall>x. valid_cluster s x \<longrightarrow> fat_entry s' x = (if x = c then 0xFFFF else fat_entry s x)) \<and>
       (\<forall>l. l \<notin> fat_area s \<longrightarrow> sectors (dev s') l = sectors (dev s) l))"
  using alloc_cluster_ok [OF assms]
proof (elim disjE exE conjE)
  fix c
  assume c: "free_cluster s c" "\<forall>c'. free_cluster s c' \<longrightarrow> c \<le> c'" "fat16_alloc_cluster s = Some (c, set_fat c 0xFFFF s)"
  have v: "valid_cluster s c" "c \<noteq> 0" using c(1) by (auto simp: free_cluster_def valid_cluster_def)
  show ?thesis
    using assms c v fat_entry_set_fat [OF assms v(1)] set_fat_outside [OF assms v(1)]
    by (intro exI [of _ c] exI [of _ "set_fat c 0xFFFF s"]) (auto simp: free_cluster_def not_le [symmetric])
qed (use assms in \<open>auto simp: free_cluster_def\<close>)

theorem fat_alloc_cluster_lowest_witness:
  "\<exists>s'. fat16_alloc_cluster small_volume = Some (4, s')"
proof -
  obtain c s' where c: "fat16_alloc_cluster small_volume = Some (c, s')"
    "if c = 0 then (\<forall>x. valid_cluster small_volume x \<longrightarrow> fat_entry small_volume x \<noteq> 0) \<and> s' = small_volume
     else valid_cluster small_volume c \<and> fat_entry small_volume c = 0 \<and>
       (\<forall>x. valid_cluster small_volume x \<and> x < c \<longrightarrow> fat_entry small_volume x \<noteq> 0) \<and>
       (\<forall>x. valid_cluster small_volume x \<longrightarrow> fat_entry s' x = (if x = c then 0xFFFF else fat_entry small_volume x)) \<and>
       (\<forall>l. l \<notin> fat_area small_volume \<longrightarrow> sectors (dev s') l = sectors (dev small_volume) l)"
    using fat_alloc_cluster_lowest [OF small_volume_ok] by blast
  have "c \<noteq> 0" using c(2) small_volume_entries(3,6) by auto
  with c(2) have f: "fat_entry small_volume c = 0" "2 \<le> unat c" "\<not> 4 < c"
    using small_volume_entries(3,6) by (auto simp: valid_cluster_def)
  have "c \<noteq> 2" "c \<noteq> 3" using f(1) small_volume_entries(4,5) by auto
  then have "unat c \<noteq> 2" "unat c \<noteq> 3" by (metis of_nat_numeral of_nat_unat ucast_id)+
  then have "unat c = unat (4 :: u16)" using f by (simp add: word_less_nat_alt)
  then have "c = 4" by (simp only: word_unat_eq_iff)
  with c(1) show ?thesis by blast
qed

text \<open>
  C28: \<open>fat16_free_chain\<close> returns on every table, cyclic or corrupt, and however the disk behaves; on a
  well-formed chain it frees exactly the clusters of the chain.
\<close>

theorem fat_free_chain_terminates:
  assumes "initialized (fs_cache s)"
  shows "\<exists>s'. fat16_free_chain c s = Some s' \<and> (fat_ok s \<and> fat_chain s c xs \<longrightarrow>
    fat_ok s' \<and> (\<forall>x. valid_cluster s x \<longrightarrow> fat_entry s' x = (if x \<in> set xs then 0 else fat_entry s x)) \<and>
    (\<forall>l. l \<notin> fat_area s \<longrightarrow> sectors (dev s') l = sectors (dev s) l))"
proof (cases "fat_ok s \<and> fat_chain s c xs")
  case False
  then show ?thesis using free_loop_returns [OF assms] by (auto simp: fat16_free_chain_def)
next
  case True
  then have "fat16_free_chain c s = Some (fold (\<lambda>x. set_fat x 0) xs s)" by (simp add: free_chain_ok)
  moreover have "\<And>x. x \<in> set xs \<Longrightarrow> valid_cluster s x" using True fat_chain_valid by blast
  ultimately show ?thesis using True fold_set_fat [of s xs] by auto
qed

theorem fat_free_chain_terminates_witness:
  "\<exists>s'. fat16_free_chain 2 small_volume = Some s' \<and> fat_entry s' 2 = 0 \<and> fat_entry s' 3 = 0"
proof -
  have "initialized (fs_cache small_volume)" by (simp add: small_volume_def small_cache_def)
  moreover have "fat_chain small_volume 2 [2, 3]" using small_volume_entries by simp
  ultimately show ?thesis
    using fat_free_chain_terminates [of small_volume 2 "[2, 3]"] small_volume_ok small_volume_entries(1,2) by auto
qed

end
