(* ===== verification/Fat16_Names.thy ===== *)
theory Fat16_Names
  imports Bytes "HOL-Library.Sublist"
begin

text \<open>
  Layer 2 of src/src/fs/fat16.c: comparison of names with 8.3 directory entries, short names with a
  numeric tail, and the checksum that ties long name records to their entry.

  A C string is the list of its bytes; reading at or behind the end gives the terminator.  A
  directory entry is its 32 bytes, since the code looks at the same bytes as \<open>dir_entry_t\<close> and as
  \<open>struct lfn_entry\<close>.
\<close>

unbundle bit_operations_syntax

section \<open>Characters and directory entries\<close>

definition lower :: "u8 \<Rightarrow> u8" where
  "lower c = (if 65 \<le> c \<and> c \<le> 90 then c + 32 else c)"

definition upper :: "u8 \<Rightarrow> u8" where
  "upper c = (if 97 \<le> c \<and> c \<le> 122 then c - 32 else c)"

text \<open>The fields of the packed \<open>dir_entry_t\<close>.\<close>

definition e_filename :: "u8 list \<Rightarrow> u8 list" where "e_filename e = take 8 e"
definition e_extension :: "u8 list \<Rightarrow> u8 list" where "e_extension e = take 3 (drop 8 e)"
definition e_attributes :: "u8 list \<Rightarrow> u8" where "e_attributes e = e ! 11"
definition e_starting_cluster :: "u8 list \<Rightarrow> u16" where "e_starting_cluster e = get16 e 26"
definition e_file_size :: "u8 list \<Rightarrow> u32" where "e_file_size e = get32 e 28"

section \<open>Matching\<close>

definition sfn_text :: "u8 list \<Rightarrow> u8 list" where
  "sfn_text e =
     map lower (filter (\<lambda>c. c \<noteq> 32) (e_filename e)) @
     (if e_extension e ! 0 \<noteq> 32 then 46 # map lower (filter (\<lambda>c. c \<noteq> 32) (e_extension e)) else [])"

text \<open>The comparison loop, one position per call; a list that has ended reads as the terminator.\<close>

fun names_match :: "u8 list \<Rightarrow> u8 list \<Rightarrow> bool" where
  "names_match (a # as) (b # bs) =
     (if a \<noteq> 0 \<and> b \<noteq> 0 then (if lower a \<noteq> lower b then False else names_match as bs) else a = 0 \<and> b = 0)"
| "names_match [] (b # bs) = (b = 0)"
| "names_match (a # as) [] = (a = 0)"
| "names_match [] [] = True"

definition match_sfn :: "u8 list \<Rightarrow> u8 list \<Rightarrow> bool" where
  "match_sfn entry target = names_match (sfn_text entry) target"

section \<open>Checksum\<close>

definition lfn_checksum :: "u8 list \<Rightarrow> u8" where
  "lfn_checksum short_name =
     fold (\<lambda>c sum. (if sum AND 1 \<noteq> 0 then 0x80 else 0) + drop_bit 1 sum + c) (take 11 short_name) 0"

section \<open>Short names\<close>

fun short_base :: "u8 list \<Rightarrow> nat \<Rightarrow> u8 list" where
  "short_base [] base_len = []"
| "short_base (c # cs) base_len =
     (if c \<noteq> 0 \<and> base_len < 8 \<and> c \<noteq> 46
      then if c \<noteq> 32 then upper c # short_base cs (Suc base_len) else short_base cs base_len
      else [])"

fun last_dot :: "u8 list \<Rightarrow> nat \<Rightarrow> nat option \<Rightarrow> nat option" where
  "last_dot [] len d = d"
| "last_dot (c # cs) len d = (if c \<noteq> 0 then last_dot cs (Suc len) (if c = 46 then Some len else d) else d)"

fun short_ext :: "u8 list \<Rightarrow> nat \<Rightarrow> u8 list" where
  "short_ext [] ext_idx = []"
| "short_ext (c # cs) ext_idx = (if c \<noteq> 0 \<and> ext_idx < 11 then upper c # short_ext cs (Suc ext_idx) else [])"

text \<open>\<open>write_at a i xs\<close> stores \<open>xs\<close> at \<open>a[i]\<close>, \<open>a[i + 1]\<close>, ...\<close>

fun write_at :: "u8 list \<Rightarrow> nat \<Rightarrow> u8 list \<Rightarrow> u8 list" where
  "write_at a i [] = a"
| "write_at a i (x # xs) = write_at (a[i := x]) (Suc i) xs"

definition numeric_tail :: "nat \<Rightarrow> u8 list" where
  "numeric_tail attempt =
     (if attempt < 10 then [of_nat attempt + 48]
      else if attempt < 100 then [of_nat (attempt div 10) + 48, of_nat (attempt mod 10) + 48]
      else [of_nat (attempt div 100) + 48, of_nat (attempt div 10 mod 10) + 48, of_nat (attempt mod 10) + 48])"

definition generate_short_name :: "u8 list \<Rightarrow> nat \<Rightarrow> u8 list" where
  "generate_short_name lfn attempt =
     (let base_name = short_base lfn 0;
          base_len = length base_name;
          suffix_len = (if attempt < 10 then 2 else if attempt < 100 then 3 else 4);
          keep_len = (if base_len + suffix_len > 8 then 8 - suffix_len else base_len);
          out1 = write_at (replicate 11 32) 0 (take keep_len base_name);
          out2 = out1[keep_len := 126];
          out3 = write_at out2 (keep_len + 1) (numeric_tail attempt)
      in case last_dot lfn 0 None of
           None \<Rightarrow> out3
         | Some d \<Rightarrow> write_at out3 8 (short_ext (drop (d + 1) lfn) 8))"

text \<open>The string \<open>fat16_insert_entry\<close> builds from a short name to look for it.\<close>

definition sfn_target :: "u8 list \<Rightarrow> u8 list" where
  "sfn_target sfn =
     filter (\<lambda>c. c \<noteq> 32) (take 8 sfn) @
     (if sfn ! 8 \<noteq> 32 then 46 # filter (\<lambda>c. c \<noteq> 32) (take 3 (drop 8 sfn)) else [])"

section \<open>What matching decides\<close>

text \<open>The bytes of a C string before its terminator.\<close>

definition c_text :: "u8 list \<Rightarrow> u8 list" where
  "c_text xs = takeWhile (\<lambda>c. c \<noteq> 0) xs"

lemma lower_0 [simp]: "lower c = 0 \<longleftrightarrow> c = 0"
proof -
  have "c + 32 \<noteq> 0" if "65 \<le> c" "c \<le> 90"
  proof -
    have "unat (c + 32) = unat c + 32" using that by (simp add: word_le_nat_alt unat_word_ariths)
    then show ?thesis by auto
  qed
  then show ?thesis by (auto simp: lower_def)
qed

lemma lower_46: "c \<noteq> 46 \<Longrightarrow> lower c \<noteq> 46"
  by (auto simp: lower_def word_le_nat_alt word_unat_eq_iff unat_word_ariths)

lemma names_match_iff: "names_match a b \<longleftrightarrow> map lower (c_text a) = map lower (c_text b)"
  by (induction a b rule: names_match.induct) (auto simp: c_text_def)

lemma c_text_id: "0 \<notin> set xs \<Longrightarrow> c_text xs = xs"
  by (auto simp: c_text_def takeWhile_eq_all_conv)

lemma c_text_append_0: "0 \<notin> set xs \<Longrightarrow> c_text (xs @ 0 # ys) = xs"
  by (simp add: c_text_def takeWhile_append)

section \<open>The form of short names\<close>

lemma write_at_eq: "i + length xs \<le> length a \<Longrightarrow> write_at a i xs = take i a @ xs @ drop (i + length xs) a"
proof (induction xs arbitrary: a i)
  case (Cons x xs)
  then have "take (Suc i) (a[i := x]) = take i a @ [x]" by (simp add: take_Suc_conv_app_nth)
  with Cons show ?case by simp
qed simp

lemma write_at_tail:
  "length a = 8 \<Longrightarrow> length e \<le> 3 \<Longrightarrow> write_at (a @ replicate 3 32) 8 e = a @ e @ replicate (3 - length e) 32"
  by (subst write_at_eq) simp_all

lemma short_base_length: "length (short_base xs n) \<le> 8 - n"
proof (induction xs n rule: short_base.induct)
  case (2 c cs n)
  then show ?case using diff_less_mono2 [of n "Suc n" 8] by auto
qed simp

definition plain :: "u8 \<Rightarrow> bool" where
  "plain c \<longleftrightarrow> c \<noteq> 0 \<and> c \<noteq> 32 \<and> c \<noteq> 46 \<and> \<not> (97 \<le> c \<and> c \<le> 122)"

lemma upper_plain: "c \<noteq> 0 \<Longrightarrow> c \<noteq> 32 \<Longrightarrow> c \<noteq> 46 \<Longrightarrow> plain (upper c)"
  and upper_not_lower: "c \<noteq> 0 \<Longrightarrow> upper c \<noteq> 0 \<and> \<not> (97 \<le> upper c \<and> upper c \<le> 122)"
proof -
  have u: "unat (c - 32) = unat c - 32" if "97 \<le> c" for c :: u8
    using that by (simp add: word_le_nat_alt unat_sub_if')
  show "upper c \<noteq> 0 \<and> \<not> (97 \<le> upper c \<and> upper c \<le> 122)" if "c \<noteq> 0"
    using that u [of c] by (auto simp: upper_def word_le_nat_alt word_unat_eq_iff)
  show "plain (upper c)" if "c \<noteq> 0" "c \<noteq> 32" "c \<noteq> 46"
    using that u [of c] by (auto simp: plain_def upper_def word_le_nat_alt word_unat_eq_iff)
qed

lemma short_base_plain: "x \<in> set (short_base xs n) \<Longrightarrow> plain x"
  by (induction xs n rule: short_base.induct) (auto simp: upper_plain split: if_splits)

lemma kept_plain: "x \<in> set (take k (short_base xs n)) \<Longrightarrow> plain x"
  by (rule short_base_plain) (rule in_set_takeD)

lemma short_ext_props: "length (short_ext xs n) \<le> 11 - n" "x \<in> set (short_ext xs n) \<Longrightarrow> x \<noteq> 0 \<and> \<not> (97 \<le> x \<and> x \<le> 122)"
proof -
  show "length (short_ext xs n) \<le> 11 - n"
    by (induction xs n rule: short_ext.induct) (auto simp: Suc_diff_Suc [symmetric] le_diff_conv2)
  show "x \<in> set (short_ext xs n) \<Longrightarrow> x \<noteq> 0 \<and> \<not> (97 \<le> x \<and> x \<le> 122)"
    using upper_not_lower by (induction xs n rule: short_ext.induct) (fastforce split: if_splits)+
qed

definition tail_len :: "nat \<Rightarrow> nat" where
  "tail_len attempt = (if attempt < 10 then 1 else if attempt < 100 then 2 else 3)"

definition keep_len :: "u8 list \<Rightarrow> nat \<Rightarrow> nat" where
  "keep_len lfn n = min (length (short_base lfn 0)) (7 - tail_len n)"

lemma numeric_tail_length: "length (numeric_tail n) = tail_len n"
  by (simp add: numeric_tail_def tail_len_def)

lemma tail_len_range: "1 \<le> tail_len n \<and> tail_len n \<le> 3"
  by (simp add: tail_len_def)

text \<open>Base, tilde, number, padding to eight bytes, extension padded to three.\<close>

lemma generate_short_name_eq:
  "\<exists>ext. length ext = 3 \<and> (\<forall>x \<in> set ext. x \<noteq> 0 \<and> \<not> (97 \<le> x \<and> x \<le> 122)) \<and>
    generate_short_name lfn n = take (keep_len lfn n) (short_base lfn 0) @ 126 # numeric_tail n @
      replicate (7 - tail_len n - keep_len lfn n) 32 @ ext"
proof -
  let ?b = "short_base lfn 0" and ?k = "keep_len lfn n" and ?t = "numeric_tail n"
  let ?e = "case last_dot lfn 0 None of None \<Rightarrow> [] | Some d \<Rightarrow> short_ext (drop (d + 1) lfn) 8"
  let ?o = "take ?k ?b @ 126 # ?t @ replicate (7 - tail_len n - ?k) 32"
  have k: "?k \<le> length ?b" "?k + 1 + tail_len n \<le> 8" using tail_len_range [of n] by (auto simp: keep_len_def)
  have lo: "length ?o = 8" using k by (simp add: numeric_tail_length)
  have keep: "(if length ?b + (if n < 10 then 2 else if n < 100 then 3 else 4) > 8
      then 8 - (if n < 10 then 2 else if n < 100 then 3 else 4) else length ?b) = ?k"
    by (auto simp: keep_len_def tail_len_def)
  have "write_at (replicate 11 32) 0 (take ?k ?b) = take ?k ?b @ replicate (11 - ?k) 32"
    using k by (subst write_at_eq) simp_all
  then have "(write_at (replicate 11 32) 0 (take ?k ?b))[?k := 126] = take ?k ?b @ 126 # replicate (10 - ?k) 32"
    using k by (cases "11 - ?k") (simp_all add: list_update_append Suc_diff_le)
  then have "write_at ((write_at (replicate 11 32) 0 (take ?k ?b))[?k := 126]) (?k + 1) ?t =
      take ?k ?b @ 126 # ?t @ replicate (10 - ?k - tail_len n) 32"
    using k by (subst write_at_eq) (simp_all add: numeric_tail_length)
  also have "replicate (10 - ?k - tail_len n) (32 :: u8) = replicate (7 - tail_len n - ?k) 32 @ replicate 3 32"
    using k by (simp add: replicate_add [symmetric])
  finally have o3: "write_at ((write_at (replicate 11 32) 0 (take ?k ?b))[?k := 126]) (?k + 1) ?t = ?o @ replicate 3 32" by simp
  have le: "length ?e \<le> 3" using short_ext_props(1) [of _ 8] by (auto split: option.splits)
  have "generate_short_name lfn n = write_at (?o @ replicate 3 32) 8 ?e"
    unfolding generate_short_name_def Let_def keep o3 by (simp split: option.splits)
  also have "\<dots> = ?o @ ?e @ replicate (3 - length ?e) 32"
    by (rule write_at_tail [OF lo le])
  finally have g: "generate_short_name lfn n = ?o @ ?e @ replicate (3 - length ?e) 32" .
  have "\<forall>x \<in> set (?e @ replicate (3 - length ?e) 32). x \<noteq> 0 \<and> \<not> (97 \<le> x \<and> x \<le> 122)"
    using short_ext_props(2) by (auto split: option.splits)
  then show ?thesis using g le by (intro exI [of _ "?e @ replicate (3 - length ?e) 32"]) simp
qed

text \<open>The digits of different numbers differ.\<close>

lemma digit_unat: "d < 10 \<Longrightarrow> unat (of_nat d + 48 :: u8) = d + 48"
proof -
  assume "d < 10"
  moreover from this have "unat (of_nat d :: u8) = d" by (simp add: unat_of_nat take_bit_nat_eq_self)
  ultimately show ?thesis by (simp add: unat_word_ariths)
qed

lemma digit_inj: "d < 10 \<Longrightarrow> e < 10 \<Longrightarrow> (of_nat d :: u8) = of_nat e \<longleftrightarrow> d = e"
  by (metis add_right_cancel digit_unat)

lemma numeric_tail_inj:
  assumes "numeric_tail m = numeric_tail n" "m < 1000" "n < 1000"
  shows "m = n"
proof -
  have l: "tail_len m = tail_len n" using assms(1) numeric_tail_length by metis
  consider "m < 10" "n < 10" | "10 \<le> m" "m < 100" "10 \<le> n" "n < 100" | "100 \<le> m" "100 \<le> n"
    using l by (auto simp: tail_len_def split: if_splits)
  then show ?thesis
  proof cases
    case 1
    then show ?thesis using assms(1) by (simp add: numeric_tail_def digit_inj)
  next
    case 2
    then have "m div 10 = n div 10" "m mod 10 = n mod 10"
      using assms(1) by (simp_all add: numeric_tail_def digit_inj)
    then show ?thesis by (metis div_mult_mod_eq)
  next
    case 3
    have "m div 100 < 10" "n div 100 < 10" using assms(2,3) by simp_all
    then have e: "m div 100 = n div 100" "m div 10 mod 10 = n div 10 mod 10" "m mod 10 = n mod 10"
      using assms(1) 3 by (simp_all add: numeric_tail_def digit_inj)
    have d: "k = 100 * (k div 100) + 10 * (k div 10 mod 10) + k mod 10" for k :: nat
    proof -
      have "k div 10 = 10 * (k div 100) + k div 10 mod 10"
        using mult_div_mod_eq [of 10 "k div 10"] by (simp add: div_mult2_eq [symmetric])
      then show ?thesis using mult_div_mod_eq [of 10 k] by linarith
    qed
    have "m = 100 * (m div 100) + 10 * (m div 10 mod 10) + m mod 10" by (rule d)
    also have "\<dots> = 100 * (n div 100) + 10 * (n div 10 mod 10) + n mod 10" unfolding e ..
    also have "\<dots> = n" by (rule d [symmetric])
    finally show ?thesis .
  qed
qed

lemma digit_char:
  assumes "n < 1000" "c \<in> set (numeric_tail n)"
  shows "48 \<le> unat c \<and> unat c < 58"
proof -
  have "n div 100 < 10" using assms(1) by simp
  then show ?thesis using assms(2) by (auto simp: numeric_tail_def digit_unat split: if_splits)
qed

lemma tail_chars:
  assumes "n < 1000" "c \<in> set (126 # numeric_tail n)"
  shows "c \<noteq> 0" "c \<noteq> 32" "c \<noteq> 46" "\<not> (97 \<le> c \<and> c \<le> 122)" "lower c = c"
  using assms digit_char [OF assms(1), of c]
  by (auto simp: lower_def word_le_nat_alt word_unat_eq_iff)

text \<open>What is in front of the extension in the string that is looked up.\<close>

lemma sfn_target_base:
  assumes "n < 1000"
  shows "\<exists>ext. sfn_target (generate_short_name lfn n) =
    take (keep_len lfn n) (short_base lfn 0) @ 126 # numeric_tail n @ ext \<and> (ext = [] \<or> (\<exists>e. ext = 46 # e)) \<and> 0 \<notin> set ext"
proof -
  let ?K = "take (keep_len lfn n) (short_base lfn 0)" and ?p = "7 - tail_len n - keep_len lfn n"
  obtain ext where g: "generate_short_name lfn n = ?K @ 126 # numeric_tail n @ replicate ?p 32 @ ext"
    "\<forall>x \<in> set ext. x \<noteq> 0 \<and> \<not> (97 \<le> x \<and> x \<le> 122)" "length ext = 3"
    using generate_short_name_eq by blast
  have l: "length (?K @ 126 # numeric_tail n @ replicate ?p 32) = 8"
    using tail_len_range [of n] by (auto simp: keep_len_def numeric_tail_length)
  have "generate_short_name lfn n = (?K @ 126 # numeric_tail n @ replicate ?p 32) @ ext" unfolding g(1) by simp
  then have "take 8 (generate_short_name lfn n) = ?K @ 126 # numeric_tail n @ replicate ?p 32"
    and dr: "drop 8 (generate_short_name lfn n) = ext"
    using l by (metis append_eq_conv_conj)+
  moreover have "filter (\<lambda>c. c \<noteq> 32) (?K @ 126 # numeric_tail n @ replicate ?p 32) = ?K @ 126 # numeric_tail n"
    using tail_chars(2) [OF assms] kept_plain [of _ "keep_len lfn n" lfn] by (fastforce simp: filter_id_conv plain_def)
  moreover have "0 \<notin> set ext" using g(2) by auto
  ultimately show ?thesis using dr g(3) by (auto simp: sfn_target_def)
qed

lemma split_last:
  assumes "xs @ x # ys = us @ x # vs" "x \<notin> set ys" "x \<notin> set vs"
  shows "ys = vs"
proof -
  have "takeWhile (\<lambda>c. c \<noteq> x) (rev (as @ x # bs)) = rev bs" if "x \<notin> set bs" for as bs
    using that by (simp add: takeWhile_append takeWhile_eq_all_conv)
  then show ?thesis using assms by (metis rev_rev_ident)
qed

lemma short_names_differ:
  assumes "m < 1000" "n < 1000" "m \<noteq> n"
  shows "map lower (sfn_target (generate_short_name lfn m)) \<noteq> map lower (sfn_target (generate_short_name lfn n))"
proof
  assume eq: "map lower (sfn_target (generate_short_name lfn m)) = map lower (sfn_target (generate_short_name lfn n))"
  let ?K = "\<lambda>k. take (keep_len lfn k) (short_base lfn 0)"
  have body: "takeWhile (\<lambda>c. c \<noteq> 46) (map lower (sfn_target (generate_short_name lfn k))) = map lower (?K k) @ 126 # numeric_tail k"
    if k: "k < 1000" for k
  proof -
    obtain ext where ext: "sfn_target (generate_short_name lfn k) = (?K k @ 126 # numeric_tail k) @ ext" "ext = [] \<or> (\<exists>e. ext = 46 # e)"
      using sfn_target_base [OF k, of lfn] by auto
    have t: "map lower (126 # numeric_tail k) = 126 # numeric_tail k"
      by (rule map_idI) (rule tail_chars(5) [OF k])
    have l46: "lower 46 = 46" by (simp add: lower_def)
    have "lower c \<noteq> 46" if "c \<in> set (?K k @ 126 # numeric_tail k)" for c
    proof -
      have "c \<noteq> 46" using that tail_chars(3) [OF k, of c] kept_plain [of c "keep_len lfn k" lfn 0] by (auto simp: plain_def)
      then show ?thesis by (rule lower_46)
    qed
    then have "takeWhile (\<lambda>c. c \<noteq> 46) (map lower (sfn_target (generate_short_name lfn k))) = map lower (?K k @ 126 # numeric_tail k)"
      unfolding ext(1) map_append [of _ _ ext] using ext(2) l46 by (subst takeWhile_append2) auto
    then show ?thesis using t by simp
  qed
  have "126 \<notin> set (numeric_tail k)" if "k < 1000" for k using digit_char [OF that, of 126] by auto
  then have "numeric_tail m = numeric_tail n"
    using body [OF assms(1)] body [OF assms(2)] eq assms(1,2) split_last by metis
  then show False using numeric_tail_inj assms by blast
qed

section \<open>Properties\<close>

text \<open>
  \<open>match_sfn\<close> decides equality up to case of the target and the name the 8.3 entry stands for.
\<close>

theorem match_sfn_case_insensitive:
  "match_sfn entry target \<longleftrightarrow> map lower (c_text (sfn_text entry)) = map lower (c_text target)"
  by (simp add: match_sfn_def names_match_iff)

lemma sfn_target_nonzero: "n < 1000 \<Longrightarrow> 0 \<notin> set (sfn_target (generate_short_name lfn n))"
  using sfn_target_base [of n lfn] tail_chars(1) [of n 0] kept_plain [of 0 "keep_len lfn n" lfn 0] by (auto simp: plain_def)

text \<open>
  C29: a generated short name has eleven bytes: at most six upper-case bytes of the base, a tilde, the
  number, padding to eight, and three bytes of extension, none of them a lower-case letter; and
  different numbers below 1000 give names that differ even when case is ignored.
\<close>

theorem generate_short_name_format:
  assumes "n < 1000"
  shows "length (generate_short_name lfn n) = 11 \<and> (\<forall>c \<in> set (generate_short_name lfn n). \<not> (97 \<le> c \<and> c \<le> 122)) \<and>
    (\<exists>k \<le> 6. take 8 (generate_short_name lfn n) = take k (short_base lfn 0) @ 126 # numeric_tail n @
      replicate (7 - length (numeric_tail n) - k) 32) \<and>
    (\<forall>m < 1000. m \<noteq> n \<longrightarrow> \<not> names_match (sfn_target (generate_short_name lfn m)) (sfn_target (generate_short_name lfn n)))"
proof (intro conjI)
  let ?K = "take (keep_len lfn n) (short_base lfn 0)" and ?p = "7 - tail_len n - keep_len lfn n"
  obtain ext where g: "length ext = 3" "\<forall>x \<in> set ext. x \<noteq> 0 \<and> \<not> (97 \<le> x \<and> x \<le> 122)"
    "generate_short_name lfn n = (?K @ 126 # numeric_tail n @ replicate ?p 32) @ ext"
    using generate_short_name_eq [of lfn n] by auto
  have k: "keep_len lfn n \<le> length (short_base lfn 0)" "keep_len lfn n \<le> 6" "keep_len lfn n + 1 + tail_len n \<le> 8"
    using tail_len_range [of n] by (auto simp: keep_len_def)
  then have l: "length (?K @ 126 # numeric_tail n @ replicate ?p 32) = 8" by (simp add: numeric_tail_length)
  then show "length (generate_short_name lfn n) = 11" unfolding g(3) using g(1) by simp
  have "take 8 (generate_short_name lfn n) = ?K @ 126 # numeric_tail n @ replicate ?p 32"
    unfolding g(3) using l by (metis append_eq_conv_conj)
  then show "\<exists>k \<le> 6. take 8 (generate_short_name lfn n) = take k (short_base lfn 0) @ 126 # numeric_tail n @
      replicate (7 - length (numeric_tail n) - k) 32"
    using k(2) by (auto simp: numeric_tail_length)
  show "\<forall>c \<in> set (generate_short_name lfn n). \<not> (97 \<le> c \<and> c \<le> 122)"
    unfolding g(3) using g(2) tail_chars(4) [OF assms] kept_plain [of _ "keep_len lfn n" lfn 0] by (fastforce simp: plain_def)
  show "\<forall>m < 1000. m \<noteq> n \<longrightarrow> \<not> names_match (sfn_target (generate_short_name lfn m)) (sfn_target (generate_short_name lfn n))"
    using short_names_differ [OF _ assms] sfn_target_nonzero assms by (auto simp: names_match_iff c_text_id)
qed

theorem generate_short_name_format_witness:
  "length (generate_short_name [118, 101, 114, 121, 108, 111, 110, 103, 110, 97, 109, 101, 46, 116, 120, 116] 1) = 11 \<and>
   generate_short_name [118, 101, 114, 121, 108, 111, 110, 103, 110, 97, 109, 101, 46, 116, 120, 116] 1 =
     [86, 69, 82, 89, 76, 79, 126, 49, 84, 88, 84]"
proof
  show "length (generate_short_name [118, 101, 114, 121, 108, 111, 110, 103, 110, 97, 109, 101, 46, 116, 120, 116] 1) = 11"
    by (rule generate_short_name_format [THEN conjunct1]) simp
qed code_simp

end
