(* ===== verification/Fat16_Dir.thy ===== *)
theory Fat16_Dir
  imports Fat16_Table Fat16_Names
begin

text \<open>
  Layers 3 to 5 of src/src/fs/fat16.c: the visitor over the slots of a directory, the search that
  reassembles long names, path resolution, and the insertion of long name records and their entry.
\<close>

unbundle bit_operations_syntax

section \<open>Error codes and attributes\<close>

definition ENOENT :: int where "ENOENT = 2"
definition EIO :: int where "EIO = 5"
definition ENOMEM :: int where "ENOMEM = 12"
definition EEXIST :: int where "EEXIST = 17"
definition ENOTDIR :: int where "ENOTDIR = 20"
definition EISDIR :: int where "EISDIR = 21"
definition EINVAL :: int where "EINVAL = 22"
definition ENOSPC :: int where "ENOSPC = 28"
definition ENOTEMPTY :: int where "ENOTEMPTY = 39"

definition FAT_ATTR_VOLUME_ID :: u8 where "FAT_ATTR_VOLUME_ID = 0x08"
definition FAT_ATTR_DIRECTORY :: u8 where "FAT_ATTR_DIRECTORY = 0x10"
definition FAT_ATTR_ARCHIVE :: u8 where "FAT_ATTR_ARCHIVE = 0x20"
definition FAT_ATTR_LFN :: u8 where "FAT_ATTR_LFN = 0x0F"

lemmas fat_constants = ENOENT_def EIO_def EEXIST_def ENOTDIR_def EISDIR_def EINVAL_def ENOSPC_def ENOTEMPTY_def
  FAT_ATTR_VOLUME_ID_def FAT_ATTR_DIRECTORY_def FAT_ATTR_ARCHIVE_def FAT_ATTR_LFN_def

section \<open>Visiting a directory\<close>

text \<open>A visitor gets sector, slot and entry and returns the action with the new context.\<close>

type_synonym 'c visitor = "u32 \<Rightarrow> nat \<Rightarrow> u8 list \<Rightarrow> 'c \<Rightarrow> fat_sys \<Rightarrow> (int \<times> 'c \<times> fat_sys) option"

fun visit_slots :: "'c visitor \<Rightarrow> u32 \<Rightarrow> u8 list \<Rightarrow> nat list \<Rightarrow> 'c \<Rightarrow> fat_sys \<Rightarrow> (int \<times> 'c \<times> fat_sys) option" where
  "visit_slots cb sec buffer [] ctx s = Some (0, ctx, s)"
| "visit_slots cb sec buffer (i # is) ctx s = do {
     (action, ctx1, s1) \<leftarrow> cb sec i (slot_of buffer i) ctx s;
     if action \<noteq> 0 then Some (action, ctx1, s1) else visit_slots cb sec buffer is ctx1 s1 }"

fun visit_sectors :: "'c visitor \<Rightarrow> u32 list \<Rightarrow> 'c \<Rightarrow> fat_sys \<Rightarrow> (int \<times> 'c \<times> fat_sys) option" where
  "visit_sectors cb [] ctx s = Some (0, ctx, s)"
| "visit_sectors cb (sec # secs) ctx s =
     (case ata_read_sector sec s of
        (None, s1) \<Rightarrow> Some (- EIO, ctx, s1)
      | (Some buffer, s1) \<Rightarrow> do {
          (action, ctx1, s2) \<leftarrow> visit_slots cb sec buffer [0..<16] ctx s1;
          if action \<noteq> 0 then Some (action, ctx1, s2) else visit_sectors cb secs ctx1 s2 })"

definition cluster_lba :: "fat16_cache_t \<Rightarrow> u16 \<Rightarrow> u32" where
  "cluster_lba c cluster = data_start_sector c + (ucast cluster - 2) * ucast (sectors_per_cluster c)"

definition cluster_sectors :: "fat16_cache_t \<Rightarrow> u16 \<Rightarrow> u32 list" where
  "cluster_sectors c cluster = map (\<lambda>k. cluster_lba c cluster + of_nat k) [0..<unat (sectors_per_cluster c)]"

definition root_sectors :: "fat16_cache_t \<Rightarrow> u32 list" where
  "root_sectors c = map (\<lambda>k. root_dir_sector c + of_nat k) [0..<unat (root_dir_size_sectors c)]"

partial_function (option) visit_clusters ::
  "'c visitor \<Rightarrow> u16 \<Rightarrow> 'c \<Rightarrow> fat_sys \<Rightarrow> (int \<times> 'c \<times> fat_sys) option" where
  "visit_clusters cb cur ctx s =
     (if cur \<ge> 2 \<and> cur < 0xFFF8
      then do {
        (action, ctx1, s1) \<leftarrow> visit_sectors cb (cluster_sectors (fs_cache s) cur) ctx s;
        if action \<noteq> 0 then Some (action, ctx1, s1)
        else do {
          (next_c, s2) \<leftarrow> fat16_read_fat_entry cur s1;
          visit_clusters cb next_c ctx1 s2 } }
      else Some (0, ctx, s))"

text \<open>A positive action ends the visit early with EOK, a negative one is passed on.\<close>

definition iterate_directory :: "u16 \<Rightarrow> 'c visitor \<Rightarrow> 'c \<Rightarrow> fat_sys \<Rightarrow> (int \<times> 'c \<times> fat_sys) option" where
  "iterate_directory dir_cluster cb ctx s = do {
     (action, ctx1, s1) \<leftarrow>
       (if dir_cluster = 0 then visit_sectors cb (root_sectors (fs_cache s)) ctx s
        else visit_clusters cb dir_cluster ctx s);
     Some (if action < 0 then action else 0, ctx1, s1) }"

section \<open>Searching\<close>

text \<open>
  \<open>lfn_bytes\<close> is the memory of \<open>lfn_buffer[256]\<close> and of the field \<open>found\<close> behind it: record number 20
  of a long name is stored at 247 to 259 and reaches into \<open>found\<close>.
\<close>

record find_file_ctx_t =
  target_name :: "u8 list"
  out_entry :: "u8 list"
  out_sector :: u32
  out_idx :: nat
  lfn_bytes :: "u8 list"

definition ctx_found :: "find_file_ctx_t \<Rightarrow> bool" where
  "ctx_found ctx \<longleftrightarrow> (\<exists>b \<in> set (drop 256 (lfn_bytes ctx)). b \<noteq> 0)"

definition lfn_unit_offset :: "nat \<Rightarrow> nat" where
  "lfn_unit_offset j = (if j < 5 then 1 + 2 * j else if j < 11 then 14 + 2 * (j - 5) else 28 + 2 * (j - 11))"

definition lfn_char :: "u16 \<Rightarrow> u8" where
  "lfn_char u = (if u = 0xFFFF then 0 else ucast (u AND 0xFF))"

definition lfn_store :: "u8 list \<Rightarrow> u8 list \<Rightarrow> u8 list" where
  "lfn_store entry buf =
     (let index = int (unat (entry ! 0 AND 0x1F)) - 1
      in if index \<ge> 0 \<and> index < 20
         then write_at buf (nat index * 13) (map (\<lambda>j. lfn_char (get16 entry (lfn_unit_offset j))) [0..<13])
         else buf)"

definition clear_lfn :: "u8 list \<Rightarrow> u8 list" where
  "clear_lfn buf = replicate 256 0 @ drop 256 buf"

definition find_file_callback :: "find_file_ctx_t visitor" where
  "find_file_callback sector slot_idx entry ctx s =
     (let first_byte = entry ! 0
      in if first_byte = 0 then Some (1, ctx, s)
         else if first_byte = 0xE5 then Some (0, ctx\<lparr>lfn_bytes := clear_lfn (lfn_bytes ctx)\<rparr>, s)
         else if e_attributes entry = FAT_ATTR_LFN then Some (0, ctx\<lparr>lfn_bytes := lfn_store entry (lfn_bytes ctx)\<rparr>, s)
         else if e_attributes entry \<noteq> FAT_ATTR_VOLUME_ID
         then let lfn_matched = lfn_bytes ctx ! 0 \<noteq> 0 \<and> names_match (lfn_bytes ctx) (target_name ctx);
                  matched = lfn_matched \<or> match_sfn entry (target_name ctx)
              in if matched
                 then Some (1, ctx\<lparr>out_entry := entry, out_sector := sector, out_idx := slot_idx,
                                   lfn_bytes := take 256 (lfn_bytes ctx) @ [1, 0, 0, 0]\<rparr>, s)
                 else Some (0, ctx\<lparr>lfn_bytes := clear_lfn (lfn_bytes ctx)\<rparr>, s)
         else Some (0, ctx, s))"

definition find_ctx :: "u8 list \<Rightarrow> find_file_ctx_t" where
  "find_ctx name = \<lparr>target_name = name, out_entry = replicate 32 0, out_sector = 0, out_idx = 0, lfn_bytes = replicate 260 0\<rparr>"

text \<open>\<open>Some\<close> entry, sector and slot stands for EOK, \<open>None\<close> for -ENOENT.\<close>

definition fat16_find_in_dir :: "u16 \<Rightarrow> u8 list \<Rightarrow> fat_sys \<Rightarrow> ((u8 list \<times> u32 \<times> nat) option \<times> fat_sys) option" where
  "fat16_find_in_dir dir_cluster name s = do {
     (_, ctx, s1) \<leftarrow> iterate_directory dir_cluster find_file_callback (find_ctx name) s;
     Some (if ctx_found ctx then Some (out_entry ctx, out_sector ctx, out_idx ctx) else None, s1) }"

section \<open>Paths\<close>

text \<open>One component: at most 255 bytes up to a slash or the end; the rest of the path is returned too.\<close>

fun path_component :: "nat \<Rightarrow> u8 list \<Rightarrow> u8 list \<times> u8 list" where
  "path_component n [] = ([], [])"
| "path_component n (c # cs) =
     (if c \<noteq> 47 \<and> n < 255 then (let (comp, rest) = path_component (Suc n) cs in (c # comp, rest)) else ([], c # cs))"

partial_function (option) resolve_loop ::
  "u8 list \<Rightarrow> u16 \<Rightarrow> fat_sys \<Rightarrow> ((int + u16 \<times> u8 list \<times> u8 list option) \<times> fat_sys) option" where
  "resolve_loop path current_dir s =
     (if path = [] then Some (Inl (- EINVAL), s)
      else let component = fst (path_component 0 path); rest = dropWhile (\<lambda>c. c = 47) (snd (path_component 0 path))
           in if component = [46] then resolve_loop rest current_dir s
              else if rest \<noteq> []
              then do {
                (r, s1) \<leftarrow> fat16_find_in_dir current_dir component s;
                (case r of
                   None \<Rightarrow> Some (Inl (- ENOENT), s1)
                 | Some (entry, _, _) \<Rightarrow>
                     if e_attributes entry AND FAT_ATTR_DIRECTORY = 0 then Some (Inl (- ENOTDIR), s1)
                     else resolve_loop rest (e_starting_cluster entry) s1) }
              else if component = [] then Some (Inl (- EINVAL), s)
              else do {
                (r, s1) \<leftarrow> fat16_find_in_dir current_dir component s;
                Some (Inr (current_dir, component, map_option fst r), s1) })"

text \<open>
  The result is an error code, or the parent directory, the last component and, when it exists, its
  entry.  Every caller passes all three output pointers.
\<close>

definition fat16_resolve_path ::
  "u8 list \<Rightarrow> fat_sys \<Rightarrow> ((int + u16 \<times> u8 list \<times> u8 list option) \<times> fat_sys) option" where
  "fat16_resolve_path path s = do {
     s \<leftarrow> ensure_init s;
     if path = [] then Some (Inl (- EINVAL), s)
     else resolve_loop (if path ! 0 = 47 then tl path else path) 0 s }"

section \<open>Inserting entries\<close>

record slot_search_ctx_t =
  slots_needed :: nat
  consecutive_found :: nat
  start_sector :: u32
  start_slot :: nat
  slots_done :: bool

definition slot_search_callback :: "slot_search_ctx_t visitor" where
  "slot_search_callback sector slot_idx entry ctx s =
     (let first_byte = entry ! 0
      in if first_byte = 0 \<or> first_byte = 0xE5
         then let ctx1 = (if consecutive_found ctx = 0 then ctx\<lparr>start_sector := sector, start_slot := slot_idx\<rparr> else ctx);
                  ctx2 = ctx1\<lparr>consecutive_found := Suc (consecutive_found ctx1)\<rparr>
              in if consecutive_found ctx2 = slots_needed ctx2 then Some (1, ctx2\<lparr>slots_done := True\<rparr>, s)
                 else Some (0, ctx2, s)
         else Some (0, ctx\<lparr>consecutive_found := 0\<rparr>, s))"

text \<open>The search for a numeric tail whose name is not taken; \<open>None\<close> if every attempt is.\<close>

partial_function (option) short_name_loop :: "u16 \<Rightarrow> u8 list \<Rightarrow> nat \<Rightarrow> fat_sys \<Rightarrow> (u8 list \<times> fat_sys) option" where
  "short_name_loop parent_cluster name attempt s =
     (let sfn = generate_short_name name attempt
      in do {
        (r, s1) \<leftarrow> fat16_find_in_dir parent_cluster (sfn_target sfn) s;
        (case r of
           None \<Rightarrow> Some (sfn, s1)
         | Some _ \<Rightarrow> short_name_loop parent_cluster name (Suc attempt) s1) })"

text \<open>A byte of the name widened to 16 bits: \<open>char\<close> is signed.\<close>

definition name_unit :: "u8 list \<Rightarrow> nat \<Rightarrow> u16" where
  "name_unit name pos =
     (if pos < length name then scast (name ! pos) else if pos = length name then 0 else 0xFFFF)"

definition lfn_record :: "u8 list \<Rightarrow> u8 \<Rightarrow> nat \<Rightarrow> nat \<Rightarrow> u8 list" where
  "lfn_record name chksum lfn_count i =
     (let lfn_idx = lfn_count - i;
          char_offset = (lfn_idx - 1) * 13;
          seqn = of_nat lfn_idx OR (if i = 0 then 0x40 else 0);
          rec1 = (replicate 32 0)[0 := seqn, 11 := FAT_ATTR_LFN, 12 := 0, 13 := chksum];
          rec2 = put16 rec1 26 0
      in fold (\<lambda>c r. put16 r (lfn_unit_offset c) (name_unit name (char_offset + c))) [0..<13] rec2)"

definition sfn_record :: "u8 list \<Rightarrow> u8 \<Rightarrow> u16 \<Rightarrow> u32 \<Rightarrow> u8 list" where
  "sfn_record sfn attributes cluster nbytes =
     put32 (put16 ((write_at (replicate 32 0) 0 sfn)[11 := attributes]) 26 cluster) 28 nbytes"

text \<open>
  The records are put into the sector buffer one after the other; a full sector is written and the
  next one read.  The result says whether all sector accesses succeeded.
\<close>

fun write_records :: "u8 list list \<Rightarrow> u32 \<Rightarrow> u8 list \<Rightarrow> nat \<Rightarrow> fat_sys \<Rightarrow> bool \<times> fat_sys" where
  "write_records [] current_sec sec_buf slot s = ata_write_sector current_sec sec_buf s"
| "write_records (r # rs) current_sec sec_buf slot s =
     (let buf1 = put_slot sec_buf slot r
      in if Suc slot \<ge> 16
         then case ata_write_sector current_sec buf1 s of
                (False, s1) \<Rightarrow> (False, s1)
              | (True, s1) \<Rightarrow>
                  (case ata_read_sector (current_sec + 1) s1 of
                     (None, s2) \<Rightarrow> (False, s2)
                   | (Some buf2, s2) \<Rightarrow> write_records rs (current_sec + 1) buf2 0 s2)
         else write_records rs current_sec buf1 (Suc slot) s)"

definition entry_records :: "u8 list \<Rightarrow> u8 list \<Rightarrow> u8 \<Rightarrow> u16 \<Rightarrow> u32 \<Rightarrow> u8 list list" where
  "entry_records name sfn attributes cluster nbytes =
     (let lfn_count = (length name + 12) div 13
      in map (lfn_record name (lfn_checksum sfn) lfn_count) [0..<lfn_count] @ [sfn_record sfn attributes cluster nbytes])"

definition slot_ctx :: "nat \<Rightarrow> slot_search_ctx_t" where
  "slot_ctx total_slots = \<lparr>slots_needed = total_slots, consecutive_found = 0, start_sector = 0, start_slot = 0, slots_done = False\<rparr>"

definition fat16_insert_entry :: "u16 \<Rightarrow> u8 list \<Rightarrow> u8 \<Rightarrow> u16 \<Rightarrow> u32 \<Rightarrow> fat_sys \<Rightarrow> (int \<times> fat_sys) option" where
  "fat16_insert_entry parent_cluster name attributes cluster nbytes s = do {
     let total_slots = (length name + 12) div 13 + 1;
     (sfn, s1) \<leftarrow> short_name_loop parent_cluster name 1 s;
     (_, ctx, s2) \<leftarrow> iterate_directory parent_cluster slot_search_callback (slot_ctx total_slots) s1;
     if \<not> slots_done ctx then Some (- ENOSPC, s2)
     else case ata_read_sector (start_sector ctx) s2 of
            (None, s3) \<Rightarrow> Some (- EIO, s3)
          | (Some sec_buf, s3) \<Rightarrow>
              (let (ok, s4) = write_records (entry_records name sfn attributes cluster nbytes) (start_sector ctx) sec_buf (start_slot ctx) s3
               in Some (if ok then 0 else - EIO, s4)) }"

section \<open>A directory as a list of slots\<close>

type_synonym slot = "u32 \<times> nat \<times> u8 list"

definition dir_slots :: "(u32 \<Rightarrow> u8 list) \<Rightarrow> u32 list \<Rightarrow> slot list" where
  "dir_slots secs ls = concat (map (\<lambda>l. map (\<lambda>i. (l, i, slot_of (secs l) i)) [0..<16]) ls)"

text \<open>What a visit computes when the visitor leaves the system alone.\<close>

fun scan :: "(u32 \<Rightarrow> nat \<Rightarrow> u8 list \<Rightarrow> 'c \<Rightarrow> int \<times> 'c) \<Rightarrow> slot list \<Rightarrow> 'c \<Rightarrow> int \<times> 'c" where
  "scan f [] ctx = (0, ctx)"
| "scan f ((l, i, e) # xs) ctx = (let (a, ctx1) = f l i e ctx in if a \<noteq> 0 then (a, ctx1) else scan f xs ctx1)"

definition pure_visitor :: "'c visitor \<Rightarrow> (u32 \<Rightarrow> nat \<Rightarrow> u8 list \<Rightarrow> 'c \<Rightarrow> int \<times> 'c) \<Rightarrow> bool" where
  "pure_visitor cb f \<longleftrightarrow> (\<forall>l i e ctx s. cb l i e ctx s = Some (fst (f l i e ctx), snd (f l i e ctx), s))"

lemma scan_append:
  "scan f (xs @ ys) ctx = (let (a, ctx1) = scan f xs ctx in if a \<noteq> 0 then (a, ctx1) else scan f ys ctx1)"
  by (induction f xs ctx rule: scan.induct) (auto split: prod.splits)

lemma visit_slots_scan:
  assumes "pure_visitor cb f"
  shows "visit_slots cb l b is ctx s =
    Some (fst (scan f (map (\<lambda>i. (l, i, slot_of b i)) is) ctx), snd (scan f (map (\<lambda>i. (l, i, slot_of b i)) is) ctx), s)"
proof (induction "is" arbitrary: ctx)
  case (Cons i "is")
  then show ?case using assms by (cases "f l i (slot_of b i) ctx") (simp add: pure_visitor_def)
qed simp

lemma visit_sectors_scan:
  assumes "pure_visitor cb f" "disk_ok s" "\<And>l. l \<in> set ls \<Longrightarrow> l < 0x10000000"
  shows "visit_sectors cb ls ctx s =
    Some (fst (scan f (dir_slots (sectors (dev s)) ls) ctx), snd (scan f (dir_slots (sectors (dev s)) ls) ctx), s)"
  using assms(3)
proof (induction ls arbitrary: ctx)
  case (Cons l ls)
  let ?m = "map (\<lambda>i. (l, i, slot_of (sectors (dev s) l) i)) [0..<16]"
  have "dir_slots (sectors (dev s)) (l # ls) = ?m @ dir_slots (sectors (dev s)) ls" by (simp add: dir_slots_def)
  then show ?case using Cons assms(2) visit_slots_scan [OF assms(1), of l "sectors (dev s) l" "[0..<16]" ctx s]
    by (cases "scan f ?m ctx") (simp add: scan_append)
qed (simp add: dir_slots_def)

lemma cluster_sector_unat:
  assumes "geometry_ok g" "2 \<le> unat c" "unat c < unat (total_clusters g) + 2" "k < unat (sectors_per_cluster g)"
  shows "unat (cluster_lba g c + of_nat k) = unat (data_start_sector g) + (unat c - 2) * unat (sectors_per_cluster g) + k"
    and "unat (data_start_sector g) + (unat c - 2) * unat (sectors_per_cluster g) + k < 0x10000000"
proof -
  let ?n = "unat (sectors_per_cluster g)" and ?d = "unat (data_start_sector g)"
  have "unat c - 2 + 1 \<le> unat (total_clusters g)" using assms(2,3) by linarith
  then have "(unat c - 2 + 1) * ?n \<le> unat (total_clusters g) * ?n" by (rule mult_le_mono1)
  then have le: "(unat c - 2) * ?n + ?n \<le> unat (total_clusters g) * ?n" by (simp add: distrib_right)
  have tot: "?d + unat (total_clusters g) * ?n \<le> 0x10000000" using assms(1) by (simp add: geometry_ok_def)
  show b: "?d + (unat c - 2) * ?n + k < 0x10000000" using le tot assms(4) by linarith
  have u: "unat (ucast c - 2 :: u32) = unat c - 2" using assms(2) by (subst unat_minus_u32) simp_all
  have "(unat c - 2) * ?n < 4294967296" using b by linarith
  then have m: "unat ((ucast c - 2) * ucast (sectors_per_cluster g) :: u32) = (unat c - 2) * ?n"
    by (simp add: unat_word_ariths u)
  have l: "unat (cluster_lba g c) = ?d + (unat c - 2) * ?n"
    unfolding cluster_lba_def using b m by (subst unat_plus_u32) simp_all
  have "k < 4294967296" using b by linarith
  then show "unat (cluster_lba g c + of_nat k) = ?d + (unat c - 2) * ?n + k"
    using b l by (subst unat_plus_u32) (simp_all add: word_bounds)
qed

lemma root_sector_unat:
  assumes "geometry_ok g" "k < unat (root_dir_size_sectors g)"
  shows "unat (root_dir_sector g + of_nat k) = unat (root_dir_sector g) + k" "unat (root_dir_sector g) + k < unat (data_start_sector g)"
    "unat (data_start_sector g) \<le> 0x10000000"
proof -
  show r: "unat (root_dir_sector g) + k < unat (data_start_sector g)" and d: "unat (data_start_sector g) \<le> 0x10000000"
    using assms by (simp_all add: geometry_ok_def)
  then have "k < 4294967296" by linarith
  then show "unat (root_dir_sector g + of_nat k) = unat (root_dir_sector g) + k"
    using r d by (subst unat_plus_u32) (simp_all add: word_bounds)
qed

text \<open>The sectors of a directory: the root area, or the clusters of its chain.\<close>

definition dir_chain :: "fat_sys \<Rightarrow> u16 \<Rightarrow> u16 list \<Rightarrow> bool" where
  "dir_chain s d cs \<longleftrightarrow> (if d = 0 then cs = [] else fat_chain s d cs)"

definition dir_sectors :: "fat16_cache_t \<Rightarrow> u16 \<Rightarrow> u16 list \<Rightarrow> u32 list" where
  "dir_sectors g d cs = (if d = 0 then root_sectors g else concat (map (cluster_sectors g) cs))"

lemma cluster_sectors_bound:
  assumes "fat_ok s" "valid_cluster s c" "l \<in> set (cluster_sectors (fs_cache s) c)"
  shows "l < 0x10000000" "unat (data_start_sector (fs_cache s)) \<le> unat l"
proof -
  obtain k where k: "k < unat (sectors_per_cluster (fs_cache s))" "l = cluster_lba (fs_cache s) c + of_nat k"
    using assms(3) by (auto simp: cluster_sectors_def)
  note u = cluster_sector_unat [OF _ _ _ k(1), of c]
  have g: "geometry_ok (fs_cache s)" "2 \<le> unat c" "unat c < unat (total_clusters (fs_cache s)) + 2"
    using assms(1,2) by (simp_all add: fat_ok_def valid_cluster_def)
  have n: "unat l = unat (data_start_sector (fs_cache s)) + (unat c - 2) * unat (sectors_per_cluster (fs_cache s)) + k"
    unfolding k(2) by (rule u(1) [OF g])
  then show "unat (data_start_sector (fs_cache s)) \<le> unat l" by simp
  have "unat l < 0x10000000" using u(2) [OF g] unfolding n .
  then show "l < 0x10000000" by (simp add: word_less_nat_alt)
qed

lemma root_sectors_bound:
  assumes "fat_ok s" "l \<in> set (root_sectors (fs_cache s))"
  shows "l < 0x10000000" "unat (root_dir_sector (fs_cache s)) \<le> unat l" "unat l < unat (data_start_sector (fs_cache s))"
proof -
  obtain k where k: "k < unat (root_dir_size_sectors (fs_cache s))" "l = root_dir_sector (fs_cache s) + of_nat k"
    using assms(2) by (auto simp: root_sectors_def)
  have "geometry_ok (fs_cache s)" using assms(1) by (simp add: fat_ok_def)
  note u = root_sector_unat [OF this k(1)]
  show "unat (root_dir_sector (fs_cache s)) \<le> unat l" "unat l < unat (data_start_sector (fs_cache s))"
    unfolding k(2) u(1) using u(2) by simp_all
  have "unat l < 0x10000000" using u unfolding k(2) by linarith
  then show "l < 0x10000000" by (simp add: word_less_nat_alt)
qed

lemma dir_sectors_bound:
  assumes "fat_ok s" "dir_chain s d cs" "l \<in> set (dir_sectors (fs_cache s) d cs)"
  shows "l < 0x10000000" "unat (root_dir_sector (fs_cache s)) \<le> unat l"
proof -
  have "unat (root_dir_sector (fs_cache s)) \<le> unat (data_start_sector (fs_cache s))"
    using assms(1) by (simp add: fat_ok_def geometry_ok_def)
  then show "l < 0x10000000" "unat (root_dir_sector (fs_cache s)) \<le> unat l"
    using assms root_sectors_bound [OF assms(1)] cluster_sectors_bound [OF assms(1) fat_chain_valid [of s d cs]]
    by (fastforce simp: dir_sectors_def dir_chain_def split: if_splits)+
qed

lemma visit_clusters_scan:
  assumes "pure_visitor cb f" "fat_ok s" "fat_chain s c cs"
  shows "visit_clusters cb c ctx s =
    Some (fst (scan f (dir_slots (sectors (dev s)) (concat (map (cluster_sectors (fs_cache s)) cs))) ctx),
      snd (scan f (dir_slots (sectors (dev s)) (concat (map (cluster_sectors (fs_cache s)) cs))) ctx), s)"
  using assms(3)
proof (induction cs arbitrary: c ctx)
  case Nil
  then have "\<not> c < 0xFFF8" by simp
  then show ?case by (subst visit_clusters.simps) (simp add: dir_slots_def)
next
  case (Cons x cs)
  then have v: "valid_cluster s x" "c = x" "fat_chain s (fat_entry s x) cs" by simp_all
  have r: "2 \<le> x \<and> x < 0xFFF8" using valid_cluster_range [OF assms(2) v(1)] by (auto simp: word_less_nat_alt)
  let ?a = "dir_slots (sectors (dev s)) (cluster_sectors (fs_cache s) x)"
  have "dir_slots (sectors (dev s)) (concat (map (cluster_sectors (fs_cache s)) (x # cs))) =
      ?a @ dir_slots (sectors (dev s)) (concat (map (cluster_sectors (fs_cache s)) cs))" by (simp add: dir_slots_def)
  moreover have "visit_sectors cb (cluster_sectors (fs_cache s) x) ctx s = Some (fst (scan f ?a ctx), snd (scan f ?a ctx), s)"
    using assms(2) cluster_sectors_bound(1) [OF assms(2) v(1)] by (intro visit_sectors_scan [OF assms(1)]) (simp_all add: fat_ok_def)
  ultimately show ?case
    using r v Cons.IH [OF v(3)] read_fat_entry_ok [OF assms(2) v(1)]
    by (subst visit_clusters.simps) (cases "scan f ?a ctx"; simp add: scan_append)
qed

lemma iterate_directory_scan:
  assumes "pure_visitor cb f" "fat_ok s" "dir_chain s d cs"
  shows "iterate_directory d cb ctx s =
    (let (a, ctx1) = scan f (dir_slots (sectors (dev s)) (dir_sectors (fs_cache s) d cs)) ctx
     in Some (if a < 0 then a else 0, ctx1, s))"
  using assms visit_sectors_scan [OF assms(1), of s "root_sectors (fs_cache s)" ctx] visit_clusters_scan [OF assms(1,2), of d cs ctx]
    root_sectors_bound(1) [OF assms(2)]
  by (auto simp: iterate_directory_def dir_chain_def dir_sectors_def fat_ok_def split: prod.splits)

section \<open>What a search finds\<close>

definition find_step :: "u32 \<Rightarrow> nat \<Rightarrow> u8 list \<Rightarrow> find_file_ctx_t \<Rightarrow> int \<times> find_file_ctx_t" where
  "find_step l i e ctx = map_prod id fst (the (find_file_callback l i e ctx undefined))"

lemma find_pure: "pure_visitor find_file_callback find_step"
  by (simp add: pure_visitor_def find_step_def find_file_callback_def Let_def)

text \<open>
  The named entries of a directory in order, each with the bytes of the long name collected in
  front of it, up to the end marker.
\<close>

fun named_entries :: "slot list \<Rightarrow> u8 list \<Rightarrow> (slot \<times> u8 list) list" where
  "named_entries [] b = []"
| "named_entries ((l, i, e) # xs) b =
     (if e ! 0 = 0 then []
      else if e ! 0 = 0xE5 then named_entries xs (clear_lfn b)
      else if e_attributes e = FAT_ATTR_LFN then named_entries xs (lfn_store e b)
      else if e_attributes e \<noteq> FAT_ATTR_VOLUME_ID then ((l, i, e), b) # named_entries xs (clear_lfn b)
      else named_entries xs b)"

definition entry_matches :: "u8 list \<Rightarrow> slot \<times> u8 list \<Rightarrow> bool" where
  "entry_matches name = (\<lambda>((l, i, e), b). b ! 0 \<noteq> 0 \<and> names_match b name \<or> match_sfn e name)"

text \<open>Record number 20 of a long name has nothing to store behind the buffer.\<close>

definition lfn_safe :: "u8 list \<Rightarrow> bool" where
  "lfn_safe e \<longleftrightarrow> (e_attributes e = FAT_ATTR_LFN \<and> e ! 0 AND 0x1F = 20 \<longrightarrow>
     (\<forall>j. 9 \<le> j \<and> j < 13 \<longrightarrow> lfn_char (get16 e (lfn_unit_offset j)) = 0))"

definition clean_tail :: "u8 list \<Rightarrow> bool" where
  "clean_tail b \<longleftrightarrow> length b = 260 \<and> drop 256 b = replicate 4 0"

lemma clear_clean [simp]: "clean_tail b \<Longrightarrow> clear_lfn b = replicate 260 0"
proof -
  assume "clean_tail b"
  then have "clear_lfn b = replicate 256 0 @ replicate 4 0" by (simp add: clear_lfn_def clean_tail_def)
  also have "\<dots> = replicate 260 0" unfolding replicate_add [symmetric] by simp
  finally show ?thesis .
qed

lemma clean_zeros [simp]: "clean_tail (replicate 260 0)"
  by (simp add: clean_tail_def)

lemma lfn_store_eq:
  "length b = 260 \<Longrightarrow> 1 \<le> unat (e ! 0 AND 0x1F) \<Longrightarrow> unat (e ! 0 AND 0x1F) \<le> 20 \<Longrightarrow>
    lfn_store e b = (let k = 13 * (unat (e ! 0 AND 0x1F) - 1) in
      take k b @ map (\<lambda>j. lfn_char (get16 e (lfn_unit_offset j))) [0..<13] @ drop (k + 13) b)"
  "unat (e ! 0 AND 0x1F) = 0 \<or> 20 < unat (e ! 0 AND 0x1F) \<Longrightarrow> lfn_store e b = b"
proof -
  define n where "n = unat (e ! 0 AND 0x1F)"
  have d: "lfn_store e b = (if 1 \<le> n \<and> n \<le> 20
      then write_at b (13 * (n - 1)) (map (\<lambda>j. lfn_char (get16 e (lfn_unit_offset j))) [0..<13]) else b)"
    unfolding lfn_store_def n_def [symmetric] Let_def by (auto simp: mult.commute nat_diff_distrib)
  show "lfn_store e b = (let k = 13 * (unat (e ! 0 AND 0x1F) - 1) in
      take k b @ map (\<lambda>j. lfn_char (get16 e (lfn_unit_offset j))) [0..<13] @ drop (k + 13) b)"
    if "length b = 260" "1 \<le> unat (e ! 0 AND 0x1F)" "unat (e ! 0 AND 0x1F) \<le> 20"
    using that d unfolding n_def [symmetric] Let_def by (simp add: write_at_eq)
  show "lfn_store e b = b" if "unat (e ! 0 AND 0x1F) = 0 \<or> 20 < unat (e ! 0 AND 0x1F)"
    using that d unfolding n_def [symmetric] by auto
qed

lemma lfn_store_clean:
  assumes "clean_tail b" "lfn_safe e" "e_attributes e = FAT_ATTR_LFN"
  shows "clean_tail (lfn_store e b)"
proof -
  let ?n = "unat (e ! 0 AND 0x1F)" and ?c = "map (\<lambda>j. lfn_char (get16 e (lfn_unit_offset j))) [0..<13]"
  have l: "length b = 260" and z: "drop 256 b = replicate 4 0" using assms(1) by (simp_all add: clean_tail_def)
  consider "?n = 0 \<or> 20 < ?n" | "1 \<le> ?n" "?n < 20" | "?n = 20" by linarith
  then show ?thesis
  proof cases
    case 1
    then show ?thesis using lfn_store_eq(2) [OF 1] assms(1) by simp
  next
    case 2
    then have s: "lfn_store e b = take (13 * (?n - 1)) b @ ?c @ drop (13 * (?n - 1) + 13) b"
      using lfn_store_eq(1) [OF l] by (simp add: Let_def)
    have "13 * (?n - 1) + 13 \<le> 247" using 2 by simp
    then have "drop 256 (lfn_store e b) = drop 256 b" unfolding s using l by simp
    moreover have "length (lfn_store e b) = 260" unfolding s using l \<open>13 * (?n - 1) + 13 \<le> 247\<close> by simp
    ultimately show ?thesis using z by (simp add: clean_tail_def)
  next
    case 3
    then have s: "lfn_store e b = take 247 b @ ?c" using lfn_store_eq(1) [OF l, of e] l by (simp add: Let_def)
    have "e ! 0 AND 0x1F = 20" using 3 by (metis of_nat_numeral of_nat_unat ucast_id)
    then have "\<forall>j. 9 \<le> j \<and> j < 13 \<longrightarrow> lfn_char (get16 e (lfn_unit_offset j)) = 0"
      using assms(2,3) by (simp add: lfn_safe_def)
    then have "drop 9 ?c = replicate 4 0" by (intro nth_equalityI) (auto simp: nth_append)
    then show ?thesis unfolding s clean_tail_def using l by simp
  qed
qed

lemma not_found_clean: "clean_tail (lfn_bytes ctx) \<Longrightarrow> \<not> ctx_found ctx"
  by (auto simp: clean_tail_def ctx_found_def)

text \<open>The context of a search that ended with the given entry, or with none.\<close>

definition found_as :: "find_file_ctx_t \<Rightarrow> (slot \<times> u8 list) option \<Rightarrow> bool" where
  "found_as ctx r \<longleftrightarrow> (case r of None \<Rightarrow> \<not> ctx_found ctx
     | Some ((l, i, e), b) \<Rightarrow> ctx_found ctx \<and> out_entry ctx = e \<and> out_sector ctx = l \<and> out_idx ctx = i)"

lemma scan_find:
  assumes "clean_tail (lfn_bytes ctx)" "\<And>l i e. (l, i, e) \<in> set xs \<Longrightarrow> lfn_safe e"
  shows "found_as (snd (scan find_step xs ctx)) (find (entry_matches (target_name ctx)) (named_entries xs (lfn_bytes ctx)))"
  using assms
proof (induction xs arbitrary: ctx)
  case Nil
  then show ?case using not_found_clean by (simp add: found_as_def)
next
  case (Cons x xs)
  obtain l i e where x: "x = (l, i, e)" by (cases x)
  have safe: "lfn_safe e" using Cons.prems(2) x by auto
  have rest: "\<And>l i e. (l, i, e) \<in> set xs \<Longrightarrow> lfn_safe e" using Cons.prems(2) by auto
  let ?c = "ctx\<lparr>lfn_bytes := replicate 260 0\<rparr>"
  note step = find_step_def find_file_callback_def entry_matches_def Let_def
  consider "e ! 0 = 0" | "e ! 0 = 0xE5" | "e ! 0 \<noteq> 0" "e ! 0 \<noteq> 0xE5" "e_attributes e = FAT_ATTR_LFN"
    | "e ! 0 \<noteq> 0" "e ! 0 \<noteq> 0xE5" "e_attributes e = FAT_ATTR_VOLUME_ID"
    | "e ! 0 \<noteq> 0" "e ! 0 \<noteq> 0xE5" "e_attributes e \<noteq> FAT_ATTR_LFN" "e_attributes e \<noteq> FAT_ATTR_VOLUME_ID" by blast
  then show ?case
  proof cases
    case 1
    then show ?thesis using not_found_clean [OF Cons.prems(1)] x by (simp add: step found_as_def)
  next
    case 2
    then have "scan find_step (x # xs) ctx = scan find_step xs ?c" "named_entries (x # xs) (lfn_bytes ctx) = named_entries xs (replicate 260 0)"
      using Cons.prems(1) x by (simp_all add: step)
    then show ?thesis using Cons.IH [of ?c] rest by simp
  next
    case 3
    let ?d = "ctx\<lparr>lfn_bytes := lfn_store e (lfn_bytes ctx)\<rparr>"
    have "clean_tail (lfn_store e (lfn_bytes ctx))" by (rule lfn_store_clean [OF Cons.prems(1) safe 3(3)])
    moreover have "scan find_step (x # xs) ctx = scan find_step xs ?d"
      "named_entries (x # xs) (lfn_bytes ctx) = named_entries xs (lfn_store e (lfn_bytes ctx))"
      using 3 x by (simp_all add: step)
    ultimately show ?thesis using Cons.IH [of ?d] rest by simp
  next
    case 4
    then have "e_attributes e \<noteq> FAT_ATTR_LFN" by (simp add: FAT_ATTR_VOLUME_ID_def FAT_ATTR_LFN_def)
    then have "scan find_step (x # xs) ctx = scan find_step xs ctx" "named_entries (x # xs) (lfn_bytes ctx) = named_entries xs (lfn_bytes ctx)"
      using 4 x by (simp_all add: step)
    then show ?thesis using Cons.IH [OF Cons.prems(1) rest] by simp
  next
    case 5
    have n: "named_entries (x # xs) (lfn_bytes ctx) = ((l, i, e), lfn_bytes ctx) # named_entries xs (replicate 260 0)"
      using 5 x Cons.prems(1) by simp
    show ?thesis
    proof (cases "entry_matches (target_name ctx) ((l, i, e), lfn_bytes ctx)")
      case True
      have "length (take 256 (lfn_bytes ctx)) = 256" using Cons.prems(1) by (simp add: clean_tail_def)
      then show ?thesis using True 5 x n by (simp add: step ctx_found_def found_as_def)
    next
      case False
      then have "scan find_step (x # xs) ctx = scan find_step xs ?c" using 5 x Cons.prems(1) by (auto simp: step)
      then show ?thesis using Cons.IH [of ?c] rest n False by simp
    qed
  qed
qed


lemma find_in_dir_ok:
  assumes "fat_ok s" "dir_chain s d cs"
    and "\<And>l i e. (l, i, e) \<in> set (dir_slots (sectors (dev s)) (dir_sectors (fs_cache s) d cs)) \<Longrightarrow> lfn_safe e"
  shows "fat16_find_in_dir d name s =
    Some (map_option (\<lambda>((l, i, e), b). (e, l, i)) (find (entry_matches name)
      (named_entries (dir_slots (sectors (dev s)) (dir_sectors (fs_cache s) d cs)) (replicate 260 0))), s)"
proof -
  let ?xs = "dir_slots (sectors (dev s)) (dir_sectors (fs_cache s) d cs)"
  obtain a ctx where sc: "scan find_step ?xs (find_ctx name) = (a, ctx)" by (cases "scan find_step ?xs (find_ctx name)")
  have "found_as ctx (find (entry_matches name) (named_entries ?xs (replicate 260 0)))"
    using scan_find [of "find_ctx name" ?xs] assms(3) sc by (simp add: find_ctx_def)
  then show ?thesis using iterate_directory_scan [OF find_pure assms(1,2), of "find_ctx name"] sc
    by (auto simp: fat16_find_in_dir_def found_as_def split: option.splits)
qed

end
