(* ===== verification/Fat16_Insert.thy ===== *)
theory Fat16_Insert
  imports Fat16_Dir
begin

text \<open>
  What \<open>fat16_insert_entry\<close> does to a directory: the free slots it picks, the records it writes there,
  and that a search then finds the new entry under its long name and everything else as before.
\<close>

unbundle bit_operations_syntax

section \<open>The search for free slots\<close>

definition slot_free :: "slot \<Rightarrow> bool" where
  "slot_free = (\<lambda>(l, i, e). e ! 0 = 0 \<or> e ! 0 = 0xE5)"

definition slot_step :: "u32 \<Rightarrow> nat \<Rightarrow> u8 list \<Rightarrow> slot_search_ctx_t \<Rightarrow> int \<times> slot_search_ctx_t" where
  "slot_step l i e ctx = map_prod id fst (the (slot_search_callback l i e ctx undefined))"

lemma slot_pure: "pure_visitor slot_search_callback slot_step"
  by (simp add: pure_visitor_def slot_step_def slot_search_callback_def Let_def)

text \<open>A window of free slots that starts right behind an occupied slot or at the beginning.\<close>

definition free_window :: "slot list \<Rightarrow> nat \<Rightarrow> slot list \<Rightarrow> slot list \<Rightarrow> slot list \<Rightarrow> bool" where
  "free_window xs n pre win post \<longleftrightarrow> xs = pre @ win @ post \<and> length win = n \<and> (\<forall>x \<in> set win. slot_free x) \<and>
     (pre = [] \<or> \<not> slot_free (last pre))"

lemma scan_slots:
  assumes "slots_needed ctx = n" "consecutive_found ctx = length run" "length run < n" "\<not> slots_done ctx"
    and "pre0 = [] \<or> \<not> slot_free (last pre0)" "\<forall>x \<in> set run. slot_free x"
    and "run \<noteq> [] \<Longrightarrow> fst (hd run) = start_sector ctx \<and> fst (snd (hd run)) = start_slot ctx"
  shows "let c = snd (scan slot_step xs ctx) in slots_done c \<longrightarrow>
    (\<exists>pre win post. free_window (pre0 @ run @ xs) n pre win post \<and> fst (hd win) = start_sector c \<and> fst (snd (hd win)) = start_slot c)"
  using assms
proof (induction xs arbitrary: ctx pre0 run)
  case Nil
  then show ?case by simp
next
  case (Cons x xs)
  obtain l i e where x: "x = (l, i, e)" by (cases x)
  show ?case
  proof (cases "slot_free x")
    case False
    let ?c = "ctx\<lparr>consecutive_found := 0\<rparr>"
    have "scan slot_step (x # xs) ctx = scan slot_step xs ?c"
      using False x by (simp add: slot_step_def slot_search_callback_def slot_free_def Let_def)
    moreover have "0 < n" using Cons.prems(3) by simp
    ultimately show ?thesis
      using Cons.IH [of ?c "[]" "pre0 @ run @ [x]"] Cons.prems(1,4) False by (simp add: Let_def)
  next
    case True
    let ?c1 = "if consecutive_found ctx = 0 then ctx\<lparr>start_sector := l, start_slot := i\<rparr> else ctx"
    let ?c2 = "?c1\<lparr>consecutive_found := Suc (length run)\<rparr>"
    have st: "fst (hd (run @ [x])) = start_sector ?c2 \<and> fst (snd (hd (run @ [x]))) = start_slot ?c2"
      using Cons.prems(2,7) x by (cases run) auto
    have fr: "\<forall>y \<in> set (run @ [x]). slot_free y" using Cons.prems(6) True by simp
    show ?thesis
    proof (cases "Suc (length run) = n")
      case True
      have "scan slot_step (x # xs) ctx = (1, ?c2\<lparr>slots_done := True\<rparr>)"
        using True \<open>slot_free x\<close> x Cons.prems(1,2) by (auto simp: slot_step_def slot_search_callback_def slot_free_def Let_def)
      moreover have "free_window (pre0 @ run @ x # xs) n pre0 (run @ [x]) xs"
        using True fr Cons.prems(5) by (simp add: free_window_def)
      ultimately show ?thesis using st unfolding Let_def by (intro impI exI [of _ pre0] exI [of _ "run @ [x]"] exI [of _ xs]) simp
    next
      case False
      have "scan slot_step (x # xs) ctx = scan slot_step xs ?c2"
        using False \<open>slot_free x\<close> x Cons.prems(1,2) by (auto simp: slot_step_def slot_search_callback_def slot_free_def Let_def)
      moreover have "length (run @ [x]) < n" using False Cons.prems(3) by simp
      moreover have "slots_needed ?c2 = n" "consecutive_found ?c2 = length (run @ [x])" "\<not> slots_done ?c2"
        using Cons.prems(1,2,4) by auto
      ultimately show ?thesis using Cons.IH [of ?c2 "run @ [x]" pre0] Cons.prems(5) fr st by simp
    qed
  qed
qed

text \<open>\<open>n\<close> consecutive free slots somewhere in a directory; the search misses none.\<close>

definition has_room :: "nat \<Rightarrow> slot list \<Rightarrow> bool" where
  "has_room n xs \<longleftrightarrow> (\<exists>k \<in> set [0..<Suc (length xs)]. k + n \<le> length xs \<and> list_all slot_free (take n (drop k xs)))"

lemma has_room_append:
  assumes "has_room n (ys @ x # xs)" "\<not> slot_free x" "length ys < n"
  shows "has_room n xs"
proof -
  obtain k where k: "k + n \<le> length (ys @ x # xs)" "list_all slot_free (take n (drop k (ys @ x # xs)))"
    using assms(1) unfolding has_room_def by blast
  have "length ys < k"
  proof (rule ccontr)
    assume "\<not> length ys < k"
    then have "length ys - k < n" "k + (length ys - k) = length ys" using assms(3) by simp_all
    then have "take n (drop k (ys @ x # xs)) ! (length ys - k) = x" using k(1) by (simp add: nth_append)
    moreover have "length ys - k < length (take n (drop k (ys @ x # xs)))" using \<open>length ys - k < n\<close> k(1) by simp
    ultimately have "x \<in> set (take n (drop k (ys @ x # xs)))" by (metis nth_mem)
    then show False using k(2) assms(2) by (simp add: list_all_iff)
  qed
  then have "drop k (ys @ x # xs) = drop (k - Suc (length ys)) xs" "k - Suc (length ys) + n \<le> length xs"
    using k(1) by (simp_all add: drop_Cons')
  then show ?thesis using k(2) unfolding has_room_def by (intro bexI [of _ "k - Suc (length ys)"]) auto
qed

lemma scan_slots_complete:
  assumes "slots_needed ctx = n" "consecutive_found ctx = length run" "length run < n" "\<forall>x \<in> set run. slot_free x"
    and "\<not> slots_done (snd (scan slot_step xs ctx))"
  shows "\<not> has_room n (run @ xs)"
  using assms
proof (induction xs arbitrary: ctx run)
  case Nil
  then show ?case by (auto simp: has_room_def)
next
  case (Cons x xs)
  obtain l i e where x: "x = (l, i, e)" by (cases x)
  show ?case
  proof (cases "slot_free x")
    case False
    let ?c = "ctx\<lparr>consecutive_found := 0\<rparr>"
    have "scan slot_step (x # xs) ctx = scan slot_step xs ?c"
      using False x by (simp add: slot_step_def slot_search_callback_def slot_free_def Let_def)
    then have "\<not> has_room n ([] @ xs)" using Cons.IH [of ?c "[]"] Cons.prems(1,3,5) by simp
    then show ?thesis using has_room_append [OF _ False Cons.prems(3)] by auto
  next
    case True
    let ?c1 = "if consecutive_found ctx = 0 then ctx\<lparr>start_sector := l, start_slot := i\<rparr> else ctx"
    let ?c2 = "?c1\<lparr>consecutive_found := Suc (length run)\<rparr>"
    have ne: "Suc (length run) \<noteq> n"
    proof
      assume "Suc (length run) = n"
      then have "scan slot_step (x # xs) ctx = (1, ?c2\<lparr>slots_done := True\<rparr>)"
        using True x Cons.prems(1,2) by (auto simp: slot_step_def slot_search_callback_def slot_free_def Let_def)
      then show False using Cons.prems(5) by simp
    qed
    have "scan slot_step (x # xs) ctx = scan slot_step xs ?c2"
      using ne True x Cons.prems(1,2) by (auto simp: slot_step_def slot_search_callback_def slot_free_def Let_def)
    moreover have "slots_needed ?c2 = n" "consecutive_found ?c2 = length (run @ [x])" using Cons.prems(1,2) by auto
    ultimately have "\<not> has_room n ((run @ [x]) @ xs)"
      using Cons.IH [of ?c2 "run @ [x]"] Cons.prems(3-5) True ne by simp
    then show ?thesis by simp
  qed
qed

lemma window_room: "free_window xs n pre win post \<Longrightarrow> has_room n xs"
  unfolding has_room_def by (intro bexI [of _ "length pre"]) (auto simp: free_window_def list_all_iff)

section \<open>Writing the records\<close>

definition set_sectors :: "(u32 \<Rightarrow> u8 list) \<Rightarrow> fat_sys \<Rightarrow> fat_sys" where
  "set_sectors f s = s\<lparr>dev := (dev s)\<lparr>sectors := f\<rparr>\<rparr>"

lemma set_sectors_simps [simp]:
  "sectors (dev (set_sectors f s)) = f" "fs_cache (set_sectors f s) = fs_cache s" "con (set_sectors f s) = con s"
  "fheap (set_sectors f s) = fheap s" "set_sectors f (set_sectors g s) = set_sectors f s"
  "set_sector l b (set_sectors f s) = set_sectors (f(l := b)) s" "set_sectors (sectors (dev s)) s = s"
  by (simp_all add: set_sectors_def set_sector_def)

lemma set_sector_sectors: "set_sector l b s = set_sectors ((sectors (dev s))(l := b)) s"
  by (simp add: set_sectors_def set_sector_def)

lemma disk_ok_set_sectors: "disk_ok s \<Longrightarrow> (\<And>l. length (f l) = 512) \<Longrightarrow> disk_ok (set_sectors f s)"
  by (simp add: disk_ok_def set_sectors_def)

fun put_records :: "(u32 \<Rightarrow> u8 list) \<Rightarrow> u32 \<Rightarrow> nat \<Rightarrow> u8 list list \<Rightarrow> (u32 \<Rightarrow> u8 list)" where
  "put_records f l j [] = f"
| "put_records f l j (r # rs) =
     (if Suc j \<ge> 16 then put_records (f(l := put_slot (f l) j r)) (l + 1) 0 rs
      else put_records (f(l := put_slot (f l) j r)) l (Suc j) rs)"

lemma put_records_length:
  assumes "\<And>l. length (f l) = 512" "\<And>r. r \<in> set rs \<Longrightarrow> length r = 32" "j < 16"
  shows "length (put_records f l j rs l') = 512"
  using assms by (induction f l j rs rule: put_records.induct) (simp_all add: put_slot_length)

lemma write_records_ok:
  assumes "disk_ok s" "length b = 512" "j < 16" "\<And>r. r \<in> set rs \<Longrightarrow> length r = 32"
    and "unat l + (j + length rs) div 16 < 0x10000000"
  shows "write_records rs l b j s = (True, set_sectors (put_records ((sectors (dev s))(l := b)) l j rs) s)"
  using assms
proof (induction rs arbitrary: l b j s)
  case Nil
  then have "l < 0x10000000" by (simp add: word_less_nat_alt)
  then show ?case using Nil by (simp add: set_sector_sectors del: fun_upd_apply)
next
  case (Cons r rs)
  let ?b = "put_slot b j r"
  have b: "length ?b = 512" using Cons.prems by (simp add: put_slot_length)
  have l: "l < 0x10000000" using Cons.prems(5) by (simp add: word_less_nat_alt)
  show ?case
  proof (cases "Suc j \<ge> 16")
    case True
    then have j: "j = 15" using Cons.prems(3) by simp
    let ?s = "set_sector l ?b s"
    have n: "unat l + 1 < 0x10000000" "unat l + 1 + length rs div 16 < 0x10000000" using Cons.prems(5) j by simp_all
    then have u: "unat (l + 1) = unat l + 1" by (subst unat_plus_u32) simp_all
    have l1: "l + 1 < 0x10000000" using n u by (simp add: word_less_nat_alt)
    have "l + 1 \<noteq> l" by simp
    have "write_records rs (l + 1) (sectors (dev s) (l + 1)) 0 ?s =
        (True, set_sectors (put_records ((sectors (dev ?s))(l + 1 := sectors (dev s) (l + 1))) (l + 1) 0 rs) ?s)"
      using Cons.IH [of ?s "sectors (dev s) (l + 1)" 0 "l + 1"] Cons.prems(1,4) b n(2) u by (simp del: fun_upd_apply)
    moreover have "(sectors (dev ?s))(l + 1 := sectors (dev s) (l + 1)) = (sectors (dev s))(l := ?b)"
      using \<open>l + 1 \<noteq> l\<close> by auto
    moreover have "ata_read_sector (l + 1) ?s = (Some (sectors (dev s) (l + 1)), ?s)"
      using disk_ok_read [of ?s "l + 1"] Cons.prems(1) b l1 \<open>l + 1 \<noteq> l\<close> by simp
    then have "write_records (r # rs) l b j s = write_records rs (l + 1) (sectors (dev s) (l + 1)) 0 ?s"
      using True Cons.prems(1) b l by simp
    moreover have "put_records ((sectors (dev s))(l := b)) l j (r # rs) = put_records ((sectors (dev s))(l := ?b)) (l + 1) 0 rs"
      using True by (simp add: fun_upd_same del: fun_upd_apply)
    ultimately show ?thesis by (simp add: set_sector_sectors del: fun_upd_apply)
  next
    case False
    then show ?thesis using Cons.IH [of s ?b "Suc j" l] Cons.prems b by (simp add: fun_upd_same del: fun_upd_apply)
  qed
qed

section \<open>The slots afterwards\<close>

fun upd_slots :: "slot list \<Rightarrow> nat \<Rightarrow> u8 list list \<Rightarrow> slot list" where
  "upd_slots D p [] = D"
| "upd_slots D p (r # rs) = upd_slots (D[p := (fst (D ! p), fst (snd (D ! p)), r)]) (Suc p) rs"

lemma upd_slots_window:
  assumes "length win = length rs"
  shows "upd_slots (pre @ win @ post) (length pre) rs = pre @ map2 (\<lambda>(l, i, e) r. (l, i, r)) win rs @ post"
  using assms
proof (induction win rs arbitrary: pre rule: list_induct2)
  case (Cons x win r rs)
  obtain l i e where x: "x = (l, i, e)" by (cases x)
  have "(pre @ (x # win) @ post)[length pre := (l, i, r)] = (pre @ [(l, i, r)]) @ win @ post" by (simp add: list_update_append)
  then show ?case using Cons.IH [of "pre @ [(l, i, r)]"] x by (simp add: nth_append)
qed simp

lemma dir_slots_length [simp]: "length (dir_slots f ls) = 16 * length ls"
  by (induction ls) (simp_all add: dir_slots_def)

lemma dir_slots_nth:
  assumes "k < length ls" "j < 16"
  shows "dir_slots f ls ! (16 * k + j) = (ls ! k, j, slot_of (f (ls ! k)) j)"
  using assms
proof (induction ls arbitrary: k)
  case (Cons l ls)
  have d: "dir_slots f (l # ls) = map (\<lambda>i. (l, i, slot_of (f l) i)) [0..<16] @ dir_slots f ls" by (simp add: dir_slots_def)
  show ?case
  proof (cases k)
    case 0
    then show ?thesis using Cons.prems(2) unfolding d by (simp add: nth_append)
  next
    case (Suc k')
    then have "dir_slots f (l # ls) ! (16 * k + j) = dir_slots f ls ! (16 * k' + j)" unfolding d by (simp add: nth_append)
    then show ?thesis using Cons Suc by simp
  qed
qed simp

lemma index_eq: "j' < 16 \<Longrightarrow> j < 16 \<Longrightarrow> 16 * k' + j' = 16 * k + (j :: nat) \<longleftrightarrow> k' = k \<and> j' = j"
proof
  assume "j' < 16" "j < 16" and e: "16 * k' + j' = 16 * k + j"
  then have "(16 * k' + j') div 16 = k'" "(16 * k + j) div 16 = k" by simp_all
  then have "k' = k" unfolding e by simp
  then show "k' = k \<and> j' = j" using e by simp
qed simp

lemma dir_slots_update:
  assumes "distinct ls" "k < length ls" "j < 16" "length (f (ls ! k)) = 512" "length r = 32"
  shows "dir_slots (f(ls ! k := put_slot (f (ls ! k)) j r)) ls = (dir_slots f ls)[16 * k + j := (ls ! k, j, r)]"
proof (rule nth_equalityI)
  fix p
  assume "p < length (dir_slots (f(ls ! k := put_slot (f (ls ! k)) j r)) ls)"
  then have p: "p < 16 * length ls" by simp
  define k' j' where "k' = p div 16" and "j' = p mod 16"
  have kj: "p = 16 * k' + j'" "j' < 16" "k' < length ls" using p by (auto simp: k'_def j'_def)
  have "slot_of ((f(ls ! k := put_slot (f (ls ! k)) j r)) (ls ! k')) j' = (if k' = k \<and> j' = j then r else slot_of (f (ls ! k')) j')"
  proof (cases "k' = k")
    case True
    then show ?thesis using slot_of_put_slot [OF assms(3) kj(2) assms(4,5)] by simp
  next
    case False
    then have "ls ! k' \<noteq> ls ! k" using assms(1,2) kj(3) by (simp add: nth_eq_iff_index_eq)
    then show ?thesis using False by simp
  qed
  moreover have "16 * k' + j' = 16 * k + j \<longleftrightarrow> k' = k \<and> j' = j" by (rule index_eq [OF kj(2) assms(3)])
  ultimately show "dir_slots (f(ls ! k := put_slot (f (ls ! k)) j r)) ls ! p = (dir_slots f ls)[16 * k + j := (ls ! k, j, r)] ! p"
    using p assms(2,3) unfolding kj(1)
    by (cases "k' = k \<and> j' = j") (simp_all add: dir_slots_nth kj nth_list_update eq_commute [of "16 * k + j"])
qed simp

text \<open>Sectors that follow each other on the disk.\<close>

definition contiguous :: "u32 list \<Rightarrow> bool" where
  "contiguous ls \<longleftrightarrow> distinct ls \<and> (\<forall>k. Suc k < length ls \<longrightarrow> ls ! Suc k = ls ! k + 1)"

lemma put_records_slots:
  assumes "contiguous ls" "16 * k + j + length rs \<le> 16 * length ls" "k < length ls" "j < 16"
    and "\<And>l. length (f l) = 512" "\<And>r. r \<in> set rs \<Longrightarrow> length r = 32"
  shows "dir_slots (put_records f (ls ! k) j rs) ls = upd_slots (dir_slots f ls) (16 * k + j) rs"
  using assms(2-)
proof (induction rs arbitrary: f k j)
  case (Cons r rs)
  let ?f = "f(ls ! k := put_slot (f (ls ! k)) j r)"
  have d: "distinct ls" using assms(1) by (simp add: contiguous_def)
  have u: "dir_slots ?f ls = (dir_slots f ls)[16 * k + j := (ls ! k, j, r)]"
    using dir_slots_update [OF d Cons.prems(2,3), of f r] Cons.prems(4,5) by simp
  have n: "fst (dir_slots f ls ! (16 * k + j)) = ls ! k" "fst (snd (dir_slots f ls ! (16 * k + j))) = j"
    using dir_slots_nth [OF Cons.prems(2,3)] by simp_all
  have len: "length (?f l) = 512" for l using Cons.prems by (simp add: put_slot_length)
  show ?case
  proof (cases "Suc j \<ge> 16")
    case False
    then show ?thesis using Cons.IH [of k "Suc j" ?f] Cons.prems len u n by (simp del: fun_upd_apply)
  next
    case True
    then have j: "j = 15" using Cons.prems(3) by simp
    show ?thesis
    proof (cases rs)
      case Nil
      then show ?thesis using True u n by (simp del: fun_upd_apply)
    next
      case (Cons r' rs')
      then have k: "Suc k < length ls" using Cons.prems(1) j by simp
      then have "ls ! k + 1 = ls ! Suc k" using assms(1) by (simp add: contiguous_def)
      then show ?thesis using Cons.IH [of "Suc k" 0 ?f] Cons.prems len u n True j k by (simp del: fun_upd_apply)
    qed
  qed
qed simp

section \<open>Reading the records back\<close>

lemma scast_byte: "ucast (scast (c :: u8) AND 0xFF :: u16) = c"
proof -
  have m: "(0xFF :: u16) = mask 8" by (simp add: mask_eq_exp_minus_1)
  show ?thesis unfolding m by (rule bit_word_eqI) (auto simp: bit_simps)
qed

text \<open>The byte 0xFF is lost: widened it is the filler.\<close>

lemma lfn_char_unit:
  assumes "0xFF \<notin> set name"
  shows "lfn_char (name_unit name p) = (if p < length name then name ! p else 0)"
proof (cases "p < length name")
  case True
  have "scast (name ! p) \<noteq> (0xFFFF :: u16)"
  proof
    assume "scast (name ! p) = (0xFFFF :: u16)"
    then have "name ! p = ucast (0xFFFF AND 0xFF :: u16)" using scast_byte [of "name ! p"] by simp
    then have "name ! p = 0xFF" by simp
    then show False using assms True by (metis nth_mem)
  qed
  then show ?thesis using True scast_byte by (simp add: lfn_char_def name_unit_def)
qed (simp add: lfn_char_def name_unit_def)

lemma sequence_numbers:
  "list_all (\<lambda>k. (of_nat k :: u8) AND 0x1F = of_nat k \<and> ((of_nat k :: u8) OR 0x40) AND 0x1F = of_nat k \<and>
     unat (of_nat k :: u8) = k \<and> (of_nat k :: u8) \<noteq> 0 \<and> (of_nat k :: u8) \<noteq> 0xE5 \<and>
     (of_nat k :: u8) OR 0x40 \<noteq> 0 \<and> (of_nat k :: u8) OR 0x40 \<noteq> 0xE5) [1..<21]"
  by code_simp

lemma put16_nth: "k \<noteq> i \<Longrightarrow> k \<noteq> Suc i \<Longrightarrow> put16 b i v ! k = b ! k"
  by (simp add: put16_def)

lemma lfn_record_fields:
  "length (lfn_record name chk n i) = 32"
  "lfn_record name chk n i ! 0 = of_nat (n - i) OR (if i = 0 then 0x40 else 0)"
  "e_attributes (lfn_record name chk n i) = FAT_ATTR_LFN"
  "j < 13 \<Longrightarrow> get16 (lfn_record name chk n i) (lfn_unit_offset j) = name_unit name ((n - i - 1) * 13 + j)"
proof -
  have u: "[0..<13] = [0, 1, 2, 3, 4, 5, 6, 7, 8, 9, 10, 11, 12 :: nat]" by (simp add: upt_rec)
  show "length (lfn_record name chk n i) = 32"
    unfolding lfn_record_def u by (simp add: Let_def)
  show "lfn_record name chk n i ! 0 = of_nat (n - i) OR (if i = 0 then 0x40 else 0)"
    unfolding lfn_record_def u by (simp add: Let_def put16_nth lfn_unit_offset_def)
  show "e_attributes (lfn_record name chk n i) = FAT_ATTR_LFN"
    unfolding lfn_record_def u e_attributes_def by (simp add: Let_def put16_nth lfn_unit_offset_def)
  show "get16 (lfn_record name chk n i) (lfn_unit_offset j) = name_unit name ((n - i - 1) * 13 + j)" if "j < 13"
  proof -
    have "j \<in> set [0..<13]" using that by simp
    then show ?thesis unfolding lfn_record_def u
      by (auto simp: Let_def get16_put16_other lfn_unit_offset_def numeral_3_eq_3 [symmetric])
  qed
qed

definition name_part :: "u8 list \<Rightarrow> nat \<Rightarrow> nat \<Rightarrow> u8 list" where
  "name_part name n i = replicate (13 * (n - i)) 0 @
     map (\<lambda>p. if p < length name then name ! p else 0) [13 * (n - i)..<13 * n] @ replicate (260 - 13 * n) 0"

lemma name_part_store:
  assumes "i < n" "n \<le> 20" "0xFF \<notin> set name"
  shows "lfn_store (lfn_record name chk n i) (name_part name n i) = name_part name n (Suc i)"
    and "lfn_record name chk n i ! 0 \<noteq> 0" "lfn_record name chk n i ! 0 \<noteq> 0xE5"
proof -
  let ?r = "lfn_record name chk n i" and ?k = "13 * (n - i - 1)"
  let ?P = "\<lambda>p. if p < length name then name ! p else 0"
  have k: "n - i \<in> set [1..<21]" using assms(1,2) by auto
  note sq = sequence_numbers [unfolded list_all_iff, rule_format, OF k]
  show "?r ! 0 \<noteq> 0" "?r ! 0 \<noteq> 0xE5" using sq by (auto simp: lfn_record_fields(2))
  have a: "unat (?r ! 0 AND 0x1F) = n - i" using sq by (cases "i = 0") (simp_all add: lfn_record_fields(2))
  have len: "length (name_part name n i) = 260" using assms(2) by (simp add: name_part_def)
  have c: "map (\<lambda>j. lfn_char (get16 ?r (lfn_unit_offset j))) [0..<13] = map ?P [?k..<?k + 13]"
    using lfn_char_unit [OF assms(3)] by (intro nth_equalityI) (simp_all add: lfn_record_fields(4) mult.commute add.commute)
  have nk: "13 * (n - i) = ?k + 13" using assms(1) by simp
  have up: "[?k..<13 * n] = [?k..<?k + 13] @ [?k + 13..<13 * n]"
  proof -
    have "?k + 13 \<le> 13 * n" using assms(1) by simp
    then show ?thesis by (metis le_add1 upt_add_eq_append le_add_diff_inverse)
  qed
  have "lfn_store ?r (name_part name n i) = take ?k (name_part name n i) @ map ?P [?k..<?k + 13] @ drop (?k + 13) (name_part name n i)"
    using lfn_store_eq(1) [OF len, of ?r] assms(1,2) unfolding a c by (simp add: Let_def)
  also have "\<dots> = replicate ?k 0 @ map ?P [?k..<?k + 13] @ map ?P [?k + 13..<13 * n] @ replicate (260 - 13 * n) 0"
    unfolding name_part_def nk by simp
  also have "\<dots> = name_part name n (Suc i)" unfolding name_part_def using up by simp
  finally show "lfn_store ?r (name_part name n i) = name_part name n (Suc i)" .
qed

lemma name_part_0: "n \<le> 20 \<Longrightarrow> name_part name n 0 = replicate 260 0"
  by (simp add: name_part_def replicate_add [symmetric])

lemma name_part_n:
  assumes "length name \<le> 13 * n" "n \<le> 20"
  shows "name_part name n n = name @ replicate (260 - length name) 0"
proof (rule nth_equalityI)
  show "length (name_part name n n) = length (name @ replicate (260 - length name) 0)"
    using assms by (simp add: name_part_def)
  fix k assume "k < length (name_part name n n)"
  then show "name_part name n n ! k = (name @ replicate (260 - length name) 0) ! k"
    using assms by (auto simp: name_part_def nth_append)
qed

section \<open>The named entries afterwards\<close>

text \<open>The long name bytes collected when a search has passed over some slots.\<close>

fun lfn_after :: "slot list \<Rightarrow> u8 list \<Rightarrow> u8 list" where
  "lfn_after [] b = b"
| "lfn_after ((l, i, e) # xs) b =
     (if e ! 0 = 0xE5 then lfn_after xs (clear_lfn b)
      else if e_attributes e = FAT_ATTR_LFN then lfn_after xs (lfn_store e b)
      else if e_attributes e \<noteq> FAT_ATTR_VOLUME_ID then lfn_after xs (clear_lfn b)
      else lfn_after xs b)"

definition end_marker :: "slot \<Rightarrow> bool" where
  "end_marker = (\<lambda>(l, i, e). e ! 0 = 0)"

lemma named_entries_append:
  "\<forall>x \<in> set xs. \<not> end_marker x \<Longrightarrow> named_entries (xs @ ys) b = named_entries xs b @ named_entries ys (lfn_after xs b)"
  by (induction xs b rule: lfn_after.induct) (auto simp: end_marker_def)

lemma named_records:
  assumes "map (snd \<circ> snd) zs = map (lfn_record name chk n) [i..<n] @ [e]" "i \<le> n" "n \<le> 20" "0xFF \<notin> set name"
    and "e ! 0 \<noteq> 0" "e ! 0 \<noteq> 0xE5" "e_attributes e \<noteq> FAT_ATTR_LFN" "e_attributes e \<noteq> FAT_ATTR_VOLUME_ID"
  shows "named_entries (zs @ ys) (name_part name n i) =
    ((fst (last zs), fst (snd (last zs)), e), name_part name n n) # named_entries ys (clear_lfn (name_part name n n))"
  using assms(1,2)
proof (induction "n - i" arbitrary: i zs)
  case 0
  then have "i = n" by simp
  with 0 obtain l j where "zs = [(l, j, e)]" by (auto simp: map_eq_Cons_conv)
  then show ?case using assms(5-8) \<open>i = n\<close> by simp
next
  case (Suc d)
  then have i: "i < n" by simp
  then have "[i..<n] = i # [Suc i..<n]" by (simp add: upt_rec)
  with Suc obtain l j zs' where z: "zs = (l, j, lfn_record name chk n i) # zs'"
    "map (snd \<circ> snd) zs' = map (lfn_record name chk n) [Suc i..<n] @ [e]" by (auto simp: map_eq_Cons_conv)
  then have "zs' \<noteq> []" by auto
  have "named_entries (zs' @ ys) (name_part name n (Suc i)) =
      ((fst (last zs'), fst (snd (last zs')), e), name_part name n n) # named_entries ys (clear_lfn (name_part name n n))"
    using Suc(1) [of "Suc i" zs'] Suc(2) z(2) i by simp
  then show ?case
    using z(1) \<open>zs' \<noteq> []\<close> name_part_store [OF i assms(3,4), of chk] lfn_record_fields(3) by simp
qed

section \<open>Directories in order\<close>

text \<open>
  Nothing is in use behind an end marker, no long name record stands in front of a free slot, and
  none reaches behind the buffer.
\<close>

definition dir_tidy :: "slot list \<Rightarrow> bool" where
  "dir_tidy D \<longleftrightarrow> (\<forall>l i e. (l, i, e) \<in> set D \<longrightarrow> lfn_safe e) \<and>
     (\<forall>a x b. D = a @ x # b \<and> end_marker x \<longrightarrow> (\<forall>y \<in> set b. end_marker y)) \<and>
     (\<forall>a x b. D = a @ x # b \<and> slot_free x \<and> (\<forall>y \<in> set a. \<not> end_marker y) \<longrightarrow> lfn_after a (replicate 260 0) = replicate 260 0)"

definition name_ok :: "u8 list \<Rightarrow> bool" where
  "name_ok name \<longleftrightarrow> name \<noteq> [] \<and> length name \<le> 255 \<and> 0 \<notin> set name \<and> 0xE5 \<notin> set name \<and> 0xFF \<notin> set name"

lemma dir_tidyD:
  assumes "dir_tidy D"
  shows "(l, i, e) \<in> set D \<Longrightarrow> lfn_safe e"
    and "D = a @ x # b \<Longrightarrow> end_marker x \<Longrightarrow> y \<in> set b \<Longrightarrow> end_marker y"
    and "D = a @ x # b \<Longrightarrow> slot_free x \<Longrightarrow> \<forall>y \<in> set a. \<not> end_marker y \<Longrightarrow> lfn_after a (replicate 260 0) = replicate 260 0"
  using assms unfolding dir_tidy_def by blast+

lemma end_free: "end_marker x \<Longrightarrow> slot_free x"
  by (auto simp: end_marker_def slot_free_def)

lemma window_prefix:
  assumes "dir_tidy D" "free_window D n pre win post"
  shows "\<forall>x \<in> set pre. \<not> end_marker x"
proof (rule ccontr)
  assume "\<not> ?thesis"
  then obtain x where x: "x \<in> set pre" "end_marker x" by blast
  then obtain a b where ab: "pre = a @ x # b" by (meson split_list)
  have D: "D = a @ x # (b @ win @ post)" using assms(2) ab by (simp add: free_window_def)
  have "\<not> slot_free (last pre)" using assms(2) x by (auto simp: free_window_def)
  moreover have "end_marker (last pre)"
  proof (cases "b = []")
    case False
    then have "last pre \<in> set (b @ win @ post)" using ab by simp
    then show ?thesis using dir_tidyD(2) [OF assms(1) D x(2)] by blast
  qed (use ab x(2) in simp)
  ultimately show False using end_free by blast
qed

lemma named_end: "\<forall>y \<in> set xs. end_marker y \<Longrightarrow> named_entries xs b = []"
  by (cases xs) (auto simp: end_marker_def)

lemma named_free:
  assumes "\<forall>x \<in> set win. slot_free x" "\<And>a x b. win @ post = a @ x # b \<Longrightarrow> end_marker x \<Longrightarrow> \<forall>y \<in> set b. end_marker y"
  shows "named_entries (win @ post) (replicate 260 0) = named_entries post (replicate 260 0)"
  using assms
proof (induction win)
  case (Cons x win)
  obtain l i e where x: "x = (l, i, e)" by (cases x)
  show ?case
  proof (cases "end_marker x")
    case True
    have "\<forall>y \<in> set (win @ post). end_marker y" using Cons.prems(2) [of "[]" x "win @ post"] True by simp
    then have "named_entries post (replicate 260 0) = []" by (intro named_end) simp
    then show ?thesis using True x by (simp add: end_marker_def)
  next
    case False
    then have "e ! 0 = 0xE5" using Cons.prems(1) x by (auto simp: slot_free_def end_marker_def)
    moreover have "named_entries (win @ post) (replicate 260 0) = named_entries post (replicate 260 0)"
      using Cons.IH Cons.prems by (metis append_Cons list.set_intros(2))
    ultimately show ?thesis using x by simp
  qed
qed simp

lemma named_window:
  assumes "dir_tidy D" "free_window D n pre win post" "0 < n"
  shows "named_entries D (replicate 260 0) = named_entries pre (replicate 260 0) @ named_entries post (replicate 260 0)"
    and "lfn_after pre (replicate 260 0) = replicate 260 0"
proof -
  note np = window_prefix [OF assms(1,2)]
  have D: "D = pre @ win @ post" and f: "\<forall>x \<in> set win. slot_free x" using assms(2) by (simp_all add: free_window_def)
  obtain x win' where w: "win = x # win'" using assms(2,3) by (cases win) (auto simp: free_window_def)
  have "D = pre @ x # (win' @ post)" "slot_free x" using D w f by simp_all
  then show la: "lfn_after pre (replicate 260 0) = replicate 260 0" using dir_tidyD(3) [OF assms(1)] np by blast
  have "named_entries (win @ post) (replicate 260 0) = named_entries post (replicate 260 0)"
  proof (rule named_free [OF f])
    fix a x b
    assume "win @ post = a @ x # b" "end_marker x"
    then have "D = (pre @ a) @ x # b" using D by simp
    then show "\<forall>y \<in> set b. end_marker y" using dir_tidyD(2) [OF assms(1)] \<open>end_marker x\<close> by blast
  qed
  then show "named_entries D (replicate 260 0) = named_entries pre (replicate 260 0) @ named_entries post (replicate 260 0)"
    unfolding D named_entries_append [OF np] la by simp
qed

section \<open>The short name is found\<close>

lemma entry_matches_iff:
  "entry_matches name ((l, i, e), b) \<longleftrightarrow>
     b ! 0 \<noteq> 0 \<and> map lower (c_text b) = map lower (c_text name) \<or> map lower (c_text (sfn_text e)) = map lower (c_text name)"
  by (simp add: entry_matches_def match_sfn_def names_match_iff)

text \<open>Every entry can take at most two of the names that differ when case is ignored.\<close>

lemma free_attempt:
  assumes "2 * length E < 999"
  shows "\<exists>k. 1 \<le> k \<and> k \<le> 2 * length E + 1 \<and> (\<forall>x \<in> set E. \<not> entry_matches (sfn_target (generate_short_name name k)) x)"
proof (rule ccontr)
  assume none: "\<not> ?thesis"
  let ?t = "\<lambda>k. map lower (sfn_target (generate_short_name name k))" and ?A = "{1..2 * length E + 1}"
  let ?B = "(\<lambda>((l, i, e), b). map lower (c_text b)) ` set E \<union> (\<lambda>((l, i, e), b). map lower (c_text (sfn_text e))) ` set E"
  have sm: "k < 1000" if "k \<in> ?A" for k using that assms by simp
  have "inj_on ?t ?A" using short_names_differ sm by (intro inj_onI) blast
  then have "card (?t ` ?A) = 2 * length E + 1" by (simp add: card_image)
  moreover have "?t ` ?A \<subseteq> ?B"
  proof
    fix w assume "w \<in> ?t ` ?A"
    then obtain k where k: "k \<in> ?A" "w = ?t k" by blast
    then obtain x where x: "x \<in> set E" "entry_matches (sfn_target (generate_short_name name k)) x" using none by auto
    have "c_text (sfn_target (generate_short_name name k)) = sfn_target (generate_short_name name k)"
      using sfn_target_nonzero [OF sm [OF k(1)]] by (rule c_text_id)
    then show "w \<in> ?B" using x k(2) by (cases x) (force simp: entry_matches_iff)
  qed
  then have "card (?t ` ?A) \<le> card ?B" by (intro card_mono) auto
  moreover have "card ?B \<le> length E + length E"
    by (rule order_trans [OF card_Un_le add_mono]) (meson card_image_le card_length finite_set le_trans)+
  ultimately show False by simp
qed

lemma short_name_loop_ok:
  assumes "\<And>m. fat16_find_in_dir d m s = Some (map_option g (find (entry_matches m) E), s)"
    and "k \<le> a" "\<forall>x \<in> set E. \<not> entry_matches (sfn_target (generate_short_name name a)) x"
  shows "\<exists>n. k \<le> n \<and> n \<le> a \<and> short_name_loop d name k s = Some (generate_short_name name n, s) \<and>
    (\<forall>x \<in> set E. \<not> entry_matches (sfn_target (generate_short_name name n)) x)"
  using assms(2)
proof (induction "a - k" arbitrary: k)
  case 0
  then have "k = a" by simp
  then have "find (entry_matches (sfn_target (generate_short_name name k))) E = None" using assms(3) by (simp add: find_None_iff)
  then show ?case using \<open>k = a\<close> assms(1,3) by (subst short_name_loop.simps) (simp add: exI [of _ a])
next
  case (Suc n)
  show ?case
  proof (cases "find (entry_matches (sfn_target (generate_short_name name k))) E")
    case None
    then have "short_name_loop d name k s = Some (generate_short_name name k, s)"
      using assms(1) by (subst short_name_loop.simps) simp
    then show ?thesis using None Suc by (auto simp: find_None_iff)
  next
    case (Some x)
    then have "short_name_loop d name k s = short_name_loop d name (Suc k) s"
      using assms(1) by (subst short_name_loop.simps) simp
    moreover have "n = a - Suc k" "Suc k \<le> a" using Suc(2) by simp_all
    from Suc(1) [OF this] obtain n where "Suc k \<le> n" "n \<le> a" "short_name_loop d name (Suc k) s = Some (generate_short_name name n, s)"
        "\<forall>x \<in> set E. \<not> entry_matches (sfn_target (generate_short_name name n)) x"
      by blast
    ultimately show ?thesis using Suc_leD by (intro exI [of _ n]) simp
  qed
qed

section \<open>Fields of the entry\<close>

lemma sfn_record_fields:
  assumes "length sfn = 11"
  shows "length (sfn_record sfn a c n) = 32" "sfn_record sfn a c n ! 0 = sfn ! 0" "e_attributes (sfn_record sfn a c n) = a"
    "e_starting_cluster (sfn_record sfn a c n) = c" "e_file_size (sfn_record sfn a c n) = n"
proof -
  have w: "write_at (replicate 32 0) 0 sfn = sfn @ replicate 21 0" using assms by (subst write_at_eq) simp_all
  show "length (sfn_record sfn a c n) = 32" "sfn_record sfn a c n ! 0 = sfn ! 0" "e_attributes (sfn_record sfn a c n) = a"
    "e_starting_cluster (sfn_record sfn a c n) = c" "e_file_size (sfn_record sfn a c n) = n"
    using assms unfolding sfn_record_def w e_attributes_def e_starting_cluster_def e_file_size_def
    by (simp_all add: put32_def put16_nth get16_put16_other get32_def halves32 nth_append)
qed

lemma short_name_first:
  assumes "name_ok name" "n < 1000"
  shows "generate_short_name name n ! 0 \<noteq> 0" "generate_short_name name n ! 0 \<noteq> 0xE5"
proof -
  let ?K = "take (keep_len name n) (short_base name 0)"
  obtain ext where g: "generate_short_name name n = ?K @ 126 # ext" using generate_short_name_eq [of name n] by auto
  have u: "upper c \<noteq> 0xE5" if "c \<noteq> 0xE5" for c
    using that by (auto simp: upper_def word_le_nat_alt word_unat_eq_iff unat_sub_if')
  have b: "\<exists>c \<in> set xs. x = upper c" if "x \<in> set (short_base xs m)" for x xs m
    using that by (induction xs m rule: short_base.induct) (auto split: if_splits)
  have "x \<noteq> 0 \<and> x \<noteq> 0xE5" if x: "x \<in> set ?K" for x
  proof
    show "x \<noteq> 0" using kept_plain [OF x] by (simp add: plain_def)
    obtain c where "c \<in> set name" "x = upper c" using b in_set_takeD [OF x] by blast
    then show "x \<noteq> 0xE5" using u [of c] assms(1) by (metis name_ok_def)
  qed
  moreover have h: "(xs @ y # ys) ! 0 \<in> insert y (set xs)" for xs ys :: "u8 list" and y by (cases xs) simp_all
  have "generate_short_name name n ! 0 \<in> insert 126 (set ?K)" unfolding g by (rule h)
  ultimately show "generate_short_name name n ! 0 \<noteq> 0" "generate_short_name name n ! 0 \<noteq> 0xE5" by auto
qed

section \<open>Insertion\<close>

text \<open>Sectors that follow each other, with room for the read behind a full sector.\<close>

definition dir_run :: "u32 list \<Rightarrow> bool" where
  "dir_run ls \<longleftrightarrow> (\<exists>b. ls = map (\<lambda>k. b + of_nat k) [0..<length ls] \<and> unat b + length ls < 0x10000000)"

lemma dir_run_nth:
  assumes "dir_run ls"
  shows "contiguous ls" "k < length ls \<Longrightarrow> unat (ls ! k) + (length ls - k) < 0x10000000"
proof -
  obtain b where b: "ls = map (\<lambda>k. b + of_nat k) [0..<length ls]" "unat b + length ls < 0x10000000"
    using assms by (auto simp: dir_run_def)
  have n: "ls ! k = b + of_nat k" if "k < length ls" for k using that by (subst b(1)) simp
  have u: "unat (b + of_nat k :: u32) = unat b + k" if "k < length ls" for k
    using that b(2) by (subst unat_plus_u32) (simp_all add: word_bounds)
  have "distinct ls"
  proof (subst distinct_conv_nth, intro allI impI)
    fix i j assume ij: "i < length ls" "j < length ls" "i \<noteq> j"
    then have "unat (ls ! i) \<noteq> unat (ls ! j)" using n u by simp
    then show "ls ! i \<noteq> ls ! j" by auto
  qed
  moreover have "ls ! Suc k = ls ! k + 1" if "Suc k < length ls" for k using n that by (simp add: add.commute add.left_commute)
  ultimately show "contiguous ls" by (simp add: contiguous_def)
  show "unat (ls ! k) + (length ls - k) < 0x10000000" if "k < length ls" using n u b(2) that by simp
qed

lemma put_records_other:
  assumes "contiguous ls" "16 * k + j + length rs \<le> 16 * length ls" "k < length ls" "j < 16" "l \<notin> set ls"
  shows "put_records f (ls ! k) j rs l = f l"
  using assms(2-4)
proof (induction rs arbitrary: f k j)
  case (Cons r rs)
  have ne: "l \<noteq> ls ! k" using assms(5) Cons.prems(2) by auto
  show ?case
  proof (cases "Suc j \<ge> 16")
    case False
    then show ?thesis using Cons.IH [of k "Suc j"] Cons.prems ne by simp
  next
    case True
    then have j: "j = 15" using Cons.prems(3) by simp
    show ?thesis
    proof (cases rs)
      case Nil
      then show ?thesis using True ne by simp
    next
      case (Cons r' rs')
      then have k: "Suc k < length ls" using Cons.prems(1) j by simp
      then have "ls ! k + 1 = ls ! Suc k" using assms(1) by (simp add: contiguous_def)
      then show ?thesis using Cons.IH [of "Suc k" 0] Cons.prems ne True j k by simp
    qed
  qed
qed simp

lemma lfn_count_bound: "name_ok name \<Longrightarrow> (length name + 12) div 13 \<le> 20"
  using div_le_mono [of "length name + 12" 267 13] by (simp add: name_ok_def)

lemma entry_records_props:
  assumes "name_ok name" "length sfn = 11" "at \<noteq> FAT_ATTR_LFN"
  shows "length (entry_records name sfn at c n) = (length name + 12) div 13 + 1"
    and "r \<in> set (entry_records name sfn at c n) \<Longrightarrow> length r = 32 \<and> lfn_safe r"
proof -
  let ?n = "(length name + 12) div 13"
  show "length (entry_records name sfn at c n) = ?n + 1" by (simp add: entry_records_def Let_def)
  assume "r \<in> set (entry_records name sfn at c n)"
  then consider i where "i < ?n" "r = lfn_record name (lfn_checksum sfn) ?n i" | "r = sfn_record sfn at c n"
    by (auto simp: entry_records_def Let_def)
  then show "length r = 32 \<and> lfn_safe r"
  proof cases
    case 1
    have n: "?n \<le> 20" by (rule lfn_count_bound [OF assms(1)])
    have "lfn_char (get16 r (lfn_unit_offset j)) = 0" if "9 \<le> j" "j < 13" "r ! 0 AND 0x1F = 20" for j
    proof -
      have "?n - i \<in> set [1..<21]" using 1(1) n by auto
      note sq = sequence_numbers [unfolded list_all_iff, rule_format, OF this]
      have "unat (r ! 0 AND 0x1F) = ?n - i" using sq 1(2) by (cases "i = 0") (simp_all add: lfn_record_fields(2))
      then have "?n - i = 20" using that(3) by simp
      then have "length name \<le> (?n - i - 1) * 13 + j" using assms(1) that(1) by (simp add: name_ok_def)
      then show ?thesis using that(2) 1(2) assms(1) lfn_char_unit [of name] by (simp add: lfn_record_fields(4) name_ok_def)
    qed
    then show ?thesis using 1(2) lfn_record_fields(1) by (auto simp: lfn_safe_def)
  next
    case 2
    then show ?thesis using sfn_record_fields [OF assms(2)] assms(3) by (simp add: lfn_safe_def)
  qed
qed

text \<open>Writing records over a window of the slots \<open>D\<close> of a directory replaces exactly the window.\<close>

lemma window_write:
  fixes s ls defines "D \<equiv> dir_slots (sectors (dev s)) ls"
  assumes "disk_ok s" "dir_run ls" "free_window D (length rs) pre win post" "rs \<noteq> []" "\<And>r. r \<in> set rs \<Longrightarrow> length r = 32"
  shows "fst (hd win) < 0x10000000"
    and "\<exists>f. write_records rs (fst (hd win)) (sectors (dev s) (fst (hd win))) (fst (snd (hd win))) s = (True, set_sectors f s) \<and>
      (\<forall>l. length (f l) = 512) \<and> (\<forall>l. l \<notin> set ls \<longrightarrow> f l = sectors (dev s) l) \<and>
      dir_slots f ls = pre @ map2 (\<lambda>(l, i, e) r. (l, i, r)) win rs @ post"
proof -
  have D: "D = pre @ win @ post" "length win = length rs" using assms(4) by (simp_all add: free_window_def)
  have ct: "contiguous ls" by (rule dir_run_nth(1) [OF assms(3)])
  define p where "p = length pre"
  let ?k = "p div 16" and ?j = "p mod 16"
  have len: "p + length rs \<le> 16 * length ls" using arg_cong [OF D(1), of length] D(2) by (simp add: D_def p_def)
  have "p < 16 * length ls" using len assms(5) by (cases rs) auto
  then have kl: "?k < length ls" by (simp add: less_mult_imp_div_less mult.commute)
  have pj: "16 * ?k + ?j = p" by simp
  have "D ! p = hd win" using D assms(5) by (cases win) (auto simp: p_def nth_append)
  moreover have "D ! p = (ls ! ?k, ?j, slot_of (sectors (dev s) (ls ! ?k)) ?j)"
    using dir_slots_nth [OF kl, of ?j "sectors (dev s)"] unfolding D_def pj by simp
  ultimately have st: "fst (hd win) = ls ! ?k" "fst (snd (hd win)) = ?j" by (metis fst_conv snd_conv)+
  show "fst (hd win) < 0x10000000" using dir_run_nth(2) [OF assms(3) kl] st by (simp add: word_less_nat_alt)
  have "?j + length rs \<le> 16 * (length ls - ?k)" using len pj unfolding diff_mult_distrib2 by linarith
  then have "(?j + length rs) div 16 \<le> length ls - ?k" using div_le_mono [of "?j + length rs" "16 * (length ls - ?k)" 16] by simp
  then have "unat (ls ! ?k) + (?j + length rs) div 16 < 0x10000000" using dir_run_nth(2) [OF assms(3) kl] by linarith
  then have wr: "write_records rs (ls ! ?k) (sectors (dev s) (ls ! ?k)) ?j s =
      (True, set_sectors (put_records (sectors (dev s)) (ls ! ?k) ?j rs) s)"
    using write_records_ok [where b = "sectors (dev s) (ls ! ?k)" and j = ?j and l = "ls ! ?k" and rs = rs, OF assms(2)] assms(2,6) by simp
  let ?f = "put_records (sectors (dev s)) (ls ! ?k) ?j rs"
  have "dir_slots ?f ls = upd_slots D p rs"
    using put_records_slots [OF ct, of ?k ?j rs "sectors (dev s)"] len assms(2,6) kl unfolding D_def pj by simp
  also have "\<dots> = pre @ map2 (\<lambda>(l, i, e) r. (l, i, r)) win rs @ post"
    unfolding D(1) p_def by (rule upd_slots_window) (rule D(2))
  finally have "dir_slots ?f ls = pre @ map2 (\<lambda>(l, i, e) r. (l, i, r)) win rs @ post" .
  moreover have "\<forall>l. length (?f l) = 512" using put_records_length [of "sectors (dev s)" rs ?j] assms(2,6) by simp
  moreover have "\<forall>l. l \<notin> set ls \<longrightarrow> ?f l = sectors (dev s) l"
    using put_records_other [OF ct, of ?k ?j rs] len kl pj by simp
  ultimately show "\<exists>f. write_records rs (fst (hd win)) (sectors (dev s) (fst (hd win))) (fst (snd (hd win))) s = (True, set_sectors f s) \<and>
      (\<forall>l. length (f l) = 512) \<and> (\<forall>l. l \<notin> set ls \<longrightarrow> f l = sectors (dev s) l) \<and>
      dir_slots f ls = pre @ map2 (\<lambda>(l, i, e) r. (l, i, r)) win rs @ post"
    unfolding st using wr by blast
qed

text \<open>
  The effect of an insertion.  \<open>D\<close> are the slots of the directory before, \<open>E\<close> its named entries.
\<close>

lemma insert_entry_ok:
  fixes s d cs name at
  defines "ls \<equiv> dir_sectors (fs_cache s) d cs"
  defines "D \<equiv> dir_slots (sectors (dev s)) ls"
  assumes ok: "fat_ok s" "dir_chain s d cs" "dir_tidy D" "dir_run ls" "name_ok name"
    and at: "at \<noteq> FAT_ATTR_LFN" "at \<noteq> FAT_ATTR_VOLUME_ID"
    and few: "2 * length (named_entries D (replicate 260 0)) < 999"
  shows "\<not> has_room ((length name + 12) div 13 + 1) D \<and> fat16_insert_entry d name at c n s = Some (- ENOSPC, s) \<or>
    (\<exists>a pre win post f. 1 \<le> a \<and> a < 1000 \<and>
      (\<forall>x \<in> set (named_entries D (replicate 260 0)). \<not> entry_matches (sfn_target (generate_short_name name a)) x) \<and>
      free_window D ((length name + 12) div 13 + 1) pre win post \<and>
      fat16_insert_entry d name at c n s = Some (0, set_sectors f s) \<and>
      (\<forall>l. length (f l) = 512) \<and> (\<forall>l. l \<notin> set ls \<longrightarrow> f l = sectors (dev s) l) \<and>
      dir_slots f ls = pre @ map2 (\<lambda>(l, i, e) r. (l, i, r)) win (entry_records name (generate_short_name name a) at c n) @ post)"
proof -
  let ?E = "named_entries D (replicate 260 0)" and ?t = "(length name + 12) div 13 + 1"
  have find: "fat16_find_in_dir d m s = Some (map_option (\<lambda>((l, i, e), b). (e, l, i)) (find (entry_matches m) ?E), s)" for m
    using find_in_dir_ok [OF ok(1,2)] dir_tidyD(1) [OF ok(3)] unfolding D_def ls_def by blast
  obtain k where "1 \<le> k" "k \<le> 2 * length ?E + 1" "\<forall>x \<in> set ?E. \<not> entry_matches (sfn_target (generate_short_name name k)) x"
    using free_attempt [OF few] by blast
  from short_name_loop_ok [OF find this(1,3)] this(2) few
  obtain a where a: "1 \<le> a" "a < 1000" "short_name_loop d name 1 s = Some (generate_short_name name a, s)"
    "\<forall>x \<in> set ?E. \<not> entry_matches (sfn_target (generate_short_name name a)) x" by fastforce
  let ?sfn = "generate_short_name name a"
  let ?rs = "entry_records name ?sfn at c n"
  have sl: "length ?sfn = 11" using generate_short_name_eq [of name a] tail_len_range [of a]
    by (auto simp: keep_len_def numeric_tail_length)
  obtain act ctx where sc: "scan slot_step D (slot_ctx ?t) = (act, ctx)" by (cases "scan slot_step D (slot_ctx ?t)")
  have it: "iterate_directory d slot_search_callback (slot_ctx ?t) s = Some (if act < 0 then act else 0, ctx, s)"
    using iterate_directory_scan [OF slot_pure ok(1,2), of "slot_ctx ?t"] sc unfolding D_def ls_def by simp
  show ?thesis
  proof (cases "slots_done ctx")
    case False
    then have "\<not> has_room ?t ([] @ D)" using sc by (intro scan_slots_complete [of "slot_ctx ?t"]) (simp_all add: slot_ctx_def)
    then show ?thesis using False a(3) it by (simp add: fat16_insert_entry_def)
  next
    case True
    have "let c = snd (scan slot_step D (slot_ctx ?t)) in slots_done c \<longrightarrow>
      (\<exists>pre win post. free_window ([] @ [] @ D) ?t pre win post \<and> fst (hd win) = start_sector c \<and> fst (snd (hd win)) = start_slot c)"
      by (rule scan_slots) (simp_all add: slot_ctx_def)
    then obtain pre win post where w: "free_window D ?t pre win post" "fst (hd win) = start_sector ctx" "fst (snd (hd win)) = start_slot ctx"
      using True sc by (auto simp: Let_def)
    have rl: "length ?rs = ?t" by (rule entry_records_props(1) [OF ok(5) sl at(1)])
    then have ne: "?rs \<noteq> []" by auto
    have r32: "length r = 32" if "r \<in> set ?rs" for r using entry_records_props(2) [OF ok(5) sl at(1) that] by simp
    have d: "disk_ok s" using ok(1) by (simp add: fat_ok_def)
    note W = window_write [OF d ok(4) w(1) [folded rl, unfolded D_def] ne r32, unfolded w(2,3), folded D_def]
    then obtain f where f: "write_records ?rs (start_sector ctx) (sectors (dev s) (start_sector ctx)) (start_slot ctx) s = (True, set_sectors f s)"
      "\<forall>l. length (f l) = 512" "\<forall>l. l \<notin> set ls \<longrightarrow> f l = sectors (dev s) l"
      "dir_slots f ls = pre @ map2 (\<lambda>(l, i, e) r. (l, i, r)) win ?rs @ post" by blast
    have "fat16_insert_entry d name at c n s = Some (0, set_sectors f s)"
      using a(3) it True d W(1) f(1) by (simp add: fat16_insert_entry_def)
    then show ?thesis using a(1,2,4) w(1) f(2-) by blast
  qed
qed

lemma map2_entries:
  assumes "length win = length rs"
  shows "map (snd \<circ> snd) (map2 (\<lambda>(l, i, e) r. (l, i, r)) win rs) = rs"
  using assms by (induction win rs rule: list_induct2) auto

lemma sfn_text_record:
  assumes "length sfn = 11"
  shows "sfn_text (sfn_record sfn at c n) = map lower (sfn_target sfn)"
proof -
  let ?e = "sfn_record sfn at c n"
  have w: "write_at (replicate 32 0) 0 sfn = sfn @ replicate 21 0" using assms by (subst write_at_eq) simp_all
  have n: "?e ! k = sfn ! k" if "k < 11" for k
    using that assms unfolding sfn_record_def w by (simp add: put32_def put16_nth nth_append)
  have "take 11 ?e = sfn"
    using n assms sfn_record_fields(1) [OF assms] by (intro nth_equalityI) simp_all
  moreover have "take 8 (take 11 ?e) = take 8 ?e" "take 3 (drop 8 (take 11 ?e)) = take 3 (drop 8 ?e)"
    by (simp_all add: drop_take)
  ultimately have t: "take 8 ?e = take 8 sfn" "take 3 (drop 8 ?e) = take 3 (drop 8 sfn)" by simp_all
  have "e_extension ?e ! 0 = sfn ! 8" using n [of 8] sfn_record_fields(1) [OF assms] by (simp add: e_extension_def)
  moreover have "lower 46 = 46" by (simp add: lower_def)
  ultimately show ?thesis unfolding sfn_text_def sfn_target_def e_filename_def e_extension_def t using t(2) by (auto simp: e_extension_def)
qed

lemma set_sectors_frame:
  assumes "fat_ok s" "\<forall>l. length (f l) = 512" "\<forall>l \<in> fat_area s. f l = sectors (dev s) l"
  shows "fat_ok (set_sectors f s)" "valid_cluster (set_sectors f s) = valid_cluster s" "fat_area (set_sectors f s) = fat_area s"
    and "valid_cluster s c \<Longrightarrow> fat_entry (set_sectors f s) c = fat_entry s c"
    and "fat_chain s c cs \<Longrightarrow> fat_chain (set_sectors f s) c cs"
    and "dir_chain s d cs \<Longrightarrow> dir_chain (set_sectors f s) d cs"
proof -
  show "fat_ok (set_sectors f s)" using assms(1,2) by (simp add: fat_ok_def disk_ok_set_sectors)
  show v: "valid_cluster (set_sectors f s) = valid_cluster s" by (simp add: valid_cluster_def fun_eq_iff)
  show "fat_area (set_sectors f s) = fat_area s" by (simp add: fat_area_def)
  have e: "fat_entry (set_sectors f s) c = fat_entry s c" if "valid_cluster s c" for c
    using fat_sector_bound(2) [OF assms(1) valid_index [OF assms(1) that]] assms(3) by (simp add: fat_entry_def fat_sector_of_def)
  then show "valid_cluster s c \<Longrightarrow> fat_entry (set_sectors f s) c = fat_entry s c" .
  have ch: "fat_chain (set_sectors f s) c cs" if "fat_chain s c cs" for c cs
    using fat_chain_cong [OF that] e fat_chain_valid [OF that] v by blast
  then show "fat_chain s c cs \<Longrightarrow> fat_chain (set_sectors f s) c cs" .
  show "dir_chain s d cs \<Longrightarrow> dir_chain (set_sectors f s) d cs" using ch by (simp add: dir_chain_def)
qed

lemma dir_sectors_not_fat:
  assumes "fat_ok s" "dir_chain s d cs" "l \<in> fat_area s"
  shows "l \<notin> set (dir_sectors (fs_cache s) d cs)"
  using dir_sectors_bound(2) [OF assms(1,2)] assms(3) by (fastforce simp: fat_area_def)

text \<open>The named entries of a directory when records have replaced a window.\<close>

lemma named_inserted:
  assumes "dir_tidy D" "name_ok name" "length sfn = 11" "sfn ! 0 \<noteq> 0" "sfn ! 0 \<noteq> 0xE5"
    and at: "at \<noteq> FAT_ATTR_LFN" "at \<noteq> FAT_ATTR_VOLUME_ID"
    and win: "free_window D ((length name + 12) div 13 + 1) pre win post"
  shows "\<exists>l i. named_entries (pre @ map2 (\<lambda>(l, i, e) r. (l, i, r)) win (entry_records name sfn at c n) @ post) (replicate 260 0) =
    named_entries pre (replicate 260 0) @ ((l, i, sfn_record sfn at c n), name @ replicate (260 - length name) 0) #
      named_entries post (replicate 260 0)"
proof -
  let ?n = "(length name + 12) div 13" and ?r = "entry_records name sfn at c n"
  let ?w = "map2 (\<lambda>(l, i, e) r. (l, i, r)) win ?r" and ?b = "name @ replicate (260 - length name) 0"
  note np = window_prefix [OF assms(1) win]
  have la: "lfn_after pre (replicate 260 0) = replicate 260 0" using named_window(2) [OF assms(1) win] by simp
  have n: "?n \<le> 20" by (rule lfn_count_bound [OF assms(2)])
  have "length name \<le> 13 * ?n" by simp
  then have b: "name_part name ?n ?n = ?b" using name_part_n n by blast
  have "length win = length ?r" using win entry_records_props(1) [OF assms(2,3) at(1)] by (simp add: free_window_def)
  then have "map (snd \<circ> snd) ?w = ?r" by (rule map2_entries)
  also have "\<dots> = map (lfn_record name (lfn_checksum sfn) ?n) [0..<?n] @ [sfn_record sfn at c n]"
    by (simp add: entry_records_def Let_def)
  finally have m: "map (snd \<circ> snd) ?w = map (lfn_record name (lfn_checksum sfn) ?n) [0..<?n] @ [sfn_record sfn at c n]" .
  have c: "clean_tail ?b" using assms(2) by (simp add: clean_tail_def name_ok_def)
  have "named_entries (?w @ post) (replicate 260 0) =
      ((fst (last ?w), fst (snd (last ?w)), sfn_record sfn at c n), ?b) # named_entries post (replicate 260 0)"
    using named_records [OF m _ n, of post] sfn_record_fields [OF assms(3)] assms(2,4,5) at c
    unfolding b name_part_0 [OF n] by (simp add: name_ok_def)
  then show ?thesis unfolding named_entries_append [OF np] la by blast
qed

text \<open>A directory that is in order stays in order when a complete group of records fills the window.\<close>

lemma lfn_after_append: "lfn_after (xs @ ys) b = lfn_after ys (lfn_after xs b)"
  by (induction xs b rule: lfn_after.induct) simp_all

lemma lfn_after_records:
  assumes "map (snd \<circ> snd) zs = map (lfn_record name chk n) [i..<n] @ [e]" "i \<le> n" "n \<le> 20" "0xFF \<notin> set name"
    and "e ! 0 \<noteq> 0xE5" "e_attributes e \<noteq> FAT_ATTR_LFN" "e_attributes e \<noteq> FAT_ATTR_VOLUME_ID"
  shows "lfn_after zs (name_part name n i) = clear_lfn (name_part name n n)"
  using assms(1,2)
proof (induction "n - i" arbitrary: i zs)
  case 0
  then have "i = n" by simp
  with 0 obtain l j where "zs = [(l, j, e)]" by (auto simp: map_eq_Cons_conv)
  then show ?case using assms(5-) \<open>i = n\<close> by simp
next
  case (Suc d)
  then have i: "i < n" by simp
  then have "[i..<n] = i # [Suc i..<n]" by (simp add: upt_rec)
  then obtain l j zs' where z: "zs = (l, j, lfn_record name chk n i) # zs'" "map (snd \<circ> snd) zs' = map (lfn_record name chk n) [Suc i..<n] @ [e]"
    using Suc(3) by (auto simp: map_eq_Cons_conv)
  have "lfn_after zs' (name_part name n (Suc i)) = clear_lfn (name_part name n n)"
    using Suc(1) [of "Suc i" zs'] Suc(2) z(2) i by simp
  then show ?case using z(1) name_part_store [OF i assms(3,4), of chk] lfn_record_fields(3) by simp
qed

lemma lfn_after_deleted: "\<forall>x \<in> set xs. slot_free x \<and> \<not> end_marker x \<Longrightarrow> lfn_after xs (replicate 260 0) = replicate 260 0"
  by (induction xs) (auto simp: slot_free_def end_marker_def)

lemma tidy_inserted:
  assumes D: "dir_tidy D" and win: "free_window D n pre win post"
    and recs: "\<forall>x \<in> set recs. \<not> slot_free x" "\<And>l i e. (l, i, e) \<in> set recs \<Longrightarrow> lfn_safe e"
      "lfn_after recs (replicate 260 0) = replicate 260 0" "recs \<noteq> []" "0 < n"
  shows "dir_tidy (pre @ recs @ post)"
  unfolding dir_tidy_def
proof (intro conjI allI impI)
  have DD: "D = pre @ win @ post" and wf: "\<forall>x \<in> set win. slot_free x" using win by (simp_all add: free_window_def)
  have re: "\<forall>x \<in> set recs. \<not> end_marker x" using recs(1) end_free by blast
  note np = window_prefix [OF D win]
  fix l i e assume "(l, i, e) \<in> set (pre @ recs @ post)"
  then show "lfn_safe e" using recs(2) dir_tidyD(1) [OF D, of l i e] DD by auto
next
  have DD: "D = pre @ win @ post" using win by (simp add: free_window_def)
  have re: "\<forall>x \<in> set recs. \<not> end_marker x" using recs(1) end_free by blast
  note np = window_prefix [OF D win]
  fix a x b assume ax: "pre @ recs @ post = a @ x # b \<and> end_marker x"
  then have "x \<notin> set pre" "x \<notin> set recs" using np re by auto
  then obtain a' where "a = pre @ recs @ a'" "post = a' @ x # b"
    using ax by (fastforce simp: append_eq_append_conv2 append_eq_Cons_conv Cons_eq_append_conv)
  then have "D = (pre @ win @ a') @ x # b" using DD by simp
  then show "\<forall>y \<in> set b. end_marker y" using dir_tidyD(2) [OF D] ax by blast
next
  have DD: "D = pre @ win @ post" and wf: "\<forall>x \<in> set win. slot_free x" "length win = n" using win by (simp_all add: free_window_def)
  have la: "lfn_after pre (replicate 260 0) = replicate 260 0" by (rule named_window(2) [OF D win recs(5)])
  fix a x b assume ax: "pre @ recs @ post = a @ x # b \<and> slot_free x \<and> (\<forall>y \<in> set a. \<not> end_marker y)"
  then have nr: "x \<notin> set recs" using recs(1) by auto
  consider (before) a2 where "pre = a @ x # a2" | (behind) a' where "a = pre @ recs @ a'" "post = a' @ x # b"
    using ax nr by (fastforce simp: append_eq_append_conv2 append_eq_Cons_conv Cons_eq_append_conv)
  then show "lfn_after a (replicate 260 0) = replicate 260 0"
  proof cases
    case before
    then have "D = a @ x # (a2 @ win @ post)" using DD by simp
    then show ?thesis using dir_tidyD(3) [OF D] ax by blast
  next
    case behind
    have "lfn_after a' (replicate 260 0) = replicate 260 0"
    proof (cases "\<exists>w \<in> set win. end_marker w")
      case True
      then obtain w u v where w: "win = u @ w # v" "end_marker w" by (meson split_list)
      have "D = (pre @ u) @ w # (v @ a' @ x # b)" using DD w(1) behind(2) by simp
      from dir_tidyD(2) [OF D this w(2)] have "\<forall>y \<in> set a'. end_marker y" by simp
      then have "a' = []" using ax behind(1) by (cases a') auto
      then show ?thesis by simp
    next
      case False
      have "D = (pre @ win @ a') @ x # b" using DD behind(2) by simp
      moreover have "\<forall>y \<in> set (pre @ win @ a'). \<not> end_marker y" using False window_prefix [OF D win] ax behind(1) by auto
      ultimately have "lfn_after (pre @ win @ a') (replicate 260 0) = replicate 260 0" using dir_tidyD(3) [OF D] ax by blast
      then show ?thesis using la lfn_after_deleted [of win] wf(1) False by (simp add: lfn_after_append)
    qed
    then show ?thesis using la recs(3) behind(1) by (simp add: lfn_after_append)
  qed
qed
lemma lower_lower: "lower (lower c) = lower c"
  by (auto simp: lower_def word_le_nat_alt unat_word_ariths)

lemma find_append: "find P (xs @ ys) = (case find P xs of None \<Rightarrow> find P ys | Some x \<Rightarrow> Some x)"
  by (induction xs) simp_all

lemma find_SomeD: "find P xs = Some y \<Longrightarrow> y \<in> set xs \<and> P y"
  by (induction xs) (auto split: if_splits)

lemma new_entry_matches:
  assumes "name_ok name" "length sfn = 11" "0 \<notin> set (sfn_target sfn)"
  shows "entry_matches m ((l, i, sfn_record sfn at c n), name @ replicate (260 - length name) 0) \<longleftrightarrow>
    map lower (c_text m) = map lower name \<or> map lower (c_text m) = map lower (sfn_target sfn)"
proof -
  have name: "name \<noteq> []" "length name \<le> 255" "0 \<notin> set name" using assms(1) by (simp_all add: name_ok_def)
  have "260 - length name = Suc (259 - length name)" using name(2) by simp
  then have b: "c_text (name @ replicate (260 - length name) 0) = name" using c_text_append_0 [OF name(3)] by simp
  have "name ! 0 \<in> set name" using name(1) by simp
  then have "name ! 0 \<noteq> 0" using name(3) by metis
  then have "(name @ replicate (260 - length name) 0) ! 0 \<noteq> 0" using name(1) by (simp add: nth_append)
  moreover have "0 \<notin> set (map lower (sfn_target sfn))" using assms(3) by auto
  then have "c_text (sfn_text (sfn_record sfn at c n)) = map lower (sfn_target sfn)"
    unfolding sfn_text_record [OF assms(2)] by (rule c_text_id)
  ultimately show ?thesis unfolding entry_matches_iff b by (auto simp: lower_lower comp_def)
qed

lemma match_transfer:
  "entry_matches m x \<Longrightarrow> map lower (c_text m) = map lower (c_text m') \<Longrightarrow> entry_matches m' x"
  by (cases x) (auto simp: entry_matches_iff)


text \<open>A directory the operations can work on: its chain, records in order, sectors in a row.\<close>

definition dir_ready :: "fat_sys \<Rightarrow> u16 \<Rightarrow> u16 list \<Rightarrow> bool" where
  "dir_ready s d cs \<longleftrightarrow> fat_ok s \<and> dir_chain s d cs \<and> dir_run (dir_sectors (fs_cache s) d cs) \<and>
     dir_tidy (dir_slots (sectors (dev s)) (dir_sectors (fs_cache s) d cs))"

definition dir_names :: "fat_sys \<Rightarrow> u16 \<Rightarrow> u16 list \<Rightarrow> (slot \<times> u8 list) list" where
  "dir_names s d cs = named_entries (dir_slots (sectors (dev s)) (dir_sectors (fs_cache s) d cs)) (replicate 260 0)"

definition found_slot :: "slot \<times> u8 list \<Rightarrow> u8 list \<times> u32 \<times> nat" where
  "found_slot = (\<lambda>((l, i, e), b). (e, l, i))"

lemma find_ready:
  "dir_ready s d cs \<Longrightarrow> fat16_find_in_dir d m s = Some (map_option found_slot (find (entry_matches m) (dir_names s d cs)), s)"
  using find_in_dir_ok [of s d cs m] dir_tidyD(1) [of "dir_slots (sectors (dev s)) (dir_sectors (fs_cache s) d cs)"]
  by (simp add: dir_ready_def dir_names_def found_slot_def)

lemma records_not_free:
  assumes "name_ok name" "length sfn = 11" "sfn ! 0 \<noteq> 0" "sfn ! 0 \<noteq> 0xE5" "r \<in> set (entry_records name sfn at c n)"
  shows "r ! 0 \<noteq> 0" "r ! 0 \<noteq> 0xE5"
proof -
  let ?n = "(length name + 12) div 13"
  consider i where "i < ?n" "r = lfn_record name (lfn_checksum sfn) ?n i" | "r = sfn_record sfn at c n"
    using assms(5) by (auto simp: entry_records_def Let_def)
  then have "r ! 0 \<noteq> 0 \<and> r ! 0 \<noteq> 0xE5"
  proof cases
    case 1
    have "0xFF \<notin> set name" using assms(1) by (simp add: name_ok_def)
    from name_part_store(2,3) [OF 1(1) lfn_count_bound [OF assms(1)] this] show ?thesis using 1(2) by blast
  next
    case 2
    then show ?thesis using sfn_record_fields(2) [OF assms(2)] assms(3,4) by simp
  qed
  then show "r ! 0 \<noteq> 0" "r ! 0 \<noteq> 0xE5" by blast+
qed

lemma tidy_records:
  assumes "dir_tidy D" "name_ok name" "length sfn = 11" "sfn ! 0 \<noteq> 0" "sfn ! 0 \<noteq> 0xE5"
    and at: "at \<noteq> FAT_ATTR_LFN" "at \<noteq> FAT_ATTR_VOLUME_ID"
    and win: "free_window D ((length name + 12) div 13 + 1) pre win post"
  shows "dir_tidy (pre @ map2 (\<lambda>(l, i, e) r. (l, i, r)) win (entry_records name sfn at c n) @ post)"
proof (rule tidy_inserted [OF assms(1) win])
  let ?n = "(length name + 12) div 13" and ?r = "entry_records name sfn at c n"
  let ?w = "map2 (\<lambda>(l, i, e) r. (l, i, r)) win ?r"
  have len: "length win = length ?r" "length ?r = ?n + 1" using win entry_records_props(1) [OF assms(2,3) at(1)] by (simp_all add: free_window_def)
  have mem: "e \<in> set ?r" if "(l, i, e) \<in> set ?w" for l i e
  proof -
    have "e \<in> set (map (snd \<circ> snd) ?w)" using image_eqI [OF _ that, of e "snd \<circ> snd"] by (simp only: set_map) simp
    then show ?thesis unfolding map2_entries [OF len(1)] .
  qed
  show "\<forall>x \<in> set ?w. \<not> slot_free x" using mem records_not_free [OF assms(2-5)] unfolding slot_free_def by blast
  show "lfn_safe e" if "(l, i, e) \<in> set ?w" for l i e using entry_records_props(2) [OF assms(2,3) at(1) mem [OF that]] by blast
  have "length ?w = ?n + 1" using len by simp
  then show "?w \<noteq> []" by auto
  have n: "?n \<le> 20" by (rule lfn_count_bound [OF assms(2)])
  have "map (snd \<circ> snd) ?w = ?r" by (rule map2_entries [OF len(1)])
  also have "\<dots> = map (lfn_record name (lfn_checksum sfn) ?n) [0..<?n] @ [sfn_record sfn at c n]"
    by (simp add: entry_records_def Let_def)
  finally have m: "map (snd \<circ> snd) ?w = map (lfn_record name (lfn_checksum sfn) ?n) [0..<?n] @ [sfn_record sfn at c n]" .
  have "length name \<le> 13 * ?n" by simp
  then have b: "name_part name ?n ?n = name @ replicate (260 - length name) 0" using name_part_n n by blast
  have "clean_tail (name @ replicate (260 - length name) 0)" using assms(2) by (simp add: clean_tail_def name_ok_def)
  then show "lfn_after ?w (replicate 260 0) = replicate 260 0"
    using lfn_after_records [OF m _ n] sfn_record_fields [OF assms(3)] assms(2,5) at
    unfolding b name_part_0 [OF n] by (simp add: name_ok_def)
qed simp

lemma insert_entry_effect:
  assumes "dir_ready s d cs" "name_ok name" "at \<noteq> FAT_ATTR_LFN" "at \<noteq> FAT_ATTR_VOLUME_ID" "2 * length (dir_names s d cs) < 999"
  shows "\<not> has_room ((length name + 12) div 13 + 1) (dir_slots (sectors (dev s)) (dir_sectors (fs_cache s) d cs)) \<and>
      fat16_insert_entry d name at c n s = Some (- ENOSPC, s) \<or>
    (\<exists>a f E1 E2 l i. 1 \<le> a \<and> a < 1000 \<and>
      has_room ((length name + 12) div 13 + 1) (dir_slots (sectors (dev s)) (dir_sectors (fs_cache s) d cs)) \<and> fat16_insert_entry d name at c n s = Some (0, set_sectors f s) \<and>
      (\<forall>x \<in> set (dir_names s d cs). \<not> entry_matches (sfn_target (generate_short_name name a)) x) \<and>
      dir_ready (set_sectors f s) d cs \<and> dir_names s d cs = E1 @ E2 \<and>
      (\<forall>l. l \<notin> set (dir_sectors (fs_cache s) d cs) \<longrightarrow> f l = sectors (dev s) l) \<and>
      dir_names (set_sectors f s) d cs =
        E1 @ ((l, i, sfn_record (generate_short_name name a) at c n), name @ replicate (260 - length name) 0) # E2)"
proof -
  let ?ls = "dir_sectors (fs_cache s) d cs" and ?D = "dir_slots (sectors (dev s)) (dir_sectors (fs_cache s) d cs)"
  have ok: "fat_ok s" "dir_chain s d cs" "dir_tidy ?D" "dir_run ?ls" using assms(1) by (simp_all add: dir_ready_def)
  from insert_entry_ok [OF ok assms(2-4) assms(5) [unfolded dir_names_def]]
  consider "\<not> has_room ((length name + 12) div 13 + 1) ?D \<and> fat16_insert_entry d name at c n s = Some (- ENOSPC, s)"
    | (fin) a pre win post f where "1 \<le> a" "a < 1000"
      "\<forall>x \<in> set (named_entries ?D (replicate 260 0)). \<not> entry_matches (sfn_target (generate_short_name name a)) x"
      "free_window ?D ((length name + 12) div 13 + 1) pre win post"
      "fat16_insert_entry d name at c n s = Some (0, set_sectors f s)"
      "\<forall>l. length (f l) = 512" "\<forall>l. l \<notin> set ?ls \<longrightarrow> f l = sectors (dev s) l"
      "dir_slots f ?ls = pre @ map2 (\<lambda>(l, i, e) r. (l, i, r)) win (entry_records name (generate_short_name name a) at c n) @ post" by blast
  then show ?thesis
  proof cases
    case fin
    let ?sfn = "generate_short_name name a"
    have sl: "length ?sfn = 11" using generate_short_name_eq [of name a] tail_len_range [of a] fin(1,2)
      by (auto simp: keep_len_def numeric_tail_length)
    note first = short_name_first [OF assms(2) fin(2)]
    have "\<forall>l \<in> fat_area s. f l = sectors (dev s) l" using fin(7) dir_sectors_not_fat [OF ok(1,2)] by blast
    note fr = set_sectors_frame [OF ok(1) fin(6) this]
    have "dir_ready (set_sectors f s) d cs"
      using fr(1) fr(6) [OF ok(2)] ok(4) tidy_records [OF ok(3) assms(2) sl first assms(3,4) fin(4), of c n] fin(8)
      by (simp add: dir_ready_def)
    moreover obtain l i where "dir_names (set_sectors f s) d cs =
        named_entries pre (replicate 260 0) @ ((l, i, sfn_record ?sfn at c n), name @ replicate (260 - length name) 0) #
        named_entries post (replicate 260 0)"
      using named_inserted [OF ok(3) assms(2) sl first assms(3,4) fin(4), of c n] fin(8) by (auto simp: dir_names_def)
    moreover have "dir_names s d cs = named_entries pre (replicate 260 0) @ named_entries post (replicate 260 0)"
      using named_window(1) [OF ok(3) fin(4)] by (simp add: dir_names_def)
    ultimately show ?thesis using fin(1-3,5,7) window_room [OF fin(4)] unfolding dir_names_def by blast
  qed blast
qed

lemma insert_found:
  assumes "dir_ready s d cs" "name_ok name" "at \<noteq> FAT_ATTR_LFN" "at \<noteq> FAT_ATTR_VOLUME_ID"
    and "2 * length (dir_names s d cs) < 999" "fat16_find_in_dir d name s = Some (None, s)"
  shows "if \<not> has_room ((length name + 12) div 13 + 1) (dir_slots (sectors (dev s)) (dir_sectors (fs_cache s) d cs))
    then fat16_insert_entry d name at c n s = Some (- ENOSPC, s)
    else (\<exists>s' e l i. fat16_insert_entry d name at c n s = Some (0, s') \<and> dir_ready s' d cs \<and>
      fat16_find_in_dir d name s' = Some (Some (e, l, i), s') \<and>
      e_attributes e = at \<and> e_starting_cluster e = c \<and> e_file_size e = n \<and>
      (\<forall>m x. fat16_find_in_dir d m s = Some (Some x, s) \<longrightarrow> fat16_find_in_dir d m s' = Some (Some x, s')) \<and>
      s' = set_sectors (sectors (dev s')) s \<and>
      (\<forall>l. l \<notin> set (dir_sectors (fs_cache s) d cs) \<longrightarrow> sectors (dev s') l = sectors (dev s) l))"
proof -
  have no: "\<forall>x \<in> set (dir_names s d cs). \<not> entry_matches name x"
    using assms(6) find_ready [OF assms(1), of name] by (auto simp: find_None_iff)
  consider "\<not> has_room ((length name + 12) div 13 + 1) (dir_slots (sectors (dev s)) (dir_sectors (fs_cache s) d cs))"
      "fat16_insert_entry d name at c n s = Some (- ENOSPC, s)"
    | (fin) a f E1 E2 l i where "a < 1000" "fat16_insert_entry d name at c n s = Some (0, set_sectors f s)"
      "\<forall>x \<in> set (dir_names s d cs). \<not> entry_matches (sfn_target (generate_short_name name a)) x"
      "dir_ready (set_sectors f s) d cs" "dir_names s d cs = E1 @ E2"
      "\<forall>l. l \<notin> set (dir_sectors (fs_cache s) d cs) \<longrightarrow> f l = sectors (dev s) l"
      "dir_names (set_sectors f s) d cs =
        E1 @ ((l, i, sfn_record (generate_short_name name a) at c n), name @ replicate (260 - length name) 0) # E2"
      "has_room ((length name + 12) div 13 + 1) (dir_slots (sectors (dev s)) (dir_sectors (fs_cache s) d cs))"
    using insert_entry_effect [OF assms(1-5), of c n] by blast
  then show ?thesis
  proof cases
    case fin
    let ?s = "set_sectors f s" and ?sfn = "generate_short_name name a" and ?b = "name @ replicate (260 - length name) 0"
    let ?x = "((l, i, sfn_record ?sfn at c n), ?b)"
    have sl: "length ?sfn = 11" using generate_short_name_eq [of name a] tail_len_range [of a] fin(1)
      by (auto simp: keep_len_def numeric_tail_length)
    have tx: "c_text name = name" "c_text (sfn_target ?sfn) = sfn_target ?sfn" "0 \<notin> set (sfn_target ?sfn)"
      using c_text_id sfn_target_nonzero [OF fin(1)] assms(2) by (simp_all add: name_ok_def)
    note new = new_entry_matches [OF assms(2) sl tx(3)]
    have find: "fat16_find_in_dir d m ?s = Some (map_option found_slot (find (entry_matches m) (E1 @ ?x # E2)), ?s)" for m
      using find_ready [OF fin(4), of m] fin(7) by simp
    have "find (entry_matches name) (E1 @ ?x # E2) = Some ?x"
      using no new [of name] fin(5) tx(1) by (simp add: find_append find_None_iff [THEN iffD2])
    then have "fat16_find_in_dir d name ?s = Some (Some (sfn_record ?sfn at c n, l, i), ?s)" using find by (simp add: found_slot_def)
    moreover have "fat16_find_in_dir d m ?s = Some (Some x, ?s)" if "fat16_find_in_dir d m s = Some (Some x, s)" for m x
    proof -
      from that obtain y where y: "find (entry_matches m) (E1 @ E2) = Some y" "x = found_slot y"
        using find_ready [OF assms(1), of m] fin(5) by auto
      then have m: "y \<in> set (dir_names s d cs)" "entry_matches m y" using fin(5) find_SomeD [OF y(1)] by simp_all
      then have "\<not> entry_matches m ?x" using no fin(3) match_transfer [OF m(2)] tx unfolding new by metis
      then have "find (entry_matches m) (E1 @ ?x # E2) = Some y" using y(1) by (simp add: find_append split: option.splits)
      then show ?thesis using find [of m] y(2) by simp
    qed
    ultimately have "\<exists>s' e l i. fat16_insert_entry d name at c n s = Some (0, s') \<and> dir_ready s' d cs \<and>
      fat16_find_in_dir d name s' = Some (Some (e, l, i), s') \<and>
      e_attributes e = at \<and> e_starting_cluster e = c \<and> e_file_size e = n \<and>
      (\<forall>m x. fat16_find_in_dir d m s = Some (Some x, s) \<longrightarrow> fat16_find_in_dir d m s' = Some (Some x, s')) \<and>
      s' = set_sectors (sectors (dev s')) s \<and>
      (\<forall>l. l \<notin> set (dir_sectors (fs_cache s) d cs) \<longrightarrow> sectors (dev s') l = sectors (dev s) l)"
      using fin(2,4,6) sfn_record_fields [OF sl] by fastforce
    then show ?thesis using fin(8) by presburger
  qed simp
qed


text \<open>The root directory of the small volume is empty; its single sector has room for sixteen records.\<close>

lemma small_root_slots:
  "dir_slots (sectors (dev small_volume)) (dir_sectors (fs_cache small_volume) 0 []) = map (\<lambda>i. (3, i, replicate 32 0)) [0..<16]"
  by (simp add: dir_slots_def dir_sectors_def root_sectors_def small_volume_def small_cache_def slot_of_def)

lemma small_root_ready: "dir_ready small_volume 0 []" "dir_names small_volume 0 [] = []"
proof -
  have e: "end_marker x" if "x \<in> set (map (\<lambda>i. (3, i, replicate 32 0)) [0..<16])" for x :: slot
    using that by (auto simp: end_marker_def)
  have "dir_tidy (map (\<lambda>i. (3, i, replicate 32 0)) [0..<16])"
    unfolding dir_tidy_def
  proof (intro conjI allI impI)
    show "lfn_safe en" if "(l, i, en) \<in> set (map (\<lambda>i. (3, i, replicate 32 0)) [0..<16])" for l i en
      using that by (auto simp: lfn_safe_def e_attributes_def FAT_ATTR_LFN_def)
    fix a x b assume s: "map (\<lambda>i. (3, i, replicate 32 0)) [0..<16] = a @ x # b \<and> end_marker x"
    then show "\<forall>y \<in> set b. end_marker y" using e by simp
  next
    fix a b and x :: slot
    assume s: "map (\<lambda>i. (3, i, replicate 32 0)) [0..<16] = a @ x # b \<and> slot_free x \<and> (\<forall>y \<in> set a. \<not> end_marker y)"
    then have "a = []" using e by (cases a) auto
    then show "lfn_after a (replicate 260 0) = replicate 260 0" by simp
  qed
  moreover have "dir_run (dir_sectors (fs_cache small_volume) 0 [])"
    unfolding dir_run_def by (rule exI [of _ 3]) (simp add: dir_sectors_def root_sectors_def small_volume_def small_cache_def)
  ultimately show "dir_ready small_volume 0 []"
    using small_volume_ok unfolding dir_ready_def small_root_slots by (simp add: dir_chain_def)
  show "dir_names small_volume 0 [] = []" unfolding dir_names_def small_root_slots by (simp add: upt_rec)
qed


end
