(* ===== verification/Fat16_Files.thy ===== *)
theory Fat16_Files
  imports Fat16_Insert
begin

text \<open>
  Layer 6 of src/src/fs/fat16.c: loading, creating, writing and deleting files, making, removing and
  listing directories.  Every function is a composition of the layers below; results are error
  codes, and \<open>None\<close> is a fault or a loop that does not end.
\<close>

unbundle bit_operations_syntax

section \<open>Resolving and finding\<close>

text \<open>
  The common start of the functions of this layer: \<open>fat16_resolve_path\<close> and the search for the last
  component in the parent, mostly after \<open>ensure_init\<close>.
\<close>

definition resolve_find :: "u8 list \<Rightarrow> fat_sys \<Rightarrow> ((int + u16 \<times> u8 list \<times> (u8 list \<times> u32 \<times> nat) option) \<times> fat_sys) option" where
  "resolve_find path s = do {
     (res, s) \<leftarrow> fat16_resolve_path path s;
     (case res of
        Inl e \<Rightarrow> Some (Inl e, s)
      | Inr (parent_cluster, filename, _) \<Rightarrow> do {
          (r, s) \<leftarrow> fat16_find_in_dir parent_cluster filename s;
          Some (Inr (parent_cluster, filename, r), s) }) }"

definition fat16_locate :: "u8 list \<Rightarrow> fat_sys \<Rightarrow> ((int + u16 \<times> u8 list \<times> (u8 list \<times> u32 \<times> nat) option) \<times> fat_sys) option" where
  "fat16_locate path s = do { s \<leftarrow> ensure_init s; resolve_find path s }"

section \<open>Loading a file\<close>

text \<open>
  The heap buffer is a list of bytes, \<open>None\<close> where nothing has been stored yet.  \<open>write_offset\<close> and
  \<open>bytes_left\<close> always add up to the size of the file, so they do not wrap.
\<close>

type_synonym ram_buffer = "u8 option list"

definition copy_chunk :: "ram_buffer \<Rightarrow> nat \<Rightarrow> u8 list \<Rightarrow> ram_buffer" where
  "copy_chunk buf off bytes = take off buf @ map Some bytes @ drop (off + length bytes) buf"

fun load_sectors :: "u32 list \<Rightarrow> ram_buffer \<Rightarrow> nat \<Rightarrow> nat \<Rightarrow> fat_sys \<Rightarrow> (ram_buffer \<times> nat \<times> nat) option \<times> fat_sys" where
  "load_sectors [] buf write_offset bytes_left s = (Some (buf, write_offset, bytes_left), s)"
| "load_sectors (lba # lbas) buf write_offset bytes_left s =
     (if bytes_left = 0 then (Some (buf, write_offset, bytes_left), s)
      else case ata_read_sector lba s of
             (None, s1) \<Rightarrow> (None, s1)
           | (Some sector_buf, s1) \<Rightarrow>
               (let chunk = (if bytes_left < 512 then bytes_left else 512)
                in load_sectors lbas (copy_chunk buf write_offset (take chunk sector_buf)) (write_offset + chunk) (bytes_left - chunk) s1))"

text \<open>The walk over the cluster chain; the result \<open>None\<close> inside is a sector that could not be read.\<close>

partial_function (option) load_clusters :: "u16 \<Rightarrow> ram_buffer \<Rightarrow> nat \<Rightarrow> nat \<Rightarrow> fat_sys \<Rightarrow> (ram_buffer option \<times> fat_sys) option" where
  "load_clusters curr_cluster buf write_offset bytes_left s =
     (if curr_cluster \<ge> 2 \<and> curr_cluster < 0xFFF8 \<and> bytes_left > 0
      then (case load_sectors (cluster_sectors (fs_cache s) curr_cluster) buf write_offset bytes_left s of
              (None, s1) \<Rightarrow> Some (None, s1)
            | (Some (buf1, write_offset1, bytes_left1), s1) \<Rightarrow> do {
                (next_c, s2) \<leftarrow> fat16_read_fat_entry curr_cluster s1;
                load_clusters next_c buf1 write_offset1 bytes_left1 s2 })
      else Some (Some buf, s))"

text \<open>
  The address returned (0 is NULL), the contents of the buffer and the size stored through
  \<open>out_file_size\<close>.  \<open>kfree\<close> may panic.
\<close>

definition fat16_load_file :: "u8 list \<Rightarrow> fat_sys \<Rightarrow> ((addr \<times> ram_buffer \<times> u32) option \<times> fat_sys) kres option" where
  "fat16_load_file path s = do {
     (res, s) \<leftarrow> fat16_locate path s;
     (case res of
        Inl _ \<Rightarrow> Some (Inr (None, s))
      | Inr (_, _, None) \<Rightarrow> Some (Inr (None, s))
      | Inr (_, _, Some (entry, _, _)) \<Rightarrow>
          if e_attributes entry AND FAT_ATTR_DIRECTORY \<noteq> 0 then Some (Inr (None, s))
          else if e_file_size entry = 0
          then do {
            (p, h) \<leftarrow> kmalloc 1 (fheap s);
            Some (Inr (if p = 0 then None else Some (p, [Some 0], 0), s\<lparr>fheap := h\<rparr>)) }
          else do {
            (p, h) \<leftarrow> kmalloc (e_file_size entry) (fheap s);
            if p = 0 then Some (Inr (None, s\<lparr>fheap := h\<rparr>))
            else do {
              let n = unat (e_file_size entry);
              (r, s1) \<leftarrow> load_clusters (e_starting_cluster entry) (replicate n None) 0 n (s\<lparr>fheap := h\<rparr>);
              (case r of
                 None \<Rightarrow> map_option (\<lambda>r. case r of Inl e \<Rightarrow> Inl e | Inr h1 \<Rightarrow> Inr (None, s1\<lparr>fheap := h1\<rparr>)) (kfree p (fheap s1))
               | Some buf \<Rightarrow> Some (Inr (Some (p, buf, e_file_size entry), s1))) } }) }"

section \<open>Creating and writing files\<close>

definition fat16_create_file :: "u8 list \<Rightarrow> fat_sys \<Rightarrow> (int \<times> fat_sys) option" where
  "fat16_create_file path s = do {
     (res, s) \<leftarrow> fat16_locate path s;
     (case res of
        Inl e \<Rightarrow> Some (e, s)
      | Inr (parent_cluster, filename, r) \<Rightarrow>
          if r \<noteq> None then Some (- EEXIST, s)
          else fat16_insert_entry parent_cluster filename FAT_ATTR_ARCHIVE 0 0 s) }"

text \<open>The last cluster of a chain, as the pair of \<open>curr_cluster\<close> and \<open>prev_cluster\<close>.\<close>

partial_function (option) append_walk :: "u16 \<Rightarrow> u16 \<Rightarrow> fat_sys \<Rightarrow> (u16 \<times> u16 \<times> fat_sys) option" where
  "append_walk curr_cluster prev_cluster s =
     (if curr_cluster \<ge> 2 \<and> curr_cluster < 0xFFF8
      then do {
        (next_c, s1) \<leftarrow> fat16_read_fat_entry curr_cluster s;
        if next_c \<ge> 0xFFF8 then Some (curr_cluster, curr_cluster, s1)
        else append_walk next_c curr_cluster s1 }
      else Some (curr_cluster, prev_cluster, s))"

text \<open>
  The sectors of one cluster: \<open>rest\<close> is what remains of the data.  The result is what remains
  afterwards, \<open>None\<close> for -EIO.
\<close>

fun write_data :: "u32 list \<Rightarrow> u8 list \<Rightarrow> nat \<Rightarrow> fat_sys \<Rightarrow> u8 list option \<times> fat_sys" where
  "write_data [] rest sec_offset s = (Some rest, s)"
| "write_data (lba # lbas) rest sec_offset s =
     (if rest = [] then (Some rest, s)
      else case (if sec_offset > 0 \<or> length rest < 512 then ata_read_sector lba s else (Some (replicate 512 0), s)) of
             (None, s1) \<Rightarrow> (None, s1)
           | (Some sector_buf, s1) \<Rightarrow>
               (let chunk = min (512 - sec_offset) (length rest)
                in case ata_write_sector lba (write_at sector_buf sec_offset (take chunk rest)) s1 of
                     (False, s2) \<Rightarrow> (None, s2)
                   | (True, s2) \<Rightarrow> write_data lbas (drop chunk rest) 0 s2))"

text \<open>
  The offset in the cluster where the data goes: that of the end of the file for the first bytes
  appended.  A cluster of zero bytes makes its computation a division by zero.
\<close>

definition in_cluster_offset :: "bool \<Rightarrow> u32 \<Rightarrow> bool \<Rightarrow> fat_sys \<Rightarrow> nat option" where
  "in_cluster_offset app file_size start s =
     (let cluster_bytes = unat (sectors_per_cluster (fs_cache s)) * 512
      in if app \<and> file_size > 0 \<and> start
         then if cluster_bytes = 0 then None else Some (unat file_size mod cluster_bytes)
         else Some 0)"

text \<open>A new cluster is linked behind \<open>prev_cluster\<close>; \<open>None\<close> inside is a full volume.\<close>

definition next_cluster :: "nat \<Rightarrow> u16 \<Rightarrow> u16 \<Rightarrow> u16 \<Rightarrow> fat_sys \<Rightarrow> ((u16 \<times> u16 \<times> u16) option \<times> fat_sys) option" where
  "next_cluster off first_cluster curr_cluster prev_cluster s =
     (if off = 0 \<or> curr_cluster < 2
      then do {
        (new_c, s) \<leftarrow> fat16_alloc_cluster s;
        if new_c = 0 then Some (None, s)
        else do {
          s \<leftarrow> (if prev_cluster \<ge> 2 then map_option snd (fat16_write_fat_entry prev_cluster new_c s) else Some s);
          Some (Some (if first_cluster = 0 then new_c else first_cluster, new_c, new_c), s) } }
      else Some (Some (first_cluster, curr_cluster, prev_cluster), s))"

text \<open>
  The write loop; the number of bytes written is the length of the data less what remains.  The
  result is an error code or the first cluster of the file.
\<close>

partial_function (option) write_loop ::
  "bool \<Rightarrow> u32 \<Rightarrow> u8 list \<Rightarrow> u8 list \<Rightarrow> u16 \<Rightarrow> u16 \<Rightarrow> u16 \<Rightarrow> fat_sys \<Rightarrow> ((int + u16) \<times> fat_sys) option" where
  "write_loop app file_size data rest first_cluster curr_cluster prev_cluster s =
     (if rest = [] then Some (Inr first_cluster, s)
      else do {
        off \<leftarrow> in_cluster_offset app file_size (length rest = length data) s;
        (r, s1) \<leftarrow> next_cluster off first_cluster curr_cluster prev_cluster s;
        (case r of
           None \<Rightarrow> Some (Inl (- ENOSPC), s1)
         | Some (first, cur, prev) \<Rightarrow>
             (case write_data (drop (off div 512) (cluster_sectors (fs_cache s1) cur)) rest (off mod 512) s1 of
                (None, s2) \<Rightarrow> Some (Inl (- EIO), s2)
              | (Some rest1, s2) \<Rightarrow> write_loop app file_size data rest1 first cur prev s2)) })"

text \<open>A directory slot is read, replaced and written back.\<close>

definition update_slot :: "u32 \<Rightarrow> nat \<Rightarrow> (u8 list \<Rightarrow> u8 list) \<Rightarrow> fat_sys \<Rightarrow> int \<times> fat_sys" where
  "update_slot target_sec target_idx f s =
     (case ata_read_sector target_sec s of
        (None, s1) \<Rightarrow> (- EIO, s1)
      | (Some dir_buf, s1) \<Rightarrow>
          (case ata_write_sector target_sec (put_slot dir_buf target_idx (f (slot_of dir_buf target_idx))) s1 of
             (False, s2) \<Rightarrow> (- EIO, s2)
           | (True, s2) \<Rightarrow> (0, s2)))"

definition set_entry :: "u16 \<Rightarrow> u32 \<Rightarrow> u8 list \<Rightarrow> u8 list" where
  "set_entry cluster nbytes entry = put32 (put16 entry 26 cluster) 28 nbytes"

text \<open>The part of \<open>fat16_write_file\<close> behind the search, for an existing entry in the given slot.\<close>

definition write_entry :: "u8 list \<Rightarrow> u32 \<Rightarrow> nat \<Rightarrow> u8 list \<Rightarrow> bool \<Rightarrow> fat_sys \<Rightarrow> (int \<times> fat_sys) option" where
  "write_entry entry target_sec target_idx data app s =
     (if e_attributes entry AND FAT_ATTR_DIRECTORY \<noteq> 0 then Some (- EISDIR, s)
      else if \<not> app \<and> data = []
      then do {
        s \<leftarrow> (if e_starting_cluster entry \<ge> 2 then fat16_free_chain (e_starting_cluster entry) s else Some s);
        Some (update_slot target_sec target_idx (\<lambda>_. set_entry 0 0 entry) s) }
      else do {
        (first_cluster, curr_cluster, prev_cluster, s) \<leftarrow>
          (if \<not> app
           then map_option (\<lambda>s. (0, 0, 0, s))
                  (if e_starting_cluster entry \<ge> 2 then fat16_free_chain (e_starting_cluster entry) s else Some s)
           else map_option (\<lambda>(c, p, s). (e_starting_cluster entry, c, p, s))
                  (if e_starting_cluster entry \<ge> 2 then append_walk (e_starting_cluster entry) 0 s else Some (0, 0, s)));
        (r, s) \<leftarrow> write_loop app (e_file_size entry) data data first_cluster curr_cluster prev_cluster s;
        (case r of
           Inl e \<Rightarrow> Some (e, s)
         | Inr first_cluster \<Rightarrow>
             Some (update_slot target_sec target_idx
               (\<lambda>_. set_entry first_cluster (if app then e_file_size entry + of_nat (length data) else of_nat (length data)) entry) s)) })"

text \<open>\<open>data\<close> are the \<open>len\<close> bytes of the payload.\<close>

definition fat16_write_file :: "u8 list \<Rightarrow> u8 list \<Rightarrow> bool \<Rightarrow> fat_sys \<Rightarrow> (int \<times> fat_sys) option" where
  "fat16_write_file path data app s = do {
     (res, s) \<leftarrow> fat16_locate path s;
     (case res of
        Inl e \<Rightarrow> Some (e, s)
      | Inr (_, _, Some (entry, target_sec, target_idx)) \<Rightarrow> write_entry entry target_sec target_idx data app s
      | Inr (parent_cluster, filename, None) \<Rightarrow> do {
          (res, s) \<leftarrow> fat16_insert_entry parent_cluster filename FAT_ATTR_ARCHIVE 0 0 s;
          if res \<noteq> 0 then Some (res, s)
          else do {
            (r, s) \<leftarrow> fat16_find_in_dir parent_cluster filename s;
            (case r of
               None \<Rightarrow> Some (- ENOENT, s)
             | Some (entry, target_sec, target_idx) \<Rightarrow> write_entry entry target_sec target_idx data app s) } }) }"

definition fat16_delete_file :: "u8 list \<Rightarrow> fat_sys \<Rightarrow> (int \<times> fat_sys) option" where
  "fat16_delete_file path s = do {
     (res, s) \<leftarrow> fat16_locate path s;
     (case res of
        Inl e \<Rightarrow> Some (e, s)
      | Inr (_, _, None) \<Rightarrow> Some (- ENOENT, s)
      | Inr (_, _, Some (entry, target_sec, target_idx)) \<Rightarrow>
          if e_attributes entry AND FAT_ATTR_DIRECTORY \<noteq> 0 then Some (- EISDIR, s)
          else do {
            s \<leftarrow> (if e_starting_cluster entry \<ge> 2 then fat16_free_chain (e_starting_cluster entry) s else Some s);
            Some (update_slot target_sec target_idx (\<lambda>e. e[0 := 0xE5]) s) }) }"

section \<open>Directories\<close>

definition dot_entry :: "u8 list \<Rightarrow> u16 \<Rightarrow> u8 list" where
  "dot_entry dots cluster =
     put16 ((write_at (write_at (replicate 32 0) 0 (replicate 11 32)) 0 dots)[11 := FAT_ATTR_DIRECTORY]) 26 cluster"

fun write_dir_sectors :: "u32 list \<Rightarrow> u8 list \<Rightarrow> fat_sys \<Rightarrow> bool \<times> fat_sys" where
  "write_dir_sectors [] dir_buf s = (True, s)"
| "write_dir_sectors (lba # lbas) dir_buf s =
     (let (ok, s1) = ata_write_sector lba dir_buf s
      in if ok then write_dir_sectors lbas (replicate 512 0) s1 else (False, s1))"

definition fat16_make_directory :: "u8 list \<Rightarrow> fat_sys \<Rightarrow> (int \<times> fat_sys) option" where
  "fat16_make_directory path s = do {
     (res, s) \<leftarrow> fat16_locate path s;
     (case res of
        Inl e \<Rightarrow> Some (e, s)
      | Inr (parent_cluster, dirname, r) \<Rightarrow>
          if r \<noteq> None then Some (- EEXIST, s)
          else do {
            (new_dir_cluster, s) \<leftarrow> fat16_alloc_cluster s;
            if new_dir_cluster = 0 then Some (- ENOSPC, s)
            else let dir_buf = put_slot (put_slot (replicate 512 0) 0 (dot_entry [46] new_dir_cluster)) 1 (dot_entry [46, 46] parent_cluster);
                     (ok, s) = write_dir_sectors (cluster_sectors (fs_cache s) new_dir_cluster) dir_buf s
                 in if \<not> ok then Some (- EIO, s)
                    else fat16_insert_entry parent_cluster dirname FAT_ATTR_DIRECTORY new_dir_cluster 0 s }) }"

definition empty_check_callback :: "nat visitor" where
  "empty_check_callback sector slot_idx entry count s =
     (let first_byte = entry ! 0
      in if first_byte = 0 then Some (1, count, s)
         else if first_byte = 0xE5 then Some (0, count, s)
         else if e_attributes entry \<noteq> FAT_ATTR_VOLUME_ID \<and> e_attributes entry \<noteq> FAT_ATTR_LFN
         then if entry ! 0 = 46 \<and> (entry ! 1 = 32 \<or> entry ! 1 = 46 \<and> entry ! 2 = 32) then Some (0, count, s)
              else Some (1, Suc count, s)
         else Some (0, count, s))"

definition fat16_remove_directory :: "u8 list \<Rightarrow> fat_sys \<Rightarrow> (int \<times> fat_sys) option" where
  "fat16_remove_directory path s = do {
     (res, s) \<leftarrow> fat16_locate path s;
     (case res of
        Inl e \<Rightarrow> Some (e, s)
      | Inr (_, _, None) \<Rightarrow> Some (- ENOENT, s)
      | Inr (_, _, Some (entry, target_sec, target_idx)) \<Rightarrow>
          if e_attributes entry AND FAT_ATTR_DIRECTORY = 0 then Some (- ENOTDIR, s)
          else do {
            (_, count, s) \<leftarrow> iterate_directory (e_starting_cluster entry) empty_check_callback 0 s;
            if count > 0 then Some (- ENOTEMPTY, s)
            else do {
              s \<leftarrow> fat16_free_chain (e_starting_cluster entry) s;
              Some (update_slot target_sec target_idx (\<lambda>e. e[0 := 0xE5]) s) } }) }"

section \<open>Listing a directory\<close>

definition on_con :: "(console \<Rightarrow> console) \<Rightarrow> fat_sys \<Rightarrow> fat_sys" where
  "on_con f s = s\<lparr>con := f (con s)\<rparr>"

text \<open>
  The context is \<open>lfn_buf[256]\<close> alone.  Record number 20 of a long name would be stored at 247 to 259,
  outside of it: the callback has no defined result then, \<open>None\<close>.
\<close>

definition list_store :: "u8 list \<Rightarrow> u8 list \<Rightarrow> u8 list option" where
  "list_store entry buf =
     (let index = int (unat (entry ! 0 AND 0x1F)) - 1
      in if index \<ge> 0 \<and> index < 20
         then if nat index * 13 + 13 > length buf then None
              else Some (write_at buf (nat index * 13) (map (\<lambda>j. lfn_char (get16 entry (lfn_unit_offset j))) [0..<13]))
         else Some buf)"

definition short_bytes :: "u8 list \<Rightarrow> u8 list" where
  "short_bytes entry =
     filter (\<lambda>c. c \<noteq> 32) (e_filename entry) @
     (if e_extension entry ! 0 \<noteq> 32 then 46 # filter (\<lambda>c. c \<noteq> 32) (e_extension entry) else [])"

text \<open>\<open>buffer\<close> is what the local buffer of \<open>print_int\<close> holds when it is called.\<close>

definition list_dir_callback :: "chararr \<Rightarrow> u8 list visitor" where
  "list_dir_callback buffer sector slot_idx entry lfn_buf s =
     (let first_byte = entry ! 0
      in if first_byte = 0 then Some (1, lfn_buf, s)
         else if first_byte = 0xE5 then Some (0, lfn_buf[0 := 0], s)
         else if e_attributes entry = FAT_ATTR_LFN then map_option (\<lambda>b. (0, b, s)) (list_store entry lfn_buf)
         else if e_attributes entry \<noteq> FAT_ATTR_VOLUME_ID
         then do {
           let is_dir = (e_attributes entry AND FAT_ATTR_DIRECTORY \<noteq> 0);
           let s = (if is_dir then on_con (\<lambda>c. puts_text ''[DIR]  '' (set_print_color 0x0B c)) s
                    else on_con (\<lambda>c. puts_text ''       '' (set_print_color 0x0F c)) s);
           let s = (if lfn_buf ! 0 \<noteq> 0 then on_con (fold print_char (c_text lfn_buf)) s
                    else on_con (fold print_char (short_bytes entry)) s);
           s \<leftarrow> (if \<not> is_dir
                then map_option (\<lambda>c. on_con (\<lambda>_. puts_text '' B)'' c) s)
                  (print_int buffer (sint (e_file_size entry)) (puts_text '' ('' (set_print_color 0x07 (con s))))
                else Some s);
           Some (0, lfn_buf[0 := 0], on_con (\<lambda>c. set_print_color 0x0F (puts_text newline c)) s) }
         else Some (0, lfn_buf, s))"

definition fat16_list_directory :: "chararr \<Rightarrow> u8 list \<Rightarrow> fat_sys \<Rightarrow> (int \<times> fat_sys) option" where
  "fat16_list_directory buffer path s = do {
     s \<leftarrow> ensure_init s;
     (r, s) \<leftarrow> (if path \<noteq> [] \<and> path \<noteq> [47]
       then do {
         (res, s) \<leftarrow> resolve_find path s;
         Some (case res of
            Inl e \<Rightarrow> Inl e
          | Inr (_, _, None) \<Rightarrow> Inl (- ENOENT)
          | Inr (_, _, Some (entry, _, _)) \<Rightarrow>
              if e_attributes entry AND FAT_ATTR_DIRECTORY = 0 then Inl (- ENOTDIR) else Inr (e_starting_cluster entry), s) }
       else Some (Inr 0, s));
     (case r of
        Inl e \<Rightarrow> Some (e, on_con (set_print_color 0x0F) s)
      | Inr target_cluster \<Rightarrow> do {
          (status, _, s) \<leftarrow> iterate_directory target_cluster (list_dir_callback buffer) (replicate 256 0) s;
          Some (status, on_con (set_print_color 0x0F) s) }) }"

end
