(* ===== verification/Fat16_Content.thy ===== *)
theory Fat16_Content
  imports Fat16_Files
begin

text \<open>
  The contents of files: the bytes of the sectors of a cluster chain, what the loops of
  \<open>fat16_load_file\<close> and \<open>fat16_write_file\<close> of src/src/fs/fat16.c do to them, and what they leave alone.
\<close>

unbundle bit_operations_syntax

section \<open>Sectors as bytes\<close>

definition file_bytes :: "(u32 \<Rightarrow> u8 list) \<Rightarrow> u32 list \<Rightarrow> u8 list" where
  "file_bytes f ls = concat (map f ls)"

lemma file_bytes_simps [simp]:
  "file_bytes f [] = []" "file_bytes f (l # ls) = f l @ file_bytes f ls" "file_bytes f (ks @ ls) = file_bytes f ks @ file_bytes f ls"
  by (simp_all add: file_bytes_def)

lemma file_bytes_length [simp]: "(\<And>l. length (f l) = 512) \<Longrightarrow> length (file_bytes f ls) = 512 * length ls"
  by (induction ls) simp_all

lemma file_bytes_cong: "(\<And>l. l \<in> set ls \<Longrightarrow> f l = g l) \<Longrightarrow> file_bytes f ls = file_bytes g ls"
  by (induction ls) simp_all

lemma file_bytes_drop: "(\<And>l. length (f l) = 512) \<Longrightarrow> file_bytes f (drop k ls) = drop (512 * k) (file_bytes f ls)"
proof (induction k arbitrary: ls)
  case (Suc k)
  then show ?case by (cases ls) simp_all
qed simp

section \<open>Loading\<close>

lemma copy_chunk_append:
  "off + length xs \<le> length buf \<Longrightarrow> copy_chunk (copy_chunk buf off xs) (off + length xs) ys = copy_chunk buf off (xs @ ys)"
  by (simp add: copy_chunk_def ac_simps)

lemma copy_chunk_nil [simp]: "copy_chunk buf off [] = buf"
  by (simp add: copy_chunk_def)

lemma copy_chunk_length: "off + length xs \<le> length buf \<Longrightarrow> length (copy_chunk buf off xs) = length buf"
  by (simp add: copy_chunk_def)

lemma load_sectors_ok:
  assumes "disk_ok s" "\<And>l. l \<in> set ls \<Longrightarrow> l < 0x10000000" "off + left \<le> length buf"
  shows "load_sectors ls buf off left s =
    (Some (copy_chunk buf off (take left (file_bytes (sectors (dev s)) ls)), off + min left (512 * length ls), left - 512 * length ls), s)"
  using assms(2,3)
proof (induction ls arbitrary: buf off left)
  case (Cons l ls)
  let ?b = "sectors (dev s) l" and ?c = "if left < 512 then left else 512"
  have b: "length ?b = 512" using assms(1) by simp
  have c: "length (take ?c ?b) = ?c" using b by simp
  have "copy_chunk (copy_chunk buf off (take ?c ?b)) (off + ?c) (take (left - ?c) (file_bytes (sectors (dev s)) ls)) =
      copy_chunk buf off (take left (?b @ file_bytes (sectors (dev s)) ls))"
    using copy_chunk_append [of off "take ?c ?b" buf, unfolded c] Cons.prems(2) b by simp
  moreover have "load_sectors ls (copy_chunk buf off (take ?c ?b)) (off + ?c) (left - ?c) s =
      (Some (copy_chunk (copy_chunk buf off (take ?c ?b)) (off + ?c) (take (left - ?c) (file_bytes (sectors (dev s)) ls)),
        off + ?c + min (left - ?c) (512 * length ls), left - ?c - 512 * length ls), s)"
    using Cons.prems copy_chunk_length [of off "take ?c ?b" buf, unfolded c] by (intro Cons.IH) simp_all
  moreover have "left \<noteq> 0 \<Longrightarrow> off + ?c + min (left - ?c) (512 * length ls) = off + min left (512 * length (l # ls))" by auto
  moreover have "left - ?c - 512 * length ls = left - 512 * length (l # ls)" by simp
  ultimately show ?case using assms(1) Cons.prems(1) by (cases "left = 0") (simp_all add: Let_def)
qed simp

text \<open>The sectors of the clusters of a chain, in order.\<close>

definition chain_sectors :: "fat16_cache_t \<Rightarrow> u16 list \<Rightarrow> u32 list" where
  "chain_sectors g cs = concat (map (cluster_sectors g) cs)"

lemma chain_sectors_simps [simp]:
  "chain_sectors g [] = []" "chain_sectors g (c # cs) = cluster_sectors g c @ chain_sectors g cs"
  "chain_sectors g (cs @ ds) = chain_sectors g cs @ chain_sectors g ds"
  by (simp_all add: chain_sectors_def)

definition cluster_bytes :: "fat_sys \<Rightarrow> nat" where
  "cluster_bytes s = 512 * unat (sectors_per_cluster (fs_cache s))"

lemma cluster_sectors_length [simp]: "length (cluster_sectors g c) = unat (sectors_per_cluster g)"
  by (simp add: cluster_sectors_def)

lemma chain_sectors_length: "length (chain_sectors g cs) = length cs * unat (sectors_per_cluster g)"
  by (induction cs) simp_all

lemma load_clusters_ok:
  assumes "fat_ok s" "fat_chain s c cs" "off + left \<le> length buf"
  shows "load_clusters c buf off left s =
    Some (Some (copy_chunk buf off (take left (file_bytes (sectors (dev s)) (chain_sectors (fs_cache s) cs)))), s)"
  using assms(2,3)
proof (induction cs arbitrary: c buf off left)
  case Nil
  then have "\<not> c < 0xFFF8" by simp
  then show ?case by (subst load_clusters.simps) simp
next
  case (Cons x cs)
  then have v: "valid_cluster s x" "c = x" "fat_chain s (fat_entry s x) cs" by simp_all
  have r: "2 \<le> x \<and> x < 0xFFF8" using valid_cluster_range [OF assms(1) v(1)] by (auto simp: word_less_nat_alt)
  let ?f = "file_bytes (sectors (dev s))" and ?x = "cluster_sectors (fs_cache s) x"
  have d: "disk_ok s" using assms(1) by (simp add: fat_ok_def)
  have fl: "length (?f ls) = 512 * length ls" for ls using d by simp
  let ?t = "take left (?f ?x)" and ?m = "min left (512 * length ?x)"
  have t: "length ?t = ?m" using fl by simp
  have ls: "load_sectors ?x buf off left s = (Some (copy_chunk buf off ?t, off + ?m, left - 512 * length ?x), s)"
    using cluster_sectors_bound(1) [OF assms(1) v(1)] Cons.prems(2) by (intro load_sectors_ok [OF d]) simp_all
  have "load_clusters (fat_entry s x) (copy_chunk buf off ?t) (off + ?m) (left - 512 * length ?x) s =
      Some (Some (copy_chunk (copy_chunk buf off ?t) (off + ?m) (take (left - 512 * length ?x) (?f (chain_sectors (fs_cache s) cs)))), s)"
    using Cons.prems(2) copy_chunk_length [of off ?t buf, unfolded t] by (intro Cons.IH [OF v(3)]) simp
  also have "copy_chunk (copy_chunk buf off ?t) (off + ?m) (take (left - 512 * length ?x) (?f (chain_sectors (fs_cache s) cs))) =
      copy_chunk buf off (take left (?f (chain_sectors (fs_cache s) (x # cs))))"
    using copy_chunk_append [of off ?t buf, unfolded t] Cons.prems(2) fl by simp
  finally show ?case using r v(2) ls read_fat_entry_ok [OF assms(1) v(1)] by (subst load_clusters.simps) simp
qed

section \<open>Writing sectors\<close>

lemma sector_after_write:
  assumes "length b = 512" "length old = 512" "off < 512" "b = old \<or> off = 0 \<and> 512 \<le> length rest"
  shows "write_at b off (take (min (512 - off) (length rest)) rest) =
    take off old @ take (512 - off) rest @ drop (off + min (512 - off) (length rest)) old"
proof -
  have "off + length (take (min (512 - off) (length rest)) rest) \<le> length b" using assms(1,3) by simp
  then have "write_at b off (take (min (512 - off) (length rest)) rest) =
      take off b @ take (min (512 - off) (length rest)) rest @ drop (off + min (512 - off) (length rest)) b"
    by (subst write_at_eq) simp_all
  then show ?thesis using assms by (auto simp: min_def)
qed

lemma take_min_eq: "length xs \<le> n \<Longrightarrow> take (min m n) xs = take m xs"
  by (simp add: min_def)

lemma write_data_ok:
  assumes "disk_ok s" "\<And>l. l \<in> set ls \<Longrightarrow> l < 0x10000000" "distinct ls" "off < 512"
  shows "\<exists>f. write_data ls rest off s = (Some (drop (512 * length ls - off) rest), set_sectors f s) \<and>
    (\<forall>l. length (f l) = 512) \<and> (\<forall>l. l \<notin> set ls \<longrightarrow> f l = sectors (dev s) l) \<and>
    take (min (off + length rest) (512 * length ls)) (file_bytes f ls) =
      take off (file_bytes (sectors (dev s)) ls) @ take (512 * length ls - off) rest"
  using assms
proof (induction ls arbitrary: s rest off)
  case Nil
  then show ?case by (intro exI [of _ "sectors (dev s)"]) simp
next
  case (Cons l ls)
  let ?old = "sectors (dev s) l" and ?r = "drop (512 - off) rest"
  have old: "length ?old = 512" using Cons.prems(1) by simp
  show ?case
  proof (cases "rest = []")
    case True
    then show ?thesis using Cons.prems(1,4) old by (intro exI [of _ "sectors (dev s)"]) simp
  next
    case False
    let ?new = "take off ?old @ take (512 - off) rest @ drop (off + min (512 - off) (length rest)) ?old"
    let ?s = "set_sector l ?new s"
    have new: "length ?new = 512" using old Cons.prems(4) by simp
    obtain b where b: "(if off > 0 \<or> length rest < 512 then ata_read_sector l s else (Some (replicate 512 0), s)) = (Some b, s)"
      "length b = 512" "b = ?old \<or> off = 0 \<and> 512 \<le> length rest"
      using Cons.prems(1,2) old by (cases "off > 0 \<or> length rest < 512") auto
    have wa: "write_at b off (take (min (512 - off) (length rest)) rest) = ?new"
      by (rule sector_after_write [OF b(2) old Cons.prems(4) b(3)])
    have "write_data (l # ls) rest off s = write_data ls (drop (min (512 - off) (length rest)) rest) 0 ?s"
      using False b(1) new Cons.prems(1,2) unfolding write_data.simps b(1) by (simp add: wa Let_def)
    also have "drop (min (512 - off) (length rest)) rest = ?r" by (simp add: min_def)
    finally have w: "write_data (l # ls) rest off s = write_data ls ?r 0 ?s" .
    have "\<exists>f. write_data ls ?r 0 ?s = (Some (drop (512 * length ls - 0) ?r), set_sectors f ?s) \<and>
        (\<forall>k. length (f k) = 512) \<and> (\<forall>k. k \<notin> set ls \<longrightarrow> f k = sectors (dev ?s) k) \<and>
        take (min (0 + length ?r) (512 * length ls)) (file_bytes f ls) =
          take 0 (file_bytes (sectors (dev ?s)) ls) @ take (512 * length ls - 0) ?r"
      using Cons.prems new by (intro Cons.IH) simp_all
    then obtain f where f: "write_data ls ?r 0 ?s = (Some (drop (512 * length ls) ?r), set_sectors f ?s)"
      "\<forall>k. length (f k) = 512" "\<forall>k. k \<notin> set ls \<longrightarrow> f k = sectors (dev ?s) k"
      "take (min (length ?r) (512 * length ls)) (file_bytes f ls) = take (512 * length ls) ?r" by auto
    have fl: "f l = ?new" using f(3) Cons.prems(3) by simp
    have n: "off + length rest - 512 = length ?r" using Cons.prems(4) by simp
    have "take (min (off + length rest) (512 * length (l # ls))) (file_bytes f (l # ls)) =
        take (off + length rest) ?new @ take (min (off + length rest - 512) (512 * length ls)) (file_bytes f ls)"
    proof -
      let ?m = "min (off + length rest) (512 * length (l # ls))"
      have "take ?m (?new @ file_bytes f ls) = take ?m ?new @ take (?m - 512) (file_bytes f ls)" by (simp only: take_append new)
      moreover have "take ?m ?new = take (off + length rest) ?new"
        using new by (intro take_min_eq) simp
      moreover have "?m - 512 = min (off + length rest - 512) (512 * length ls)" by simp
      ultimately show ?thesis unfolding file_bytes_simps(2) fl by (simp only:)
    qed
    also have "take (off + length rest) ?new = take off ?old @ take (512 - off) rest"
      using old Cons.prems(4) by (cases "length rest \<le> 512 - off") simp_all
    also have "take (min (off + length rest - 512) (512 * length ls)) (file_bytes f ls) = take (512 * length ls) ?r"
      unfolding n by (rule f(4))
    also have "(take off ?old @ take (512 - off) rest) @ take (512 * length ls) ?r =
        take off (file_bytes (sectors (dev s)) (l # ls)) @ take (512 * length (l # ls) - off) rest"
    proof -
      have "512 * length (l # ls) - off = (512 - off) + 512 * length ls" using Cons.prems(4) by simp
      then have "take (512 * length (l # ls) - off) rest = take (512 - off) rest @ take (512 * length ls) ?r" by (simp only: take_add)
      then show ?thesis using old Cons.prems(4) by simp
    qed
    finally have c: "take (min (off + length rest) (512 * length (l # ls))) (file_bytes f (l # ls)) =
        take off (file_bytes (sectors (dev s)) (l # ls)) @ take (512 * length (l # ls) - off) rest" .
    have d: "drop (512 * length ls) ?r = drop (512 * length (l # ls) - off) rest" using Cons.prems(4) by (simp add: ac_simps)
    have fr: "\<forall>k. k \<notin> set (l # ls) \<longrightarrow> f k = sectors (dev s) k" using f(3) by simp
    have "write_data (l # ls) rest off s = (Some (drop (512 * length (l # ls) - off) rest), set_sectors f s)"
      unfolding w f(1) d by (simp add: set_sector_sectors)
    then show ?thesis using c f(2) fr by blast
  qed
qed

lemma cluster_sectors_distinct:
  assumes "fat_ok s" "valid_cluster s c"
  shows "distinct (cluster_sectors (fs_cache s) c)"
proof -
  have g: "geometry_ok (fs_cache s)" "2 \<le> unat c" "unat c < unat (total_clusters (fs_cache s)) + 2"
    using assms by (simp_all add: fat_ok_def valid_cluster_def)
  have "inj_on (\<lambda>k. cluster_lba (fs_cache s) c + of_nat k) (set [0..<unat (sectors_per_cluster (fs_cache s))])"
  proof (rule inj_onI)
    fix i j assume ij: "i \<in> set [0..<unat (sectors_per_cluster (fs_cache s))]" "j \<in> set [0..<unat (sectors_per_cluster (fs_cache s))]"
      "cluster_lba (fs_cache s) c + of_nat i = cluster_lba (fs_cache s) c + of_nat j"
    have u: "unat (cluster_lba (fs_cache s) c + of_nat k) = unat (data_start_sector (fs_cache s)) +
        (unat c - 2) * unat (sectors_per_cluster (fs_cache s)) + k" if "k \<in> set [0..<unat (sectors_per_cluster (fs_cache s))]" for k
      using that by (intro cluster_sector_unat(1) [OF g]) simp
    show "i = j" using u [OF ij(1)] u [OF ij(2)] unfolding ij(3) by linarith
  qed
  then show ?thesis by (simp only: cluster_sectors_def distinct_map distinct_upt simp_thms)
qed

lemma cluster_sectors_disjoint:
  assumes "fat_ok s" "valid_cluster s c" "valid_cluster s d" "l \<in> set (cluster_sectors (fs_cache s) c)" "l \<in> set (cluster_sectors (fs_cache s) d)"
  shows "c = d"
proof -
  let ?n = "unat (sectors_per_cluster (fs_cache s))"
  have g: "geometry_ok (fs_cache s)" using assms(1) by (simp add: fat_ok_def)
  have q: "(unat x - 2) * ?n \<le> unat l - unat (data_start_sector (fs_cache s)) \<and>
      unat l - unat (data_start_sector (fs_cache s)) < (unat x - 2) * ?n + ?n"
    if x: "valid_cluster s x" "l \<in> set (cluster_sectors (fs_cache s) x)" for x
  proof -
    obtain k where k: "k < ?n" "l = cluster_lba (fs_cache s) x + of_nat k" using x(2) by (auto simp: cluster_sectors_def)
    have "unat l = unat (data_start_sector (fs_cache s)) + (unat x - 2) * ?n + k"
      unfolding k(2) using x(1) k(1) by (intro cluster_sector_unat [OF g]) (simp_all add: valid_cluster_def)
    then show ?thesis using k(1) by simp
  qed
  have "(unat l - unat (data_start_sector (fs_cache s))) div ?n = unat x - 2"
    if "valid_cluster s x" "l \<in> set (cluster_sectors (fs_cache s) x)" for x
    using q [OF that] by (intro div_nat_eqI) (simp_all add: mult.commute add.commute)
  from this [OF assms(2,4)] this [OF assms(3,5)] have "unat c - 2 = unat d - 2" by simp
  then have "unat c = unat d" using assms(2,3) unfolding valid_cluster_def by linarith
  then show ?thesis by (simp add: word_unat_eq_iff)
qed

section \<open>What an operation on files leaves alone\<close>

text \<open>
  \<open>s'\<close> differs from \<open>s\<close> at most in the table entries and the contents of the clusters \<open>X\<close>.
\<close>

definition fat_frame :: "fat_sys \<Rightarrow> u16 set \<Rightarrow> fat_sys \<Rightarrow> bool" where
  "fat_frame s X s' \<longleftrightarrow> (\<exists>f. s' = set_sectors f s \<and> (\<forall>l. length (f l) = 512)) \<and>
     (\<forall>x. valid_cluster s x \<and> x \<notin> X \<longrightarrow> fat_entry s' x = fat_entry s x) \<and>
     (\<forall>l. l \<notin> fat_area s \<and> (\<forall>x \<in> X. valid_cluster s x \<longrightarrow> l \<notin> set (cluster_sectors (fs_cache s) x)) \<longrightarrow>
        sectors (dev s') l = sectors (dev s) l)"

lemma fat_frameD:
  assumes "fat_frame s X s'"
  shows "fs_cache s' = fs_cache s" "con s' = con s" "fheap s' = fheap s" "valid_cluster s' = valid_cluster s" "fat_area s' = fat_area s"
    and "fat_ok s \<Longrightarrow> fat_ok s'" "cluster_bytes s' = cluster_bytes s"
    and "valid_cluster s x \<Longrightarrow> x \<notin> X \<Longrightarrow> fat_entry s' x = fat_entry s x"
    and "l \<notin> fat_area s \<Longrightarrow> (\<And>x. x \<in> X \<Longrightarrow> valid_cluster s x \<Longrightarrow> l \<notin> set (cluster_sectors (fs_cache s) x)) \<Longrightarrow>
        sectors (dev s') l = sectors (dev s) l"
proof -
  obtain f where f: "s' = set_sectors f s" "\<And>l. length (f l) = 512" using assms by (auto simp: fat_frame_def)
  show "fs_cache s' = fs_cache s" "con s' = con s" "fheap s' = fheap s" "cluster_bytes s' = cluster_bytes s"
    "valid_cluster s' = valid_cluster s" "fat_area s' = fat_area s"
    unfolding f(1) by (simp_all add: valid_cluster_def fat_area_def cluster_bytes_def fun_eq_iff)
  show "fat_ok s \<Longrightarrow> fat_ok s'" unfolding f(1) using f(2) by (simp add: fat_ok_def disk_ok_set_sectors)
qed (use assms in \<open>simp_all add: fat_frame_def\<close>)

lemma fat_frame_refl: "fat_ok s \<Longrightarrow> fat_frame s X s"
  unfolding fat_frame_def by (auto intro!: exI [of _ "sectors (dev s)"] simp: fat_ok_def)

lemma fat_frame_trans:
  assumes "fat_frame s X t" "fat_frame t Y u" "X \<union> Y \<subseteq> Z"
  shows "fat_frame s Z u"
proof -
  note D = fat_frameD [OF assms(1)]
  have "\<exists>f. u = set_sectors f s \<and> (\<forall>l. length (f l) = 512)" using assms(1,2) unfolding fat_frame_def by fastforce
  moreover have "fat_entry u x = fat_entry s x" if "valid_cluster s x" "x \<notin> Z" for x
  proof -
    have "x \<notin> X" "x \<notin> Y" using that(2) assms(3) by blast+
    then show ?thesis using fat_frameD(8) [OF assms(2), of x] D(8) [of x] D(4) that(1) by simp
  qed
  moreover have "sectors (dev u) l = sectors (dev s) l"
    if "l \<notin> fat_area s" "\<forall>x \<in> Z. valid_cluster s x \<longrightarrow> l \<notin> set (cluster_sectors (fs_cache s) x)" for l
  proof -
    have "sectors (dev t) l = sectors (dev s) l" using D(9) [of l] that assms(3) by blast
    moreover have "sectors (dev u) l = sectors (dev t) l"
      using that assms(3) unfolding D(1,4,5) [symmetric] by (intro fat_frameD(9) [OF assms(2)]) blast+
    ultimately show ?thesis by simp
  qed
  ultimately show ?thesis by (simp add: fat_frame_def)
qed

lemma fat_frame_mono: "fat_frame s X t \<Longrightarrow> X \<subseteq> Y \<Longrightarrow> fat_frame s Y t"
  unfolding fat_frame_def by blast

lemma set_fat_frame:
  assumes "fat_ok s" "valid_cluster s c"
  shows "fat_frame s {c} (set_fat c v s)"
proof -
  have "set_fat c v s = set_sectors (sectors (dev (set_fat c v s))) s" by (simp add: set_fat_eq set_sectors_def)
  moreover have "length (sectors (dev (set_fat c v s)) l) = 512" for l
    using set_fat_ok [OF assms(1), of c v] by (simp add: fat_ok_def)
  ultimately show ?thesis unfolding fat_frame_def
    using fat_entry_set_fat [OF assms] set_fat_outside [OF assms] by auto
qed

lemma fold_set_fat_frame:
  assumes "fat_ok s" "\<And>x. x \<in> set xs \<Longrightarrow> valid_cluster s x"
  shows "fat_frame s (set xs) (fold (\<lambda>x. set_fat x v) xs s)"
  using assms
proof (induction xs arbitrary: s)
  case Nil
  then show ?case by (simp add: fat_frame_refl)
next
  case (Cons x xs)
  have "fat_frame s {x} (set_fat x v s)" using Cons.prems by (intro set_fat_frame) simp_all
  moreover have "fat_frame (set_fat x v s) (set xs) (fold (\<lambda>x. set_fat x v) xs (set_fat x v s))"
    using Cons.prems by (intro Cons.IH) simp_all
  ultimately have "fat_frame s (set (x # xs)) (fold (\<lambda>x. set_fat x v) xs (set_fat x v s))" by (rule fat_frame_trans) simp
  then show ?case by simp
qed

lemma cluster_not_fat:
  assumes "fat_ok s" "valid_cluster s c" "l \<in> set (cluster_sectors (fs_cache s) c)"
  shows "l \<notin> fat_area s"
  using cluster_sectors_bound(2) [OF assms] assms(1) by (auto simp: fat_area_def fat_ok_def geometry_ok_def)

text \<open>Chains and contents that share no cluster with \<open>X\<close> stay as they are.\<close>

lemma frame_chain:
  assumes "fat_frame s X s'" "fat_chain s c cs" "set cs \<inter> X = {}"
  shows "fat_chain s' c cs"
proof (rule fat_chain_cong [OF assms(2)])
  show "fat_entry s' x = fat_entry s x" if "x \<in> set cs" for x
    using fat_frameD(8) [OF assms(1) fat_chain_valid [OF assms(2) that]] that assms(3) by blast
qed (rule fat_frameD(4) [OF assms(1)])

lemma frame_bytes:
  assumes "fat_ok s" "fat_frame s X s'" "\<And>c. c \<in> set cs \<Longrightarrow> valid_cluster s c" "set cs \<inter> X = {}"
  shows "file_bytes (sectors (dev s')) (chain_sectors (fs_cache s) cs) = file_bytes (sectors (dev s)) (chain_sectors (fs_cache s) cs)"
proof (rule file_bytes_cong)
  fix l assume "l \<in> set (chain_sectors (fs_cache s) cs)"
  then obtain c where c: "c \<in> set cs" "l \<in> set (cluster_sectors (fs_cache s) c)" by (auto simp: chain_sectors_def)
  then have "l \<notin> set (cluster_sectors (fs_cache s) x)" if "x \<in> X" "valid_cluster s x" for x
    using cluster_sectors_disjoint [OF assms(1) assms(3) [OF c(1)] that(2) c(2)] that(1) assms(4) by blast
  then show "sectors (dev s') l = sectors (dev s) l"
    using fat_frameD(9) [OF assms(2)] cluster_not_fat [OF assms(1) assms(3) [OF c(1)] c(2)] by blast
qed

section \<open>Writing one cluster\<close>

lemma min_minus: "min a b - k = min (a - k) (b - k :: nat)"
  by (auto simp: min_def)

lemma write_cluster_ok:
  assumes "fat_ok s" "valid_cluster s c" "off < cluster_bytes s"
  shows "\<exists>s'. write_data (drop (off div 512) (cluster_sectors (fs_cache s) c)) rest (off mod 512) s =
      (Some (drop (cluster_bytes s - off) rest), s') \<and> fat_frame s {c} s' \<and>
    (\<forall>x. valid_cluster s x \<longrightarrow> fat_entry s' x = fat_entry s x) \<and>
    take (min (off + length rest) (cluster_bytes s)) (file_bytes (sectors (dev s')) (cluster_sectors (fs_cache s) c)) =
      take off (file_bytes (sectors (dev s)) (cluster_sectors (fs_cache s) c)) @ take (cluster_bytes s - off) rest"
proof -
  let ?g = "fs_cache s" and ?k = "off div 512" and ?cs = "cluster_sectors (fs_cache s) c"
  let ?ls = "drop ?k ?cs" and ?o = "off mod 512"
  have d: "disk_ok s" using assms(1) by (simp add: fat_ok_def)
  have dl: "\<And>l. length (sectors (dev s) l) = 512" using d by simp
  have ck: "512 * length ?cs = cluster_bytes s" by (simp add: cluster_bytes_def)
  have off: "off = 512 * ?k + ?o" by simp
  have kl: "512 * ?k \<le> cluster_bytes s" using off assms(3) by linarith
  have ll: "512 * length ?ls = cluster_bytes s - 512 * ?k" by (simp add: cluster_bytes_def diff_mult_distrib2)
  have "\<exists>f. write_data ?ls rest ?o s = (Some (drop (512 * length ?ls - ?o) rest), set_sectors f s) \<and>
    (\<forall>l. length (f l) = 512) \<and> (\<forall>l. l \<notin> set ?ls \<longrightarrow> f l = sectors (dev s) l) \<and>
    take (min (?o + length rest) (512 * length ?ls)) (file_bytes f ?ls) =
      take ?o (file_bytes (sectors (dev s)) ?ls) @ take (512 * length ?ls - ?o) rest"
    using cluster_sectors_bound(1) [OF assms(1,2)] cluster_sectors_distinct [OF assms(1,2)]
    by (intro write_data_ok [OF d]) (auto dest: in_set_dropD)
  then obtain f where f: "write_data ?ls rest ?o s = (Some (drop (512 * length ?ls - ?o) rest), set_sectors f s)"
    "\<And>l. length (f l) = 512" "\<And>l. l \<notin> set ?ls \<Longrightarrow> f l = sectors (dev s) l"
    "take (min (?o + length rest) (512 * length ?ls)) (file_bytes f ?ls) =
      take ?o (file_bytes (sectors (dev s)) ?ls) @ take (512 * length ?ls - ?o) rest" by blast
  have n: "512 * length ?ls - ?o = cluster_bytes s - off" unfolding ll using off by linarith
  have "distinct (take ?k ?cs @ ?ls)" using cluster_sectors_distinct [OF assms(1,2)] by simp
  then have "set (take ?k ?cs) \<inter> set ?ls = {}" by (simp only: distinct_append)
  then have "f l = sectors (dev s) l" if "l \<in> set (take ?k ?cs)" for l using that f(3) by blast
  then have pre: "file_bytes f (take ?k ?cs) = file_bytes (sectors (dev s)) (take ?k ?cs)" by (rule file_bytes_cong)
  have tl: "length (file_bytes f (take ?k ?cs)) = 512 * ?k" using f(2) kl ck by simp
  have split: "file_bytes h ?cs = file_bytes h (take ?k ?cs) @ file_bytes h ?ls" for h
    using file_bytes_simps(3) [of h "take ?k ?cs" ?ls] by simp
  have m: "min (off + length rest) (cluster_bytes s) - 512 * ?k = min (?o + length rest) (512 * length ?ls)"
  proof -
    have "off + length rest - 512 * ?k = ?o + length rest" using off by linarith
    then show ?thesis unfolding ll by (simp only: min_minus)
  qed
  have "take (min (off + length rest) (cluster_bytes s)) (file_bytes f ?cs) =
      file_bytes f (take ?k ?cs) @ take (min (?o + length rest) (512 * length ?ls)) (file_bytes f ?ls)"
    unfolding split take_append tl m using tl kl off by simp
  also have "\<dots> = (file_bytes (sectors (dev s)) (take ?k ?cs) @ take ?o (file_bytes (sectors (dev s)) ?ls)) @ take (cluster_bytes s - off) rest"
    unfolding f(4) pre n by simp
  also have "file_bytes (sectors (dev s)) (take ?k ?cs) @ take ?o (file_bytes (sectors (dev s)) ?ls) = take off (file_bytes (sectors (dev s)) ?cs)"
    unfolding split take_append using tl off dl unfolding pre by (simp add: minus_mult_div_eq_mod)
  finally have c: "take (min (off + length rest) (cluster_bytes s)) (file_bytes f ?cs) =
      take off (file_bytes (sectors (dev s)) ?cs) @ take (cluster_bytes s - off) rest" .
  have out: "f l = sectors (dev s) l" if "l \<notin> set ?cs" for l using that f(3) in_set_dropD by fast
  have "\<forall>l \<in> fat_area s. f l = sectors (dev s) l" using out cluster_not_fat [OF assms(1,2)] by blast
  note fr = set_sectors_frame [OF assms(1) _ this]
  have e: "\<forall>x. valid_cluster s x \<longrightarrow> fat_entry (set_sectors f s) x = fat_entry s x" using fr(4) f(2) by blast
  then have "fat_frame s {c} (set_sectors f s)" unfolding fat_frame_def using f(2) out assms(2) by auto
  then show ?thesis using f(1) c e unfolding n by (intro exI [of _ "set_sectors f s"]) simp
qed

section \<open>The contents of a file\<close>

text \<open>
  The file that starts at \<open>first\<close> has the clusters \<open>cs\<close>, just enough for its contents.
\<close>

definition file_at :: "fat_sys \<Rightarrow> u16 \<Rightarrow> u16 list \<Rightarrow> u8 list \<Rightarrow> bool" where
  "file_at s first cs content \<longleftrightarrow> (if cs = [] then first = 0 else fat_chain s first cs) \<and>
     length content \<le> length cs * cluster_bytes s \<and> length cs * cluster_bytes s < length content + cluster_bytes s \<and>
     take (length content) (file_bytes (sectors (dev s)) (chain_sectors (fs_cache s) cs)) = content"

definition free_clusters :: "fat_sys \<Rightarrow> u16 set" where
  "free_clusters s = {c. free_cluster s c}"

lemma cluster_bytes_pos: "fat_ok s \<Longrightarrow> 0 < cluster_bytes s"
  by (simp add: fat_ok_def geometry_ok_def cluster_bytes_def)

lemma chain_entry_nonzero:
  assumes "fat_ok s" "fat_chain s c cs" "x \<in> set cs"
  shows "fat_entry s x \<noteq> 0"
  using assms(2,3)
proof (induction cs arbitrary: c)
  case (Cons y cs)
  show ?case
  proof (cases "x = y")
    case True
    have "fat_chain s (fat_entry s y) cs" using Cons.prems(1) by simp
    then show ?thesis using True by (cases cs) (auto simp: valid_cluster_def)
  next
    case False
    then show ?thesis using Cons by auto
  qed
qed simp

lemma file_at_valid: "file_at s first cs content \<Longrightarrow> c \<in> set cs \<Longrightarrow> valid_cluster s c"
  using fat_chain_valid [of s first cs c] by (cases cs) (auto simp: file_at_def)

lemma file_at_not_free: "fat_ok s \<Longrightarrow> file_at s first cs content \<Longrightarrow> c \<in> set cs \<Longrightarrow> c \<notin> free_clusters s"
  using chain_entry_nonzero [of s first cs c] by (cases cs) (auto simp: file_at_def free_clusters_def free_cluster_def)

lemma chain_extend:
  assumes "fat_chain s c cs" "cs \<noteq> []" "distinct cs" "valid_cluster s d" "fat_entry s' d \<ge> 0xFFF8" "fat_entry s' (last cs) = d"
    and "\<And>x. x \<in> set cs \<Longrightarrow> x \<noteq> last cs \<Longrightarrow> fat_entry s' x = fat_entry s x" "valid_cluster s' = valid_cluster s"
  shows "fat_chain s' c (cs @ [d])"
  using assms(1-3,6-7)
proof (induction cs arbitrary: c)
  case (Cons x cs)
  show ?case
  proof (cases "cs = []")
    case True
    then show ?thesis using Cons.prems assms(4,5,8) by simp
  next
    case False
    then have "x \<noteq> last cs" using Cons.prems(3) by auto
    then have "fat_entry s' x = fat_entry s x" using Cons.prems(5) False by simp
    moreover have "fat_chain s' (fat_entry s x) (cs @ [d])" using Cons.prems False by (intro Cons.IH) auto
    ultimately show ?thesis using Cons.prems(1) assms(8) by simp
  qed
qed simp

lemma free_after_take:
  assumes "fat_ok s" "free_cluster s c" "fat_entry s' c \<noteq> 0" "valid_cluster s' = valid_cluster s"
    and "\<And>x. valid_cluster s x \<Longrightarrow> x \<noteq> c \<Longrightarrow> fat_entry s' x = 0 \<longleftrightarrow> fat_entry s x = 0"
  shows "free_clusters s' = free_clusters s - {c}"
  using assms by (auto simp: free_clusters_def free_cluster_def)

text \<open>A new cluster at the end of a chain whose clusters are all full.\<close>

lemma next_cluster_new:
  assumes "fat_ok s" "if cs = [] then first = 0 else fat_chain s first cs"
    and "cur = (if cs = [] then 0 else last cs)" "free_clusters s \<noteq> {}"
  shows "\<exists>c s'. c \<in> free_clusters s \<and>
    next_cluster 0 first cur cur s = Some (Some (if cs = [] then c else first, c, c), s') \<and>
    fat_frame s (insert c (set cs)) s' \<and> fat_chain s' (if cs = [] then c else first) (cs @ [c]) \<and>
    free_clusters s' = free_clusters s - {c} \<and> (\<forall>l. l \<notin> fat_area s \<longrightarrow> sectors (dev s') l = sectors (dev s) l)"
proof -
  obtain c where c: "free_cluster s c" "fat16_alloc_cluster s = Some (c, set_fat c 0xFFFF s)"
    using alloc_cluster_ok [OF assms(1)] assms(4) by (auto simp: free_clusters_def)
  let ?s = "set_fat c 0xFFFF s"
  have v: "valid_cluster s c" and e0: "fat_entry s c = 0" using c(1) by (simp_all add: free_cluster_def)
  then have c0: "c \<noteq> 0" by (auto simp: valid_cluster_def)
  have ok: "fat_ok ?s" using assms(1) by simp
  note e = fat_entry_set_fat [OF assms(1) v]
  note fr = set_fat_frame [OF assms(1) v, of "0xFFFF"]
  show ?thesis
  proof (cases "cs = []")
    case True
    have "free_clusters ?s = free_clusters s - {c}" using e by (intro free_after_take [OF assms(1) c(1)]) (simp_all add: v)
    moreover have "next_cluster 0 first cur cur s = Some (Some (c, c, c), ?s)"
      using c c0 assms(2,3) True by (simp add: next_cluster_def)
    moreover have "fat_chain ?s c [c]" using v e [OF v, of "0xFFFF"] by simp
    ultimately show ?thesis using True c(1) fr set_fat_outside [OF assms(1) v]
      by (intro exI [of _ c] exI [of _ ?s]) (simp add: free_clusters_def)
  next
    case False
    then have ch: "fat_chain s first cs" and cur: "cur = last cs" using assms(2,3) by simp_all
    have l: "last cs \<in> set cs" "valid_cluster s (last cs)" using False fat_chain_valid [OF ch] by simp_all
    have ne: "c \<notin> set cs" using chain_entry_nonzero [OF assms(1) ch] e0 by auto
    let ?t = "set_fat (last cs) c ?s"
    have l': "valid_cluster ?s (last cs)" using l(2) by simp
    note e' = fat_entry_set_fat [OF ok l']
    have first0: "first \<noteq> 0" using ch False by (cases cs) (auto simp: valid_cluster_def)
    have "2 \<le> last cs" using valid_cluster_range [OF assms(1) l(2)] by blast
    then have "next_cluster 0 first cur cur s = Some (Some (first, c, c), ?t)"
      using c c0 first0 cur write_fat_entry_ok [OF ok l'] by (simp add: next_cluster_def)
    moreover have "fat_frame s (insert c (set cs)) ?t"
      using l(1) by (intro fat_frame_trans [OF fr set_fat_frame [OF ok l']]) auto
    moreover have ent: "fat_entry ?t x = (if x = last cs then c else if x = c then 0xFFFF else fat_entry s x)" if "valid_cluster s x" for x
      using e [OF that] e' [of x] that by simp
    moreover have "fat_chain ?t first (cs @ [c])"
      using fat_chain_distinct [OF assms(1) ch] ent ne l fat_chain_valid [OF ch]
      by (intro chain_extend [OF ch False _ v]) (auto simp: v)
    moreover have "free_clusters ?t = free_clusters s - {c}"
      using ent v l chain_entry_nonzero [OF assms(1) ch l(1)] c0 by (intro free_after_take [OF assms(1) c(1)]) (auto split: if_splits)
    moreover have "\<forall>l. l \<notin> fat_area s \<longrightarrow> sectors (dev ?t) l = sectors (dev s) l"
      using set_fat_outside [OF assms(1) v] set_fat_outside [OF ok l'] by simp
    ultimately show ?thesis using False c(1) by (intro exI [of _ c] exI [of _ ?t]) (simp add: free_clusters_def)
  qed
qed

lemma next_cluster_full:
  assumes "fat_ok s" "free_clusters s = {}"
  shows "next_cluster 0 first cur prev s = Some (None, s)"
  using alloc_cluster_ok [OF assms(1)] assms(2) by (auto simp: next_cluster_def free_clusters_def)

section \<open>The write loop\<close>

lemma write_step:
  assumes ok: "fat_ok s" and ch: "fat_chain s first (ds @ [c])" and rest: "rest \<noteq> []"
    and len: "length content = length ds * cluster_bytes s + off" "off < cluster_bytes s"
    and content: "take (length content) (file_bytes (sectors (dev s)) (chain_sectors (fs_cache s) (ds @ [c]))) = content"
  shows "\<exists>s'. write_data (drop (off div 512) (cluster_sectors (fs_cache s) c)) rest (off mod 512) s =
      (Some (drop (cluster_bytes s - off) rest), s') \<and> fat_frame s {c} s' \<and>
    (\<forall>x. valid_cluster s x \<longrightarrow> fat_entry s' x = fat_entry s x) \<and>
    file_at s' first (ds @ [c]) (content @ take (cluster_bytes s - off) rest)"
proof -
  let ?B = "cluster_bytes s" and ?g = "fs_cache s" and ?F = "file_bytes (sectors (dev s))"
  have vc: "valid_cluster s c" and vd: "\<And>x. x \<in> set ds \<Longrightarrow> valid_cluster s x" using fat_chain_valid [OF ch] by simp_all
  have "c \<notin> set ds" using fat_chain_distinct [OF ok ch] by simp
  obtain s' where s': "write_data (drop (off div 512) (cluster_sectors ?g c)) rest (off mod 512) s = (Some (drop (?B - off) rest), s')"
    "fat_frame s {c} s'" "\<forall>x. valid_cluster s x \<longrightarrow> fat_entry s' x = fat_entry s x"
    "take (min (off + length rest) ?B) (file_bytes (sectors (dev s')) (cluster_sectors ?g c)) =
      take off (?F (cluster_sectors ?g c)) @ take (?B - off) rest"
    using write_cluster_ok [OF ok vc len(2), of rest] by blast
  note D = fat_frameD [OF s'(2)]
  have dl: "length (sectors (dev s) l) = 512" "length (sectors (dev s') l) = 512" for l
    using ok D(6) by (simp_all add: fat_ok_def)
  have dsl: "length (?F (chain_sectors ?g ds)) = length ds * ?B"
    using dl by (simp add: chain_sectors_length cluster_bytes_def)
  have eq: "file_bytes (sectors (dev s')) (chain_sectors ?g ds) = ?F (chain_sectors ?g ds)"
    using \<open>c \<notin> set ds\<close> by (intro frame_bytes [OF ok s'(2) vd]) simp_all
  have old: "content = ?F (chain_sectors ?g ds) @ take off (?F (cluster_sectors ?g c))"
    using content len(1) dsl by simp
  let ?new = "content @ take (?B - off) rest"
  have nl: "length ?new = length ds * ?B + min (off + length rest) ?B" using len by (simp add: min_def) linarith
  have tk: "take (length ?new) (file_bytes (sectors (dev s')) (chain_sectors ?g (ds @ [c]))) = ?new"
    unfolding nl using dsl eq s'(4) old by simp
  have "fat_chain s' first (ds @ [c])"
    using s'(3) fat_chain_valid [OF ch] D(4) by (intro fat_chain_cong [OF ch]) auto
  moreover have "length (ds @ [c]) * ?B = length ds * ?B + ?B" by simp
  moreover have "0 < min (off + length rest) ?B" using rest len(2) by (cases rest) auto
  ultimately have "file_at s' first (ds @ [c]) ?new"
    using tk nl D(1,7) unfolding file_at_def by (simp only: append_is_Nil_conv list.distinct) auto
  then show ?thesis using s' by blast
qed

lemma file_at_frame:
  assumes "fat_ok s" "fat_frame s X s'" "file_at s first cs content" "set cs \<inter> X = {}"
  shows "file_at s' first cs content"
proof -
  note D = fat_frameD [OF assms(2)]
  have "if cs = [] then first = 0 else fat_chain s' first cs"
    using assms(3) frame_chain [OF assms(2) _ assms(4)] by (auto simp: file_at_def)
  then show ?thesis using assms(3) frame_bytes [OF assms(1,2) file_at_valid [OF assms(3)] assms(4)] D(1,7) by (simp add: file_at_def)
qed

text \<open>
  One round of the loop: the cluster \<open>c\<close> it works on, the last of the file's clusters with those it has
  \<open>new\<close>, and what the round leaves.
\<close>

definition round_ok :: "u16 \<Rightarrow> u16 list \<Rightarrow> u8 list \<Rightarrow> u8 list \<Rightarrow> u16 \<Rightarrow> fat_sys \<Rightarrow> bool" where
  "round_ok first cs content rest cur s \<longleftrightarrow> (let off = length content mod cluster_bytes s in
     \<exists>first' c new s1 s2. next_cluster off first cur cur s = Some (Some (first', c, c), s1) \<and>
       write_data (drop (off div 512) (cluster_sectors (fs_cache s1) c)) rest (off mod 512) s1 = (Some (drop (cluster_bytes s - off) rest), s2) \<and>
       c = last (cs @ new) \<and> cs @ new \<noteq> [] \<and> set new \<subseteq> free_clusters s \<and> fat_frame s (set cs \<union> set new) s2 \<and>
       file_at s2 first' (cs @ new) (content @ take (cluster_bytes s - off) rest) \<and>
       length (cs @ new) + card (free_clusters s2) = length cs + card (free_clusters s) \<and> free_clusters s2 \<subseteq> free_clusters s)"

text \<open>A file that fills its clusters has exactly as many of them.\<close>

lemma full_clusters:
  assumes "fat_ok s" "file_at s first cs content" "length content mod cluster_bytes s = 0"
  shows "length content = length cs * cluster_bytes s"
proof -
  let ?B = "cluster_bytes s"
  have B: "0 < ?B" by (rule cluster_bytes_pos [OF assms(1)])
  obtain k where k: "length content = ?B * k" using assms(3) by auto
  have "?B * k \<le> ?B * length cs" "?B * length cs < ?B * k + ?B" using assms(2) k by (simp_all add: file_at_def mult.commute)
  moreover have "?B * length cs < ?B * Suc k" using calculation(2) by simp
  ultimately have "k \<le> length cs" "length cs < Suc k" using B by (simp_all only: mult_le_cancel1 mult_less_cancel1)
  then show ?thesis using k by (simp add: mult.commute)
qed

lemma write_round_new:
  assumes ok: "fat_ok s" and fa: "file_at s first cs content" and rest: "rest \<noteq> []"
    and cur: "cur = (if cs = [] then 0 else last cs)" and full: "length content mod cluster_bytes s = 0" and room: "free_clusters s \<noteq> {}"
  shows "round_ok first cs content rest cur s"
proof -
  let ?B = "cluster_bytes s"
  have B: "0 < ?B" by (rule cluster_bytes_pos [OF ok])
  have len: "length content = length cs * ?B + 0" using full_clusters [OF ok fa full] by simp
  have chain: "if cs = [] then first = 0 else fat_chain s first cs" using fa by (simp add: file_at_def)
  obtain c s1 where c: "c \<in> free_clusters s" "next_cluster 0 first cur cur s = Some (Some (if cs = [] then c else first, c, c), s1)"
    "fat_frame s (insert c (set cs)) s1" "fat_chain s1 (if cs = [] then c else first) (cs @ [c])"
    "free_clusters s1 = free_clusters s - {c}" "\<forall>l. l \<notin> fat_area s \<longrightarrow> sectors (dev s1) l = sectors (dev s) l"
    using next_cluster_new [OF ok chain cur room] by auto
  note D = fat_frameD [OF c(3)]
  have ok1: "fat_ok s1" by (rule D(6) [OF ok])
  have "file_bytes (sectors (dev s1)) (chain_sectors (fs_cache s) cs) = file_bytes (sectors (dev s)) (chain_sectors (fs_cache s) cs)"
    using c(6) cluster_not_fat [OF ok file_at_valid [OF fa]] by (intro file_bytes_cong) (auto simp: chain_sectors_def)
  moreover have "length (file_bytes (sectors (dev s)) (chain_sectors (fs_cache s) cs)) = length content"
    using ok len by (simp add: fat_ok_def chain_sectors_length cluster_bytes_def)
  moreover have "take (length content) (file_bytes (sectors (dev s)) (chain_sectors (fs_cache s) cs)) = content"
    using fa by (simp add: file_at_def)
  ultimately have tk: "take (length content) (file_bytes (sectors (dev s1)) (chain_sectors (fs_cache s1) (cs @ [c]))) = content"
    using D(1) by simp
  obtain s2 where s2: "write_data (drop (0 div 512) (cluster_sectors (fs_cache s1) c)) rest (0 mod 512) s1 = (Some (drop (?B - 0) rest), s2)"
    "fat_frame s1 {c} s2" "\<forall>x. valid_cluster s1 x \<longrightarrow> fat_entry s2 x = fat_entry s1 x"
    "file_at s2 (if cs = [] then c else first) (cs @ [c]) (content @ take (?B - 0) rest)"
    using write_step [OF ok1 c(4) rest, of content 0] len B tk unfolding D(7) by blast
  have "free_clusters s2 = free_clusters s1"
    using s2(3) fat_frameD(4) [OF s2(2)] by (auto simp: free_clusters_def free_cluster_def)
  moreover have "card (free_clusters s1) = card (free_clusters s) - 1" "0 < card (free_clusters s)"
    using c(1) unfolding c(5) by (auto simp: card_gt_0_iff)
  moreover have "fat_frame s (set cs \<union> set [c]) s2" by (rule fat_frame_trans [OF c(3) s2(2)]) auto
  moreover have "length (cs @ [c]) = Suc (length cs)" by simp
  ultimately have "length (cs @ [c]) + card (free_clusters s2) = length cs + card (free_clusters s)" "free_clusters s2 \<subseteq> free_clusters s"
    "fat_frame s (set cs \<union> set [c]) s2"
    using c(5) by (simp_all only:) auto
  then show ?thesis using c(1,2) s2(1,4) unfolding round_ok_def Let_def full
    by (intro exI [of _ "if cs = [] then c else first"] exI [of _ c] exI [of _ "[c]"] exI [of _ s1] exI [of _ s2] conjI) (assumption | simp)+
qed

lemma write_round_old:
  assumes ok: "fat_ok s" and fa: "file_at s first cs content" and rest: "rest \<noteq> []"
    and cur: "cur = (if cs = [] then 0 else last cs)" and nz: "length content mod cluster_bytes s \<noteq> 0"
  shows "round_ok first cs content rest cur s"
proof -
  define off where "off = length content mod cluster_bytes s"
  have part: "off \<noteq> 0" using nz by (simp add: off_def)
  let ?B = "cluster_bytes s"
  have B: "0 < ?B" by (rule cluster_bytes_pos [OF ok])
  have "cs \<noteq> []" using part fa by (auto simp: off_def file_at_def)
  then obtain ds c where cs: "cs = ds @ [c]" by (metis append_butlast_last_id)
  have ch: "fat_chain s first (ds @ [c])" using fa cs by (simp add: file_at_def)
  have "length content \<le> length ds * ?B + ?B" "length ds * ?B < length content" using fa cs by (simp_all add: file_at_def)
  then have len: "length content = length ds * ?B + off"
  proof -
    assume a: "length content \<le> length ds * ?B + ?B" "length ds * ?B < length content"
    have "length content \<noteq> length ds * ?B + ?B" using part by (auto simp: off_def)
    then have "length content - length ds * ?B < ?B" using a by linarith
    moreover have "off = (length ds * ?B + (length content - length ds * ?B)) mod ?B" using a by (simp add: off_def)
    ultimately have "off = length content - length ds * ?B" by simp
    then show ?thesis using a by simp
  qed
  have off: "off < ?B" using B by (simp add: off_def)
  have tk: "take (length content) (file_bytes (sectors (dev s)) (chain_sectors (fs_cache s) (ds @ [c]))) = content"
    using fa cs by (simp add: file_at_def)
  obtain s2 where s2: "write_data (drop (off div 512) (cluster_sectors (fs_cache s) c)) rest (off mod 512) s = (Some (drop (?B - off) rest), s2)"
    "fat_frame s {c} s2" "\<forall>x. valid_cluster s x \<longrightarrow> fat_entry s2 x = fat_entry s x"
    "file_at s2 first (ds @ [c]) (content @ take (?B - off) rest)"
    using write_step [OF ok ch rest len off tk] by blast
  have "valid_cluster s c" using fat_chain_valid [OF ch] by simp
  then have "\<not> cur < 2" using valid_cluster_range [OF ok] cur cs by (auto simp: linorder_not_less)
  then have "next_cluster off first cur cur s = Some (Some (first, c, c), s)" using part cur cs by (simp add: next_cluster_def)
  moreover have "free_clusters s2 = free_clusters s"
    using s2(3) fat_frameD(4) [OF s2(2)] by (auto simp: free_clusters_def free_cluster_def)
  moreover have "fat_frame s (set cs \<union> set []) s2" by (rule fat_frame_mono [OF s2(2)]) (simp add: cs)
  ultimately show ?thesis using s2(1,4) cs unfolding round_ok_def Let_def off_def
    by (intro exI [of _ first] exI [of _ c] exI [of _ "[]"] exI [of _ s] exI [of _ s2]) simp
qed

lemma write_loop_ok:
  assumes "fat_ok s" "file_at s first cs content" "cur = (if cs = [] then 0 else last cs)" "length rest \<le> length data"
    and "rest \<noteq> [] \<Longrightarrow> in_cluster_offset app nbytes (length rest = length data) s = Some (length content mod cluster_bytes s)"
  shows "if length content + length rest \<le> (length cs + card (free_clusters s)) * cluster_bytes s
    then \<exists>first' new s'. write_loop app nbytes data rest first cur cur s = Some (Inr first', s') \<and>
      set new \<subseteq> free_clusters s \<and> fat_frame s (set cs \<union> set new) s' \<and> file_at s' first' (cs @ new) (content @ rest)
    else \<exists>s'. write_loop app nbytes data rest first cur cur s = Some (Inl (- ENOSPC), s') \<and>
      fat_frame s (set cs \<union> free_clusters s) s' \<and> free_clusters s' = {}"
  using assms
proof (induction "length rest" arbitrary: rest s first cs content cur rule: less_induct)
  case less
  let ?B = "cluster_bytes s" and ?off = "length content mod cluster_bytes s"
  let ?fits = "length content + length rest \<le> (length cs + card (free_clusters s)) * ?B"
  have B: "0 < ?B" by (rule cluster_bytes_pos [OF less.prems(1)])
  show ?case
  proof (cases "rest = []")
    case True
    have "length content \<le> length cs * ?B" using less.prems(2) by (simp add: file_at_def)
    then have "?fits" using True by (simp add: add_mult_distrib)
    moreover have "write_loop app nbytes data rest first cur cur s = Some (Inr first, s)" using True by (subst write_loop.simps) simp
    moreover have "fat_frame s (set cs \<union> set []) s" by (rule fat_frame_refl [OF less.prems(1)])
    moreover have "file_at s first (cs @ []) (content @ rest)" using less.prems(2) True by simp
    ultimately have "\<exists>first' new s'. write_loop app nbytes data rest first cur cur s = Some (Inr first', s') \<and>
      set new \<subseteq> free_clusters s \<and> fat_frame s (set cs \<union> set new) s' \<and> file_at s' first' (cs @ new) (content @ rest)"
      by (intro exI [of _ first] exI [of _ "[]"] exI [of _ s]) simp
    then show ?thesis unfolding if_P [OF \<open>?fits\<close>] .
  next
    case rest: False
    note off = less.prems(5) [OF rest]
    show ?thesis
    proof (cases "?off = 0 \<and> free_clusters s = {}")
      case True
      have "length cs * ?B = length content" using full_clusters [OF less.prems(1,2)] True by simp
      moreover have "0 < length rest" using rest by simp
      moreover have "(length cs + card (free_clusters s)) * ?B = length cs * ?B" using True by simp
      ultimately have "\<not> ?fits" by linarith
      moreover have "write_loop app nbytes data rest first cur cur s = Some (Inl (- ENOSPC), s)"
        using rest off True next_cluster_full [OF less.prems(1)] by (subst write_loop.simps) simp
      moreover have "fat_frame s (set cs \<union> free_clusters s) s" by (rule fat_frame_refl [OF less.prems(1)])
      ultimately show ?thesis using True unfolding if_not_P [OF \<open>\<not> ?fits\<close>] by blast
    next
      case False
      then have room: "?off = 0 \<Longrightarrow> free_clusters s \<noteq> {}" by simp
      obtain first' c new s1 s2 where r: "next_cluster ?off first cur cur s = Some (Some (first', c, c), s1)"
        "write_data (drop (?off div 512) (cluster_sectors (fs_cache s1) c)) rest (?off mod 512) s1 = (Some (drop (?B - ?off) rest), s2)"
        "c = last (cs @ new)" "cs @ new \<noteq> []" "set new \<subseteq> free_clusters s" "fat_frame s (set cs \<union> set new) s2"
        "file_at s2 first' (cs @ new) (content @ take (?B - ?off) rest)"
        "length (cs @ new) + card (free_clusters s2) = length cs + card (free_clusters s)" "free_clusters s2 \<subseteq> free_clusters s"
        using write_round_new [OF less.prems(1,2) rest less.prems(3)] write_round_old [OF less.prems(1,2) rest less.prems(3)] room
        unfolding round_ok_def Let_def by blast
      let ?r = "drop (?B - ?off) rest" and ?c = "content @ take (?B - ?off) rest"
      note D = fat_frameD [OF r(6)]
      have step: "write_loop app nbytes data rest first cur cur s = write_loop app nbytes data ?r first' c c s2"
        using rest off r(1,2) by (subst write_loop.simps) simp
      have o: "?off < ?B" using B by simp
      have "0 < length rest" using rest by simp
      then have shorter: "length ?r < length rest" unfolding length_drop using o by linarith
      have off': "in_cluster_offset app nbytes (length ?r = length data) s2 = Some (length ?c mod cluster_bytes s2)" if "?r \<noteq> []"
      proof -
        have "length ?r \<noteq> length data" using shorter less.prems(4) by linarith
        moreover have "length ?c = length content + (?B - ?off)" using that by simp
        then have "length ?c mod ?B = 0" using mod_add_left_eq [of "length content" ?B "?B - ?off"] o by simp
        ultimately show ?thesis unfolding D(7) by (simp add: in_cluster_offset_def)
      qed
      have c': "c = (if cs @ new = [] then 0 else last (cs @ new))" using r(3) unfolding if_not_P [OF r(4)] .
      have cr: "?c @ ?r = content @ rest" by simp
      have "length ?r \<le> length data" using shorter less.prems(4) by linarith
      note IH = less.hyps [OF shorter D(6) [OF less.prems(1)] r(7) c' this off', unfolded D(7) r(8) cr step [symmetric]]
      have l: "length ?c + length ?r = length content + length rest" using arg_cong [OF cr, of length] by simp
      show ?thesis
      proof (cases "?fits")
        case True
        with IH l obtain first'' new' s3 where w: "write_loop app nbytes data rest first cur cur s = Some (Inr first'', s3)"
          "set new' \<subseteq> free_clusters s2" "fat_frame s2 (set (cs @ new) \<union> set new') s3" "file_at s3 first'' ((cs @ new) @ new') (content @ rest)"
          by auto
        have "fat_frame s (set cs \<union> set (new @ new')) s3" by (rule fat_frame_trans [OF r(6) w(3)]) auto
        moreover have "set (new @ new') \<subseteq> free_clusters s" using w(2) r(5,9) by auto
        moreover have "file_at s3 first'' (cs @ new @ new') (content @ rest)" using w(4) by simp
        ultimately show ?thesis using w(1) unfolding if_P [OF True] by blast
      next
        case False
        with IH l obtain s3 where w: "write_loop app nbytes data rest first cur cur s = Some (Inl (- ENOSPC), s3)"
          "fat_frame s2 (set (cs @ new) \<union> free_clusters s2) s3" "free_clusters s3 = {}" by auto
        have "fat_frame s (set cs \<union> free_clusters s) s3" using r(5,9) by (intro fat_frame_trans [OF r(6) w(2)]) auto
        then show ?thesis using w(1,3) unfolding if_not_P [OF False] by blast
      qed
    qed
  qed
qed

text \<open>The end of a chain, where appended data goes.\<close>

lemma append_walk_ok:
  assumes "fat_ok s" "fat_chain s c cs" "cs \<noteq> []"
  shows "append_walk c p s = Some (last cs, last cs, s)"
  using assms(2,3)
proof (induction cs arbitrary: c p)
  case (Cons x cs)
  then have v: "valid_cluster s x" "c = x" "fat_chain s (fat_entry s x) cs" by simp_all
  have r: "2 \<le> x \<and> x < 0xFFF8" using valid_cluster_range [OF assms(1) v(1)] by (auto simp: word_less_nat_alt)
  show ?case
  proof (cases cs)
    case Nil
    then show ?thesis using r v read_fat_entry_ok [OF assms(1) v(1)] by (subst append_walk.simps) simp
  next
    case (Cons y ys)
    then have y: "fat_entry s x = y" "valid_cluster s y" using v(3) by simp_all
    have "\<not> y \<ge> 0xFFF8" using valid_cluster_range [OF assms(1) y(2)] by (auto simp: word_less_nat_alt word_le_nat_alt)
    then show ?thesis using r v y Cons Cons.IH [OF v(3), of x] read_fat_entry_ok [OF assms(1) v(1)] by (subst append_walk.simps) simp
  qed
qed simp

end
