(* ===== verification/Fat16_Entries.thy ===== *)
theory Fat16_Entries
  imports Fat16_Content
begin

text \<open>
  Entries of a directory while the files of src/src/fs/fat16.c are written and deleted: the slot of a
  named entry, its replacement or removal, and the clusters and directories this leaves alone.
\<close>

unbundle bit_operations_syntax

section \<open>Replacing one slot\<close>

lemma named_split:
  assumes "((l, i, e), b) \<in> set (named_entries D b0)"
  shows "\<exists>pre post. D = pre @ (l, i, e) # post \<and> (\<forall>x \<in> set pre. \<not> end_marker x) \<and> b = lfn_after pre b0 \<and>
    e ! 0 \<noteq> 0 \<and> e ! 0 \<noteq> 0xE5 \<and> e_attributes e \<noteq> FAT_ATTR_LFN \<and> e_attributes e \<noteq> FAT_ATTR_VOLUME_ID"
  using assms
proof (induction D b0 rule: named_entries.induct)
  case (2 k j x xs b0)
  let ?n = "if x ! 0 = 0xE5 then clear_lfn b0 else if e_attributes x = FAT_ATTR_LFN then lfn_store x b0
    else if e_attributes x \<noteq> FAT_ATTR_VOLUME_ID then clear_lfn b0 else b0"
  have nz: "x ! 0 \<noteq> 0" using 2(5) by auto
  consider (here) "((l, i, e), b) = ((k, j, x), b0)" "x ! 0 \<noteq> 0xE5" "e_attributes x \<noteq> FAT_ATTR_LFN" "e_attributes x \<noteq> FAT_ATTR_VOLUME_ID"
    | (later) "((l, i, e), b) \<in> set (named_entries xs ?n)" using 2(5) nz by (auto split: if_splits)
  then show ?case
  proof cases
    case here
    then show ?thesis using nz by (intro exI [of _ "[]"] exI [of _ xs]) simp
  next
    case later
    then have "\<exists>pre post. xs = pre @ (l, i, e) # post \<and> (\<forall>x \<in> set pre. \<not> end_marker x) \<and> b = lfn_after pre ?n \<and>
      e ! 0 \<noteq> 0 \<and> e ! 0 \<noteq> 0xE5 \<and> e_attributes e \<noteq> FAT_ATTR_LFN \<and> e_attributes e \<noteq> FAT_ATTR_VOLUME_ID"
      using 2(1-4) nz by (auto split: if_splits)
    then obtain pre post where p: "xs = pre @ (l, i, e) # post" "\<forall>x \<in> set pre. \<not> end_marker x" "b = lfn_after pre ?n"
      "e ! 0 \<noteq> 0" "e ! 0 \<noteq> 0xE5" "e_attributes e \<noteq> FAT_ATTR_LFN" "e_attributes e \<noteq> FAT_ATTR_VOLUME_ID" by blast
    then show ?thesis using nz by (intro exI [of _ "(k, j, x) # pre"] exI [of _ post]) (simp add: end_marker_def)
  qed
qed simp

text \<open>
  The place of a named entry, and the directory when its slot is replaced.
\<close>

lemma slot_replace:
  assumes "dir_ready s d cs" "((l, i, e), b) \<in> set (dir_names s d cs)"
  defines "ls \<equiv> dir_sectors (fs_cache s) d cs"
  shows "\<exists>pre post. dir_slots (sectors (dev s)) ls = pre @ (l, i, e) # post \<and> (\<forall>x \<in> set pre. \<not> end_marker x) \<and>
    b = lfn_after pre (replicate 260 0) \<and> e ! 0 \<noteq> 0 \<and> e ! 0 \<noteq> 0xE5 \<and>
    e_attributes e \<noteq> FAT_ATTR_LFN \<and> e_attributes e \<noteq> FAT_ATTR_VOLUME_ID \<and>
    l \<in> set ls \<and> i < 16 \<and> slot_of (sectors (dev s) l) i = e \<and> length e = 32 \<and>
    (\<forall>f e'. (\<forall>x \<in> set ls. f x = sectors (dev s) x) \<and> length e' = 32 \<longrightarrow>
      dir_slots (f(l := put_slot (f l) i e')) ls = pre @ (l, i, e') # post)"
proof -
  let ?f = "sectors (dev s)"
  obtain pre post where p: "dir_slots ?f ls = pre @ (l, i, e) # post" "\<forall>x \<in> set pre. \<not> end_marker x" "b = lfn_after pre (replicate 260 0)"
      "e ! 0 \<noteq> 0" "e ! 0 \<noteq> 0xE5" "e_attributes e \<noteq> FAT_ATTR_LFN" "e_attributes e \<noteq> FAT_ATTR_VOLUME_ID"
    using named_split assms(2) unfolding dir_names_def ls_def by blast
  have dis: "distinct ls" and dk: "disk_ok s" using assms(1) dir_run_nth(1) by (auto simp: dir_ready_def ls_def contiguous_def fat_ok_def)
  define q k j where "q = length pre" and "k = q div 16" and "j = q mod 16"
  have "q < length (dir_slots ?f ls)" unfolding p(1) q_def by simp
  then have kl: "k < length ls" "j < 16" by (simp_all add: k_def j_def less_mult_imp_div_less mult.commute)
  have q: "16 * k + j = q" by (simp add: k_def j_def)
  have at: "dir_slots g ls ! q = (ls ! k, j, slot_of (g (ls ! k)) j)" for g using dir_slots_nth [OF kl, of g] unfolding q .
  have "dir_slots ?f ls ! q = (l, i, e)" unfolding p(1) q_def by simp
  then have lie: "l = ls ! k" "i = j" "e = slot_of (?f l) i" using at [of ?f] by auto
  have "dir_slots (f(l := put_slot (f l) i e')) ls = pre @ (l, i, e') # post"
    if f: "\<forall>x \<in> set ls. f x = ?f x" "length e' = 32" for f e'
  proof -
    have same: "dir_slots f ls = dir_slots ?f ls" unfolding dir_slots_def using f(1) by (intro arg_cong [of _ _ concat]) simp
    have "length (f (ls ! k)) = 512" using f(1) kl(1) dk by simp
    from dir_slots_update [where f = f, OF dis kl this f(2)] have "dir_slots (f(l := put_slot (f l) i e')) ls = (dir_slots ?f ls)[q := (l, i, e')]"
      unfolding lie(1,2) same q .
    also have "\<dots> = pre @ (l, i, e') # post" unfolding p(1) q_def by simp
    finally show ?thesis .
  qed
  moreover have "length e = 32" unfolding lie(3) using dk kl(2) lie(2) by (intro slot_of_length) simp_all
  ultimately show ?thesis using p lie kl by (intro exI [of _ pre] exI [of _ post]) simp
qed

text \<open>Slots that look the same to a search and to the tests for order.\<close>

definition same_shape :: "slot \<Rightarrow> slot \<Rightarrow> bool" where
  "same_shape = (\<lambda>(l, i, e) (l', i', e'). e ! 0 = e' ! 0 \<and> e_attributes e = e_attributes e' \<and> (e_attributes e = FAT_ATTR_LFN \<longrightarrow> e = e'))"

lemma same_shape_refl: "same_shape x x"
  by (simp add: same_shape_def split: prod.splits)

lemma same_shapeD: "same_shape x y \<Longrightarrow> end_marker x = end_marker y \<and> slot_free x = slot_free y"
  by (auto simp: same_shape_def end_marker_def slot_free_def)

lemma lfn_after_shape: "list_all2 same_shape xs ys \<Longrightarrow> lfn_after xs b = lfn_after ys b"
  by (induction xs ys arbitrary: b rule: list_all2_induct) (auto simp: same_shape_def)

lemma tidy_shape:
  assumes "dir_tidy D" "list_all2 same_shape D D'"
  shows "dir_tidy D'"
  unfolding dir_tidy_def
proof (intro conjI allI impI)
  fix l i e assume "(l, i, e) \<in> set D'"
  then obtain k where "k < length D'" "D' ! k = (l, i, e)" by (auto simp: in_set_conv_nth)
  then have k: "same_shape (D ! k) (l, i, e)" "D ! k \<in> set D" using assms(2) by (auto simp: list_all2_conv_all_nth)
  obtain l' i' e' where x: "D ! k = (l', i', e')" by (cases "D ! k")
  have "lfn_safe e'" by (rule dir_tidyD(1) [OF assms(1) k(2) [unfolded x]])
  moreover have "e_attributes e' = e_attributes e" "e_attributes e' = FAT_ATTR_LFN \<Longrightarrow> e' = e"
    using k(1) unfolding x same_shape_def by simp_all
  ultimately show "lfn_safe e" unfolding lfn_safe_def by metis
next
  fix a x b assume d: "D' = a @ x # b \<and> end_marker x"
  obtain a' x' b' where "D = a' @ x' # b'" "list_all2 same_shape a' a" "same_shape x' x" "list_all2 same_shape b' b"
    using assms(2) d by (auto simp: list_all2_append2 list_all2_Cons2)
  then show "\<forall>y \<in> set b. end_marker y"
    using dir_tidyD(2) [OF assms(1)] d same_shapeD by (metis in_set_conv_nth list_all2_conv_all_nth)
next
  fix a x b assume d: "D' = a @ x # b \<and> slot_free x \<and> (\<forall>y \<in> set a. \<not> end_marker y)"
  obtain a' x' b' where "D = a' @ x' # b'" "list_all2 same_shape a' a" "same_shape x' x"
    using assms(2) d by (auto simp: list_all2_append2 list_all2_Cons2)
  moreover from this(2) have "\<forall>y \<in> set a'. \<not> end_marker y"
    using d same_shapeD by (metis in_set_conv_nth list_all2_conv_all_nth)
  ultimately show "lfn_after a (replicate 260 0) = replicate 260 0"
    using dir_tidyD(3) [OF assms(1)] d same_shapeD lfn_after_shape by metis
qed

lemma tidy_replaced:
  assumes "dir_tidy (pre @ (l, i, e) # post)" "e' ! 0 = e ! 0" "e_attributes e' = e_attributes e" "e_attributes e \<noteq> FAT_ATTR_LFN"
  shows "dir_tidy (pre @ (l, i, e') # post)"
  by (rule tidy_shape [OF assms(1)])
    (use assms(2-) in \<open>simp add: list_all2_append list_all2_refl same_shape_refl\<close>, simp add: same_shape_def)

lemma set_entry_fields:
  assumes "length e = 32"
  shows "length (set_entry c n e) = 32" "set_entry c n e ! 0 = e ! 0" "e_attributes (set_entry c n e) = e_attributes e"
    "sfn_text (set_entry c n e) = sfn_text e" "e_starting_cluster (set_entry c n e) = c" "e_file_size (set_entry c n e) = n"
proof -
  have n: "set_entry c n e ! k = e ! k" if "k < 26" for k using that assms by (simp add: set_entry_def put32_def put16_nth)
  show l: "length (set_entry c n e) = 32" using assms by (simp add: set_entry_def)
  show "set_entry c n e ! 0 = e ! 0" "e_attributes (set_entry c n e) = e_attributes e" using n by (simp_all add: e_attributes_def)
  have "take 11 (set_entry c n e) = take 11 e" using n l assms by (intro nth_equalityI) simp_all
  moreover have "take 8 (take 11 x) = take 8 x" "take 3 (drop 8 (take 11 x)) = take 3 (drop 8 x)" for x :: "u8 list"
    by (simp_all add: drop_take)
  ultimately have "take 8 (set_entry c n e) = take 8 e" "take 3 (drop 8 (set_entry c n e)) = take 3 (drop 8 e)" by metis+
  then show "sfn_text (set_entry c n e) = sfn_text e" by (simp add: sfn_text_def e_filename_def e_extension_def)
  show "e_starting_cluster (set_entry c n e) = c" "e_file_size (set_entry c n e) = n"
    using assms by (simp_all add: set_entry_def e_starting_cluster_def e_file_size_def put32_def get16_put16_other get32_def halves32)
qed

lemma dir_sector_not_cluster:
  assumes "fat_ok s" "dir_chain s d ds" "l \<in> set (dir_sectors (fs_cache s) d ds)" "valid_cluster s x" "x \<notin> set ds"
  shows "l \<notin> set (cluster_sectors (fs_cache s) x)"
proof
  assume l: "l \<in> set (cluster_sectors (fs_cache s) x)"
  show False
  proof (cases "d = 0")
    case True
    then have "unat l < unat (data_start_sector (fs_cache s))" using root_sectors_bound(3) [OF assms(1)] assms(3) by (simp add: dir_sectors_def)
    then show False using cluster_sectors_bound(2) [OF assms(1,4) l] by linarith
  next
    case False
    then obtain c where c: "c \<in> set ds" "l \<in> set (cluster_sectors (fs_cache s) c)" using assms(3) by (auto simp: dir_sectors_def)
    moreover have "valid_cluster s c" using False assms(2) c(1) fat_chain_valid by (auto simp: dir_chain_def)
    ultimately show False using cluster_sectors_disjoint [OF assms(1) _ assms(4) _ l] assms(5) by blast
  qed
qed

lemma dir_sectors_frame:
  assumes "fat_ok s" "dir_chain s d ds" "fat_frame s X s'" "X \<inter> set ds = {}" "l \<in> set (dir_sectors (fs_cache s) d ds)"
  shows "sectors (dev s') l = sectors (dev s) l"
  using dir_sectors_not_fat [OF assms(1,2)] dir_sector_not_cluster [OF assms(1,2,5)] assms(4,5)
  by (intro fat_frameD(9) [OF assms(3)]) blast+

lemma dir_chain_frame:
  assumes "dir_chain s d ds" "fat_frame s X s'" "X \<inter> set ds = {}"
  shows "dir_chain s' d ds"
  using assms(1) frame_chain [OF assms(2), of d ds] assms(3) by (auto simp: dir_chain_def Int_commute)

text \<open>Sectors of a directory are written: the table and the contents of files are as before.\<close>

lemma dir_area_write:
  assumes "fat_ok s" "dir_chain s d ds" "\<And>k. length (f k) = 512" "\<And>k. k \<notin> set (dir_sectors (fs_cache s) d ds) \<Longrightarrow> f k = sectors (dev s) k"
  shows "fat_ok (set_sectors f s)" "dir_chain (set_sectors f s) d' ds' \<longleftrightarrow> dir_chain s d' ds'"
    "free_clusters (set_sectors f s) = free_clusters s" "fat_chain (set_sectors f s) c xs \<longleftrightarrow> fat_chain s c xs"
    and "file_at s first cs content \<Longrightarrow> set cs \<inter> set ds = {} \<Longrightarrow> file_at (set_sectors f s) first cs content"
proof -
  have len: "\<forall>k. length (f k) = 512" using assms(3) by blast
  have out: "\<forall>k \<in> fat_area s. f k = sectors (dev s) k" using dir_sectors_not_fat [OF assms(1,2)] assms(4) by blast
  note fr = set_sectors_frame [OF assms(1) len out]
  show ok: "fat_ok (set_sectors f s)" by (rule fr(1))
  show ch: "fat_chain (set_sectors f s) c xs \<longleftrightarrow> fat_chain s c xs" for c xs
  proof
    assume a: "fat_chain (set_sectors f s) c xs"
    then show "fat_chain s c xs" using fr(2,4) fat_chain_valid [OF a] by (intro fat_chain_cong [OF a]) simp_all
  qed (rule fr(5))
  then show "dir_chain (set_sectors f s) d' ds' \<longleftrightarrow> dir_chain s d' ds'" by (simp add: dir_chain_def)
  show "free_clusters (set_sectors f s) = free_clusters s" using fr(2,4) by (auto simp: free_clusters_def free_cluster_def)
  assume fa: "file_at s first cs content" "set cs \<inter> set ds = {}"
  have "f l = sectors (dev s) l" if "l \<in> set (chain_sectors (fs_cache s) cs)" for l
    using dir_sector_not_cluster [OF assms(1,2), of l] file_at_valid [OF fa(1)] fa(2) assms(4) [of l] that
    by (auto simp: chain_sectors_def)
  then have "file_bytes f (chain_sectors (fs_cache s) cs) = file_bytes (sectors (dev s)) (chain_sectors (fs_cache s) cs)"
    by (rule file_bytes_cong)
  then show "file_at (set_sectors f s) first cs content" using fa(1) ch by (simp add: file_at_def cluster_bytes_def)
qed

lemma dir_sector_write:
  assumes "fat_ok s" "dir_chain s d ds" "l \<in> set (dir_sectors (fs_cache s) d ds)" "length b = 512"
  shows "fat_ok (set_sector l b s)" "dir_chain (set_sector l b s) d' ds' \<longleftrightarrow> dir_chain s d' ds'"
    "free_clusters (set_sector l b s) = free_clusters s"
    and "file_at s first cs content \<Longrightarrow> set cs \<inter> set ds = {} \<Longrightarrow> file_at (set_sector l b s) first cs content"
proof -
  have len: "length (((sectors (dev s))(l := b)) k) = 512" for k using assms(1,4) by (simp add: fat_ok_def)
  have "((sectors (dev s))(l := b)) k = sectors (dev s) k" if "k \<notin> set (dir_sectors (fs_cache s) d ds)" for k using that assms(3) by auto
  note A = dir_area_write [OF assms(1,2) len this, folded set_sector_sectors]
  show "fat_ok (set_sector l b s)" "dir_chain (set_sector l b s) d' ds' \<longleftrightarrow> dir_chain s d' ds'"
    "free_clusters (set_sector l b s) = free_clusters s" using A(1-3) by blast+
  show "file_at s first cs content \<Longrightarrow> set cs \<inter> set ds = {} \<Longrightarrow> file_at (set_sector l b s) first cs content" by (rule A(5))
qed

section \<open>Entries of a directory updated and removed\<close>

lemma dir_slots_distinct:
  assumes "distinct ls"
  shows "distinct (dir_slots f ls)"
proof (subst distinct_conv_nth, intro allI impI)
  fix p q assume pq: "p < length (dir_slots f ls)" "q < length (dir_slots f ls)" "p \<noteq> q"
  have n: "dir_slots f ls ! r = (ls ! (r div 16), r mod 16, slot_of (f (ls ! (r div 16))) (r mod 16))" "r div 16 < length ls"
    if "r < length (dir_slots f ls)" for r
  proof -
    show k: "r div 16 < length ls" using that by (simp add: less_mult_imp_div_less mult.commute)
    show "dir_slots f ls ! r = (ls ! (r div 16), r mod 16, slot_of (f (ls ! (r div 16))) (r mod 16))"
      using dir_slots_nth [OF k, of "r mod 16" f] by simp
  qed
  show "dir_slots f ls ! p \<noteq> dir_slots f ls ! q"
  proof
    assume "dir_slots f ls ! p = dir_slots f ls ! q"
    then have "p mod 16 = q mod 16" "ls ! (p div 16) = ls ! (q div 16)" using n(1) [OF pq(1)] n(1) [OF pq(2)] by simp_all
    then have "p div 16 = q div 16" "p mod 16 = q mod 16" using assms n(2) [OF pq(1)] n(2) [OF pq(2)] by (simp_all add: nth_eq_iff_index_eq)
    then show False using pq(3) by (metis div_mult_mod_eq)
  qed
qed

definition replace_slot :: "slot \<Rightarrow> u8 list \<Rightarrow> (slot \<times> u8 list) list \<Rightarrow> (slot \<times> u8 list) list" where
  "replace_slot sl e' = map (\<lambda>(t, b). (if t = sl then (fst sl, fst (snd sl), e') else t, b))"

definition remove_slot :: "slot \<Rightarrow> (slot \<times> u8 list) list \<Rightarrow> (slot \<times> u8 list) list" where
  "remove_slot sl = filter (\<lambda>x. fst x \<noteq> sl)"

lemma named_slots: "x \<in> set (named_entries D b0) \<Longrightarrow> fst x \<in> set D"
  using named_split [of "fst (fst x)" "fst (snd (fst x))" "snd (snd (fst x))" "snd x" D b0] by auto

lemma replace_slot_simps:
  "replace_slot sl e' (xs @ (sl, b) # ys) = replace_slot sl e' xs @ ((fst sl, fst (snd sl), e'), b) # replace_slot sl e' ys"
  "\<forall>y \<in> set xs. fst y \<noteq> sl \<Longrightarrow> replace_slot sl e' xs = xs"
  by (simp_all add: replace_slot_def) (auto intro!: map_idI)

text \<open>
  \<open>s1\<close> is the state when the clusters \<open>X\<close> have been worked on, none of them of the directory.
\<close>

lemma entry_update:
  assumes ready: "dir_ready s d ds" and x: "((l, i, e), b) \<in> set (dir_names s d ds)"
    and fr: "fat_frame s X s1" "X \<inter> set ds = {}"
  defines "write e' \<equiv> set_sector l (put_slot (sectors (dev s1) l) i e') s1"
  shows "length e' = 32 \<Longrightarrow> update_slot l i (\<lambda>_. e') s1 = (0, write e')" "update_slot l i (\<lambda>e. e[0 := 0xE5]) s1 = (0, write (e[0 := 0xE5]))"
    and "l \<in> set (dir_sectors (fs_cache s) d ds)" "length e = 32" "i < 16"
    and "dir_ready (write (set_entry c n e)) d ds" "dir_names (write (set_entry c n e)) d ds = replace_slot (l, i, e) (set_entry c n e) (dir_names s d ds)"
    and "fat16_find_in_dir d m (write (e[0 := 0xE5])) =
      Some (map_option found_slot (find (entry_matches m) (remove_slot (l, i, e) (dir_names s d ds))), write (e[0 := 0xE5]))"
proof -
  let ?ls = "dir_sectors (fs_cache s) d ds" and ?z = "replicate 260 0 :: u8 list"
  note D = fat_frameD [OF fr(1)]
  have ok: "fat_ok s" "dir_chain s d ds" "dir_run ?ls" "dir_tidy (dir_slots (sectors (dev s)) ?ls)" using ready by (simp_all add: dir_ready_def)
  have ok1: "fat_ok s1" "dir_chain s1 d ds" using D(6) ok(1) dir_chain_frame [OF ok(2) fr] by simp_all
  have dl: "length (sectors (dev s1) k) = 512" for k using ok1(1) by (simp add: fat_ok_def)
  have same: "\<forall>k \<in> set ?ls. sectors (dev s1) k = sectors (dev s) k" using dir_sectors_frame [OF ok(1,2) fr] by blast
  obtain pre post where p: "dir_slots (sectors (dev s)) ?ls = pre @ (l, i, e) # post" "\<forall>x \<in> set pre. \<not> end_marker x"
    "b = lfn_after pre ?z" "e ! 0 \<noteq> 0" "e ! 0 \<noteq> 0xE5" "e_attributes e \<noteq> FAT_ATTR_LFN" "e_attributes e \<noteq> FAT_ATTR_VOLUME_ID"
    "l \<in> set ?ls" "i < 16" "slot_of (sectors (dev s) l) i = e" "length e = 32"
    "\<And>f e'. \<forall>x \<in> set ?ls. f x = sectors (dev s) x \<Longrightarrow> length e' = 32 \<Longrightarrow> dir_slots (f(l := put_slot (f l) i e')) ?ls = pre @ (l, i, e') # post"
    using slot_replace [OF ready x] by blast
  show l: "l \<in> set ?ls" and e32: "length e = 32" and "i < 16" using p by simp_all
  have ls: "dir_slots (sectors (dev (write e'))) ?ls = pre @ (l, i, e') # post" if "length e' = 32" for e'
    using p(12) [OF same that] by (simp add: write_def)
  have b: "l < 0x10000000" using dir_sectors_bound(1) [OF ok(1,2) l] .
  have pl: "length (put_slot (sectors (dev s1) l) i e') = 512" if "length e' = 32" for e' using put_slot_length [OF p(9) dl that] .
  show us: "update_slot l i (\<lambda>_. e') s1 = (0, write e')" if "length e' = 32" for e'
    using ok1(1) b pl [OF that] by (simp add: update_slot_def write_def fat_ok_def)
  have "slot_of (sectors (dev s1) l) i = e" using same l p(10) by simp
  then show "update_slot l i (\<lambda>e. e[0 := 0xE5]) s1 = (0, write (e[0 := 0xE5]))"
    using us [of "e[0 := 0xE5]"] ok1(1) b pl [of "e[0 := 0xE5]"] e32 by (simp add: update_slot_def write_def fat_ok_def)
  have gl: "l \<in> set (dir_sectors (fs_cache s1) d ds)" using l D(1) by simp
  have wf: "fat_ok (write e')" "dir_chain (write e') d ds" if "length e' = 32" for e'
    using dir_sector_write [OF ok1 gl pl [OF that]] ok1(2) unfolding write_def by simp_all
  have fc: "fs_cache (write e') = fs_cache s" for e' using D(1) by (simp add: write_def set_sector_sectors)
  have dis: "distinct (pre @ (l, i, e) # post)" using dir_slots_distinct [of ?ls] dir_run_nth(1) [OF ok(3)] p(1) by (metis contiguous_def)
  let ?E1 = "named_entries pre ?z" and ?E2 = "named_entries post (clear_lfn b)"
  have names: "dir_names s d ds = ?E1 @ ((l, i, e), b) # ?E2"
    unfolding dir_names_def p(1) named_entries_append [OF p(2)] using p(3-7) by simp
  have out: "fst y \<noteq> (l, i, e)" if "y \<in> set ?E1 \<union> set ?E2" for y using that named_slots dis by fastforce
  let ?e = "set_entry c n e"
  note F = set_entry_fields [OF e32, of c n]
  have "dir_names (write ?e) d ds = ?E1 @ ((l, i, ?e), b) # ?E2"
    unfolding dir_names_def fc ls [OF F(1)] named_entries_append [OF p(2)] using p(3-7) F by simp
  moreover have "replace_slot (l, i, e) ?e ?E1 = ?E1" "replace_slot (l, i, e) ?e ?E2 = ?E2"
    using out by (auto intro!: replace_slot_simps(2))
  ultimately show "dir_names (write ?e) d ds = replace_slot (l, i, e) ?e (dir_names s d ds)"
    unfolding names replace_slot_simps(1) by simp
  have "dir_tidy (pre @ (l, i, ?e) # post)" using ok(4) unfolding p(1) by (rule tidy_replaced) (use F p(6) in simp_all)
  then show "dir_ready (write ?e) d ds" using wf [OF F(1)] ok(3) by (simp add: dir_ready_def fc ls [OF F(1)])
  let ?d = "e[0 := 0xE5]"
  have d32: "length ?d = 32" and d0: "?d ! 0 = 0xE5" using e32 by simp_all
  have safe: "lfn_safe e''" if "(l', i', e'') \<in> set (pre @ (l, i, ?d) # post)" for l' i' e''
  proof (cases "(l', i', e'') = (l, i, ?d)")
    case True
    have "e_attributes ?d = e_attributes e" by (simp add: e_attributes_def)
    then show ?thesis using True p(6) by (simp add: lfn_safe_def)
  next
    case False
    then have "(l', i', e'') \<in> set (dir_slots (sectors (dev s)) ?ls)" using that unfolding p(1) by auto
    then show ?thesis by (rule dir_tidyD(1) [OF ok(4)])
  qed
  have "named_entries (dir_slots (sectors (dev (write ?d))) (dir_sectors (fs_cache (write ?d)) d ds)) ?z = ?E1 @ ?E2"
    unfolding fc ls [OF d32] named_entries_append [OF p(2)] p(3) [symmetric] using d0 by simp
  moreover have "remove_slot (l, i, e) (dir_names s d ds) = ?E1 @ ?E2"
    unfolding names remove_slot_def using out by (simp add: filter_id_conv)
  ultimately show "fat16_find_in_dir d m (write ?d) =
      Some (map_option found_slot (find (entry_matches m) (remove_slot (l, i, e) (dir_names s d ds))), write ?d)"
    using find_in_dir_ok [OF wf [OF d32], of m] safe unfolding fc ls [OF d32] found_slot_def by simp
qed

end
