(* ===== verification/Fat16_Ops.thy ===== *)
theory Fat16_Ops
  imports Fat16_Entries
begin

text \<open>
  The operations of layer 6 of src/src/fs/fat16.c on files of the root directory: writing and loading,
  creating and deleting, and their error codes.
\<close>

unbundle bit_operations_syntax

section \<open>Writing an entry\<close>

text \<open>The clusters of the file are free when its chain has been released.\<close>

lemma release_ok:
  assumes "fat_ok s" "file_at s first cs content"
  shows "(if first \<ge> 2 then fat16_free_chain first s else Some s) = Some (fold (\<lambda>x. set_fat x 0) cs s)"
    "fat_frame s (set cs) (fold (\<lambda>x. set_fat x 0) cs s)"
    "free_clusters (fold (\<lambda>x. set_fat x 0) cs s) = free_clusters s \<union> set cs"
    "card (free_clusters (fold (\<lambda>x. set_fat x 0) cs s)) = length cs + card (free_clusters s)"
    "file_at (fold (\<lambda>x. set_fat x 0) cs s) 0 [] []"
proof -
  let ?t = "fold (\<lambda>x. set_fat x 0) cs s"
  have v: "\<And>x. x \<in> set cs \<Longrightarrow> valid_cluster s x" by (rule file_at_valid [OF assms(2)])
  have dis: "distinct cs"
  proof (cases "cs = []")
    case False
    then have "fat_chain s first cs" using assms(2) by (simp add: file_at_def)
    then show ?thesis by (rule fat_chain_distinct [OF assms(1)])
  qed simp
  show "(if first \<ge> 2 then fat16_free_chain first s else Some s) = Some ?t"
  proof (cases "cs = []")
    case True
    then show ?thesis using assms(2) by (simp add: file_at_def)
  next
    case False
    then have ch: "fat_chain s first cs" using assms(2) by (simp add: file_at_def)
    then have "valid_cluster s first" using False by (cases cs) simp_all
    then show ?thesis using free_chain_ok [OF assms(1) ch] valid_cluster_range [OF assms(1)] by simp
  qed
  show fr: "fat_frame s (set cs) ?t" by (rule fold_set_fat_frame [OF assms(1) v])
  note D = fat_frameD [OF fr]
  show fc: "free_clusters ?t = free_clusters s \<union> set cs"
    using fold_set_fat(2) [OF assms(1) v] D(4) v by (auto simp: free_clusters_def free_cluster_def split: if_splits)
  have "free_clusters s \<inter> set cs = {}" using file_at_not_free [OF assms] by blast
  then show "card (free_clusters ?t) = length cs + card (free_clusters s)"
    unfolding fc using dis by (simp add: card_Un_disjoint distinct_card)
  show "file_at ?t 0 [] []" using cluster_bytes_pos [OF assms(1)] D(7) by (simp add: file_at_def)
qed

lemma dir_not_free: "fat_ok s \<Longrightarrow> dir_chain s d ds \<Longrightarrow> free_clusters s \<inter> set ds = {}"
  using chain_entry_nonzero [of s d ds] by (auto simp: dir_chain_def free_clusters_def free_cluster_def split: if_splits)

text \<open>The new contents of the file after a write.\<close>

definition written :: "bool \<Rightarrow> u8 list \<Rightarrow> u8 list \<Rightarrow> u8 list" where
  "written app content data = (if app then content @ data else data)"

text \<open>The data part of a write: what the loop makes of the clusters of the file.\<close>

lemma write_clusters_ok:
  assumes "fat_ok s" "file_at s first cs content" "unat nbytes = length content" "app \<or> data \<noteq> []"
  defines "start \<equiv> (if \<not> app
           then map_option (\<lambda>s. (0, 0, 0, s)) (if first \<ge> 2 then fat16_free_chain first s else Some s)
           else map_option (\<lambda>(c, p, s). (first, c, p, s)) (if first \<ge> 2 then append_walk first 0 s else Some (0, 0, s)))"
  shows "\<exists>first1 cur s1. start = Some (first1, cur, cur, s1) \<and>
    (if length (written app content data) \<le> (length cs + card (free_clusters s)) * cluster_bytes s
     then \<exists>first' cs' s'. write_loop app nbytes data data first1 cur cur s1 = Some (Inr first', s') \<and>
       set cs' \<subseteq> set cs \<union> free_clusters s \<and> fat_frame s (set cs \<union> set cs') s' \<and> file_at s' first' cs' (written app content data)
     else \<exists>s'. write_loop app nbytes data data first1 cur cur s1 = Some (Inl (- ENOSPC), s') \<and>
       fat_frame s (set cs \<union> free_clusters s) s' \<and> free_clusters s' = {})"
proof (cases app)
  case False
  let ?t = "fold (\<lambda>x. set_fat x 0) cs s"
  note R = release_ok [OF assms(1,2)]
  note D = fat_frameD [OF R(2)]
  have st: "start = Some (0, 0, 0, ?t)" using False R(1) by (simp add: start_def)
  have w: "written app content data = data" using False by (simp add: written_def)
  have "in_cluster_offset app nbytes (length data = length data) ?t = Some (length ([] :: u8 list) mod cluster_bytes ?t)"
    using False by (simp add: in_cluster_offset_def)
  note L = write_loop_ok [where rest = data and data = data and cs = "[]" and cur = 0 and app = app and nbytes = nbytes,
      OF D(6) [OF assms(1)] R(5) _ _ this, unfolded D(7), simplified]
  show ?thesis
  proof (cases "length data \<le> (length cs + card (free_clusters s)) * cluster_bytes s")
    case True
    then obtain first' new s' where n: "write_loop app nbytes data data 0 0 0 ?t = Some (Inr first', s')"
      "set new \<subseteq> free_clusters ?t" "fat_frame ?t (set new) s'" "file_at s' first' new data" using L R(4) by auto
    have "fat_frame s (set cs \<union> set new) s'" by (rule fat_frame_trans [OF R(2) n(3)]) simp
    moreover have "set new \<subseteq> set cs \<union> free_clusters s" using n(2) R(3) by auto
    ultimately show ?thesis using n(1,4) st True w by auto
  next
    case False
    then obtain s' where n: "write_loop app nbytes data data 0 0 0 ?t = Some (Inl (- ENOSPC), s')"
      "fat_frame ?t (free_clusters ?t) s'" "free_clusters s' = {}" using L R(4) by auto
    have "fat_frame s (set cs \<union> free_clusters s) s'" using R(3) by (intro fat_frame_trans [OF R(2) n(2)]) auto
    then show ?thesis using n(1,3) st False w by auto
  qed
next
  case True
  let ?c = "if cs = [] then 0 else last cs"
  have st: "start = Some (first, ?c, ?c, s)"
  proof (cases "cs = []")
    case True
    then show ?thesis using assms(2) \<open>app\<close> by (simp add: start_def file_at_def)
  next
    case False
    then have ch: "fat_chain s first cs" using assms(2) by (simp add: file_at_def)
    then have "valid_cluster s first" using False by (cases cs) simp_all
    then show ?thesis using append_walk_ok [OF assms(1) ch False] valid_cluster_range [OF assms(1)] False \<open>app\<close> by (simp add: start_def)
  qed
  have B: "0 < cluster_bytes s" by (rule cluster_bytes_pos [OF assms(1)])
  have "in_cluster_offset app nbytes (length data = length data) s = Some (length content mod cluster_bytes s)"
  proof (cases "nbytes > 0")
    case True
    then show ?thesis using \<open>app\<close> B assms(3) by (simp add: in_cluster_offset_def cluster_bytes_def mult.commute)
  next
    case False
    then have "content = []" using assms(3) by (simp add: word_less_nat_alt)
    then show ?thesis using False by (simp add: in_cluster_offset_def)
  qed
  note L = write_loop_ok [where rest = data and data = data and app = app and nbytes = nbytes and cur = ?c, OF assms(1,2) refl _ this]
  have w: "written app content data = content @ data" using True by (simp add: written_def)
  show ?thesis
  proof (cases "length (content @ data) \<le> (length cs + card (free_clusters s)) * cluster_bytes s")
    case True
    then obtain first' new s' where n: "write_loop app nbytes data data first ?c ?c s = Some (Inr first', s')"
      "set new \<subseteq> free_clusters s" "fat_frame s (set cs \<union> set new) s'" "file_at s' first' (cs @ new) (content @ data)" using L by auto
    have "fat_frame s (set cs \<union> set (cs @ new)) s'" by (rule fat_frame_mono [OF n(3)]) simp
    moreover have "set (cs @ new) \<subseteq> set cs \<union> free_clusters s" using n(2) by auto
    ultimately show ?thesis using n(1,4) st unfolding w if_P [OF True] by blast
  next
    case False
    then show ?thesis using L st unfolding w by auto
  qed
qed

lemma dir_ready_frame:
  assumes "dir_ready s d ds" "fat_frame s X s'" "X \<inter> set ds = {}"
  shows "dir_ready s' d ds" "dir_names s' d ds = dir_names s d ds"
proof -
  note D = fat_frameD [OF assms(2)]
  have ok: "fat_ok s" "dir_chain s d ds" using assms(1) by (simp_all add: dir_ready_def)
  have "dir_slots (sectors (dev s')) (dir_sectors (fs_cache s) d ds) = dir_slots (sectors (dev s)) (dir_sectors (fs_cache s) d ds)"
    unfolding dir_slots_def using dir_sectors_frame [OF ok assms(2,3)] by (intro arg_cong [of _ _ concat]) simp
  then show "dir_ready s' d ds" "dir_names s' d ds = dir_names s d ds"
    using assms(1) D(1,6) dir_chain_frame [OF ok(2) assms(2,3)] by (simp_all add: dir_ready_def dir_names_def)
qed

text \<open>The last step of writing: the slot of the entry is rewritten.\<close>

lemma entry_rewritten:
  assumes ready: "dir_ready s d ds" and x: "((l, i, e), b) \<in> set (dir_names s d ds)" and apart: "set cs \<inter> set ds = {}"
    and s1: "fat_frame s (set cs \<union> set cs') s1" "set cs' \<subseteq> set cs \<union> free_clusters s" "file_at s1 first' cs' new"
  shows "\<exists>s'. update_slot l i (\<lambda>_. set_entry first' n e) s1 = (0, s') \<and> dir_ready s' d ds \<and>
    dir_names s' d ds = replace_slot (l, i, e) (set_entry first' n e) (dir_names s d ds) \<and>
    file_at s' first' cs' new \<and> fheap s' = fheap s \<and>
    (\<forall>f2 cs2 c2. file_at s f2 cs2 c2 \<and> set cs2 \<inter> (set cs \<union> set ds) = {} \<longrightarrow> file_at s' f2 cs2 c2)"
proof -
  have ok: "fat_ok s" "dir_chain s d ds" using ready by (simp_all add: dir_ready_def)
  note nf = dir_not_free [OF ok]
  have X: "(set cs \<union> set cs') \<inter> set ds = {}" using s1(2) apart nf by blast
  note U = entry_update [OF ready x s1(1) X]
  note F = set_entry_fields [OF U(4), of first' n]
  note D = fat_frameD [OF s1(1)]
  let ?w = "set_sector l (put_slot (sectors (dev s1) l) i (set_entry first' n e)) s1"
  have ok1: "fat_ok s1" "dir_chain s1 d ds" using D(6) ok(1) dir_chain_frame [OF ok(2) s1(1) X] by simp_all
  have ll: "l \<in> set (dir_sectors (fs_cache s1) d ds)" using U(3) D(1) by simp
  have "length (put_slot (sectors (dev s1) l) i (set_entry first' n e)) = 512"
    using ok1(1) by (intro put_slot_length [OF U(5) _ F(1)]) (simp add: fat_ok_def)
  note W = dir_sector_write [OF ok1 ll this]
  have "file_at ?w first' cs' new" using W(4) [OF s1(3)] X by blast
  moreover have "file_at ?w f2 cs2 c2" if f2: "file_at s f2 cs2 c2" "set cs2 \<inter> (set cs \<union> set ds) = {}" for f2 cs2 c2
  proof -
    have "set cs2 \<inter> free_clusters s = {}" using file_at_not_free [OF ok(1) f2(1)] by blast
    then have "set cs2 \<inter> (set cs \<union> set cs') = {}" using f2(2) s1(2) by blast
    then show ?thesis using W(4) [OF file_at_frame [OF ok(1) s1(1) f2(1)]] f2(2) by blast
  qed
  moreover have "fheap ?w = fheap s" using D(3) by (simp add: set_sector_sectors)
  ultimately show ?thesis using U(1) [OF F(1)] U(6,7) [of first' n] by blast
qed

lemma write_entry_ok:
  fixes app data
  assumes ready: "dir_ready s d ds" and x: "((l, i, e), b) \<in> set (dir_names s d ds)"
    and e: "e_attributes e AND FAT_ATTR_DIRECTORY = 0" "file_at s (e_starting_cluster e) cs content" "unat (e_file_size e) = length content"
    and apart: "set cs \<inter> set ds = {}"
  defines "new \<equiv> written app content data"
  shows "if length new \<le> (length cs + card (free_clusters s)) * cluster_bytes s
    then \<exists>s' first' cs'. write_entry e l i data app s = Some (0, s') \<and> dir_ready s' d ds \<and>
      dir_names s' d ds = replace_slot (l, i, e) (set_entry first' (of_nat (length new)) e) (dir_names s d ds) \<and>
      file_at s' first' cs' new \<and> fheap s' = fheap s \<and>
      (\<forall>f2 cs2 c2. file_at s f2 cs2 c2 \<and> set cs2 \<inter> (set cs \<union> set ds) = {} \<longrightarrow> file_at s' f2 cs2 c2)
    else \<exists>s'. write_entry e l i data app s = Some (- ENOSPC, s') \<and> dir_ready s' d ds \<and>
      dir_names s' d ds = dir_names s d ds \<and> free_clusters s' = {}"
proof -
  have ok: "fat_ok s" "dir_chain s d ds" "dir_run (dir_sectors (fs_cache s) d ds)" using ready by (simp_all add: dir_ready_def)
  note nf = dir_not_free [OF ok(1,2)]
  note finish = entry_rewritten [OF ready x apart, where new = new]
  show ?thesis
  proof (cases "\<not> app \<and> data = []")
    case True
    note R = release_ok [OF ok(1) e(2)]
    have new: "new = []" using True by (simp add: new_def written_def)
    obtain s' where s': "update_slot l i (\<lambda>_. set_entry 0 0 e) (fold (\<lambda>x. set_fat x 0) cs s) = (0, s')" "dir_ready s' d ds"
      "dir_names s' d ds = replace_slot (l, i, e) (set_entry 0 0 e) (dir_names s d ds)" "file_at s' 0 [] new" "fheap s' = fheap s"
      "\<forall>f2 cs2 c2. file_at s f2 cs2 c2 \<and> set cs2 \<inter> (set cs \<union> set ds) = {} \<longrightarrow> file_at s' f2 cs2 c2"
      using finish [of "[]" "fold (\<lambda>x. set_fat x 0) cs s" 0 0] R(2,5) new by auto
    moreover have "write_entry e l i data app s = Some (0, s')" using True e(1) R(1) s'(1) unfolding write_entry_def by auto
    ultimately show ?thesis using new by auto
  next
    case False
    then have "app \<or> data \<noteq> []" by blast
    from write_clusters_ok [OF ok(1) e(2,3) this, folded new_def]
    obtain first1 cur s1 where st: "(if \<not> app
        then map_option (\<lambda>s. (0, 0, 0, s)) (if e_starting_cluster e \<ge> 2 then fat16_free_chain (e_starting_cluster e) s else Some s)
        else map_option (\<lambda>(c, p, s). (e_starting_cluster e, c, p, s)) (if e_starting_cluster e \<ge> 2 then append_walk (e_starting_cluster e) 0 s else Some (0, 0, s)))
        = Some (first1, cur, cur, s1)"
      "if length new \<le> (length cs + card (free_clusters s)) * cluster_bytes s
       then \<exists>first' cs' s'. write_loop app (e_file_size e) data data first1 cur cur s1 = Some (Inr first', s') \<and>
         set cs' \<subseteq> set cs \<union> free_clusters s \<and> fat_frame s (set cs \<union> set cs') s' \<and> file_at s' first' cs' new
       else \<exists>s'. write_loop app (e_file_size e) data data first1 cur cur s1 = Some (Inl (- ENOSPC), s') \<and>
         fat_frame s (set cs \<union> free_clusters s) s' \<and> free_clusters s' = {}" by blast
    have we: "write_entry e l i data app s = Option.bind (write_loop app (e_file_size e) data data first1 cur cur s1) (\<lambda>(r, s).
        case r of Inl c \<Rightarrow> Some (c, s) | Inr first_cluster \<Rightarrow> Some (update_slot l i
          (\<lambda>_. set_entry first_cluster (if app then e_file_size e + of_nat (length data) else of_nat (length data)) e) s))"
      using e(1) False st(1) unfolding write_entry_def by (simp split: if_splits)
    have "e_file_size e = of_nat (length content)" using e(3) by (metis of_nat_unat ucast_id)
    then have sz: "(if app then e_file_size e + of_nat (length data) else of_nat (length data)) = (of_nat (length new) :: u32)"
      by (simp add: new_def written_def)
    show ?thesis
    proof (cases "length new \<le> (length cs + card (free_clusters s)) * cluster_bytes s")
      case True
      then obtain first' cs' s2 where w: "write_loop app (e_file_size e) data data first1 cur cur s1 = Some (Inr first', s2)"
        "set cs' \<subseteq> set cs \<union> free_clusters s" "fat_frame s (set cs \<union> set cs') s2" "file_at s2 first' cs' new" using st(2) by auto
      from finish [OF w(3,2,4), of "of_nat (length new)"] show ?thesis using we w(1) sz unfolding if_P [OF True] by fastforce
    next
      case False
      then obtain s2 where w: "write_loop app (e_file_size e) data data first1 cur cur s1 = Some (Inl (- ENOSPC), s2)"
        "fat_frame s (set cs \<union> free_clusters s) s2" "free_clusters s2 = {}" using st(2) by auto
      have X: "(set cs \<union> free_clusters s) \<inter> set ds = {}" using apart nf by blast
      have "dir_ready s2 d ds" "dir_names s2 d ds = dir_names s d ds" using dir_ready_frame [OF ready w(2) X] by blast+
      then show ?thesis using we w(1,3) unfolding if_not_P [OF False] by simp
    qed
  qed
qed

section \<open>Paths into the root directory\<close>

text \<open>The path is a single component, with or without a slash in front.\<close>

definition root_path :: "u8 list \<Rightarrow> u8 list \<Rightarrow> bool" where
  "root_path path name \<longleftrightarrow> (path = name \<or> path = 47 # name) \<and> name \<noteq> [] \<and> 47 \<notin> set name \<and> name \<noteq> [46] \<and> length name \<le> 255"

lemma path_component_all: "47 \<notin> set xs \<Longrightarrow> n + length xs \<le> 255 \<Longrightarrow> path_component n xs = (xs, [])"
  by (induction xs arbitrary: n) auto

lemma locate_root:
  assumes "dir_ready s 0 []" "root_path path name"
  shows "fat16_locate path s = Some (Inr (0, name, map_option found_slot (find (entry_matches name) (dir_names s 0 []))), s)"
    "resolve_find path s = Some (Inr (0, name, map_option found_slot (find (entry_matches name) (dir_names s 0 []))), s)"
proof -
  have n: "name \<noteq> []" "47 \<notin> set name" "name \<noteq> [46]" "length name \<le> 255" using assms(2) by (simp_all add: root_path_def)
  have ok: "fat_ok s" using assms(1) by (simp add: dir_ready_def)
  have "name ! 0 \<noteq> 47" using n(1,2) by (metis length_greater_0_conv nth_mem)
  then have p: "path \<noteq> []" "(if path ! 0 = 47 then tl path else path) = name" using assms(2) n(1) by (auto simp: root_path_def)
  have c: "path_component 0 name = (name, [])" using n by (intro path_component_all) simp_all
  have "resolve_loop name 0 s = Option.bind (fat16_find_in_dir 0 name s) (\<lambda>(r, s1). Some (Inr (0, name, map_option fst r), s1))"
    using n c by (subst resolve_loop.simps) simp
  then have "fat16_resolve_path path s = Option.bind (fat16_find_in_dir 0 name s) (\<lambda>(r, s1). Some (Inr (0, name, map_option fst r), s1))"
    using p ok by (simp add: fat16_resolve_path_def)
  then show "fat16_locate path s = Some (Inr (0, name, map_option found_slot (find (entry_matches name) (dir_names s 0 []))), s)"
    "resolve_find path s = Some (Inr (0, name, map_option found_slot (find (entry_matches name) (dir_names s 0 []))), s)"
    using ok find_ready [OF assms(1)] by (simp_all add: fat16_locate_def resolve_find_def)
qed

lemma find_locate:
  assumes "dir_ready s 0 []" "root_path path name" "fat16_find_in_dir 0 name s = Some (r, s)"
  shows "fat16_locate path s = Some (Inr (0, name, r), s)"
  using locate_root(1) [OF assms(1,2)] assms(3) find_ready [OF assms(1), of name] by simp

lemma found_named:
  assumes "dir_ready s d ds" "fat16_find_in_dir d name s = Some (Some (e, l, i), s)"
  shows "\<exists>b. find (entry_matches name) (dir_names s d ds) = Some ((l, i, e), b) \<and> ((l, i, e), b) \<in> set (dir_names s d ds)"
proof -
  obtain y where y: "find (entry_matches name) (dir_names s d ds) = Some y" "found_slot y = (e, l, i)"
    using assms(2) find_ready [OF assms(1), of name] by auto
  obtain b where "y = ((l, i, e), b)" using y(2) by (cases y) (auto simp: found_slot_def split: prod.splits)
  then show ?thesis using y(1) find_SomeD [OF y(1)] by blast
qed

lemma find_replace:
  assumes "sfn_text e' = sfn_text e"
  shows "find (entry_matches m) (replace_slot (l, i, e) e' E) =
    map_option (\<lambda>(t, b). (if t = (l, i, e) then (l, i, e') else t, b)) (find (entry_matches m) E)"
proof (induction E)
  case (Cons y E)
  obtain t b where y: "y = (t, b)" by (cases y)
  have "entry_matches m (if t = (l, i, e) then (l, i, e') else t, b) = entry_matches m (t, b)"
    using assms by (auto simp: entry_matches_def match_sfn_def)
  then show ?case using Cons y by (cases "t = (l, i, e)") (simp_all add: replace_slot_def)
qed (simp add: replace_slot_def)

section \<open>Loading what a file holds\<close>

text \<open>The buffer a load returns: the contents of the file, or one zero byte for an empty file.\<close>

definition loaded :: "u8 list \<Rightarrow> ram_buffer" where
  "loaded content = (if content = [] then [Some 0] else map Some content)"

lemma load_file_ok:
  assumes "dir_ready s 0 []" "root_path path name" "fat16_find_in_dir 0 name s = Some (Some (e, l, i), s)"
    and "e_attributes e AND FAT_ATTR_DIRECTORY = 0" "file_at s (e_starting_cluster e) cs content" "unat (e_file_size e) = length content"
    and "kmalloc (if content = [] then 1 else e_file_size e) (fheap s) = Some (p, h)"
  shows "fat16_load_file path s = Some (Inr (if p = 0 then None else Some (p, loaded content, e_file_size e), s\<lparr>fheap := h\<rparr>))"
proof -
  have loc: "fat16_locate path s = Some (Inr (0, name, Some (e, l, i)), s)" by (rule find_locate [OF assms(1-3)])
  have ok: "fat_ok s" using assms(1) by (simp add: dir_ready_def)
  show ?thesis
  proof (cases "content = []")
    case True
    then have "e_file_size e = 0" using assms(6) by (simp add: unat_eq_0)
    then show ?thesis using loc assms(4,7) True by (simp add: fat16_load_file_def loaded_def)
  next
    case False
    then have sz: "e_file_size e \<noteq> 0" using assms(6) by auto
    have cs: "cs \<noteq> []" using False assms(5) by (auto simp: file_at_def)
    let ?s = "s\<lparr>fheap := h\<rparr>"
    have ok': "fat_ok ?s" using ok by (simp add: fat_ok_def disk_ok_def)
    have "fat_chain s (e_starting_cluster e) cs" using assms(5) cs by (simp add: file_at_def)
    then have ch: "fat_chain ?s (e_starting_cluster e) cs"
      by (rule fat_chain_cong) (simp_all add: fat_entry_def fat_sector_of_def valid_cluster_def fun_eq_iff)
    let ?n = "length content" and ?B = "file_bytes (sectors (dev s)) (chain_sectors (fs_cache s) cs)"
    have "take ?n ?B = content" using assms(5) by (simp add: file_at_def)
    then have "copy_chunk (replicate ?n None) 0 (take ?n ?B) = map Some content" by (simp add: copy_chunk_def)
    then have "load_clusters (e_starting_cluster e) (replicate ?n None) 0 ?n ?s = Some (Some (map Some content), ?s)"
      using load_clusters_ok [OF ok' ch, of 0 ?n "replicate ?n None"] by simp
    then show ?thesis using loc assms(4,6,7) False sz by (simp add: fat16_load_file_def loaded_def)
  qed
qed

text \<open>
  C6: writing a file and loading it.  A file of the root directory holds \<open>content\<close> in its clusters.
  \<open>fat16_write_file\<close> succeeds exactly if the new contents, the data or the old contents followed by
  the data, fit into the clusters of the file and the free ones.  Then loading the file returns the
  new contents, all other entries are found as before, and all files in other clusters hold what they
  held.  If they do not fit the result is -ENOSPC: the entry is unchanged, but no cluster is left free.
\<close>

theorem fat_write_load_roundtrip:
  assumes "dir_ready s 0 []" "root_path path name" "fat16_find_in_dir 0 name s = Some (Some (e, l, i), s)"
    and "e_attributes e AND FAT_ATTR_DIRECTORY = 0" "file_at s (e_starting_cluster e) cs content" "unat (e_file_size e) = length content"
    and "length (written app content data) < 2 ^ 32"
  shows "if length (written app content data) \<le> (length cs + card (free_clusters s)) * cluster_bytes s
    then \<exists>s' e'. fat16_write_file path data app s = Some (0, s') \<and> dir_ready s' 0 [] \<and>
      fat16_find_in_dir 0 name s' = Some (Some (e', l, i), s') \<and> unat (e_file_size e') = length (written app content data) \<and>
      (\<forall>p h. kmalloc (if written app content data = [] then 1 else e_file_size e') (fheap s) = Some (p, h) \<and> p \<noteq> 0 \<longrightarrow>
        fat16_load_file path s' = Some (Inr (Some (p, loaded (written app content data), e_file_size e'), s'\<lparr>fheap := h\<rparr>))) \<and>
      (\<forall>m x. fat16_find_in_dir 0 m s = Some (Some x, s) \<and> x \<noteq> (e, l, i) \<longrightarrow> fat16_find_in_dir 0 m s' = Some (Some x, s')) \<and>
      (\<forall>f2 cs2 c2. file_at s f2 cs2 c2 \<and> set cs2 \<inter> set cs = {} \<longrightarrow> file_at s' f2 cs2 c2)
    else \<exists>s'. fat16_write_file path data app s = Some (- ENOSPC, s') \<and>
      fat16_find_in_dir 0 name s' = Some (Some (e, l, i), s') \<and> free_clusters s' = {}"
proof -
  let ?new = "written app content data"
  have loc: "fat16_locate path s = Some (Inr (0, name, Some (e, l, i)), s)" by (rule find_locate [OF assms(1-3)])
  then have wf: "fat16_write_file path data app s = write_entry e l i data app s" by (simp add: fat16_write_file_def)
  obtain b where b: "find (entry_matches name) (dir_names s 0 []) = Some ((l, i, e), b)" "((l, i, e), b) \<in> set (dir_names s 0 [])"
    using found_named [OF assms(1,3)] by blast
  note W = write_entry_ok [OF assms(1) b(2) assms(4-6), of app data, folded wf]
  show ?thesis
  proof (cases "length ?new \<le> (length cs + card (free_clusters s)) * cluster_bytes s")
    case True
    then obtain s' first' cs' where w: "fat16_write_file path data app s = Some (0, s')" "dir_ready s' 0 []"
      "dir_names s' 0 [] = replace_slot (l, i, e) (set_entry first' (of_nat (length ?new)) e) (dir_names s 0 [])"
      "file_at s' first' cs' ?new" "fheap s' = fheap s"
      "\<forall>f2 cs2 c2. file_at s f2 cs2 c2 \<and> set cs2 \<inter> set cs = {} \<longrightarrow> file_at s' f2 cs2 c2" using W by auto
    let ?e = "set_entry first' (of_nat (length ?new)) e"
    have e32: "length e = 32" using slot_replace [OF assms(1) b(2)] by blast
    note F = set_entry_fields [OF e32, of first' "of_nat (length ?new)"]
    have find: "fat16_find_in_dir 0 m s' = Some (map_option (\<lambda>x. if x = (e, l, i) then (?e, l, i) else x)
        (map_option found_slot (find (entry_matches m) (dir_names s 0 []))), s')" for m
      unfolding find_ready [OF w(2)] w(3) find_replace [OF F(4)]
      by (cases "find (entry_matches m) (dir_names s 0 [])") (auto simp: found_slot_def split: prod.splits)
    have f': "fat16_find_in_dir 0 name s' = Some (Some (?e, l, i), s')" using find [of name] b(1) by (simp add: found_slot_def)
    have sz: "unat (e_file_size ?e) = length ?new" unfolding F(6) using assms(7) by (intro unat_of_nat_u32) simp
    have fa: "file_at s' (e_starting_cluster ?e) cs' ?new" using w(4) F(5) by simp
    have attr: "e_attributes ?e AND FAT_ATTR_DIRECTORY = 0" using F(3) assms(4) by simp
    have "fat16_load_file path s' = Some (Inr (Some (p, loaded ?new, e_file_size ?e), s'\<lparr>fheap := h\<rparr>))"
      if "kmalloc (if ?new = [] then 1 else e_file_size ?e) (fheap s) = Some (p, h)" "p \<noteq> 0" for p h
      using load_file_ok [OF w(2) assms(2) f' attr fa sz, unfolded w(5), OF that(1)] that(2) by simp
    moreover have "fat16_find_in_dir 0 m s' = Some (Some x, s')" if "fat16_find_in_dir 0 m s = Some (Some x, s)" "x \<noteq> (e, l, i)" for m x
    proof -
      have r: "map_option found_slot (find (entry_matches m) (dir_names s 0 [])) = Some x" using that(1) find_ready [OF assms(1), of m] by simp
      show ?thesis using find [of m] that(2) unfolding r by simp
    qed
    ultimately show ?thesis using w(1,2,6) f' sz unfolding if_P [OF True] by blast
  next
    case False
    then obtain s' where w: "fat16_write_file path data app s = Some (- ENOSPC, s')" "dir_ready s' 0 []"
      "dir_names s' 0 [] = dir_names s 0 []" "free_clusters s' = {}" using W by auto
    then have "fat16_find_in_dir 0 name s' = Some (Some (e, l, i), s')" using find_ready [OF w(2), of name] b(1) by (simp add: found_slot_def)
    then show ?thesis using w(1,4) unfolding if_not_P [OF False] by blast
  qed
qed

text \<open>The small volume with a file A of 600 zero bytes in the clusters 2 and 3.\<close>

definition file_slot :: "u8 list" where
  "file_slot = sfn_record (65 # replicate 10 32) FAT_ATTR_ARCHIVE 2 600"

definition file_volume :: fat_sys where
  "file_volume = set_sector 3 (put_slot (replicate 512 0) 0 file_slot) small_volume"

lemma file_slot_fields:
  "length file_slot = 32" "file_slot ! 0 = 65" "e_attributes file_slot = FAT_ATTR_ARCHIVE"
  "e_starting_cluster file_slot = 2" "e_file_size file_slot = 600" "sfn_text file_slot = [97]"
proof -
  have l: "length (65 # replicate 10 32 :: u8 list) = 11" by simp
  note F = sfn_record_fields [OF l, of FAT_ATTR_ARCHIVE 2 600]
  show "length file_slot = 32" "file_slot ! 0 = 65" "e_attributes file_slot = FAT_ATTR_ARCHIVE"
    "e_starting_cluster file_slot = 2" "e_file_size file_slot = 600" unfolding file_slot_def using F by simp_all
  show "sfn_text file_slot = [97]" unfolding file_slot_def sfn_text_record [OF l] by code_simp
qed

lemma file_volume_root:
  "dir_slots (sectors (dev file_volume)) (dir_sectors (fs_cache file_volume) 0 []) =
    (3, 0, file_slot) # map (\<lambda>i. (3, i, replicate 32 0)) [1..<16]"
  "dir_ready file_volume 0 []" "dir_names file_volume 0 [] = [((3, 0, file_slot), replicate 260 0)]"
proof -
  let ?f = "sectors (dev small_volume)"
  have sm: "length (?f k) = 512" for k using small_volume_ok by (simp add: fat_ok_def)
  have ls: "dir_sectors (fs_cache small_volume) 0 [] = [3]"
    by (simp add: dir_sectors_def root_sectors_def small_volume_def small_cache_def)
  have f3: "?f 3 = replicate 512 0" by (simp add: small_volume_def)
  have fv: "file_volume = set_sectors (?f(3 := put_slot (?f 3) 0 file_slot)) small_volume"
    unfolding file_volume_def set_sector_sectors f3 ..
  have len: "\<forall>k. length ((?f(3 := put_slot (?f 3) 0 file_slot)) k) = 512"
    using sm put_slot_length [OF _ sm file_slot_fields(1), of 0] by simp
  have "dir_slots (?f(3 := put_slot (?f 3) 0 file_slot)) [3] = (dir_slots ?f [3])[0 := (3, 0, file_slot)]"
    using dir_slots_update [of "[3]" 0 0 ?f file_slot] sm file_slot_fields(1) by simp
  also have "dir_slots ?f [3] = (3, 0, replicate 32 0) # map (\<lambda>i. (3, i, replicate 32 0)) [1..<16]"
    using small_root_slots unfolding ls by (simp add: upt_rec)
  finally show D: "dir_slots (sectors (dev file_volume)) (dir_sectors (fs_cache file_volume) 0 []) =
    (3, 0, file_slot) # map (\<lambda>i. (3, i, replicate 32 0)) [1..<16]" using ls by (simp add: fv del: fun_upd_apply)
  let ?post = "map (\<lambda>i. (3, i, replicate 32 0)) [1..<16] :: slot list"
  have at: "e_attributes file_slot \<noteq> FAT_ATTR_LFN" "e_attributes file_slot \<noteq> FAT_ATTR_VOLUME_ID"
    unfolding file_slot_fields by (simp_all add: FAT_ATTR_ARCHIVE_def FAT_ATTR_LFN_def FAT_ATTR_VOLUME_ID_def)
  have t: "dir_tidy ((3, 0, replicate 32 0) # ?post)" "fat_ok small_volume" "dir_run [3]"
    using small_root_ready(1) small_root_slots unfolding dir_ready_def ls by (simp_all add: upt_rec)
  have "free_window ((3, 0, replicate 32 0) # ?post) 1 [] [(3, 0, replicate 32 0)] ?post" by (simp add: free_window_def slot_free_def)
  from tidy_inserted [OF t(1) this, of "[(3, 0, file_slot)]"] have "dir_tidy ((3, 0, file_slot) # ?post)"
    using at file_slot_fields(2) by (simp add: slot_free_def lfn_safe_def)
  moreover have "fat_ok file_volume"
    unfolding fv using t(2) len by (simp add: fat_ok_def disk_ok_set_sectors)
  ultimately show "dir_ready file_volume 0 []" unfolding dir_ready_def D using t(3) ls by (simp add: fv dir_chain_def)
  show "dir_names file_volume 0 [] = [((3, 0, file_slot), replicate 260 0)]"
    unfolding dir_names_def D using at file_slot_fields(2) by (simp add: upt_rec)
qed

lemma file_volume_content:
  "fat16_find_in_dir 0 [97] file_volume = Some (Some (file_slot, 3, 0), file_volume)"
  "file_at file_volume 2 [2, 3] (replicate 600 0)"
  "cluster_bytes file_volume = 512"
proof -
  have "entry_matches [97] ((3, 0, file_slot), replicate 260 0)"
    by (simp add: entry_matches_def match_sfn_def file_slot_fields(6))
  then show "fat16_find_in_dir 0 [97] file_volume = Some (Some (file_slot, 3, 0), file_volume)"
    using find_ready [OF file_volume_root(2), of "[97]"] file_volume_root(3) by (simp add: found_slot_def)
  show cb: "cluster_bytes file_volume = 512"
    by (simp add: cluster_bytes_def file_volume_def set_sector_sectors small_volume_def small_cache_def)
  have e: "fat_entry file_volume c = fat_entry small_volume c" if "unat c < 256" for c
    using that by (simp add: fat_entry_def fat_sector_of_def file_volume_def set_sector_sectors small_volume_def small_cache_def)
  have v: "valid_cluster file_volume = valid_cluster small_volume"
    by (simp add: valid_cluster_def file_volume_def set_sector_sectors fun_eq_iff)
  have "fat_chain file_volume 2 [2, 3]" using e [of 2] e [of 3] small_volume_entries v by simp
  moreover have "file_bytes (sectors (dev file_volume)) (chain_sectors (fs_cache file_volume) [2, 3]) = replicate 1024 0"
    by (simp add: chain_sectors_def cluster_sectors_def cluster_lba_def file_volume_def set_sector_sectors small_volume_def small_cache_def
        replicate_add [symmetric])
  ultimately show "file_at file_volume 2 [2, 3] (replicate 600 0)" unfolding file_at_def cb by simp
qed

theorem fat_write_load_roundtrip_witness:
  "\<exists>s' e'. fat16_write_file [47, 97] [1, 2, 3] True file_volume = Some (0, s') \<and> unat (e_file_size e') = 603 \<and>
     (\<forall>p h. kmalloc (e_file_size e') (fheap file_volume) = Some (p, h) \<and> p \<noteq> 0 \<longrightarrow>
       fat16_load_file [47, 97] s' = Some (Inr (Some (p, map Some (replicate 600 0 @ [1, 2, 3]), e_file_size e'), s'\<lparr>fheap := h\<rparr>)))"
proof -
  have rp: "root_path [47, 97] [97]" by (simp add: root_path_def)
  have w: "written True (replicate 600 0) [1, 2, 3] = replicate 600 0 @ [1, 2, 3]" by (simp add: written_def)
  have d: "e_attributes file_slot AND FAT_ATTR_DIRECTORY = 0"
    unfolding file_slot_fields by (simp add: FAT_ATTR_ARCHIVE_def FAT_ATTR_DIRECTORY_def)
  have "length (written True (replicate 600 0) [1, 2, 3]) \<le> (length [2 :: u16, 3] + card (free_clusters file_volume)) * cluster_bytes file_volume"
    unfolding w file_volume_content(3) by simp
  with fat_write_load_roundtrip [OF file_volume_root(2) rp file_volume_content(1) d, of "[2, 3]" "replicate 600 0" True "[1, 2, 3]"]
    file_volume_content(2) file_slot_fields(4,5)
  show ?thesis unfolding w by (auto simp: loaded_def)
qed

section \<open>Creating and deleting files\<close>

lemma created_file_at: "fat_ok s \<Longrightarrow> file_at s 0 [] []"
  using cluster_bytes_pos [of s] by (simp add: file_at_def)



text \<open>
  C23: \<open>fat16_delete_file\<close> on the root directory.  A name that is not found gives -ENOENT and a
  directory -EISDIR, both with nothing changed.  Otherwise exactly the entry of the file disappears
  from every search, exactly its clusters become free, and files in other clusters keep their contents.
\<close>

theorem fat_delete_file_correct:
  assumes "dir_ready s 0 []" "root_path path name" "fat16_find_in_dir 0 name s = Some (r, s)"
  shows "case r of None \<Rightarrow> fat16_delete_file path s = Some (- ENOENT, s)
    | Some (e, l, i) \<Rightarrow>
        (if e_attributes e AND FAT_ATTR_DIRECTORY \<noteq> 0 then fat16_delete_file path s = Some (- EISDIR, s)
         else \<forall>cs content. file_at s (e_starting_cluster e) cs content \<longrightarrow>
           (\<exists>s'. fat16_delete_file path s = Some (0, s') \<and> free_clusters s' = free_clusters s \<union> set cs \<and>
             (\<forall>m. fat16_find_in_dir 0 m s' =
               Some (map_option found_slot (find (entry_matches m) (remove_slot (l, i, e) (dir_names s 0 []))), s')) \<and>
             (\<forall>f2 cs2 c2. file_at s f2 cs2 c2 \<and> set cs2 \<inter> set cs = {} \<longrightarrow> file_at s' f2 cs2 c2)))"
proof (cases r)
  case None
  then show ?thesis using find_locate [OF assms] by (simp add: fat16_delete_file_def)
next
  case (Some x)
  obtain e l i where x: "x = (e, l, i)" by (cases x)
  have loc: "fat16_locate path s = Some (Inr (0, name, Some (e, l, i)), s)" using find_locate [OF assms] Some x by simp
  have ok: "fat_ok s" "dir_chain s 0 []" using assms(1) by (simp_all add: dir_ready_def)
  obtain b where b: "((l, i, e), b) \<in> set (dir_names s 0 [])" using found_named [OF assms(1)] assms(3) Some x by blast
  have "\<exists>s'. fat16_delete_file path s = Some (0, s') \<and> free_clusters s' = free_clusters s \<union> set cs \<and>
      (\<forall>m. fat16_find_in_dir 0 m s' =
        Some (map_option found_slot (find (entry_matches m) (remove_slot (l, i, e) (dir_names s 0 []))), s')) \<and>
      (\<forall>f2 cs2 c2. file_at s f2 cs2 c2 \<and> set cs2 \<inter> set cs = {} \<longrightarrow> file_at s' f2 cs2 c2)"
    if a: "e_attributes e AND FAT_ATTR_DIRECTORY = 0" "file_at s (e_starting_cluster e) cs content" for cs content
  proof -
    let ?t = "fold (\<lambda>x. set_fat x 0) cs s"
    note R = release_ok [OF ok(1) a(2)]
    have X: "set cs \<inter> set [] = {}" by simp
    note U = entry_update [OF assms(1) b R(2) X]
    note D = fat_frameD [OF R(2)]
    let ?w = "set_sector l (put_slot (sectors (dev ?t) l) i (e[0 := 0xE5])) ?t"
    have ok1: "fat_ok ?t" "dir_chain ?t 0 []" using D(6) [OF ok(1)] by (simp_all add: dir_chain_def)
    have ll: "l \<in> set (dir_sectors (fs_cache ?t) 0 [])" using U(3) D(1) by simp
    have "length (put_slot (sectors (dev ?t) l) i (e[0 := 0xE5])) = 512"
      using ok1(1) U(4) by (intro put_slot_length [OF U(5)]) (simp_all add: fat_ok_def)
    note W = dir_sector_write [OF ok1 ll this]
    have "fat16_delete_file path s = Some (0, ?w)" using loc a(1) R(1) U(2) unfolding fat16_delete_file_def by auto
    moreover have "free_clusters ?w = free_clusters s \<union> set cs" using W(3) R(3) by simp
    moreover have "file_at ?w f2 cs2 c2" if "file_at s f2 cs2 c2" "set cs2 \<inter> set cs = {}" for f2 cs2 c2
      using W(4) [OF file_at_frame [OF ok(1) R(2) that]] by simp
    ultimately show ?thesis using U(8) by blast
  qed
  then show ?thesis using Some x loc by (simp add: fat16_delete_file_def)
qed

theorem fat_delete_file_correct_witness:
  "\<exists>s'. fat16_delete_file [97] file_volume = Some (0, s') \<and> fat16_find_in_dir 0 [97] s' = Some (None, s') \<and>
     free_clusters s' = free_clusters file_volume \<union> {2, 3}"
proof -
  have rp: "root_path [97] [97]" by (simp add: root_path_def)
  have d: "e_attributes file_slot AND FAT_ATTR_DIRECTORY = 0"
    unfolding file_slot_fields by (simp add: FAT_ATTR_ARCHIVE_def FAT_ATTR_DIRECTORY_def)
  have "remove_slot (3, 0, file_slot) (dir_names file_volume 0 []) = []" by (simp add: file_volume_root(3) remove_slot_def)
  then show ?thesis
    using fat_delete_file_correct [OF file_volume_root(2) rp file_volume_content(1)] d file_volume_content(2) file_slot_fields(4) by auto
qed

end
