(* ===== verification/Fat16_Folders.thy ===== *)
theory Fat16_Folders
  imports Fat16_Ops
begin

text \<open>
  Making and removing directories, src/src/fs/fat16.c: the cluster of a new directory, the check that a
  directory is empty, and the round trip of \<open>fat16_make_directory\<close> and \<open>fat16_remove_directory\<close>.
\<close>

unbundle bit_operations_syntax


section \<open>Making and removing directories\<close>

lemma dir_slots_frame:
  assumes "dir_ready s d ds" "fat_frame s X s'" "X \<inter> set ds = {}"
  shows "dir_slots (sectors (dev s')) (dir_sectors (fs_cache s') d ds) = dir_slots (sectors (dev s)) (dir_sectors (fs_cache s) d ds)"
proof -
  have ok: "fat_ok s" "dir_chain s d ds" using assms(1) by (simp_all add: dir_ready_def)
  show ?thesis unfolding dir_slots_def fat_frameD(1) [OF assms(2)]
    using dir_sectors_frame [OF ok assms(2,3)] by (intro arg_cong [of _ _ concat]) simp
qed

lemma named_distinct: "distinct D \<Longrightarrow> distinct (map fst (named_entries D b))"
proof (induction D b rule: named_entries.induct)
  case (2 l i e xs b)
  have "(l, i, e) \<notin> fst ` set (named_entries xs c)" for c using 2(5) named_slots by fastforce
  then show ?case using 2 by simp
qed simp

lemma names_distinct: "dir_ready s d ds \<Longrightarrow> distinct (map fst (dir_names s d ds))"
  unfolding dir_names_def dir_ready_def
  by (intro named_distinct dir_slots_distinct) (metis contiguous_def dir_run_nth(1))

lemma remove_slot_middle: "distinct (map fst (E1 @ (sl, b) # E2)) \<Longrightarrow> remove_slot sl (E1 @ (sl, b) # E2) = E1 @ E2"
proof -
  assume d: "distinct (map fst (E1 @ (sl, b) # E2))"
  have "filter (\<lambda>x. fst x \<noteq> sl) E = E" if "sl \<notin> fst ` set E" for E :: "(slot \<times> u8 list) list"
    using that by (auto simp: filter_id_conv)
  then show ?thesis using d by (simp add: remove_slot_def)
qed

lemma write_dir_sectors_ok:
  assumes "disk_ok s" "\<And>l. l \<in> set ls \<Longrightarrow> l < 0x10000000" "distinct ls" "length b = 512"
  shows "\<exists>f. write_dir_sectors ls b s = (True, set_sectors f s) \<and> (\<forall>l. length (f l) = 512) \<and>
    (\<forall>l. l \<notin> set ls \<longrightarrow> f l = sectors (dev s) l) \<and> (ls \<noteq> [] \<longrightarrow> f (hd ls) = b)"
  using assms
proof (induction ls arbitrary: s b)
  case Nil
  then show ?case by (intro exI [of _ "sectors (dev s)"]) simp
next
  case (Cons l ls)
  let ?s = "set_sector l b s"
  have "\<exists>f. write_dir_sectors ls (replicate 512 0) ?s = (True, set_sectors f ?s) \<and> (\<forall>k. length (f k) = 512) \<and>
      (\<forall>k. k \<notin> set ls \<longrightarrow> f k = sectors (dev ?s) k) \<and> (ls \<noteq> [] \<longrightarrow> f (hd ls) = replicate 512 0)"
    using Cons.prems by (intro Cons.IH) simp_all
  then obtain f where f: "write_dir_sectors ls (replicate 512 0) ?s = (True, set_sectors f ?s)" "\<forall>k. length (f k) = 512"
      "\<forall>k. k \<notin> set ls \<longrightarrow> f k = sectors (dev ?s) k" by blast
  have "write_dir_sectors (l # ls) b s = (True, set_sectors f s)"
    using f(1) Cons.prems(1,2,4) by (simp add: Let_def) (simp add: set_sector_sectors)
  then show ?case using f(2,3) Cons.prems(3) by (intro exI [of _ f]) auto
qed

definition new_dir :: "u16 \<Rightarrow> u16 \<Rightarrow> u8 list" where
  "new_dir c parent = put_slot (put_slot (replicate 512 0) 0 (dot_entry [46] c)) 1 (dot_entry [46, 46] parent)"

lemma dot_entry_fields:
  assumes "dots = [46] \<or> dots = [46, 46]"
  shows "length (dot_entry dots c) = 32" "e_attributes (dot_entry dots c) = FAT_ATTR_DIRECTORY" "e_starting_cluster (dot_entry dots c) = c"
    "dot_entry dots c ! 0 = 46" "dot_entry dots c ! 1 = 32 \<or> dot_entry dots c ! 1 = 46 \<and> dot_entry dots c ! 2 = 32"
  using assms by (auto simp: dot_entry_def e_attributes_def e_starting_cluster_def put16_nth write_at_eq nth_append numeral_nat)

lemma new_dir_slots:
  "length (new_dir c p) = 512" "slot_of (new_dir c p) 0 = dot_entry [46] c" "slot_of (new_dir c p) 1 = dot_entry [46, 46] p"
  "slot_of (new_dir c p) 2 = replicate 32 0"
proof -
  let ?z = "replicate 512 0 :: u8 list"
  have l: "length (dot_entry [46] c) = 32" "length (dot_entry [46, 46] p) = 32" using dot_entry_fields(1) by simp_all
  have p1: "length (put_slot ?z 0 (dot_entry [46] c)) = 512" using put_slot_length [of 0 ?z, OF _ _ l(1)] by simp
  show "length (new_dir c p) = 512" unfolding new_dir_def using put_slot_length [of 1, OF _ p1 l(2)] by simp
  note s1 = slot_of_put_slot [of 1 _ "put_slot ?z 0 (dot_entry [46] c)", OF _ _ p1 l(2)]
  note s0 = slot_of_put_slot [of 0 _ ?z, OF _ _ _ l(1)]
  show "slot_of (new_dir c p) 0 = dot_entry [46] c" "slot_of (new_dir c p) 1 = dot_entry [46, 46] p"
    "slot_of (new_dir c p) 2 = replicate 32 0"
    unfolding new_dir_def using s1 [of 0] s1 [of 1] s1 [of 2] s0 [of 0] s0 [of 2] by (simp_all add: slot_of_def [of "replicate _ _"])
qed

definition empty_step :: "u32 \<Rightarrow> nat \<Rightarrow> u8 list \<Rightarrow> nat \<Rightarrow> int \<times> nat" where
  "empty_step l i e n = map_prod id fst (the (empty_check_callback l i e n undefined))"

lemma empty_pure: "pure_visitor empty_check_callback empty_step"
  by (simp add: pure_visitor_def empty_step_def empty_check_callback_def Let_def)

lemma new_dir_empty:
  assumes "f l = new_dir c p"
  shows "scan empty_step (dir_slots f (l # ls)) 0 = (1, 0)"
proof -
  have "dir_slots f (l # ls) = (l, 0, dot_entry [46] c) # (l, 1, dot_entry [46, 46] p) # (l, 2, replicate 32 0) #
      map (\<lambda>i. (l, i, slot_of (f l) i)) [3..<16] @ dir_slots f ls"
    using assms new_dir_slots [of c p] by (simp add: dir_slots_def upt_conv_Cons numeral_nat)
  moreover have "empty_step l i (dot_entry dots k) 0 = (0, 0)" if "dots = [46] \<or> dots = [46, 46]" for i dots k
    using dot_entry_fields [OF that, of k]
    by (simp add: empty_step_def empty_check_callback_def Let_def FAT_ATTR_DIRECTORY_def FAT_ATTR_VOLUME_ID_def FAT_ATTR_LFN_def)
  moreover have "empty_step l i (replicate 32 0) 0 = (1, 0)" for i by (simp add: empty_step_def empty_check_callback_def Let_def)
  ultimately show ?thesis by simp
qed

text \<open>The cluster of a new directory: taken from the free ones and filled with the two links.\<close>

lemma new_dir_cluster:
  assumes "dir_ready s 0 []" "free_clusters s \<noteq> {}"
  shows "\<exists>c t. c \<in> free_clusters s \<and> fat_frame s {c} t \<and> free_clusters t = free_clusters s - {c} \<and> fat_chain t c [c] \<and>
    sectors (dev t) (hd (cluster_sectors (fs_cache s) c)) = new_dir c 0 \<and> cluster_sectors (fs_cache s) c \<noteq> [] \<and>
    (\<forall>path name. fat16_locate path s = Some (Inr (0, name, None), s) \<longrightarrow>
      fat16_make_directory path s = fat16_insert_entry 0 name FAT_ATTR_DIRECTORY c 0 t)"
proof -
  have ok: "fat_ok s" using assms(1) by (simp add: dir_ready_def)
  obtain c where c: "free_cluster s c" "fat16_alloc_cluster s = Some (c, set_fat c 0xFFFF s)"
    using alloc_cluster_ok [OF ok] assms(2) by (auto simp: free_clusters_def)
  let ?s = "set_fat c 0xFFFF s"
  have v: "valid_cluster s c" using c(1) by (simp add: free_cluster_def)
  have ok1: "fat_ok ?s" "valid_cluster ?s c" using ok v by simp_all
  let ?ls = "cluster_sectors (fs_cache s) c"
  have ne: "?ls \<noteq> []" using ok by (auto simp: cluster_sectors_def fat_ok_def geometry_ok_def)
  have "\<exists>f. write_dir_sectors ?ls (new_dir c 0) ?s = (True, set_sectors f ?s) \<and> (\<forall>l. length (f l) = 512) \<and>
    (\<forall>l. l \<notin> set ?ls \<longrightarrow> f l = sectors (dev ?s) l) \<and> (?ls \<noteq> [] \<longrightarrow> f (hd ?ls) = new_dir c 0)"
    using cluster_sectors_bound(1) [OF ok v] cluster_sectors_distinct [OF ok v] new_dir_slots(1) ok1(1)
    by (intro write_dir_sectors_ok) (simp_all add: fat_ok_def)
  then obtain f where f: "write_dir_sectors ?ls (new_dir c 0) ?s = (True, set_sectors f ?s)" "\<forall>l. length (f l) = 512"
    "\<forall>l. l \<notin> set ?ls \<longrightarrow> f l = sectors (dev ?s) l" "f (hd ?ls) = new_dir c 0" using ne by blast
  let ?t = "set_sectors f ?s"
  have "\<forall>l \<in> fat_area ?s. f l = sectors (dev ?s) l" using f(3) cluster_not_fat [OF ok v] by auto
  note fr = set_sectors_frame [OF ok1(1) f(2) this]
  have e: "fat_entry ?t x = (if x = c then 0xFFFF else fat_entry s x)" if "valid_cluster s x" for x
    using fr(4) [of x] fat_entry_set_fat [OF ok v that] that by simp
  have v': "valid_cluster ?t = valid_cluster s" using fr(2) by simp
  have ft: "fat_frame ?s {c} ?t" unfolding fat_frame_def using f(2,3) fr(4) v by auto
  have "fat_frame s {c} ?t" by (rule fat_frame_trans [OF set_fat_frame [OF ok v] ft]) simp
  moreover have "free_clusters ?t = free_clusters s - {c}"
    using e v by (intro free_after_take [OF ok c(1)]) (simp_all add: v')
  moreover have "fat_chain ?t c [c]" using v v' e [OF v] by simp
  moreover have "fat16_make_directory path s = fat16_insert_entry 0 name FAT_ATTR_DIRECTORY c 0 ?t"
    if "fat16_locate path s = Some (Inr (0, name, None), s)" for path name
  proof -
    have "c \<noteq> 0" using v by (auto simp: valid_cluster_def)
    then show ?thesis using that c(2) f(1) unfolding fat16_make_directory_def new_dir_def by simp
  qed
  ultimately show ?thesis using c(1) f(4) ne by (intro exI [of _ c] exI [of _ ?t]) (simp add: free_clusters_def)
qed

text \<open>Removing a directory that holds its two links only.\<close>

lemma remove_new_dir:
  assumes ready: "dir_ready t 0 []" and rp: "root_path path name" and found: "fat16_find_in_dir 0 name t = Some (Some (e, l, i), t)"
    and x: "((l, i, e), b) \<in> set (dir_names t 0 [])" and e: "e_attributes e = FAT_ATTR_DIRECTORY" "e_starting_cluster e = c"
    and ch: "fat_chain t c [c]" and ls: "cluster_sectors (fs_cache t) c = l0 # ls" "sectors (dev t) l0 = new_dir c 0"
  obtains w where "fat16_remove_directory path t = Some (0, w)" "free_clusters w = free_clusters t \<union> {c}"
    "\<And>m. fat16_find_in_dir 0 m w = Some (map_option found_slot (find (entry_matches m) (remove_slot (l, i, e) (dir_names t 0 []))), w)"
proof -
  have ok: "fat_ok t" using ready by (simp add: dir_ready_def)
  have v: "valid_cluster t c" "c \<noteq> 0" using ch by (auto simp: valid_cluster_def)
  then have dc: "dir_chain t c [c]" using ch by (simp add: dir_chain_def)
  have it: "iterate_directory c empty_check_callback 0 t = Some (0, 0, t)"
    using iterate_directory_scan [OF empty_pure ok dc, of 0] new_dir_empty [of "sectors (dev t)" l0 c 0 ls] ls v(2) by (simp add: dir_sectors_def)
  let ?u = "set_fat c 0 t"
  have rel: "fat16_free_chain c t = Some ?u" using free_chain_ok [OF ok ch] by simp
  note U = entry_update [OF ready x set_fat_frame [OF ok v(1), of 0], simplified]
  let ?w = "set_sector l (put_slot (sectors (dev ?u) l) i (e[0 := 0xE5])) ?u"
  have rm: "fat16_remove_directory path t = Some (0, ?w)"
    using find_locate [OF ready rp found] e it rel U(2) by (simp add: fat16_remove_directory_def FAT_ATTR_DIRECTORY_def)
  have uk: "fat_ok ?u" "dir_chain ?u 0 []" using ok by (simp_all add: dir_chain_def)
  have "l \<in> set (dir_sectors (fs_cache ?u) 0 [])" using U(3) by simp
  moreover have "length (put_slot (sectors (dev ?u) l) i (e[0 := 0xE5])) = 512"
    using uk(1) U(4) by (intro put_slot_length [OF U(5)]) (simp_all add: fat_ok_def)
  ultimately have "free_clusters ?w = free_clusters ?u" by (rule dir_sector_write(3) [OF uk])
  also have "\<dots> = free_clusters t \<union> {c}"
    using fat_entry_set_fat [OF ok v(1)] v(1) by (auto simp: free_clusters_def free_cluster_def split: if_splits)
  finally show thesis by (rule that [OF rm]) (rule U(8))
qed

text \<open>The entry of a new directory in its parent.\<close>

lemma insert_new_dir:
  assumes ready: "dir_ready t 0 []" and name: "name_ok name" and few: "2 * length (dir_names t 0 []) < 999"
    and none: "fat16_find_in_dir 0 name t = Some (None, t)" and ch: "fat_chain t c [c]"
    and room: "has_room ((length name + 12) div 13 + 1) (dir_slots (sectors (dev t)) (dir_sectors (fs_cache t) 0 []))"
  obtains t' e l i b where "fat16_insert_entry 0 name FAT_ATTR_DIRECTORY c 0 t = Some (0, t')" "dir_ready t' 0 []"
    "fat16_find_in_dir 0 name t' = Some (Some (e, l, i), t')" "((l, i, e), b) \<in> set (dir_names t' 0 [])"
    "e_attributes e = FAT_ATTR_DIRECTORY" "e_starting_cluster e = c" "fat_chain t' c [c]" "fs_cache t' = fs_cache t"
    "\<forall>k \<in> set (cluster_sectors (fs_cache t) c). sectors (dev t') k = sectors (dev t) k" "free_clusters t' = free_clusters t"
    "remove_slot (l, i, e) (dir_names t' 0 []) = dir_names t 0 []"
proof -
  have at: "FAT_ATTR_DIRECTORY \<noteq> FAT_ATTR_LFN" "FAT_ATTR_DIRECTORY \<noteq> FAT_ATTR_VOLUME_ID"
    by (simp_all add: FAT_ATTR_LFN_def FAT_ATTR_VOLUME_ID_def FAT_ATTR_DIRECTORY_def)
  obtain a g E1 E2 l i where g: "a < 1000" "fat16_insert_entry 0 name FAT_ATTR_DIRECTORY c 0 t = Some (0, set_sectors g t)"
    "dir_ready (set_sectors g t) 0 []" "dir_names t 0 [] = E1 @ E2" "\<forall>l. l \<notin> set (dir_sectors (fs_cache t) 0 []) \<longrightarrow> g l = sectors (dev t) l"
    "dir_names (set_sectors g t) 0 [] = E1 @ ((l, i, sfn_record (generate_short_name name a) FAT_ATTR_DIRECTORY c 0),
      name @ replicate (260 - length name) 0) # E2"
    using insert_entry_effect [OF ready name at few, of c 0] room by auto
  let ?t = "set_sectors g t" and ?e = "sfn_record (generate_short_name name a) FAT_ATTR_DIRECTORY c 0"
  let ?b = "name @ replicate (260 - length name) 0"
  have tk: "fat_ok t" "dir_chain t 0 []" "fat_ok ?t" using ready g(3) by (simp_all add: dir_ready_def)
  have "length (sectors (dev ?t) k) = 512" for k using tk(3) by (intro disk_ok_length) (simp add: fat_ok_def)
  then have gl: "length (g k) = 512" for k by simp
  have out: "\<And>k. k \<notin> set (dir_sectors (fs_cache t) 0 []) \<Longrightarrow> g k = sectors (dev t) k" using g(5) by blast
  note A = dir_area_write(3,4) [OF tk(1,2) gl out]
  have sln: "length (generate_short_name name a) = 11" using generate_short_name_eq [of name a] tail_len_range [of a] g(1)
    by (auto simp: keep_len_def numeric_tail_length)
  have nm: "\<forall>y \<in> set (E1 @ E2). \<not> entry_matches name y" using none find_ready [OF ready, of name] g(4) by (auto simp: find_None_iff)
  have "entry_matches name ((l, i, ?e), ?b)"
    using new_entry_matches [OF name sln sfn_target_nonzero [OF g(1)]] name by (simp add: c_text_id name_ok_def)
  then have f1: "find (entry_matches name) (dir_names ?t 0 []) = Some ((l, i, ?e), ?b)"
    using nm unfolding g(6) by (simp add: find_append find_None_iff [THEN iffD2])
  then have found: "fat16_find_in_dir 0 name ?t = Some (Some (?e, l, i), ?t)" using find_ready [OF g(3), of name] by (simp add: found_slot_def)
  have vc: "valid_cluster t c" using ch by simp
  show thesis
  proof (rule that [OF g(2,3) found])
    show "((l, i, ?e), ?b) \<in> set (dir_names ?t 0 [])" using find_SomeD [OF f1] by blast
    show "\<forall>k \<in> set (cluster_sectors (fs_cache t) c). sectors (dev ?t) k = sectors (dev t) k"
      using out dir_sector_not_cluster [OF tk(1,2) _ vc] by auto
    show "fat_chain ?t c [c]" by (rule iffD2 [OF A(2) ch])
    show "remove_slot (l, i, ?e) (dir_names ?t 0 []) = dir_names t 0 []"
      using names_distinct [OF g(3)] g(4) unfolding g(6) by (simp add: remove_slot_middle)
  qed (use A(1) sfn_record_fields [OF sln, of FAT_ATTR_DIRECTORY c 0] in simp_all)
qed



end
