(* ===== verification/Shell_Line.thy ===== *)
theory Shell_Line
  imports Keyboard Fat16_Names Ata
begin

text \<open>
  The line editor of src/src/shell/shell.c: typing, the history of commands and the splitting of a line
  into words.  Strings are lists of the bytes in front of the terminating zero; \<open>key_buffer\<close>, which is
  changed byte by byte, is the list of its 256 bytes.
\<close>

section \<open>State\<close>

record shell =
  history :: "u8 list list"
  history_count :: nat
  history_pos :: int
  live_line_backup :: "u8 list"
  key_buffer :: "u8 list"
  buffer_idx :: nat

definition shell_start :: shell where
  "shell_start = \<lparr>history = replicate 256 [], history_count = 0, history_pos = -1, live_line_backup = [],
     key_buffer = replicate 256 0, buffer_idx = 0\<rparr>"

text \<open>The older commands are moved down one by one, from the last place to the second.\<close>

definition history_save :: "u8 list \<Rightarrow> shell \<Rightarrow> shell" where
  "history_save cmd s =
     (if cmd = [] then s
      else if history_count s > 0 \<and> history s ! 0 = cmd then s
      else let h = fold (\<lambda>i h. h[i := h ! (i - 1)]) (rev [1..<256]) (history s)
           in s\<lparr>history := h[0 := take 255 cmd],
                history_count := (if history_count s < 256 then history_count s + 1 else history_count s)\<rparr>)"

text \<open>What erases one character on the screen.\<close>

definition rub_out :: "console \<Rightarrow> console" where
  "rub_out c = print_char 8 (print_char 32 (print_char 8 c))"

definition shell_replace_line :: "u8 list \<Rightarrow> shell \<times> console \<Rightarrow> shell \<times> console" where
  "shell_replace_line new_line = (\<lambda>(s, c).
     let c1 = (rub_out ^^ buffer_idx s) c;
         text = take 255 new_line
     in (s\<lparr>key_buffer := (write_at (key_buffer s) 0 text)[length text := 0], buffer_idx := length text\<rparr>, fold print_char text c1))"

definition history_load :: "int \<Rightarrow> shell \<times> console \<Rightarrow> shell \<times> console" where
  "history_load pos = (\<lambda>(s, c).
     if pos < 0 \<or> pos \<ge> int (history_count s) then (s, c) else shell_replace_line (history s ! nat pos) (s, c))"

definition shell_prompt :: "console \<Rightarrow> console" where
  "shell_prompt c = set_print_color 0x0F (puts_text ''BenmoshOS> '' (set_print_color 0x0E c))"

text \<open>
  The branches of \<open>shell_keyboard\<close> for a character that is not 0.  A command line to execute is
  returned; the prompt that follows its execution is not part of this function.
\<close>

definition shell_key :: "u8 \<Rightarrow> shell \<times> console \<Rightarrow> u8 list option \<times> shell \<times> console" where
  "shell_key ch = (\<lambda>(s, c).
     if ch = 0x03
     then (None, s\<lparr>buffer_idx := 0, key_buffer := (key_buffer s)[0 := 0], live_line_backup := [], history_pos := -1\<rparr>,
           shell_prompt (puts_text (''^C'' @ newline) c))
     else if ch = 0x11
     then if history_count s = 0 then (None, s, c)
          else let next_pos = (if history_pos s < 0 then 0 else history_pos s + 1)
               in if next_pos < int (history_count s)
                  then let s1 = (if history_pos s < 0
                                 then let b = (key_buffer s)[buffer_idx s := 0] in s\<lparr>key_buffer := b, live_line_backup := c_text b\<rparr>
                                 else s)
                       in (None, history_load next_pos (s1\<lparr>history_pos := next_pos\<rparr>, c))
                  else (None, s, c)
     else if ch = 0x12
     then if history_pos s > 0 then (None, history_load (history_pos s - 1) (s\<lparr>history_pos := history_pos s - 1\<rparr>, c))
          else if history_pos s = 0 then (None, shell_replace_line (live_line_backup s) (s\<lparr>history_pos := -1\<rparr>, c))
          else (None, s, c)
     else if ch = 10
     then let c1 = print_char 10 c;
              b = (key_buffer s)[buffer_idx s := 0];
              s1 = history_save (c_text b) (s\<lparr>key_buffer := b\<rparr>)
          in (Some (c_text b), s1\<lparr>buffer_idx := 0, key_buffer := (key_buffer s1)[0 := 0], live_line_backup := [], history_pos := -1\<rparr>, c1)
     else if ch = 8
     then if buffer_idx s > 0
          then (None, s\<lparr>buffer_idx := buffer_idx s - 1, key_buffer := (key_buffer s)[buffer_idx s - 1 := 0]\<rparr>, rub_out c)
          else (None, s, c)
     else if buffer_idx s < 255
     then (None, s\<lparr>key_buffer := (key_buffer s)[buffer_idx s := ch, buffer_idx s + 1 := 0], buffer_idx := buffer_idx s + 1\<rparr>, print_char ch c)
     else (None, s, c))"

section \<open>Splitting a line into words\<close>

definition is_blank :: "u8 \<Rightarrow> bool" where
  "is_blank ch \<longleftrightarrow> ch = 32 \<or> ch = 9 \<or> ch = 10 \<or> ch = 13"

text \<open>
  The loop over the line: blanks are overwritten with zeros and \<open>argv\<close> collects where the words start.
  \<open>None\<close> is the return after the message about too many arguments.
\<close>

function tok_loop :: "u8 list \<Rightarrow> nat \<Rightarrow> nat list \<Rightarrow> bool \<Rightarrow> (u8 list \<times> nat list) option" where
  "tok_loop command i argv in_word =
     (if i < length command \<and> command ! i \<noteq> 0
      then if is_blank (command ! i) then tok_loop (command[i := 0]) (Suc i) argv False
           else if \<not> in_word
           then if length argv \<ge> 32 - 1 then None else tok_loop command (Suc i) (argv @ [i]) True
           else tok_loop command (Suc i) argv in_word
      else Some (command, argv))"
  by pat_completeness auto
termination by (relation "measure (\<lambda>(command, i, _, _). length command - i)") auto

declare tok_loop.simps [simp del]

definition tokenize :: "u8 list \<Rightarrow> u8 list list option" where
  "tokenize command = map_option (\<lambda>(text, argv). map (\<lambda>i. c_text (drop i text)) argv) (tok_loop command 0 [] False)"

text \<open>The words of a line.\<close>

function line_words :: "u8 list \<Rightarrow> u8 list list" where
  "line_words xs = (case dropWhile is_blank xs of [] \<Rightarrow> []
     | y # ys \<Rightarrow> (y # takeWhile (\<lambda>c. \<not> is_blank c) ys) # line_words (dropWhile (\<lambda>c. \<not> is_blank c) ys))"
  by pat_completeness auto
termination
proof (relation "measure length")
  fix xs y and ys :: "u8 list"
  assume "dropWhile is_blank xs = y # ys"
  then have "Suc (length ys) \<le> length xs" using length_dropWhile_le [of is_blank xs] by simp
  then show "(dropWhile (\<lambda>c. \<not> is_blank c) ys, xs) \<in> measure length"
    using length_dropWhile_le [of "\<lambda>c. \<not> is_blank c" ys] by simp
qed simp

declare line_words.simps [simp del]

lemma line_words_simps:
  "line_words [] = []" "is_blank x \<Longrightarrow> line_words (x # xs) = line_words xs"
  "\<not> is_blank x \<Longrightarrow> line_words (x # xs) = (x # takeWhile (\<lambda>c. \<not> is_blank c) xs) # line_words (dropWhile (\<lambda>c. \<not> is_blank c) xs)"
  by (simp_all add: line_words.simps [of "x # xs"] line_words.simps [of "[]"] line_words.simps [of xs])

text \<open>
  The loop at position \<open>length pre\<close>: the words of \<open>argv\<close> are closed by a zero in \<open>pre\<close>; inside a word
  the last of them is still open.
\<close>

definition closed_words :: "u8 list \<Rightarrow> nat list \<Rightarrow> bool" where
  "closed_words pre argv \<longleftrightarrow> (\<forall>i\<in>set argv. i \<le> length pre \<and> 0 \<in> set (drop i pre))"

definition words_of :: "u8 list \<times> nat list \<Rightarrow> u8 list list" where
  "words_of = (\<lambda>(text, argv). map (\<lambda>i. c_text (drop i text)) argv)"

lemma c_text_closed: "0 \<in> set xs \<Longrightarrow> c_text (xs @ ys) = c_text xs"
  unfolding c_text_def by (induction xs) auto

lemma c_text_open: "0 \<notin> set xs \<Longrightarrow> c_text (xs @ ys) = xs @ c_text ys"
  unfolding c_text_def by (induction xs) auto

lemma words_closed:
  "closed_words pre argv \<Longrightarrow> words_of (pre @ rest, argv) = words_of (pre, argv)"
  by (auto simp: closed_words_def words_of_def c_text_closed)

lemma closed_words_append: "closed_words pre argv \<Longrightarrow> closed_words (pre @ xs) argv"
  by (auto simp: closed_words_def)

lemma words_of_append [simp]: "words_of (text, a @ b) = words_of (text, a) @ words_of (text, b)"
  by (simp add: words_of_def)

lemma words_of_single [simp]: "words_of (text, [i]) = [c_text (drop i text)]"
  by (simp add: words_of_def)

lemma tok_loop_words:
  shows between_words: "0 \<notin> set rest \<Longrightarrow> closed_words pre argv \<Longrightarrow> length argv \<le> 31 \<Longrightarrow>
      map_option words_of (tok_loop (pre @ rest) (length pre) argv False) =
      (if 31 < length argv + length (line_words rest) then None else Some (words_of (pre, argv) @ line_words rest))"
    and inside_word: "0 \<notin> set rest \<Longrightarrow> closed_words pre argv \<Longrightarrow> length argv < 31 \<Longrightarrow> j \<le> length pre \<Longrightarrow> 0 \<notin> set (drop j pre) \<Longrightarrow>
      map_option words_of (tok_loop (pre @ rest) (length pre) (argv @ [j]) True) =
      (if 30 < length argv + length (line_words (dropWhile (\<lambda>c. \<not> is_blank c) rest)) then None
       else Some (words_of (pre, argv) @ (drop j pre @ takeWhile (\<lambda>c. \<not> is_blank c) rest)
                   # line_words (dropWhile (\<lambda>c. \<not> is_blank c) rest)))"
proof (induction rest arbitrary: pre argv j)
  case Nil
  {
    case 1
    then show ?case by (simp add: tok_loop.simps line_words_simps)
  next
    case 2
    then show ?case using c_text_open [of "drop j pre" "[]"]
      by (simp add: tok_loop.simps line_words_simps c_text_def)
  }
next
  case (Cons x rest)
  {
    case 1
    then have x: "x \<noteq> 0" "0 \<notin> set rest" by auto
    show ?case
    proof (cases "is_blank x")
      case True
      then have "tok_loop (pre @ x # rest) (length pre) argv False = tok_loop ((pre @ [0]) @ rest) (length (pre @ [0])) argv False"
        using x by (simp add: tok_loop.simps [of "pre @ x # rest"])
      then show ?thesis
        using True Cons.IH(1) [OF x(2) closed_words_append [OF 1(2), of "[0]"] 1(3)] words_closed [OF 1(2), of "[0]"]
        by (simp add: line_words_simps)
    next
      case False
      then have step: "tok_loop (pre @ x # rest) (length pre) argv False =
          (if length argv \<ge> 31 then None else tok_loop ((pre @ [x]) @ rest) (length (pre @ [x])) (argv @ [length pre]) True)"
        using x by (simp add: tok_loop.simps [of "pre @ x # rest"])
      show ?thesis
      proof (cases "length argv \<ge> 31")
        case few: False
        with Cons.IH(2) [OF x(2) closed_words_append [OF 1(2), of "[x]"], of "length pre"] step x(1) False words_closed [OF 1(2), of "[x]"]
        show ?thesis by (simp add: line_words_simps)
      qed (use step False in \<open>simp add: line_words_simps\<close>)
    qed
  next
    case 2
    then have x: "x \<noteq> 0" "0 \<notin> set rest" by auto
    show ?case
    proof (cases "is_blank x")
      case True
      then have step: "tok_loop (pre @ x # rest) (length pre) (argv @ [j]) True =
          tok_loop ((pre @ [0]) @ rest) (length (pre @ [0])) (argv @ [j]) False"
        using x by (simp add: tok_loop.simps [of "pre @ x # rest"])
      have "closed_words (pre @ [0]) (argv @ [j])" using 2(2,4) by (auto simp: closed_words_def)
      from Cons.IH(1) [OF x(2) this] step True 2(3,4) words_closed [OF 2(2), of "[0]"] c_text_open [OF 2(5), of "[0]"]
      show ?thesis by (simp add: line_words_simps c_text_def)
    next
      case False
      then have step: "tok_loop (pre @ x # rest) (length pre) (argv @ [j]) True =
          tok_loop ((pre @ [x]) @ rest) (length (pre @ [x])) (argv @ [j]) True"
        using x by (simp add: tok_loop.simps [of "pre @ x # rest"])
      from Cons.IH(2) [OF x(2) closed_words_append [OF 2(2), of "[x]"] 2(3), of j] step False 2(4,5) x words_closed [OF 2(2), of "[x]"]
      show ?thesis by (simp add: line_words_simps)
    qed
  }
qed

text \<open>
  C36: splitting a line in place, by overwriting its blanks with zeros and keeping pointers to the word
  starts, gives the line's words in their order; a line of more than 31 words is refused.
\<close>

theorem tokenize_words:
  assumes "0 \<notin> set command"
  shows "tokenize command = (if 31 < length (line_words command) then None else Some (line_words command))"
  using between_words [OF assms, of "[]" "[]"]
  by (auto simp: tokenize_def words_of_def closed_words_def)

theorem tokenize_words_witness:
  "0 \<notin> set (map of_char '' rm  notes.txt '' :: u8 list) \<and> tokenize (map of_char '' rm  notes.txt '' :: u8 list) = Some [map of_char ''rm'', map of_char ''notes.txt'']"
proof -
  have a: "0 \<notin> set (map of_char '' rm  notes.txt '' :: u8 list)" by code_simp
  have b: "line_words (map of_char '' rm  notes.txt '' :: u8 list) = [map of_char ''rm'', map of_char ''notes.txt'']" by code_simp
  show ?thesis using tokenize_words [OF a] a unfolding b by simp
qed

section \<open>The editor the code implements\<close>

text \<open>
  The abstract line editor: the line as a list of bytes, the past commands, newest first, and the place
  in the past that is shown.
\<close>

record editor =
  line :: "u8 list"
  past :: "u8 list list"
  shown :: int
  kept_line :: "u8 list"

definition edit_key :: "u8 \<Rightarrow> editor \<Rightarrow> u8 list option \<times> editor" where
  "edit_key ch e =
     (if ch = 0x03 then (None, e\<lparr>line := [], shown := -1, kept_line := []\<rparr>)
      else if ch = 0x11
      then (None, if shown e + 1 < int (length (past e))
                  then e\<lparr>line := past e ! nat (shown e + 1), shown := shown e + 1,
                         kept_line := (if shown e < 0 then line e else kept_line e)\<rparr>
                  else e)
      else if ch = 0x12
      then (None, if shown e < 0 then e
                  else e\<lparr>line := (if shown e = 0 then kept_line e else past e ! nat (shown e - 1)), shown := shown e - 1\<rparr>)
      else if ch = 10
      then (Some (line e),
            e\<lparr>line := [], shown := -1, kept_line := [],
              past := (if line e = [] \<or> past e \<noteq> [] \<and> hd (past e) = line e then past e else take 256 (line e # past e))\<rparr>)
      else if ch = 8 then (None, e\<lparr>line := butlast (line e)\<rparr>)
      else (None, if length (line e) < 255 then e\<lparr>line := line e @ [ch]\<rparr> else e))"

definition editor_of :: "shell \<Rightarrow> editor" where
  "editor_of s = \<lparr>line = take (buffer_idx s) (key_buffer s), past = take (history_count s) (history s),
     shown = history_pos s, kept_line = live_line_backup s\<rparr>"

definition plain_line :: "u8 list \<Rightarrow> bool" where
  "plain_line xs \<longleftrightarrow> length xs \<le> 255 \<and> 0 \<notin> set xs"

definition shell_ok :: "shell \<Rightarrow> bool" where
  "shell_ok s \<longleftrightarrow> length (key_buffer s) = 256 \<and> length (history s) = 256 \<and> history_count s \<le> 256 \<and>
     -1 \<le> history_pos s \<and> history_pos s < int (history_count s) \<and> buffer_idx s \<le> 255 \<and>
     0 \<notin> set (take (buffer_idx s) (key_buffer s)) \<and> plain_line (live_line_backup s) \<and>
     (\<forall>h \<in> set (history s). plain_line h)"

lemma plain_line_Nil [simp]: "plain_line []"
  by (simp add: plain_line_def)

lemma c_text_cut: "n < length b \<Longrightarrow> 0 \<notin> set (take n b) \<Longrightarrow> c_text (b[n := 0]) = take n b"
  by (simp add: upd_conv_take_nth_drop c_text_open) (simp add: c_text_def)

lemma shift_down:
  assumes "n < length h"
  shows "fold (\<lambda>i h. h[i := h ! (i - 1)]) (rev [1..<Suc n]) h = h ! 0 # take n h @ drop (Suc n) h"
  using assms
proof (induction n arbitrary: h)
  case 0
  then show ?case by (cases h) auto
next
  case (Suc n)
  let ?h = "h[Suc n := h ! n]"
  have "fold (\<lambda>i h. h[i := h ! (i - 1)]) (rev [1..<Suc (Suc n)]) h = fold (\<lambda>i h. h[i := h ! (i - 1)]) (rev [1..<Suc n]) ?h"
    by simp
  also have "\<dots> = ?h ! 0 # take n ?h @ drop (Suc n) ?h" using Suc by simp
  also have "\<dots> = h ! 0 # take (Suc n) h @ drop (Suc (Suc n)) h"
    using Suc.prems by (simp add: take_Suc_conv_app_nth nth_Cons' flip: Cons_nth_drop_Suc)
  finally show ?case .
qed

lemma history_shifted:
  assumes "length h = 256"
  shows "(fold (\<lambda>i h. h[i := h ! (i - 1)]) (rev [1..<256]) h)[0 := x] = x # take 255 h"
  using shift_down [of 255 h] assms by simp

lemma history_save_past:
  assumes "length (history s) = 256" "history_count s \<le> 256" "plain_line cmd"
  shows "history_save cmd s =
    (if cmd = [] \<or> history_count s > 0 \<and> hd (history s) = cmd then s
     else s\<lparr>history := cmd # take 255 (history s), history_count := min 256 (Suc (history_count s))\<rparr>)"
proof -
  have "history s \<noteq> []" using assms(1) by auto
  moreover have "take 255 cmd = cmd" using assms(3) by (simp add: plain_line_def)
  ultimately show ?thesis using assms(2) history_shifted [OF assms(1), of cmd]
    by (auto simp: history_save_def Let_def hd_conv_nth)
qed

lemma shell_replace_line_effect:
  assumes "plain_line text" "length (key_buffer s) = 256"
  shows "fst (shell_replace_line text (s, c)) =
    s\<lparr>key_buffer := (text @ drop (length text) (key_buffer s))[length text := 0], buffer_idx := length text\<rparr>"
  using assms by (simp add: shell_replace_line_def Let_def plain_line_def write_at_eq)

lemma replace_line_refines:
  assumes "shell_ok s" "plain_line text" "shell_replace_line text (s, c) = (s', c')"
  shows "shell_ok s'" "editor_of s' = (editor_of s)\<lparr>line := text\<rparr>"
proof -
  have s': "s' = s\<lparr>key_buffer := (text @ drop (length text) (key_buffer s))[length text := 0], buffer_idx := length text\<rparr>"
    using shell_replace_line_effect [OF assms(2), of s c] assms(1,3) by (simp add: shell_ok_def)
  show "shell_ok s'" "editor_of s' = (editor_of s)\<lparr>line := text\<rparr>"
    using assms(1,2) unfolding s' by (auto simp: shell_ok_def plain_line_def editor_of_def)
qed

lemma history_load_refines:
  assumes "shell_ok s" "0 \<le> pos" "pos < int (history_count s)" "history_load pos (s, c) = (s', c')"
  shows "shell_ok s'" "editor_of s' = (editor_of s)\<lparr>line := past (editor_of s) ! nat pos\<rparr>"
proof -
  have "nat pos < length (history s)" using assms(1-3) by (auto simp: shell_ok_def)
  then have "plain_line (history s ! nat pos)" using assms(1) by (simp add: shell_ok_def)
  from replace_line_refines [OF assms(1) this, of c s' c'] assms
  show "shell_ok s'" "editor_of s' = (editor_of s)\<lparr>line := past (editor_of s) ! nat pos\<rparr>"
    by (simp_all add: history_load_def editor_of_def)
qed

lemma key_up_refines:
  assumes "shell_ok s" "shell_key 0x11 (s, c) = (r, s', c')"
  shows "shell_ok s' \<and> edit_key 0x11 (editor_of s) = (r, editor_of s')"
proof (cases "history_pos s + 1 < int (history_count s)")
  case True
  let ?s = "(if history_pos s < 0 then s\<lparr>key_buffer := (key_buffer s)[buffer_idx s := 0],
      live_line_backup := c_text ((key_buffer s)[buffer_idx s := 0])\<rparr> else s)\<lparr>history_pos := history_pos s + 1\<rparr>"
  have pos: "(if history_pos s < 0 then 0 else history_pos s + 1) = history_pos s + 1" "-1 \<le> history_pos s"
    using assms(1) by (auto simp: shell_ok_def)
  have cut: "c_text ((key_buffer s)[buffer_idx s := 0]) = take (buffer_idx s) (key_buffer s)"
    using assms(1) by (simp add: shell_ok_def c_text_cut)
  have s: "shell_ok ?s" using assms(1) True cut by (auto simp: shell_ok_def plain_line_def)
  have "history_load (history_pos s + 1) (?s, c) = (s', c')" and r: "r = None"
    using assms(2) True pos by (auto simp: shell_key_def Let_def split: if_splits)
  from history_load_refines [OF s _ _ this(1)] pos(2) True
  have "shell_ok s'" "editor_of s' = (editor_of ?s)\<lparr>line := past (editor_of ?s) ! nat (history_pos s + 1)\<rparr>" by auto
  with True pos(2) cut r assms(1) show ?thesis
    by (auto simp: edit_key_def editor_of_def shell_ok_def)
next
  case False
  then have "s' = s \<and> r = None" using assms by (auto simp: shell_key_def Let_def shell_ok_def split: if_splits)
  with False assms(1) show ?thesis by (auto simp: edit_key_def editor_of_def shell_ok_def)
qed

lemma key_down_refines:
  assumes "shell_ok s" "shell_key 0x12 (s, c) = (r, s', c')"
  shows "shell_ok s' \<and> edit_key 0x12 (editor_of s) = (r, editor_of s')"
proof -
  let ?s = "s\<lparr>history_pos := history_pos s - 1\<rparr>"
  consider "history_pos s < 0" | "history_pos s = 0" | "history_pos s > 0" by linarith
  then show ?thesis
  proof cases
    case 1
    then have "s' = s \<and> r = None" using assms(2) by (simp add: shell_key_def)
    with 1 assms(1) show ?thesis by (simp add: edit_key_def editor_of_def)
  next
    case 2
    then have s: "shell_ok ?s" "plain_line (live_line_backup s)" using assms(1) by (auto simp: shell_ok_def)
    have "shell_replace_line (live_line_backup s) (?s, c) = (s', c')" and r: "r = None"
      using assms(2) 2 by (simp_all add: shell_key_def)
    from replace_line_refines [OF s this(1)] 2 r show ?thesis by (simp add: edit_key_def editor_of_def)
  next
    case 3
    then have "shell_ok ?s" using assms(1) by (auto simp: shell_ok_def)
    moreover have "history_load (history_pos s - 1) (?s, c) = (s', c')" and r: "r = None"
      using assms(2) 3 by (simp_all add: shell_key_def)
    ultimately have "shell_ok s'" "editor_of s' = (editor_of ?s)\<lparr>line := past (editor_of ?s) ! nat (history_pos s - 1)\<rparr>"
      using history_load_refines [of ?s "history_pos s - 1" c s' c'] 3 assms(1) by (auto simp: shell_ok_def)
    with 3 r show ?thesis by (simp add: edit_key_def editor_of_def)
  qed
qed

lemma key_enter_refines:
  assumes "shell_ok s" "shell_key 10 (s, c) = (r, s', c')"
  shows "shell_ok s' \<and> edit_key 10 (editor_of s) = (r, editor_of s')"
proof -
  let ?t = "take (buffer_idx s) (key_buffer s)" and ?b = "(key_buffer s)[buffer_idx s := 0]"
  have cut: "c_text ?b = ?t" and t: "plain_line ?t"
    using assms(1) by (auto simp: shell_ok_def c_text_cut plain_line_def)
  have first: "history s \<noteq> []" "history_count s > 0 \<Longrightarrow> hd (take (history_count s) (history s)) = hd (history s)"
    using assms(1) by (auto simp: shell_ok_def)
  have past: "take (min 256 (Suc (history_count s))) (?t # take 255 (history s)) = take 256 (?t # take (history_count s) (history s))"
    by (simp add: min_def take_Cons')
  define s1 where "s1 = history_save ?t (s\<lparr>key_buffer := ?b\<rparr>)"
  have sv: "s1 = (if ?t = [] \<or> history_count s > 0 \<and> hd (history s) = ?t then s\<lparr>key_buffer := ?b\<rparr>
      else s\<lparr>key_buffer := ?b, history := ?t # take 255 (history s), history_count := min 256 (Suc (history_count s))\<rparr>)"
    unfolding s1_def using history_save_past [of "s\<lparr>key_buffer := ?b\<rparr>" ?t] assms(1) t by (simp add: shell_ok_def)
  have eq: "s' = s1\<lparr>buffer_idx := 0, key_buffer := (key_buffer s1)[0 := 0], live_line_backup := [], history_pos := -1\<rparr>" "r = Some ?t"
    using assms(2) cut by (simp_all add: shell_key_def Let_def s1_def)
  have "shell_ok s'" unfolding eq sv using assms(1) t
    by (auto simp: shell_ok_def dest: in_set_takeD)
  moreover have "edit_key 10 (editor_of s) = (r, editor_of s')"
    unfolding eq sv using first past by (auto simp: edit_key_def editor_of_def)
  ultimately show ?thesis ..
qed

lemma key_plain_refines:
  assumes "shell_ok s" "shell_key ch (s, c) = (r, s', c')" "ch \<noteq> 0" "ch \<notin> {0x11, 0x12, 10}"
  shows "shell_ok s' \<and> edit_key ch (editor_of s) = (r, editor_of s')"
proof -
  have ok: "length (key_buffer s) = 256" "buffer_idx s \<le> 255" "0 \<notin> set (take (buffer_idx s) (key_buffer s))"
    using assms(1) by (auto simp: shell_ok_def)
  have less: "buffer_idx s > 0 \<Longrightarrow> take (buffer_idx s) (key_buffer s) = take (buffer_idx s - 1) (key_buffer s) @ [key_buffer s ! (buffer_idx s - 1)]"
    using ok(1,2) take_Suc_conv_app_nth [of "buffer_idx s - 1" "key_buffer s"] by simp
  have more: "buffer_idx s < 255 \<Longrightarrow>
      take (Suc (buffer_idx s)) ((key_buffer s)[buffer_idx s := ch, Suc (buffer_idx s) := 0]) = take (buffer_idx s) (key_buffer s) @ [ch]"
    using ok(1) by (simp add: take_Suc_conv_app_nth)
  consider "ch = 3" | "ch = 8" "buffer_idx s > 0" | "ch = 8" "buffer_idx s = 0" | "ch \<notin> {3, 8}" by auto
  then show ?thesis
  proof cases
    case 1
    then show ?thesis using assms(1,2) by (auto simp: shell_key_def edit_key_def editor_of_def shell_ok_def)
  next
    case 2
    then have "s' = s\<lparr>buffer_idx := buffer_idx s - 1, key_buffer := (key_buffer s)[buffer_idx s - 1 := 0]\<rparr>" "r = None"
      using assms(2) by (simp_all add: shell_key_def)
    with 2 less ok assms(1) show ?thesis by (auto simp: edit_key_def editor_of_def shell_ok_def)
  next
    case 3
    then show ?thesis using assms(1,2) by (auto simp: shell_key_def edit_key_def editor_of_def)
  next
    case 4
    then have "r = None" "s' = (if buffer_idx s < 255 then s\<lparr>key_buffer := (key_buffer s)[buffer_idx s := ch, Suc (buffer_idx s) := 0],
        buffer_idx := Suc (buffer_idx s)\<rparr> else s)"
      using assms(2,4) by (auto simp: shell_key_def split: if_splits)
    with 4 more ok assms show ?thesis by (auto simp: edit_key_def editor_of_def shell_ok_def)
  qed
qed

text \<open>
  C35: on every key the buffers and indices of the shell behave as the abstract line editor: typing,
  backspace, cancelling, browsing the history in both directions and submitting a line; the state stays
  well-formed, every index stays inside its array and a submitted command is exactly the line shown.
\<close>

theorem shell_key_refines:
  assumes "shell_ok s" "ch \<noteq> 0" "shell_key ch (s, c) = (r, s', c')"
  shows "shell_ok s' \<and> edit_key ch (editor_of s) = (r, editor_of s')"
proof (cases "ch \<in> {0x11, 0x12, 10}")
  case True
  with assms key_up_refines [of s c r s' c'] key_down_refines [of s c r s' c'] key_enter_refines [of s c r s' c']
  show ?thesis by fastforce
qed (use key_plain_refines assms in blast)

lemma shell_start_ok: "shell_ok shell_start"
  by (auto simp: shell_ok_def shell_start_def)

theorem shell_key_refines_witness:
  "shell_ok (fst (snd (shell_key 0x41 (shell_start, boot_console)))) \<and>
   edit_key 0x41 (editor_of shell_start) =
     (fst (shell_key 0x41 (shell_start, boot_console)), editor_of (fst (snd (shell_key 0x41 (shell_start, boot_console)))))"
  by (rule shell_key_refines [OF shell_start_ok, where ch = "0x41" and c' = "snd (snd (shell_key 0x41 (shell_start, boot_console)))"]) simp_all

end
