(* ===== verification/Descriptors.thy ===== *)
theory Descriptors
  imports Bytes
begin

text \<open>
  The descriptor tables: gates of the interrupt table (src/src/cpu/idt/idt.c), descriptors of the
  global table (src/src/cpu/gdt/gdt.c) and the task state segment (src/src/kernel/tss/tss.c).  What the
  processor reads out of the packed fields is the decoding the properties are stated with.
\<close>

unbundle bit_operations_syntax

lemma low_masks:
  fixes x :: u32 and y :: u8
  shows "x AND 0xFF = take_bit 8 x" "x AND 0xFFFF = take_bit 16 x" "x AND 0xFFFFF = take_bit 20 x" "x AND 0x0F = take_bit 4 x"
    "y AND 0x0F = take_bit 4 y"
  by (simp_all add: take_bit_eq_mask mask_eq_exp_minus_1)

section \<open>Interrupt gates\<close>

record idt_entry =
  offset_low :: u16
  selector :: u16
  idt_zero :: u8
  type_attr :: u8
  offset_high :: u16

record idt_ptr =
  idt_limit :: u16
  idt_base :: u32

type_synonym idt = "nat \<Rightarrow> idt_entry"

definition set_idt_gate :: "nat \<Rightarrow> u32 \<Rightarrow> u16 \<Rightarrow> u8 \<Rightarrow> idt \<Rightarrow> idt" where
  "set_idt_gate num base sel flags t =
     t(num := \<lparr>offset_low = ucast (base AND 0xFFFF), selector = sel, idt_zero = 0, type_attr = flags,
               offset_high = ucast (drop_bit 16 base AND 0xFFFF)\<rparr>)"

text \<open>
  The addresses of the 48 stubs, of the system call stub and of the table are those the linker chose.
  The result is the table and the operand of \<open>lidt\<close>.
\<close>

definition load_idt :: "(nat \<Rightarrow> u32) \<Rightarrow> u32 \<Rightarrow> u32 \<Rightarrow> idt \<Rightarrow> idt \<times> idt_ptr" where
  "load_idt isr_stub_table isr128 idt_addr t =
     (let t1 = fold (\<lambda>i. set_idt_gate i (isr_stub_table i) 0x08 0x8E) [0..<48] t
      in (set_idt_gate 0x80 isr128 0x08 0xEE t1, \<lparr>idt_limit = 8 * 256 - 1, idt_base = idt_addr\<rparr>))"

text \<open>What the processor makes of a gate: the handler, whether it is present, and who may call it.\<close>

definition gate_handler :: "idt_entry \<Rightarrow> u32" where
  "gate_handler e = ucast (offset_low e) OR push_bit 16 (ucast (offset_high e))"

definition gate_present :: "idt_entry \<Rightarrow> bool" where
  "gate_present e \<longleftrightarrow> type_attr e AND 0x80 \<noteq> 0"

definition gate_dpl :: "idt_entry \<Rightarrow> u8" where
  "gate_dpl e = drop_bit 5 (type_attr e) AND 3"

definition gate_kind :: "idt_entry \<Rightarrow> u8" where
  "gate_kind e = type_attr e AND 0x0F"

lemma set_idt_gate_handler: "gate_handler (set_idt_gate n base sel fl t n) = base"
  unfolding gate_handler_def set_idt_gate_def by (simp add: low_masks, rule bit_word_eqI) (auto simp: bit_simps)

lemma fold_gates:
  "fold (\<lambda>i. set_idt_gate i (f i) sel fl) [0..<k] t n = (if n < k then set_idt_gate n (f n) sel fl t n else t n)"
  by (induction k) (auto simp: set_idt_gate_def)

section \<open>Segment descriptors\<close>

text \<open>The eight bytes of descriptor \<open>num\<close> in the table whose bytes are \<open>gdt\<close>.\<close>

definition gdt_set_gate :: "nat \<Rightarrow> u32 \<Rightarrow> u32 \<Rightarrow> u8 \<Rightarrow> u8 \<Rightarrow> u8 list \<Rightarrow> u8 list" where
  "gdt_set_gate num base limit access gran gdt =
     (let e = 8 * num
      in gdt[e := ucast (limit AND 0xFF), e + 1 := ucast (drop_bit 8 limit AND 0xFF), e + 2 := ucast (base AND 0xFF),
             e + 3 := ucast (drop_bit 8 base AND 0xFF), e + 4 := ucast (drop_bit 16 base AND 0xFF), e + 5 := access,
             e + 6 := push_bit 4 (gran AND 0x0F) OR ucast (drop_bit 16 limit AND 0x0F),
             e + 7 := ucast (drop_bit 24 base AND 0xFF)])"

definition seg_base :: "u8 list \<Rightarrow> nat \<Rightarrow> u32" where
  "seg_base gdt num = ucast (gdt ! (8 * num + 2)) OR push_bit 8 (ucast (gdt ! (8 * num + 3))) OR
     push_bit 16 (ucast (gdt ! (8 * num + 4))) OR push_bit 24 (ucast (gdt ! (8 * num + 7)))"

definition seg_limit :: "u8 list \<Rightarrow> nat \<Rightarrow> u32" where
  "seg_limit gdt num = ucast (gdt ! (8 * num)) OR push_bit 8 (ucast (gdt ! (8 * num + 1))) OR
     push_bit 16 (ucast (gdt ! (8 * num + 6) AND 0x0F))"

definition seg_access :: "u8 list \<Rightarrow> nat \<Rightarrow> u8" where
  "seg_access gdt num = gdt ! (8 * num + 5)"

definition seg_flags :: "u8 list \<Rightarrow> nat \<Rightarrow> u8" where
  "seg_flags gdt num = drop_bit 4 (gdt ! (8 * num + 6))"

lemma base_bytes:
  "ucast (ucast (b AND 0xFF) :: u8) OR push_bit 8 (ucast (ucast (drop_bit 8 b AND 0xFF) :: u8)) OR
   push_bit 16 (ucast (ucast (drop_bit 16 b AND 0xFF) :: u8)) OR push_bit 24 (ucast (ucast (drop_bit 24 b AND 0xFF) :: u8)) = (b :: u32)"
  unfolding low_masks
proof (rule bit_word_eqI)
  fix n assume "n < LENGTH(32)"
  then consider "n < 8" | "8 \<le> n" "n < 16" | "16 \<le> n" "n < 24" | "24 \<le> n" "n < 32" by fastforce
  then show "bit (ucast (ucast (take_bit 8 b) :: u8) OR push_bit 8 (ucast (ucast (take_bit 8 (drop_bit 8 b)) :: u8)) OR
      push_bit 16 (ucast (ucast (take_bit 8 (drop_bit 16 b)) :: u8)) OR push_bit 24 (ucast (ucast (take_bit 8 (drop_bit 24 b)) :: u8)) :: u32) n = bit b n"
    by cases (auto simp: bit_simps)
qed

lemma limit_bytes:
  "ucast (ucast (m AND 0xFF) :: u8) OR push_bit 8 (ucast (ucast (drop_bit 8 m AND 0xFF) :: u8)) OR
   push_bit 16 (ucast ((push_bit 4 (g AND 0x0F) OR ucast (drop_bit 16 m AND 0x0F)) AND 0x0F :: u8)) = (m AND 0xFFFFF :: u32)"
  unfolding low_masks by (rule bit_word_eqI) (auto simp: bit_simps)

lemma flag_bits: "drop_bit 4 (push_bit 4 (g AND 0x0F) OR ucast (drop_bit 16 (m :: u32) AND 0x0F)) = (g AND 0x0F :: u8)"
  unfolding low_masks by (rule bit_word_eqI) (auto simp: bit_simps)

text \<open>
  A descriptor written by \<open>gdt_set_gate\<close> is decoded to the base, the low 20 bits of the limit, the
  access byte and the low four flag bits it was given, and no other descriptor changes.
\<close>

theorem gdt_gate_roundtrip:
  assumes "8 * num + 8 \<le> length gdt"
  shows "seg_base (gdt_set_gate num base limit access gran gdt) num = base \<and>
    seg_limit (gdt_set_gate num base limit access gran gdt) num = limit AND 0xFFFFF \<and>
    seg_access (gdt_set_gate num base limit access gran gdt) num = access \<and>
    seg_flags (gdt_set_gate num base limit access gran gdt) num = gran AND 0x0F \<and>
    (\<forall>k. k < 8 * num \<or> 8 * num + 8 \<le> k \<longrightarrow> gdt_set_gate num base limit access gran gdt ! k = gdt ! k)"
proof (intro conjI allI impI)
  let ?g = "gdt_set_gate num base limit access gran gdt"
  have b: "?g ! (8 * num) = ucast (limit AND 0xFF)" "?g ! (8 * num + 1) = ucast (drop_bit 8 limit AND 0xFF)" "?g ! (8 * num + 2) = ucast (base AND 0xFF)"
    "?g ! (8 * num + 3) = ucast (drop_bit 8 base AND 0xFF)" "?g ! (8 * num + 4) = ucast (drop_bit 16 base AND 0xFF)" "?g ! (8 * num + 5) = access"
    "?g ! (8 * num + 6) = push_bit 4 (gran AND 0x0F) OR ucast (drop_bit 16 limit AND 0x0F)" "?g ! (8 * num + 7) = ucast (drop_bit 24 base AND 0xFF)"
    using assms by (simp_all add: gdt_set_gate_def Let_def)
  show "seg_base ?g num = base" unfolding seg_base_def b by (rule base_bytes)
  show "seg_limit ?g num = limit AND 0xFFFFF" unfolding seg_limit_def b by (rule limit_bytes)
  show "seg_access ?g num = access" unfolding seg_access_def b ..
  show "seg_flags ?g num = gran AND 0x0F" unfolding seg_flags_def b by (rule flag_bits)
  show "?g ! k = gdt ! k" if "k < 8 * num \<or> 8 * num + 8 \<le> k" for k using that by (auto simp: gdt_set_gate_def Let_def)
qed

theorem gdt_gate_roundtrip_witness:
  "seg_limit (gdt_set_gate 5 0x12345678 0x67 0x89 0 (replicate 48 0)) 5 = 0x67"
  using gdt_gate_roundtrip [of 5 "replicate 48 0" "0x12345678" "0x67" "0x89" 0] by simp

section \<open>The task state segment\<close>

record tss_entry_t =
  tss_esp0_field :: u32
  tss_ss0 :: u32
  tss_others :: "u32 list"
  tss_trap :: u16
  tss_iomap_base :: u16

text \<open>
  Twenty-five 32-bit fields, of which \<open>esp0\<close> and \<open>ss0\<close> are named, and two of 16 bits: 104 bytes.  The
  selector is the operand of \<open>ltr\<close> in \<open>flush_tss\<close>.
\<close>

definition sizeof_tss :: nat where "sizeof_tss = 25 * 4 + 2 * 2"

definition init_tss :: "u32 \<Rightarrow> u8 list \<Rightarrow> tss_entry_t \<times> u8 list \<times> u16" where
  "init_tss tss_addr gdt =
     (let zero = \<lparr>tss_esp0_field = 0, tss_ss0 = 0, tss_others = replicate 23 0, tss_trap = 0, tss_iomap_base = 0\<rparr>;
          t = zero\<lparr>tss_ss0 := 0x10, tss_esp0_field := 0x90000, tss_iomap_base := of_nat sizeof_tss\<rparr>
      in (t, gdt_set_gate 5 tss_addr 0x67 0x89 0 gdt, 0x28))"

text \<open>
  C37: after \<open>load_idt\<close> the gates 0 to 47 are present 32-bit interrupt gates for the kernel only that enter
  their stubs, gate 0x80 enters the system call stub and may be called from ring 3, all other gates are
  as before, and the limit covers 256 entries.
\<close>

theorem load_idt_gates:
  "let (t', p) = load_idt stubs isr128 addr t in
    (\<forall>n < 256. if n < 48 then gate_handler (t' n) = stubs n \<and> gate_present (t' n) \<and> gate_kind (t' n) = 0xE \<and> gate_dpl (t' n) = 0 \<and> selector (t' n) = 8
      else if n = 0x80 then gate_handler (t' n) = isr128 \<and> gate_present (t' n) \<and> gate_kind (t' n) = 0xE \<and> gate_dpl (t' n) = 3 \<and> selector (t' n) = 8
      else t' n = t n) \<and> unat (idt_limit p) + 1 = 256 * 8 \<and> idt_base p = addr"
proof -
  let ?t = "fst (load_idt stubs isr128 addr t)"
  have g: "?t n = (if n = 0x80 then set_idt_gate n isr128 8 0xEE t n else if n < 48 then set_idt_gate n (stubs n) 8 0x8E t n else t n)" for n
    by (simp add: load_idt_def fold_gates Let_def) (auto simp: set_idt_gate_def fold_gates)
  have f: "gate_present (set_idt_gate n b s fl u n) \<longleftrightarrow> fl AND 0x80 \<noteq> 0" "gate_kind (set_idt_gate n b s fl u n) = fl AND 0xF"
    "gate_dpl (set_idt_gate n b s fl u n) = drop_bit 5 fl AND 3" "selector (set_idt_gate n b s fl u n) = s" for n b s fl u
    by (simp_all add: gate_present_def gate_kind_def gate_dpl_def set_idt_gate_def)
  have "\<forall>n < 256. if n < 48 then gate_handler (?t n) = stubs n \<and> gate_present (?t n) \<and> gate_kind (?t n) = 0xE \<and> gate_dpl (?t n) = 0 \<and> selector (?t n) = 8
      else if n = 0x80 then gate_handler (?t n) = isr128 \<and> gate_present (?t n) \<and> gate_kind (?t n) = 0xE \<and> gate_dpl (?t n) = 3 \<and> selector (?t n) = 8
      else ?t n = t n"
    by (simp add: g f set_idt_gate_handler)
  moreover have "snd (load_idt stubs isr128 addr t) = \<lparr>idt_limit = 8 * 256 - 1, idt_base = addr\<rparr>" by (simp add: load_idt_def Let_def)
  ultimately show ?thesis unfolding Let_def case_prod_unfold by simp
qed

theorem load_idt_gates_witness:
  "gate_dpl (fst (load_idt (\<lambda>i. 0x1000 + of_nat i) 0x2000 0x3000 (\<lambda>_. \<lparr>offset_low = 0, selector = 0, idt_zero = 0, type_attr = 0, offset_high = 0\<rparr>)) 0x80) = 3"
  using load_idt_gates [of "\<lambda>i. 0x1000 + of_nat i" "0x2000" "0x3000" "\<lambda>_. \<lparr>offset_low = 0, selector = 0, idt_zero = 0, type_attr = 0, offset_high = 0\<rparr>"]
  by (auto split: prod.splits)

end
