(* ===== verification/Pic.thy ===== *)
theory Pic
  imports Prelude
begin

text \<open>
  Interrupt controllers and timer, src/src/cpu/pic/pic.c.  The two 8259 chips and channel 0 of the 8254
  are the environment of the driver: what a write to their ports does is modelled after their data
  sheets, as far as the driver uses it.
\<close>

unbundle bit_operations_syntax

section \<open>The chips\<close>

text \<open>\<open>icw_step\<close> is the number of the initialisation word expected next, 0 outside of initialisation.\<close>

record pic8259 =
  icw_step :: nat
  vector_base :: u8
  cascade_word :: u8
  mode_word :: u8
  imr :: u8
  in_service :: u8

record pit8254 =
  pit_command :: u8
  high_next :: bool
  pit_reload :: u16

record irq_chips =
  master :: pic8259
  slave :: pic8259
  pit :: pit8254

text \<open>The non-specific end of interrupt clears the highest priority, that is the lowest, bit in service.\<close>

definition chip_command :: "u8 \<Rightarrow> pic8259 \<Rightarrow> pic8259" where
  "chip_command v p =
     (if v AND 0x10 \<noteq> 0 then p\<lparr>icw_step := 2, imr := 0, in_service := 0\<rparr>
      else if v = 0x20 then p\<lparr>in_service := in_service p AND (in_service p - 1)\<rparr>
      else p)"

definition chip_data :: "u8 \<Rightarrow> pic8259 \<Rightarrow> pic8259" where
  "chip_data v p =
     (if icw_step p = 2 then p\<lparr>vector_base := v AND 0xF8, icw_step := 3\<rparr>
      else if icw_step p = 3 then p\<lparr>cascade_word := v, icw_step := 4\<rparr>
      else if icw_step p = 4 then p\<lparr>mode_word := v, icw_step := 0\<rparr>
      else p\<lparr>imr := v\<rparr>)"

definition pic_outportb :: "u16 \<Rightarrow> u8 \<Rightarrow> irq_chips \<Rightarrow> irq_chips" where
  "pic_outportb port v c =
     (if port = 0x20 then c\<lparr>master := chip_command v (master c)\<rparr>
      else if port = 0x21 then c\<lparr>master := chip_data v (master c)\<rparr>
      else if port = 0xA0 then c\<lparr>slave := chip_command v (slave c)\<rparr>
      else if port = 0xA1 then c\<lparr>slave := chip_data v (slave c)\<rparr>
      else if port = 0x43 then c\<lparr>pit := (pit c)\<lparr>pit_command := v, high_next := False\<rparr>\<rparr>
      else if port = 0x40
      then if high_next (pit c)
           then c\<lparr>pit := (pit c)\<lparr>pit_reload := (pit_reload (pit c) AND 0xFF) OR push_bit 8 (ucast v), high_next := False\<rparr>\<rparr>
           else c\<lparr>pit := (pit c)\<lparr>pit_reload := (pit_reload (pit c) AND 0xFF00) OR ucast v, high_next := True\<rparr>\<rparr>
      else c)"

definition io_wait :: "irq_chips \<Rightarrow> irq_chips" where
  "io_wait = pic_outportb 0x80 0"

section \<open>The driver\<close>

text \<open>A frequency of zero is a division by zero, \<open>None\<close>.\<close>

definition init_timer :: "u32 \<Rightarrow> irq_chips \<Rightarrow> irq_chips option" where
  "init_timer frequency c =
     (if frequency = 0 then None
      else let devisor = 1193180 div frequency
           in Some (pic_outportb 0x40 (ucast (drop_bit 8 devisor AND 0xFF))
                (pic_outportb 0x40 (ucast (devisor AND 0xFF)) (pic_outportb 0x43 0x36 c))))"

definition pic_remap :: "irq_chips \<Rightarrow> irq_chips" where
  "pic_remap c =
     fold (\<lambda>(port, v) c. io_wait (pic_outportb port v c))
       [(0x20, 0x11 OR 0x11), (0xA0, 0x11 OR 0x11), (0x21, 0x20), (0xA1, 0x28), (0x21, 0x04), (0xA1, 0x02),
        (0x21, 0x01), (0xA1, 0x01), (0x21, 0xFC), (0xA1, 0xFF)] c"

definition pic_send_eoi :: "u8 \<Rightarrow> irq_chips \<Rightarrow> irq_chips" where
  "pic_send_eoi irq c =
     (let c1 = (if irq \<ge> 8 then io_wait (pic_outportb 0xA0 0x20 c) else c)
      in io_wait (pic_outportb 0x20 0x20 c1))"

section \<open>Properties\<close>

text \<open>The vector the processor is given for a line, and whether the line can interrupt it at all.\<close>

definition irq_vector :: "irq_chips \<Rightarrow> nat \<Rightarrow> nat" where
  "irq_vector c n = (if n < 8 then unat (vector_base (master c)) + n else unat (vector_base (slave c)) + (n - 8))"

definition irq_enabled :: "irq_chips \<Rightarrow> nat \<Rightarrow> bool" where
  "irq_enabled c n \<longleftrightarrow> (if n < 8 then \<not> bit (imr (master c)) n
     else \<not> bit (imr (slave c)) (n - 8) \<and> \<not> bit (imr (master c)) 2)"

lemma io_wait_id [simp]: "io_wait c = c"
  by (simp add: io_wait_def pic_outportb_def)

lemma pic_remap_chips:
  "master (pic_remap c) = (master c)\<lparr>icw_step := 0, vector_base := 0x20, cascade_word := 4, mode_word := 1, imr := 0xFC, in_service := 0\<rparr>"
  "slave (pic_remap c) = (slave c)\<lparr>icw_step := 0, vector_base := 0x28, cascade_word := 2, mode_word := 1, imr := 0xFF, in_service := 0\<rparr>"
  "pit (pic_remap c) = pit c"
  by (simp_all add: pic_remap_def pic_outportb_def chip_command_def chip_data_def)

text \<open>
  From any state of the chips \<open>pic_remap\<close> moves line \<open>n\<close> to vector 32 + n, away from the exceptions,
  and leaves exactly the timer and the keyboard enabled.
\<close>

theorem pic_remap_vectors:
  "n < 16 \<Longrightarrow> irq_vector (pic_remap c) n = 32 + n \<and> (irq_enabled (pic_remap c) n \<longleftrightarrow> n = 0 \<or> n = 1)"
proof -
  assume "n < 16"
  then have "n \<in> set [0..<16]" by simp
  then show ?thesis
    unfolding irq_vector_def irq_enabled_def pic_remap_chips by (simp add: upt_rec) (elim disjE; simp add: bit_numeral_rec)
qed

theorem pic_remap_vectors_witness:
  "irq_vector (pic_remap (undefined\<lparr>pit := undefined\<rparr>)) 14 = 46"
  using pic_remap_vectors [of 14 "undefined\<lparr>pit := undefined\<rparr>"] by simp

text \<open>The lines in service; those of the slave hang on line 2 of the master.\<close>

definition serving :: "irq_chips \<Rightarrow> nat \<Rightarrow> bool" where
  "serving c n \<longleftrightarrow> (if n < 8 then bit (in_service (master c)) n else bit (in_service (slave c)) (n - 8))"

text \<open>A line is next to be ended if no line of higher priority on its chip is in service.\<close>

definition first_served :: "irq_chips \<Rightarrow> nat \<Rightarrow> bool" where
  "first_served c n \<longleftrightarrow> serving c n \<and> (\<forall>m < n. m div 8 = n div 8 \<longrightarrow> \<not> serving c m)"

lemma lowest_bit_table:
  "list_all (\<lambda>k. list_all (\<lambda>n. bit (of_nat k :: u8) n \<and> list_all (\<lambda>m. \<not> bit (of_nat k :: u8) m) [0..<n] \<longrightarrow>
     list_all (\<lambda>m. bit (of_nat k AND (of_nat k - 1) :: u8) m = (bit (of_nat k :: u8) m \<and> m \<noteq> n)) [0..<8]) [0..<8]) [0..<256]"
  by code_simp

lemma eoi_lowest:
  assumes "n < 8" "bit s n" "\<forall>m < n. \<not> bit (s :: u8) m" "m < 8"
  shows "bit (s AND (s - 1)) m \<longleftrightarrow> bit s m \<and> m \<noteq> n"
proof -
  have "unat s < 256" using unat_lt_u8 [of s] by simp
  then have k: "unat s \<in> set [0..<256]" "n \<in> set [0..<8]" "m \<in> set [0..<8]" using assms(1,4) by simp_all
  have "of_nat (unat s) = s" by simp
  then show ?thesis using lowest_bit_table [unfolded list_all_iff, rule_format, OF k(1,2) _ k(3)] assms(2,3)
    by (simp add: list_all_iff)
qed

lemma eoi_chips:
  "in_service (master (pic_send_eoi irq c)) = in_service (master c) AND (in_service (master c) - 1)"
  "in_service (slave (pic_send_eoi irq c)) =
     (if irq \<ge> 8 then in_service (slave c) AND (in_service (slave c) - 1) else in_service (slave c))"
  by (simp_all add: pic_send_eoi_def pic_outportb_def chip_command_def Let_def)

lemma eoi_ends:
  assumes "n < 16" "first_served c n" "8 \<le> n \<longrightarrow> first_served c 2" "m < 16"
  shows "serving (pic_send_eoi (of_nat n) c) m \<longleftrightarrow> serving c m \<and> m \<noteq> n \<and> (8 \<le> n \<longrightarrow> m \<noteq> 2)"
proof -
  have irq: "(of_nat n :: u8) \<ge> 8 \<longleftrightarrow> 8 \<le> n" using assms(1) by (simp add: word_le_nat_alt unat_of_nat)
  let ?a = "if n < 8 then n else 2"
  have a: "first_served c ?a" "?a < 8" using assms(2,3) by (auto split: if_splits)
  then have "bit (in_service (master c)) ?a" "\<forall>k < ?a. \<not> bit (in_service (master c)) k"
    by (auto simp: first_served_def serving_def)
  note M = eoi_lowest [OF a(2) this]
  have S: "bit (in_service (slave c) AND (in_service (slave c) - 1)) k \<longleftrightarrow> bit (in_service (slave c)) k \<and> k \<noteq> n - 8" if "8 \<le> n" "k < 8" for k
  proof (rule eoi_lowest [OF _ _ _ that(2)])
    show "n - 8 < 8" using assms(1) that(1) by simp
    show "bit (in_service (slave c)) (n - 8)" using assms(2) that(1) by (simp add: first_served_def serving_def)
    show "\<forall>j < n - 8. \<not> bit (in_service (slave c)) j"
    proof (intro allI impI)
      fix j assume j: "j < n - 8"
      then have "j + 8 < n" "j < 8" using assms(1) by simp_all
      moreover have "n div 8 = 1" using assms(1) that(1) by (intro div_nat_eqI) simp_all
      ultimately have "j + 8 < n" "(j + 8) div 8 = n div 8" by simp_all
      then have "\<not> serving c (j + 8)" using assms(2) unfolding first_served_def by blast
      then show "\<not> bit (in_service (slave c)) j" by (simp add: serving_def)
    qed
  qed
  show ?thesis
  proof (cases "m < 8")
    case True
    then show ?thesis using M [of m] assms(1) by (auto simp: serving_def eoi_chips)
  next
    case False
    then have "m - 8 < 8" "(m - 8 = n - 8) = (m = n)" if "8 \<le> n" using assms(1,4) that by auto
    then show ?thesis using False S [of "m - 8"] irq by (cases "8 \<le> n") (auto simp: serving_def eoi_chips)
  qed
qed

text \<open>
  C38: \<open>pic_send_eoi\<close> ends the interrupt it is called for: if the line is the first in service on its
  chip, and for a line of the slave the cascade line on the master, then afterwards exactly it, and the
  cascade line with it, is no longer in service.
\<close>

theorem pic_eoi_ends_interrupt:
  assumes "n < 16" "first_served c n" "8 \<le> n \<longrightarrow> first_served c 2" "m < 16"
  shows "serving (pic_send_eoi (of_nat n) c) m \<longleftrightarrow> serving c m \<and> m \<noteq> n \<and> (8 \<le> n \<longrightarrow> m \<noteq> 2)"
  by (rule eoi_ends [OF assms])

definition busy_chips :: irq_chips where
  "busy_chips = (let p = \<lparr>icw_step = 0, vector_base = 0x20, cascade_word = 4, mode_word = 1, imr = 0, in_service = 0x06\<rparr>
     in \<lparr>master = p, slave = p\<lparr>in_service := 0x10\<rparr>, pit = \<lparr>pit_command = 0, high_next = False, pit_reload = 0\<rparr>\<rparr>)"

theorem pic_eoi_ends_interrupt_witness:
  "\<not> serving (pic_send_eoi 1 busy_chips) 1 \<and> serving (pic_send_eoi 1 busy_chips) 2"
proof -
  have f: "first_served busy_chips 1" by (simp add: first_served_def serving_def busy_chips_def Let_def bit_numeral_rec)
  have "serving busy_chips 2" by (simp add: serving_def busy_chips_def Let_def bit_numeral_rec)
  with pic_eoi_ends_interrupt [OF _ f, of 1] pic_eoi_ends_interrupt [OF _ f, of 2] show ?thesis by simp
qed

text \<open>
  The reload value of the timer is the quotient of the clock and the frequency as long as it fits
  16 bits; for the kernel's 100 Hz it is 11931.
\<close>

theorem init_timer_reload:
  assumes "19 \<le> unat frequency"
  shows "\<exists>c'. init_timer frequency c = Some c' \<and> unat (pit_reload (pit c')) = 1193180 div unat frequency \<and>
    master c' = master c \<and> slave c' = slave c"
proof -
  define d where "d = (1193180 :: u32) div frequency"
  have ud: "unat d = 1193180 div unat frequency" by (simp add: d_def unat_div)
  have "1193180 div unat frequency \<le> 1193180 div 19" by (rule div_le_mono2) (use assms in simp_all)
  then have lt: "unat d < 65536" unfolding ud by simp
  have "unat (ucast d :: u16) = unat d" using lt by (simp add: unsigned_ucast_eq take_bit_nat_eq_self)
  moreover have "(x AND 0xFF00 OR ucast (ucast (d AND 0xFF) :: u8)) AND 0xFF OR push_bit 8 (ucast (ucast (drop_bit 8 d AND 0xFF) :: u8)) = (ucast d :: u16)" for x
  proof -
    have m: "d AND 0xFF = take_bit 8 d" "drop_bit 8 d AND 0xFF = take_bit 8 (drop_bit 8 d)" "y AND 0xFF = take_bit 8 y" for y :: u16
      by (simp_all add: take_bit_eq_mask mask_eq_exp_minus_1)
    have h: "take_bit 8 (x AND 0xFF00) = (0 :: u16)" by (simp add: take_bit_eq_mask mask_eq_exp_minus_1 and.assoc)
    have "take_bit 8 (x AND 0xFF00 OR ucast (ucast (take_bit 8 d) :: u8)) = (take_bit 8 (ucast d) :: u16)"
      unfolding take_bit_or h by (rule bit_word_eqI) (auto simp: bit_simps)
    then show ?thesis unfolding m by (simp only:) (rule bit_word_eqI, auto simp: bit_simps)
  qed
  moreover have "frequency \<noteq> 0" using assms by auto
  ultimately show ?thesis
    unfolding ud [symmetric] by (simp add: init_timer_def Let_def d_def [symmetric] pic_outportb_def)
qed

theorem init_timer_reload_witness:
  "\<exists>c'. init_timer 100 busy_chips = Some c' \<and> unat (pit_reload (pit c')) = 11931"
  using init_timer_reload [of 100 busy_chips] by auto

end
