(* ===== verification/Crtc.thy ===== *)
theory Crtc
  imports Console
begin

text \<open>
  The CRT controller behind the ports 0x3D4 and 0x3D5, as the cursor functions of
  src/src/drivers/print/print.c drive it: the port writes of \<open>update_cursor\<close> set the location that the
  console model keeps in one field, \<open>enable_cursor\<close> and \<open>disable_cursor\<close> its shape.
\<close>

unbundle bit_operations_syntax

record crtc =
  crtc_index :: u8
  crtc_reg :: "u8 \<Rightarrow> u8"

definition crtc_outportb :: "u16 \<Rightarrow> u8 \<Rightarrow> crtc \<Rightarrow> crtc" where
  "crtc_outportb port v s =
     (if port = 0x3D4 then s\<lparr>crtc_index := v\<rparr>
      else if port = 0x3D5 then s\<lparr>crtc_reg := (crtc_reg s)(crtc_index s := v)\<rparr> else s)"

definition crtc_inportb :: "u16 \<Rightarrow> crtc \<Rightarrow> u8" where
  "crtc_inportb port s = (if port = 0x3D5 then crtc_reg s (crtc_index s) else crtc_index s)"

definition enable_cursor :: "u8 \<Rightarrow> u8 \<Rightarrow> crtc \<Rightarrow> crtc" where
  "enable_cursor cursor_start cursor_end s =
     (let s1 = crtc_outportb 0x3D4 0x0A s;
          s2 = crtc_outportb 0x3D5 ((crtc_inportb 0x3D5 s1 AND 0xC0) OR cursor_start) s1;
          s3 = crtc_outportb 0x3D4 0x0B s2
      in crtc_outportb 0x3D5 ((crtc_inportb 0x3D5 s3 AND 0xE0) OR cursor_end) s3)"

definition disable_cursor :: "crtc \<Rightarrow> crtc" where
  "disable_cursor s = crtc_outportb 0x3D5 0x20 (crtc_outportb 0x3D4 0x0A s)"

definition update_cursor_ports :: "int \<Rightarrow> int \<Rightarrow> crtc \<Rightarrow> crtc" where
  "update_cursor_ports x y s =
     (let pos = of_int (y * 80 + x) :: u16;
          s1 = crtc_outportb 0x3D4 0x0E s;
          s2 = crtc_outportb 0x3D5 (ucast (drop_bit 8 pos AND 0xFF)) s1;
          s3 = crtc_outportb 0x3D4 0x0F s2
      in crtc_outportb 0x3D5 (ucast (pos AND 0xFF)) s3)"

text \<open>Where the cursor is and between which scan lines it is drawn; bit 5 of the start register hides it.\<close>

definition crtc_location :: "crtc \<Rightarrow> u16" where
  "crtc_location s = push_bit 8 (ucast (crtc_reg s 0x0E)) OR ucast (crtc_reg s 0x0F)"

definition cursor_hidden :: "crtc \<Rightarrow> bool" where
  "cursor_hidden s \<longleftrightarrow> bit (crtc_reg s 0x0A) 5"

lemma crtc_write: "crtc_outportb 0x3D5 v (crtc_outportb 0x3D4 r s) = \<lparr>crtc_index = r, crtc_reg = (crtc_reg s)(r := v)\<rparr>"
  by (simp add: crtc_outportb_def)

lemma crtc_select: "crtc_inportb 0x3D5 (crtc_outportb 0x3D4 r s) = crtc_reg s r"
  by (simp add: crtc_outportb_def crtc_inportb_def)

lemma update_cursor_ports_location:
  "crtc_location (update_cursor_ports x y s) = cursor (update_cursor x y c)"
proof -
  let ?pos = "of_int (y * 80 + x) :: u16"
  have m: "drop_bit 8 ?pos AND 0xFF = take_bit 8 (drop_bit 8 ?pos)" "?pos AND 0xFF = take_bit 8 ?pos"
    by (simp_all add: take_bit_eq_mask mask_eq_exp_minus_1)
  have "push_bit 8 (ucast (ucast (take_bit 8 (drop_bit 8 ?pos)) :: u8)) OR ucast (ucast (take_bit 8 ?pos) :: u8) = ?pos"
    by (rule bit_word_eqI) (auto simp: bit_simps)
  then show ?thesis unfolding update_cursor_ports_def Let_def crtc_write m by (simp add: crtc_location_def update_cursor_def)
qed

lemma cursor_hidden_effect:
  assumes "cursor_start < 0x20"
  shows "cursor_hidden (disable_cursor s)" "\<not> cursor_hidden (enable_cursor cursor_start cursor_end s)"
    "crtc_location (enable_cursor cursor_start cursor_end s) = crtc_location s" "crtc_location (disable_cursor s) = crtc_location s"
proof -
  show "cursor_hidden (disable_cursor s)" unfolding disable_cursor_def crtc_write by (simp add: cursor_hidden_def bit_numeral_rec)
  have "cursor_start = take_bit 5 cursor_start" using assms by (simp add: word_less_nat_alt flip: unsigned_take_bit_eq word_unat_eq_iff) (simp add: word_unat_eq_iff unsigned_take_bit_eq take_bit_nat_eq_self)
  then have "\<not> bit cursor_start 5" by (metis bit_take_bit_iff less_irrefl)
  then show "\<not> cursor_hidden (enable_cursor cursor_start cursor_end s)"
    unfolding enable_cursor_def Let_def crtc_write crtc_select by (simp add: cursor_hidden_def bit_simps bit_numeral_rec)
  show "crtc_location (enable_cursor cursor_start cursor_end s) = crtc_location s" "crtc_location (disable_cursor s) = crtc_location s"
    unfolding enable_cursor_def disable_cursor_def Let_def crtc_write crtc_select by (simp_all add: crtc_location_def)
qed

end
