(* ===== verification/Interrupts.thy ===== *)
theory Interrupts
  imports Task Keyboard Pic Ata
begin

text \<open>
  The interrupt handler of src/src/cpu/idt/idt.c and kernel_panic of src/src/kernel/panic/panic.c, on a
  machine made of the task system, the console, the keyboard and the interrupt controllers.  There is one
  flag register: the console's copy is loaded from and stored to that of the task system around every call.
\<close>

unbundle bit_operations_syntax

section \<open>The machine\<close>

record machine =
  kern :: ksys
  screen :: console
  keys :: keyboard
  chips :: irq_chips
  global_ticks :: u32

record interrupt_registers =
  ir_ds :: u32
  ir_edi :: u32
  ir_esi :: u32
  ir_ebp :: u32
  ir_esp :: u32
  ir_ebx :: u32
  ir_edx :: u32
  ir_ecx :: u32
  ir_eax :: u32
  int_no :: u32
  err_code :: u32
  ir_eip :: u32
  ir_cs :: u32
  ir_eflags :: u32
  ir_useresp :: u32
  ir_ss :: u32

text \<open>A string constant as the array the compiler makes of it.\<close>

definition lit :: "string \<Rightarrow> chararr" where
  "lit str = (\<lambda>i. if i < length str then of_char (str ! i) else 0)"

definition on_screen :: "(console \<Rightarrow> console option) \<Rightarrow> 'm machine_scheme \<Rightarrow> 'm machine_scheme option" where
  "on_screen f m = map_option (\<lambda>c. m\<lparr>screen := c, kern := set_eflags (con_flags c) (kern m)\<rparr>)
     (f ((screen m)\<lparr>con_flags := cpu_eflags (kern m)\<rparr>))"

definition say :: "string \<Rightarrow> 'm machine_scheme \<Rightarrow> 'm machine_scheme option" where
  "say str = on_screen (\<lambda>c. Some (puts_text str c))"

text \<open>The state the processor halts in; \<open>vprintf\<close> has no result when an argument is missing.\<close>

definition kernel_panic :: "chararr \<Rightarrow> string \<Rightarrow> va_arg list \<Rightarrow> 'm machine_scheme \<Rightarrow> 'm machine_scheme option" where
  "kernel_panic buffer message args m =
     (let (flags, e) = irq_save (cpu_eflags (kern m))
      in on_screen (\<lambda>c. map_option (puts_text (newline @ ''-- System Halted --'' @ newline))
           (vprintf buffer (lit message) 0 args (puts_text (newline @ newline @ ''[BENMOSH PANIC] '') (set_print_color 0x4F c))))
           (m\<lparr>kern := set_eflags e (kern m)\<rparr>))"

section \<open>The handler\<close>

text \<open>
  How a handler ends: it returns to the interrupted code, it has switched to another task and the rest of
  it waits for the interrupted task to run again, it halts the processor, or a called function panics.
\<close>

datatype isr_end = Resumed machine | Switched machine | Halted machine | Panicked panic

definition as_arg :: "u32 \<Rightarrow> va_arg" where
  "as_arg x = VaInt (sint x)"

definition send_eoi :: "u8 \<Rightarrow> machine \<Rightarrow> machine" where
  "send_eoi irq m = m\<lparr>chips := pic_send_eoi irq (chips m)\<rparr>"

definition pf_text :: string where
  "pf_text = ''[#PF Handled] Allocated frame 0x%x for stack page 0x%x'' @ newline"

definition isr_page_fault :: "task_layout \<Rightarrow> chararr \<Rightarrow> addr \<Rightarrow> interrupt_registers \<Rightarrow> machine \<Rightarrow> isr_end option" where
  "isr_page_fault L buffer faulting_address r m =
     (let present_bit = err_code r AND 0x1; write = err_code r AND 0x2; user = err_code r AND 0x4
      in if present_bit = 0 \<and> faulting_address \<ge> 0x00900000 \<and> faulting_address < 0x00A00000
         then let (new_frame, p) = pmm_alloc_frame (pmm_st (vmm (kern m)));
                  m1 = m\<lparr>kern := (kern m)\<lparr>vmm := (vmm (kern m))\<lparr>pmm_st := p\<rparr>\<rparr>\<rparr>
              in if new_frame = 0
                 then map_option Halted (kernel_panic buffer ''Out of physical memory during stack expansion!'' [] m1)
                 else let page_aligned_addr = faulting_address AND NOT 0xFFF
                      in (case vmm_map_page_current (vmm_lay L) new_frame page_aligned_addr 7 (vmm_of (kern m1)) of
                            Inl e \<Rightarrow> Some (Panicked e)
                          | Inr v \<Rightarrow>
                              map_option Resumed (on_screen
                                (printf buffer (lit pf_text)
                                   [as_arg new_frame, as_arg page_aligned_addr])
                                (m1\<lparr>kern := with_vmm v (kern m1)\<rparr>)))
         else map_option Halted (kernel_panic buffer ''Fatal Page Fault at 0x%x (EIP: 0x%x, Error: 0x%x [%s%s%s])''
                [as_arg faulting_address, as_arg (ir_eip r), as_arg (err_code r),
                 VaStr (Some (lit (if present_bit \<noteq> 0 then ''PROTECTION '' else ''NOT-PRESENT ''))),
                 VaStr (Some (lit (if write \<noteq> 0 then ''WRITE '' else ''READ ''))),
                 VaStr (Some (lit (if user \<noteq> 0 then ''USER'' else ''KERNEL'')))] m))"

text \<open>The end of interrupt behind the switch.\<close>

definition isr_finish :: "interrupt_registers \<Rightarrow> machine \<Rightarrow> isr_end" where
  "isr_finish r m = Resumed (if int_no r \<ge> 32 \<and> int_no r < 48 then send_eoi (ucast (int_no r - 32)) m else m)"

definition isr_timer :: "task_layout \<Rightarrow> interrupt_registers \<Rightarrow> machine \<Rightarrow> isr_end option" where
  "isr_timer L r m =
     (let m1 = send_eoi 0 (m\<lparr>global_ticks := global_ticks m + 1\<rparr>)
      in map_option (\<lambda>x. case x of
             Inl p \<Rightarrow> Panicked p
           | Inr (switched, k) \<Rightarrow> if switched then Switched (m1\<lparr>kern := k\<rparr>) else isr_finish r (m1\<lparr>kern := k\<rparr>))
           (task_yield L (kern m1)))"

definition isr_keyboard :: "u8 \<Rightarrow> machine \<Rightarrow> machine" where
  "isr_keyboard port_0x60 m =
     (let (k, c) = keyboard_handler port_0x60 (keys m, (screen m)\<lparr>con_flags := cpu_eflags (kern m)\<rparr>)
      in m\<lparr>keys := k, screen := c, kern := set_eflags (con_flags c) (kern m)\<rparr>)"

text \<open>
  The whole handler.  Arguments are the layout, the contents of the number buffers of \<open>printf\<close>, CR2 and
  the byte at port 0x60.
\<close>

definition isr_handler :: "task_layout \<Rightarrow> chararr \<Rightarrow> addr \<Rightarrow> u8 \<Rightarrow> interrupt_registers \<Rightarrow> machine \<Rightarrow> isr_end option" where
  "isr_handler L buffer cr2 port_0x60 r m =
     (let n = int_no r
      in if n = 0x00 then map_option Halted (kernel_panic buffer ''Divide by Zero Exception at EIP: 0x%x'' [as_arg (ir_eip r)] m)
         else if n = 0x01 then map_option Halted (say (newline @ ''[EXCEPTION] #DB Debug'' @ newline) m)
         else if n = 0x06 then map_option Halted (kernel_panic buffer ''Invalid Opcode Exception at EIP: 0x%x'' [as_arg (ir_eip r)] m)
         else if n = 0x08
         then map_option Halted (kernel_panic buffer ''Double Fault! The CPU could not invoke an exception handler.'' [] m)
         else if n = 0x0D
         then map_option Halted (kernel_panic buffer ''#GP General Protection Fault! Error: 0x%x, EIP: 0x%x''
                [as_arg (err_code r), as_arg (ir_eip r)] m)
         else if n = 0x0E then isr_page_fault L buffer cr2 r m
         else if n = 0x20 then isr_timer L r m
         else if n = 0x21 then Some (isr_finish r (isr_keyboard port_0x60 m))
         else if n = 0x2C then Some (isr_finish r m)
         else if n < 32
         then map_option (isr_finish r)
                (on_screen (\<lambda>c. map_option (puts_text newline) (print_int buffer (sint n) (puts_text (newline @ ''[EXCEPTION] Unhandled #'') c))) m)
         else Some (isr_finish r m))"

section \<open>Messages\<close>

lemma lit_arr_str: "0 \<notin> set (map of_char str :: u8 list) \<Longrightarrow> arr_str (lit str) (map of_char str)"
  by (auto simp: arr_str_def lit_def image_iff)

lemma vprintf_lit:
  assumes "0 \<notin> set (map of_char str :: u8 list)" "list_all2 arg_text args targs" "format_text (map of_char str) targs = Some out"
  shows "vprintf buffer (lit str) 0 args c = Some (fold print_char out c)"
  using vprintf_text [of "lit str" "[]" "map of_char str" args targs out buffer c] lit_arr_str [OF assms(1)] assms by simp

lemma printf_lit:
  assumes "0 \<notin> set (map of_char str :: u8 list)" "list_all2 arg_text args targs" "format_text (map of_char str) targs = Some out"
  shows "printf buffer (lit str) args c = Some (fold print_char out c)"
  unfolding printf_def by (rule vprintf_lit [OF assms])

section \<open>Stack growth\<close>

text \<open>Where the page table exists, \<open>vmm_map_page_current\<close> does what \<open>vmm_map_page_in_pdir\<close> does with CR3.\<close>

lemma vmm_map_page_current_present:
  assumes ok: "vmm_ok L s" and dir: "dir_ok L (pmem s) (pmm_st s) (cr3 s)" and va: "page_offset va = 0" "\<not> scratch_page va"
    and pr: "present (pmem s) (cr3 s) (pdi va)" and pa: "page_aligned pa"
  shows "vmm_map_page_current L pa va fl s = lift_map (spec_map (cr3 s) va (pa OR fl) (pmem s, pmm_st s)) s"
proof -
  let ?s1 = "set_scratch L (cr3 s OR 3) (s\<lparr>cpu_flags := cpu_flags s AND NOT interrupt_flag\<rparr>)"
  have c: "frame_of (cr3 s) = cr3 s" "page_aligned (cr3 s)" and f: "frame_of pa = pa"
    using dir pa by (simp_all add: dir_ok_def page_aligned_def)
  have "layout_ok L" using ok by (simp add: vmm_ok_def)
  from dir_cells(1) [OF this dir] have "scratch_read L (pdi va) ?s1 AND 1 \<noteq> 0"
    using pr c by (simp add: scratch_read_set present_def)
  then have "vmm_map_page_current L pa va fl s = vmm_map_page_in_pdir L (cr3 s) pa va fl s"
    using va(1) unfolding vmm_map_page_current_def vmm_map_page_in_pdir_def irq_save_def Let_def prod.case c(1) f page_offset_def
    by simp
  with vmm_map_page_in_pdir_refines [OF ok dir] va(2) f show ?thesis by (simp add: scratch_page_def)
qed

lemma alloc_keeps_spaces:
  assumes "vmm_ok L v" "dir_ok L (pmem v) (pmm_st v) pd" "pmm_alloc_frame (pmm_st v) = (f, p)" "f \<noteq> 0"
  shows "vmm_ok L (v\<lparr>pmm_st := p, cpu_flags := e\<rparr>)" "dir_ok L (pmem v) p pd"
proof -
  have inv: "pmm_inv (pmm_st v)" using assms(1) by (simp add: vmm_ok_def)
  note fresh = alloc_fresh [OF inv assms(3,4)]
  show "vmm_ok L (v\<lparr>pmm_st := p, cpu_flags := e\<rparr>)" using assms(1) fresh by (simp add: vmm_ok_def)
  show "dir_ok L (pmem v) p pd" using assms(2) fresh(6) by (auto simp: dir_ok_def)
qed

lemma stack_page:
  assumes "0x00900000 \<le> va" "va < (0x00A00000 :: addr)"
  shows "page_offset (va AND NOT 0xFFF) = 0" "\<not> scratch_page (va AND NOT 0xFFF)" "pdi (va AND NOT 0xFFF) = pdi va"
    "same_page (va AND NOT 0xFFF) va' = same_page va va'" "pdi va = 2"
proof -
  have f: "va AND NOT 0xFFF = frame_of va" by (simp add: frame_of_def)
  have b: "0x900000 \<le> unat va" "unat va < 0xA00000" using assms by (simp_all add: word_le_nat_alt word_less_nat_alt)
  have u: "unat (frame_of va) div 4096 = unat va div 4096" by (simp add: unat_frame_of minus_mod_eq_mult_div)
  then show d: "pdi (va AND NOT 0xFFF) = pdi va" unfolding f by (simp add: pdi_eq)
  have t: "pti (va AND NOT 0xFFF) = pti va" using u unfolding f by (simp add: pti_eq)
  show "same_page (va AND NOT 0xFFF) va' = same_page va va'" by (simp only: same_page_iff d t)
  show p: "pdi va = 2" using b by (simp add: pdi_eq)
  show "\<not> scratch_page (va AND NOT 0xFFF)" unfolding scratch_page_def d p by simp
  show "page_offset (va AND NOT 0xFFF) = 0" by (simp add: page_offset_def and.assoc)
qed

text \<open>A free frame mapped at a page whose page table exists.\<close>

lemma page_mapped:
  assumes ok: "vmm_ok L v" and dir: "dir_ok L (pmem v) (pmm_st v) (cr3 v)" and va: "page_offset va = 0" "\<not> scratch_page va"
    and pr: "present (pmem v) (cr3 v) (pdi va)" and al: "pmm_alloc_frame (pmm_st v) = (f, p)" "f \<noteq> 0"
  obtains v' where "vmm_map_page_current L f va 7 (v\<lparr>pmm_st := p, cpu_flags := e\<rparr>) = Inr v'"
    "v' = v\<lparr>pmm_st := p, cpu_flags := e, pmem := (pmem v)(cell (table (pmem v) (cr3 v) (pdi va)) (pti va) := f OR 7)\<rparr>"
    "vmm_ok L v'" "dir_ok L (pmem v') (pmm_st v') (cr3 v')" "frame_number f \<in> free_frames (pmm_st v) - {0}"
    "free_frames (pmm_st v') = free_frames (pmm_st v) - {frame_number f}"
    "\<forall>x. translate (pmem v') (cr3 v) x =
       (if same_page va x then Some (f OR page_offset x) else translate (pmem v) (cr3 v) x)"
proof -
  let ?w = "v\<lparr>pmm_st := p, cpu_flags := e\<rparr>"
  have inv: "pmm_inv (pmm_st v)" using ok by (simp add: vmm_ok_def)
  note fresh = alloc_fresh [OF inv al]
  note sp = alloc_keeps_spaces(1) [OF ok dir al, of e] alloc_keeps_spaces(2) [OF ok dir al]
  let ?m' = "(pmem v)(cell (table (pmem v) (cr3 v) (pdi va)) (pti va) := f OR 7)"
  have sm: "spec_map (cr3 ?w) va (f OR 7) (pmem ?w, pmm_st ?w) = Some (?m', p)" using pr by (simp add: spec_map_def present_def)
  have map: "vmm_map_page_current L f va 7 ?w = Inr (?w\<lparr>pmem := ?m', pmm_st := p\<rparr>)"
    using vmm_map_page_current_present [OF sp(1) _ va _ fresh(1), of 7] sp(2) pr sm by (simp add: lift_map_def)
  have keep: "vmm_ok L (?w\<lparr>pmem := ?m', pmm_st := p\<rparr>)" "dir_ok L ?m' p (cr3 v)"
    using spec_map_vmm_ok [OF sp(1) _ sm va(2)] sp(2) by simp_all
  have nz: "frame_number f \<noteq> 0"
  proof
    assume "frame_number f = 0"
    with frame_addr_number [OF fresh(1)] have "f = frame_addr 0" by simp
    with al(2) show False by (simp add: frame_addr_def)
  qed
  have "pmm_inv p" "frame_of (f OR 7) = f" "(f OR 7) AND 1 \<noteq> 0" using fresh(1,2) frame_of_or [of f 7] by simp_all
  then have "translate ?m' (cr3 v) x = (if same_page va x then Some (f OR page_offset x) else translate (pmem v) (cr3 v) x)" for x
    using spec_map_translate [OF sp(2), of va "f OR 7" ?m' p x] sm by simp
  then show thesis using that [OF map _ keep(1)] keep(2) fresh(3,4) nz by simp
qed

lemma stack_page_mapped:
  assumes ok: "vmm_ok L v" and dir: "dir_ok L (pmem v) (pmm_st v) (cr3 v)" and pr: "present (pmem v) (cr3 v) 2"
    and a: "0x00900000 \<le> va" "va < 0x00A00000" and al: "pmm_alloc_frame (pmm_st v) = (f, p)" "f \<noteq> 0"
  obtains v' where "vmm_map_page_current L f (va AND NOT 0xFFF) 7 (v\<lparr>pmm_st := p, cpu_flags := e\<rparr>) = Inr v'"
    "vmm_ok L v'" "dir_ok L (pmem v') (pmm_st v') (cr3 v')" "cr3 v' = cr3 v" "frame_number f \<in> free_frames (pmm_st v) - {0}"
    "free_frames (pmm_st v') = free_frames (pmm_st v) - {frame_number f}"
    "\<forall>x. translate (pmem v') (cr3 v) x =
       (if same_page va x then Some (frame_addr (frame_number f) OR page_offset x) else translate (pmem v) (cr3 v) x)"
proof -
  note pg = stack_page [OF a]
  have "pmm_inv (pmm_st v)" using ok by (simp add: vmm_ok_def)
  from frame_addr_number [OF alloc_fresh(1) [OF this al]] have fa: "frame_addr (frame_number f) = f" .
  have pr': "present (pmem v) (cr3 v) (pdi (va AND NOT 0xFFF))" using pr pg(3,5) by simp
  obtain v' where m: "vmm_map_page_current L f (va AND NOT 0xFFF) 7 (v\<lparr>pmm_st := p, cpu_flags := e\<rparr>) = Inr v'" "cr3 v' = cr3 v"
    "vmm_ok L v'" "dir_ok L (pmem v') (pmm_st v') (cr3 v')" "frame_number f \<in> free_frames (pmm_st v) - {0}"
    "free_frames (pmm_st v') = free_frames (pmm_st v) - {frame_number f}"
    "\<forall>x. translate (pmem v') (cr3 v) x = (if same_page (va AND NOT 0xFFF) x then Some (f OR page_offset x) else translate (pmem v) (cr3 v) x)"
    by (rule page_mapped [OF ok dir pg(1,2) pr' al, of e]) auto
  show thesis by (rule that [OF m(1,3,4,2,5,6)]) (use m(7) in \<open>simp only: fa pg(4) simp_thms\<close>)
qed

lemma on_screen_Some: "f ((screen m)\<lparr>con_flags := cpu_eflags (kern m)\<rparr>) = Some c \<Longrightarrow>
    on_screen f m = Some (m\<lparr>screen := c, kern := set_eflags (con_flags c) (kern m)\<rparr>)"
  by (simp add: on_screen_def)

lemma vmm_set_eflags [simp]: "vmm (set_eflags e k) = vmm k"
  by (simp add: set_eflags_def)

lemma nonzero_text: "list_all (\<lambda>c. c \<noteq> 0) (map of_char str :: u8 list) \<Longrightarrow> 0 \<notin> set (map of_char str :: u8 list)"
  by (auto simp: list_all_iff)

lemma pf_message:
  "\<exists>c'. printf buffer (lit pf_text) [as_arg a, as_arg b] c = Some c'"
proof -
  let ?f = pf_text
  have "list_all (\<lambda>c. c \<noteq> 0) (map of_char ?f :: u8 list)" by code_simp
  then have z: "0 \<notin> set (map of_char ?f :: u8 list)" by (rule nonzero_text)
  have "list_all2 arg_text [as_arg a, as_arg b] [TInt (sint a), TInt (sint b)]" by (simp add: arg_text_def as_arg_def)
  moreover obtain out where "format_text (map of_char ?f) [TInt (sint a), TInt (sint b)] = Some out"
    by (simp add: pf_text_def newline_def directive_text_def)
  ultimately show ?thesis using printf_lit [OF z] by blast
qed

text \<open>The part of the machine a page fault may touch: page tables, frames, the screen and the flags.\<close>

definition same_tasks :: "machine \<Rightarrow> machine \<Rightarrow> bool" where
  "same_tasks m m' \<longleftrightarrow> keys m' = keys m \<and> chips m' = chips m \<and> global_ticks m' = global_ticks m \<and>
     pcb (kern m') = pcb (kern m) \<and> links (kern m') = links (kern m) \<and> current_task_ptr (kern m') = current_task_ptr (kern m) \<and>
     hmem (heap (kern m')) = hmem (heap (kern m)) \<and> regs (kern m') = regs (kern m) \<and> cr3 (vmm (kern m')) = cr3 (vmm (kern m))"


text \<open>A machine after boot, with the page of the user stack mapped as \<open>KernelMain\<close> does it.\<close>

definition user_vmm :: vmm_state where
  "user_vmm = (case vmm_map_page_in_pdir boot_layout (page_directory boot_layout) 0x200000 0x009FF000 7
     (set_scratch boot_layout 0 boot_vmm) of Inr v \<Rightarrow> v | Inl _ \<Rightarrow> boot_vmm)"

definition user_machine :: machine where
  "user_machine = \<lparr>kern = boot_ksys\<lparr>vmm := user_vmm\<rparr>, screen = boot_console, keys = idle_keyboard, chips = busy_chips, global_ticks = 0\<rparr>"

lemma user_vmm_ok:
  "vmm_ok boot_layout user_vmm" "dir_ok boot_layout (pmem user_vmm) (pmm_st user_vmm) (cr3 user_vmm)"
  "present (pmem user_vmm) (cr3 user_vmm) 2" "free_frames (pmm_st user_vmm) - {0} \<noteq> {}"
proof -
  let ?s = "set_scratch boot_layout 0 boot_vmm" and ?pd = "page_directory boot_layout"
  have ns: "\<not> scratch_page 0x009FF000" and d: "pdi 0x009FF000 = 2" by (simp_all add: scratch_page_def pdi_eq)
  have inv: "pmm_inv (pmm_st ?s)" and c: "cr3 ?s = ?pd" by (simp_all add: boot_vmm_pmm boot_pmm_inv) (simp add: boot_vmm_def vmm_init_def Let_def set_scratch_def)
  have "free_frames (pmm_st ?s) - {0} \<noteq> {}" by (simp add: boot_vmm_pmm boot_pmm_free)
  from spec_map_not_None [OF inv this] obtain m p where
    sm: "spec_map ?pd 0x009FF000 (frame_of 0x200000 OR 7) (pmem ?s, pmm_st ?s) = Some (m, p)" by blast
  have u: "user_vmm = ?s\<lparr>pmem := m, pmm_st := p\<rparr>"
    using vmm_map_page_in_pdir_refines [OF boot_vmm_ok, of "0x009FF000" "0x200000" 7] ns sm
    by (simp add: user_vmm_def scratch_page_def lift_map_def)
  note keep = spec_map_vmm_ok [OF boot_vmm_ok sm ns]
  show "vmm_ok boot_layout user_vmm" unfolding u by (rule keep)
  show "dir_ok boot_layout (pmem user_vmm) (pmm_st user_vmm) (cr3 user_vmm)" unfolding u using keep(2) c by simp
  show "present (pmem user_vmm) (cr3 user_vmm) 2"
    unfolding u using spec_map_directory(1) [OF boot_vmm_ok(2) inv sm, of 2] c d by simp
  from sm show "free_frames (pmm_st user_vmm) - {0} \<noteq> {}"
  proof (cases rule: spec_map_cases)
    case old
    then show ?thesis unfolding u by (simp add: boot_vmm_pmm boot_pmm_free)
  next
    case (new f)
    from alloc_fresh(3) [OF inv new(2,3)] show ?thesis unfolding u by (auto simp: boot_vmm_pmm boot_pmm_free)
  qed
qed

definition fault_regs :: "u32 \<Rightarrow> u32 \<Rightarrow> interrupt_registers" where
  "fault_regs n e = \<lparr>ir_ds = 0x23, ir_edi = 0, ir_esi = 0, ir_ebp = 0, ir_esp = 0, ir_ebx = 0, ir_edx = 0, ir_ecx = 0, ir_eax = 0,
     int_no = n, err_code = e, ir_eip = 0x800000, ir_cs = 0x1B, ir_eflags = 0x202, ir_useresp = 0xA00000, ir_ss = 0x23\<rparr>"


section \<open>The timer\<close>

lemma eoi_stays_off: "\<not> serving c 0 \<Longrightarrow> \<not> serving (pic_send_eoi 0 c) 0"
  by (simp add: serving_def eoi_chips bit_and_iff)


lemma timer_chips: "first_served (busy_chips\<lparr>master := (master busy_chips)\<lparr>in_service := 1\<rparr>\<rparr>) 0"
  by (simp add: first_served_def serving_def busy_chips_def Let_def)


section \<open>Fatal exceptions\<close>

lemma print_char_interrupts: "\<not> interrupts_on (con_flags s) \<Longrightarrow> \<not> interrupts_on (con_flags (print_char ch s))"
  by (auto simp: print_char_def irq_save_def irq_restore_def interrupts_on_def Let_def and.assoc split: if_splits)

lemma print_chars_interrupts: "\<not> interrupts_on (con_flags s) \<Longrightarrow> \<not> interrupts_on (con_flags (fold print_char xs s))"
  by (induction xs arbitrary: s) (simp_all add: print_char_interrupts)

text \<open>What the panic puts on the screen around its message.\<close>

definition panic_screen :: "u8 list \<Rightarrow> 'm machine_scheme \<Rightarrow> console" where
  "panic_screen out m = fold print_char (map of_char (newline @ newline @ ''[BENMOSH PANIC] '') @ out @
     map of_char (newline @ ''-- System Halted --'' @ newline))
     (set_print_color 0x4F ((screen m)\<lparr>con_flags := cpu_eflags (kern m) AND NOT interrupt_flag\<rparr>))"

lemma set_print_color_flags: "con_flags (set_print_color c s) = con_flags s"
  by (simp add: set_print_color_def Let_def)

lemma kernel_panic_effect:
  assumes "0 \<notin> set (map of_char msg :: u8 list)" "list_all2 arg_text args targs" "format_text (map of_char msg) targs = Some out"
  obtains m' where "kernel_panic buffer msg args m = Some m'" "screen m' = panic_screen out m"
    "\<not> interrupts_on (cpu_eflags (kern m'))"
proof -
  let ?c = "panic_screen out m"
  let ?m' = "m\<lparr>screen := ?c, kern := set_eflags (con_flags ?c) (set_eflags (cpu_eflags (kern m) AND NOT interrupt_flag) (kern m))\<rparr>"
  have "kernel_panic buffer msg args m = Some ?m'"
    using vprintf_lit [OF assms] by (simp add: kernel_panic_def irq_save_def on_screen_def panic_screen_def puts_text_def)
  moreover have "\<not> interrupts_on (con_flags ?c)"
    unfolding panic_screen_def by (rule print_chars_interrupts) (simp add: set_print_color_flags interrupts_on_def and.assoc)
  ultimately show thesis using that by (simp add: cpu_eflags_def set_eflags_def)
qed

text \<open>The messages of the exceptions the kernel cannot continue from.\<close>

definition fatal_text :: "addr \<Rightarrow> interrupt_registers \<Rightarrow> u8 list" where
  "fatal_text cr2 r =
     (let str = (map of_char :: string \<Rightarrow> u8 list)
      in if int_no r = 0 then str ''Divide by Zero Exception at EIP: 0x'' @ hex_text (ir_eip r)
         else if int_no r = 6 then str ''Invalid Opcode Exception at EIP: 0x'' @ hex_text (ir_eip r)
         else if int_no r = 8 then str ''Double Fault! The CPU could not invoke an exception handler.''
         else if int_no r = 13
         then str ''#GP General Protection Fault! Error: 0x'' @ hex_text (err_code r) @ str '', EIP: 0x'' @ hex_text (ir_eip r)
         else str ''Fatal Page Fault at 0x'' @ hex_text cr2 @ str '' (EIP: 0x'' @ hex_text (ir_eip r) @ str '', Error: 0x'' @
              hex_text (err_code r) @ str '' ['' @ str (if err_code r AND 1 \<noteq> 0 then ''PROTECTION '' else ''NOT-PRESENT '') @
              str (if err_code r AND 2 \<noteq> 0 then ''WRITE '' else ''READ '') @
              str (if err_code r AND 4 \<noteq> 0 then ''USER'' else ''KERNEL'') @ str ''])'')"

definition fatal :: "addr \<Rightarrow> interrupt_registers \<Rightarrow> bool" where
  "fatal cr2 r \<longleftrightarrow> int_no r \<in> {0, 6, 8, 13} \<or>
     int_no r = 14 \<and> \<not> (err_code r AND 1 = 0 \<and> 0x00900000 \<le> cr2 \<and> cr2 < 0x00A00000)"

lemma arg_text_as_arg [simp]: "arg_text (as_arg x) t \<longleftrightarrow> t = TInt (sint x)"
  by (cases t) (auto simp: arg_text_def as_arg_def)

lemma arg_text_lit: "list_all (\<lambda>c. c \<noteq> 0) (map of_char str :: u8 list) \<Longrightarrow> arg_text (VaStr (Some (lit str))) (TStr (Some (map of_char str)))"
  using lit_arr_str [OF nonzero_text] by (simp add: arg_text_def)

text \<open>A panic whose format and message are evaluated.\<close>

lemma kernel_panic_halted:
  assumes "list_all (\<lambda>c. c \<noteq> 0) (map of_char msg :: u8 list)" "list_all2 arg_text args targs"
    and "format_text (map of_char msg) targs = Some out"
  shows "\<exists>m'. map_option Halted (kernel_panic buffer msg args m) = Some (Halted m') \<and> screen m' = panic_screen out m \<and>
    \<not> interrupts_on (cpu_eflags (kern m'))"
  using kernel_panic_effect [OF nonzero_text [OF assms(1)] assms(2,3), of buffer m] by force

lemma page_fault_halted:
  assumes "\<not> (err_code r AND 1 = 0 \<and> 0x00900000 \<le> cr2 \<and> cr2 < 0x00A00000)" "int_no r = 14"
  shows "\<exists>m'. isr_page_fault L buffer cr2 r m = Some (Halted m') \<and> screen m' = panic_screen (fatal_text cr2 r) m \<and>
    \<not> interrupts_on (cpu_eflags (kern m'))"
proof -
  let ?p = "if err_code r AND 1 \<noteq> 0 then ''PROTECTION '' else ''NOT-PRESENT ''"
  let ?w = "if err_code r AND 2 \<noteq> 0 then ''WRITE '' else ''READ ''"
  let ?u = "if err_code r AND 4 \<noteq> 0 then ''USER'' else ''KERNEL''"
  let ?f = "''Fatal Page Fault at 0x%x (EIP: 0x%x, Error: 0x%x [%s%s%s])''"
  let ?t = "[TInt (sint cr2), TInt (sint (ir_eip r)), TInt (sint (err_code r)), TStr (Some (map of_char ?p)), TStr (Some (map of_char ?w)), TStr (Some (map of_char ?u))]"
  have z: "list_all (\<lambda>c. c \<noteq> 0) (map of_char ?f :: u8 list)" by code_simp
  have "arg_text (VaStr (Some (lit ?p))) (TStr (Some (map of_char ?p)))" "arg_text (VaStr (Some (lit ?w))) (TStr (Some (map of_char ?w)))"
    "arg_text (VaStr (Some (lit ?u))) (TStr (Some (map of_char ?u)))"
    by (rule arg_text_lit, simp)+
  then have a: "list_all2 arg_text [as_arg cr2, as_arg (ir_eip r), as_arg (err_code r), VaStr (Some (lit ?p)), VaStr (Some (lit ?w)), VaStr (Some (lit ?u))] ?t"
    by simp
  have t: "format_text (map of_char ?f) ?t = Some (fatal_text cr2 r)"
    using assms(2) by (simp add: fatal_text_def directive_text_def Let_def)
  have "isr_page_fault L buffer cr2 r m = map_option Halted (kernel_panic buffer ?f
      [as_arg cr2, as_arg (ir_eip r), as_arg (err_code r), VaStr (Some (lit ?p)), VaStr (Some (lit ?w)), VaStr (Some (lit ?u))] m)"
    using assms(1) unfolding isr_page_fault_def Let_def by (simp only: if_False)
  with kernel_panic_halted [OF z a t, of buffer m] show ?thesis by simp
qed



end
