(* ===== verification/Syscalls.thy ===== *)
theory Syscalls
  imports Interrupts Shell_Line
begin

text \<open>
  The system calls of src/src/kernel/syscall/syscall.c.  Arguments stand for what is outside of the kernel:
  the bytes the processor reads at an address, the address of the static input buffer, and what happens to
  the machine while the processor is halted (\<open>idle n\<close>, the interrupts taken and the other tasks run during
  the wait number \<open>n\<close>).
\<close>

unbundle bit_operations_syntax

section \<open>The dispatcher\<close>

definition echo :: "u8 list \<Rightarrow> machine \<Rightarrow> machine" where
  "echo xs m = (let c = fold print_char xs ((screen m)\<lparr>con_flags := cpu_eflags (kern m)\<rparr>)
     in m\<lparr>screen := c, kern := set_eflags (con_flags c) (kern m)\<rparr>)"

definition paint :: "u16 \<Rightarrow> machine \<Rightarrow> machine" where
  "paint color m = m\<lparr>screen := set_print_color color (screen m)\<rparr>"

record reader =
  rd_index :: u32
  rd_buffer :: "u8 list"

text \<open>
  One turn of the loop of system call 4.  A left result ends the loop.  The instructions \<open>sti; hlt; cli\<close>
  leave interrupts disabled after whatever happened meanwhile.
\<close>

definition input_step ::
  "task_layout \<Rightarrow> (machine \<Rightarrow> machine) \<Rightarrow> reader \<Rightarrow> machine \<Rightarrow> ((reader \<times> machine) kres + reader \<times> machine) option" where
  "input_step L wait rd m =
     (let m0 = wait m;
          m1 = m0\<lparr>kern := set_eflags (cpu_eflags (kern m0) AND NOT interrupt_flag) (kern m0)\<rparr>;
          (c, k) = keyboard_pop_char (keys m1);
          m2 = m1\<lparr>keys := k\<rparr>
      in if c = 0
         then map_option (\<lambda>x. case x of Inl p \<Rightarrow> Inl (Inl p) | Inr (b, s) \<Rightarrow> Inr (rd, m2\<lparr>kern := s\<rparr>)) (task_yield L (kern m2))
         else if c = 10
         then Some (Inl (Inr (rd\<lparr>rd_buffer := (rd_buffer rd)[unat (rd_index rd) := 10], rd_index := rd_index rd + 1\<rparr>, echo [10] m2)))
         else if c = 8
         then if rd_index rd > 0 then Some (Inr (rd\<lparr>rd_index := rd_index rd - 1\<rparr>, echo [8, 32, 8] m2)) else Some (Inr (rd, m2))
         else Some (Inr (rd\<lparr>rd_buffer := (rd_buffer rd)[unat (rd_index rd) := c], rd_index := rd_index rd + 1\<rparr>, echo [c] m2)))"

partial_function (option) input_loop ::
  "task_layout \<Rightarrow> (nat \<Rightarrow> machine \<Rightarrow> machine) \<Rightarrow> u32 \<Rightarrow> nat \<Rightarrow> reader \<Rightarrow> machine \<Rightarrow> (reader \<times> machine) kres option" where
  "input_loop L idle max_len n rd m =
     (if rd_index rd < max_len - 1
      then Option.bind (input_step L (idle n) rd m) (\<lambda>x.
             if isl x then Some (projl x) else input_loop L idle max_len (Suc n) (fst (projr x)) (snd (projr x)))
      else Some (Inr (rd, m)))"

definition syscall_read ::
  "task_layout \<Rightarrow> (nat \<Rightarrow> machine \<Rightarrow> machine) \<Rightarrow> addr \<Rightarrow> u32 \<Rightarrow> u8 list \<Rightarrow> machine \<Rightarrow> (u32 \<times> u8 list \<times> machine) kres option" where
  "syscall_read L idle buffer_addr ebx input_buffer m =
     (if ebx = 0 then Some (Inr (0, input_buffer, m))
      else let max_len = (if ebx > 255 then 255 else ebx)
           in kobind (input_loop L idle max_len 0 \<lparr>rd_index = 0, rd_buffer = input_buffer\<rparr> m)
                (\<lambda>(rd, m'). Some (Inr (buffer_addr, (rd_buffer rd)[unat (rd_index rd) := 0], m'))))"

definition syscall_dispatcher ::
  "task_layout \<Rightarrow> (nat \<Rightarrow> machine \<Rightarrow> machine) \<Rightarrow> addr \<Rightarrow> bytemem \<Rightarrow> chararr \<Rightarrow> u32 \<Rightarrow> u32 \<Rightarrow> u32 \<Rightarrow> u32 \<Rightarrow>
     u8 list \<Rightarrow> machine \<Rightarrow> (u32 \<times> u8 list \<times> machine) kres option" where
  "syscall_dispatcher L idle buffer_addr memory num_buffer eax ebx ecx edx input_buffer m =
     (let ret = (\<lambda>m. Inr (0, input_buffer, m))
      in if eax = 1
         then Some (ret (paint 0x0F (echo (map of_char (''[Kernel] Syscall 1 received from Ring3'' @ newline)) (paint 0x0D m))))
         else if eax = 2
         then if ebx \<noteq> 0 then map_option ret (on_screen (puts (\<lambda>i. memory (ebx + of_nat i))) m) else Some (ret m)
         else if eax = 3 then Some (ret m)
         else if eax = 4 then syscall_read L idle buffer_addr ebx input_buffer m
         else map_option (\<lambda>m. ret (paint 0x0F (echo [10] m)))
                (on_screen (print_int num_buffer (sint eax)) (echo (map of_char ''[Kernel] Unknown syscall: '') (paint 0x0C m))))"

section \<open>Reading a line\<close>

text \<open>What typing \<open>cs\<close> leaves of a line of at most \<open>limit\<close> characters: the contents when it is complete, if ever.\<close>

fun typed :: "nat \<Rightarrow> u8 list \<Rightarrow> u8 list \<Rightarrow> u8 list option" where
  "typed limit acc cs =
     (if length acc < limit
      then (case cs of [] \<Rightarrow> None
            | c # cs' \<Rightarrow> if c = 10 then Some (acc @ [10])
                        else if c = 8 then typed limit (butlast acc) cs'
                        else typed limit (acc @ [c]) cs')
      else Some acc)"

declare typed.simps [simp del]

text \<open>Waiting only adds keys behind those already there.\<close>

definition keys_arrive :: "(nat \<Rightarrow> machine \<Rightarrow> machine) \<Rightarrow> bool" where
  "keys_arrive idle \<longleftrightarrow> (\<forall>n m. kbd_ok (keys m) \<longrightarrow> kbd_ok (keys (idle n m)) \<and>
     (\<exists>new. kbd_contents (keys (idle n m)) = kbd_contents (keys m) @ new))"

lemma pop_is_getchar: "keyboard_pop_char k = kbd_getchar k"
  by (simp add: keyboard_pop_char_def kbd_getchar_def)

lemma keys_echo [simp]: "keys (echo xs m) = keys m"
  by (simp add: echo_def Let_def)

lemma typed_more: "typed limit acc cs = Some out \<Longrightarrow> typed limit acc (cs @ rest) = Some out"
proof (induction limit acc cs rule: typed.induct)
  case (1 limit acc cs)
  then show ?case by (subst typed.simps, subst (asm) (3) typed.simps) (auto split: list.splits if_splits)
qed

lemma typed_length: "typed limit acc cs = Some out \<Longrightarrow> length acc \<le> limit \<Longrightarrow> length out \<le> limit \<and> set out \<subseteq> set acc \<union> set cs"
proof (induction limit acc cs rule: typed.induct)
  case (1 limit acc cs)
  show ?case
  proof (cases "length acc < limit")
    case True
    with 1(3) obtain c cs' where c: "cs = c # cs'" by (auto simp: typed.simps [of limit acc cs] split: list.splits)
    show ?thesis
    proof (cases "c = 10")
      case False
      then have "typed limit (if c = 8 then butlast acc else acc @ [c]) cs' = Some out"
        using 1(3) True c by (simp add: typed.simps [of limit acc "c # cs'"] split: if_splits)
      moreover have "set (butlast acc) \<subseteq> set acc" by (auto dest: in_set_butlastD)
      moreover have "length (butlast acc) \<le> limit" "length (acc @ [c]) \<le> limit" using True by simp_all
      ultimately show ?thesis using 1(1,2) [OF True c False] c by (cases "c = 8") fastforce+
    qed (use 1(3) True c in \<open>auto simp: typed.simps [of limit acc "10 # cs'"]\<close>)
  qed (use 1(3,4) in \<open>auto simp: typed.simps [of limit acc cs]\<close>)
qed

text \<open>The state of the loop: the first \<open>rd_index\<close> bytes of the buffer are the line so far.\<close>

definition reads :: "reader \<Rightarrow> u8 list \<Rightarrow> bool" where
  "reads rd acc \<longleftrightarrow> length (rd_buffer rd) = 256 \<and> unat (rd_index rd) = length acc \<and> take (length acc) (rd_buffer rd) = acc"

lemma reads_put:
  assumes "reads rd acc" "length acc < 255"
  shows "reads (rd\<lparr>rd_buffer := (rd_buffer rd)[unat (rd_index rd) := c], rd_index := rd_index rd + 1\<rparr>) (acc @ [c])"
proof -
  have "unat (rd_index rd + 1) = length acc + 1" using assms by (simp add: reads_def unat_plus_u32)
  with assms show ?thesis by (simp add: reads_def take_Suc_conv_app_nth)
qed

lemma reads_drop:
  assumes "reads rd acc" "acc \<noteq> []"
  shows "reads (rd\<lparr>rd_index := rd_index rd - 1\<rparr>) (butlast acc)" "rd_index rd > 0"
proof -
  show p: "rd_index rd > 0" using assms by (auto simp: reads_def word_less_nat_alt)
  then have "unat (rd_index rd - 1) = length acc - 1" using assms(1) by (simp add: reads_def unat_minus_one)
  moreover have "take (length acc - 1) (rd_buffer rd) = butlast acc"
    using assms(1) by (metis reads_def butlast_conv_take take_take min_def diff_le_self)
  ultimately show "reads (rd\<lparr>rd_index := rd_index rd - 1\<rparr>) (butlast acc)" using assms(1) by (simp add: reads_def)
qed

text \<open>A turn that finds a key waiting.\<close>

lemma input_step_key:
  assumes "keys_arrive idle" "kbd_ok (keys m)" "kbd_contents (keys m) = c # cs" "c \<noteq> 0"
  obtains m' new where "kbd_ok (keys m')" "kbd_contents (keys m') = cs @ new"
    "input_step L (idle n) rd m =
       (if c = 10 then Some (Inl (Inr (rd\<lparr>rd_buffer := (rd_buffer rd)[unat (rd_index rd) := 10], rd_index := rd_index rd + 1\<rparr>, echo [10] m')))
        else if c = 8
        then if rd_index rd > 0 then Some (Inr (rd\<lparr>rd_index := rd_index rd - 1\<rparr>, echo [8, 32, 8] m')) else Some (Inr (rd, m'))
        else Some (Inr (rd\<lparr>rd_buffer := (rd_buffer rd)[unat (rd_index rd) := c], rd_index := rd_index rd + 1\<rparr>, echo [c] m')))"
proof -
  let ?m1 = "(idle n m)\<lparr>kern := set_eflags (cpu_eflags (kern (idle n m)) AND NOT interrupt_flag) (kern (idle n m))\<rparr>"
  obtain new where i: "kbd_ok (keys ?m1)" "kbd_contents (keys ?m1) = c # (cs @ new)"
    using assms(1-3) unfolding keys_arrive_def by fastforce
  obtain k where g: "keyboard_pop_char (keys ?m1) = (c, k)" and k: "kbd_ok k" "kbd_contents k = cs @ new"
    using kbd.pop_contents [OF i(1)] kbd.pop_ok [OF i(1)] i(2) unfolding pop_is_getchar by (cases "kbd_getchar (keys ?m1)") auto
  show thesis
    by (rule that [of "?m1\<lparr>keys := k\<rparr>" new]) (use k g assms(4) in \<open>simp_all add: input_step_def Let_def\<close>)
qed

lemma input_loop_reads:
  assumes "typed limit acc cs = Some out" "reads rd acc" "length acc \<le> limit" "limit = unat (max_len - 1)" "limit \<le> 254"
    and "keys_arrive idle" "kbd_ok (keys m)" "kbd_contents (keys m) = cs @ rest" "0 \<notin> set cs"
  shows "\<exists>rd' m'. input_loop L idle max_len n rd m = Some (Inr (rd', m')) \<and> reads rd' out"
  using assms
proof (induction limit acc cs arbitrary: rd m n rest rule: typed.induct)
  case (1 limit acc cs)
  note ar = 1(8) and k = 1(9)
  have cond: "rd_index rd < max_len - 1 \<longleftrightarrow> length acc < limit" using 1(4,6) by (simp add: reads_def word_less_nat_alt)
  show ?case
  proof (cases "length acc < limit")
    case False
    then show ?thesis using 1(3,4) cond by (simp add: typed.simps [of limit acc cs] input_loop.simps [of L idle max_len n])
  next
    case True
    with 1(3) obtain c cs' where c: "cs = c # cs'" by (auto simp: typed.simps [of limit acc cs] split: list.splits)
    have z: "c \<noteq> 0" "0 \<notin> set cs'" "kbd_contents (keys m) = c # (cs' @ rest)" using 1(10,11) c by auto
    obtain m1 new where m1: "kbd_ok (keys m1)" "kbd_contents (keys m1) = cs' @ (rest @ new)" and st: "input_step L (idle n) rd m =
       (if c = 10 then Some (Inl (Inr (rd\<lparr>rd_buffer := (rd_buffer rd)[unat (rd_index rd) := 10], rd_index := rd_index rd + 1\<rparr>, echo [10] m1)))
        else if c = 8
        then if rd_index rd > 0 then Some (Inr (rd\<lparr>rd_index := rd_index rd - 1\<rparr>, echo [8, 32, 8] m1)) else Some (Inr (rd, m1))
        else Some (Inr (rd\<lparr>rd_buffer := (rd_buffer rd)[unat (rd_index rd) := c], rd_index := rd_index rd + 1\<rparr>, echo [c] m1)))"
      by (rule input_step_key [OF ar k z(3,1), of L n rd]) (use append_assoc in metis)
    note loop = input_loop.simps [of L idle max_len n rd m] and ty = 1(3) [unfolded c typed.simps [of limit acc "c # cs'"]]
    have put: "reads (rd\<lparr>rd_buffer := (rd_buffer rd)[unat (rd_index rd) := x], rd_index := rd_index rd + 1\<rparr>) (acc @ [x])" for x
      by (rule reads_put [OF 1(4)]) (use True 1(7) in simp)
    show ?thesis
    proof (cases "c = 10")
      case nl: True
      then show ?thesis using loop st put [of 10] True cond ty by auto
    next
      case nl: False
      show ?thesis
      proof (cases "c = 8")
        case bs: True
        have ty': "typed limit (butlast acc) cs' = Some out" using ty True bs by simp
        obtain rd' m' where next': "input_loop L idle max_len n rd m = input_loop L idle max_len (Suc n) rd' m'" "reads rd' (butlast acc)" "keys m' = keys m1"
        proof (cases "acc = []")
          case e: True
          then have "\<not> rd_index rd > 0" using 1(4) by (simp add: reads_def word_less_nat_alt)
          with that [of rd m1] loop st bs True cond e 1(4) show ?thesis by simp
        next
          case e: False
          note d = reads_drop [OF 1(4) e]
          with that [of "rd\<lparr>rd_index := rd_index rd - 1\<rparr>" "echo [8, 32, 8] m1"] loop st bs True cond show ?thesis by simp
        qed
        have "length (butlast acc) \<le> limit" using True by simp
        from 1(1) [OF True c nl bs ty' next'(2) this 1(6,7) ar _ _ z(2), of m' "rest @ new" "Suc n"] next' m1 show ?thesis by simp
      next
        case bs: False
        have "typed limit (acc @ [c]) cs' = Some out" "length (acc @ [c]) \<le> limit" using ty True nl bs by simp_all
        from 1(2) [OF True c nl bs this(1) put this(2) 1(6,7) ar _ _ z(2), of "echo [c] m1" "rest @ new" "Suc n"]
        show ?thesis using loop st nl bs True cond m1 by simp
      qed
    qed
  qed
qed



end
