(* ===== verification/Shell_Commands.thy ===== *)
theory Shell_Commands
  imports Syscalls Fat16_Folders
begin

text \<open>
  The commands of src/src/shell/shell.c (\<open>execute_command\<close>) and its key loop, on the whole system: the
  machine of the interrupt handler together with the mounted volume.  The file system works on the
  machine's console and heap, so they are handed to it and taken back around every call.  The arguments of
  a command are its words.  The test suite, which the command \<open>test\<close> starts, is an argument.
\<close>

unbundle bit_operations_syntax

section \<open>The system the shell runs on\<close>

record os =
  mach :: machine
  volume :: fat_sys

text \<open>
  How a command ends: it returns to the shell, it killed the shell's own task and another one runs, it
  halted the processor, or a called function panicked.
\<close>

datatype cmd_end = Finished os | Away os | Stopped os | Crashed panic

definition on_mach :: "(machine \<Rightarrow> machine) \<Rightarrow> os \<Rightarrow> os" where
  "on_mach f s = s\<lparr>mach := f (mach s)\<rparr>"

definition out :: "string \<Rightarrow> os \<Rightarrow> os" where
  "out str = on_mach (echo (map of_char str))"

definition outb :: "u8 list \<Rightarrow> os \<Rightarrow> os" where
  "outb xs = on_mach (echo xs)"

definition outln :: "string \<Rightarrow> os \<Rightarrow> os" where
  "outln str = out (str @ newline)"

definition color :: "u16 \<Rightarrow> os \<Rightarrow> os" where
  "color c = on_mach (paint c)"

definition outf :: "chararr \<Rightarrow> string \<Rightarrow> va_arg list \<Rightarrow> os \<Rightarrow> os option" where
  "outf buffer str args s = map_option (\<lambda>m. s\<lparr>mach := m\<rparr>) (on_screen (printf buffer (lit (str @ newline)) args) (mach s))"

text \<open>A word as the terminated array \<open>argv\<close> points to.\<close>

definition word_arr :: "u8 list \<Rightarrow> chararr" where
  "word_arr xs = (\<lambda>i. if i < length xs then xs ! i else 0)"

definition word_arg :: "u8 list \<Rightarrow> va_arg" where
  "word_arg xs = VaStr (Some (word_arr xs))"

definition lend :: "os \<Rightarrow> fat_sys" where
  "lend s = (volume s)\<lparr>con := (screen (mach s))\<lparr>con_flags := cpu_eflags (kern (mach s))\<rparr>, fheap := heap (kern (mach s))\<rparr>"

definition take_back :: "fat_sys \<Rightarrow> os \<Rightarrow> os" where
  "take_back v s = s\<lparr>volume := v, mach := (mach s)\<lparr>screen := con v, kern := set_eflags (con_flags (con v)) ((kern (mach s))\<lparr>heap := fheap v\<rparr>)\<rparr>\<rparr>"

definition on_volume :: "(fat_sys \<Rightarrow> ('a \<times> fat_sys) option) \<Rightarrow> os \<Rightarrow> ('a \<times> os) option" where
  "on_volume f s = map_option (\<lambda>(r, v). (r, take_back v s)) (f (lend s))"

section \<open>Commands without the file system\<close>

definition cmd_echo :: "u8 list list \<Rightarrow> os \<Rightarrow> os" where
  "cmd_echo args s = out newline (fold (\<lambda>i s. let s1 = outb (args ! i) s in if i < length args - 1 then out '' '' s1 else s1) [0..<length args] s)"

definition cmd_color :: "u8 list list \<Rightarrow> os \<Rightarrow> os option" where
  "cmd_color args s =
     (case args of
        [] \<Rightarrow> Some (fold outln [''Usage: color <0-15>'',
                ''  0=black 1=blue 2=green 3=cyan 4=red 5=magenta'',
                ''  6=brown 7=gray 8=dk-gray 9=lt-blue 10=lt-green'',
                ''  11=lt-cyan 12=lt-red 13=pink 14=yellow 15=white''] s)
      | w # _ \<Rightarrow> do {
          col \<leftarrow> atoi (word_arr w);
          Some (if col < 0 \<or> col > 15 then outln ''Error: Color code must be between 0 and 15.'' s
                else outln ''Color changed.'' (color (of_int col) s)) })"

definition cmd_sysinfo :: "os \<Rightarrow> os" where
  "cmd_sysinfo s =
     fold outln [''  Architecture : x86 (32-bit protected mode)'',
       ''  Privilege    : Ring0 kernel + Ring3 user tasks'',
       ''  Memory model : Identity-mapped paging (0-8MB)'',
       ''    0x000000 - 0x3FFFFF : Kernel + stack space'',
       ''    0x400000 - 0x7FFFFF : Heap (4MB)'',
       ''    0x080000            : Ring3 user stack top'',
       ''  GDT segments :'',
       ''    0x08 kernel code  0x10 kernel data'',
       ''    0x1B user code    0x23 user data'',
       ''    0x28 TSS'',
       ''  Filesystem   : FAT16'',
       ''  Syscall gate : int 0x80'']
       (color 0x0F (outln ''=== BenmoshOS System Info ==='' (color 0x0B s)))"

definition cmd_help :: "os \<Rightarrow> os" where
  "cmd_help s =
     fold outln [''  help                - Show this help'',
       ''  ls                  - List files on disk'',
       ''  cat <file>          - Print file contents'',
       ''  touch <file>        - Create empty file'',
       ''  write <text> <file> - Write text to file'',
       ''  echo [text...]      - Print text'',
       ''  ps                  - List running tasks and CPU ticks'',
       ''  kill <pid>          - Terminate a running task'',
       ''  clear               - Clear the screen'',
       ''  color <0-15>        - Change text color'',
       ''  sysinfo             - Show system information'',
       ''  activate [program]  - Launch a program'',
       ''  vaddr_decode <addr> - Decode virtual address into PDI/PTI/Offset'',
       ''  heapdump            - Dump kernel heap blocks'',
       ''  meminfo             - Show physical frame statistics'',
       ''  exit                - Halt the operating system'']
       (color 0x0F (outln ''=== BenmoshOS Help ==='' (color 0x0E s)))"

definition cmd_activate :: "u8 list list \<Rightarrow> os \<Rightarrow> os" where
  "cmd_activate args s =
     (case args of
        [] \<Rightarrow> color 0x0F (outln ''ACTIVATING SELF DESTRUCT... just kidding :P'' (color 0x0C s))
      | [w] \<Rightarrow> outln ''(No programs loaded yet - use 'touch' to create files)'' (out newline (outb w (out ''Activating: '' s)))
      | _ \<Rightarrow> outln ''Usage: activate <program>'' s)"

definition cmd_vaddr_decode :: "chararr \<Rightarrow> u8 list list \<Rightarrow> os \<Rightarrow> os option" where
  "cmd_vaddr_decode buffer args s =
     (case args of
        [] \<Rightarrow> Some (outln ''Usage: vaddr_decode <virtual_address>'' s)
      | w # _ \<Rightarrow> do {
          n \<leftarrow> atoi (word_arr w);
          let virtual_address = (of_int n :: u32);
          let d = drop_bit 22 virtual_address;
          let t = drop_bit 12 virtual_address AND 0x3FF;
          let offset = virtual_address AND 0xFFF;
          s \<leftarrow> outf buffer ''Virtual address: 0x%x (%d)'' [as_arg virtual_address, as_arg virtual_address] s;
          s \<leftarrow> outf buffer ''  Page Directory Index (PDI): 0x%x (%d)'' [as_arg d, as_arg d] s;
          s \<leftarrow> outf buffer ''  Page Table Index     (PTI): 0x%x (%d)'' [as_arg t, as_arg t] s;
          outf buffer ''  Page Offset               : 0x%x (%d)'' [as_arg offset, as_arg offset] s })"

partial_function (option) heapdump_loop :: "chararr \<Rightarrow> addr \<Rightarrow> u32 \<Rightarrow> os \<Rightarrow> os option" where
  "heapdump_loop buffer block count s =
     (if block < 0x800000
      then let header = hmem (heap (kern (mach s))) block; sz = header AND NOT 1; fr = header AND 1
           in if sz = 0 then Some s
              else Option.bind (outf buffer ''[%d] 0x%x size=%d %s''
                     [as_arg count, as_arg block, as_arg sz, VaStr (Some (lit (if fr \<noteq> 0 then ''FREE'' else ''USED'')))] s)
                     (heapdump_loop buffer (block + sz + 8) (count + 1))
      else Some s)"

definition cmd_heapdump :: "chararr \<Rightarrow> os \<Rightarrow> os option" where
  "cmd_heapdump buffer = heapdump_loop buffer HEAP_START 0"

definition cmd_meminfo :: "chararr \<Rightarrow> os \<Rightarrow> os option" where
  "cmd_meminfo buffer s =
     (let (total, free, used) = pmm_get_stats (pmm_st (vmm (kern (mach s))))
      in do {
        s \<leftarrow> outf buffer ''Physical Memory Info:'' [] s;
        s \<leftarrow> outf buffer ''  Total Frames: %d (0x%x)'' [as_arg total, as_arg total] s;
        s \<leftarrow> outf buffer ''  Free Frames : %d (0x%x)'' [as_arg free, as_arg free] s;
        outf buffer ''  Used Frames : %d (0x%x)'' [as_arg used, as_arg used] s })"

definition state_str :: "task_state_t \<Rightarrow> string" where
  "state_str st = (case st of TASK_RUNNING \<Rightarrow> ''RUNNING'' | TASK_READY \<Rightarrow> ''READY  '' | TASK_BLOCKED \<Rightarrow> ''BLOCKED'' | TASK_DEAD \<Rightarrow> ''DEAD   '')"

definition ps_line :: "chararr \<Rightarrow> addr \<Rightarrow> os \<Rightarrow> os option" where
  "ps_line buffer pos s =
     (let addr = container_of pos all_list_offset; t = pcb (kern (mach s)) addr
      in if addr = 0 then Some s
         else outf buffer ''%d      %s  %d        0x%x''
                [as_arg (t_pid t), VaStr (Some (lit (state_str (t_state t)))), as_arg (t_ticks t), as_arg (t_stack_top t)] s)"

fun ps_lines :: "chararr \<Rightarrow> addr list \<Rightarrow> os \<Rightarrow> os option" where
  "ps_lines buffer [] s = Some s"
| "ps_lines buffer (pos # ps) s = do { s \<leftarrow> ps_line buffer pos s; ps_lines buffer ps s }"

definition set_flags :: "u32 \<Rightarrow> os \<Rightarrow> os" where
  "set_flags e = on_mach (\<lambda>m. m\<lparr>kern := set_eflags e (kern m)\<rparr>)"

definition cmd_ps :: "task_layout \<Rightarrow> chararr \<Rightarrow> os \<Rightarrow> os option" where
  "cmd_ps L buffer s =
     (let s1 = fold outln [''PID    STATE    TICKS    STACK_TOP'', ''----------------------------------''] s;
          (flag, e) = irq_save (cpu_eflags (kern (mach s1)))
      in do {
        ps \<leftarrow> list_for_each (links (kern (mach s1))) (all_tasks_list L);
        s2 \<leftarrow> ps_lines buffer ps (set_flags e s1);
        Some (set_flags (irq_restore flag (cpu_eflags (kern (mach s2)))) s2) })"

definition cmd_kill :: "task_layout \<Rightarrow> chararr \<Rightarrow> u8 list list \<Rightarrow> os \<Rightarrow> cmd_end option" where
  "cmd_kill L buffer args s =
     (case args of
        [w] \<Rightarrow> do {
          n \<leftarrow> atoi (word_arr w);
          let pid = (of_int n :: u32);
          r \<leftarrow> task_kill L pid (kern (mach s));
          (case r of
             Inl p \<Rightarrow> Some (Crashed p)
           | Inr (v, k) \<Rightarrow>
               let s1 = on_mach (\<lambda>m. m\<lparr>kern := k\<rparr>) s
               in (case v of
                     None \<Rightarrow> Some (Away s1)
                   | Some res \<Rightarrow> map_option Finished
                       (if res = -1
                        then if pid \<le> 1 then outf buffer ''kill: cannot kill process %d: Permission denied'' [as_arg pid] s1
                             else outf buffer ''kill: cannot kill process %d: No such process'' [as_arg pid] s1
                        else outf buffer ''Killed process %d'' [as_arg pid] s1))) }
      | _ \<Rightarrow> Some (Finished (outln ''Usage: kill <pid>'' s)))"

section \<open>Commands on files\<close>

definition cmd_ls :: "chararr \<Rightarrow> u8 list list \<Rightarrow> os \<Rightarrow> os option" where
  "cmd_ls buffer args s =
     (let path = (case args of [] \<Rightarrow> [47] | w # _ \<Rightarrow> w)
      in do {
        (res, s) \<leftarrow> on_volume (fat16_list_directory buffer path) s;
        let s = color 0x0F s;
        (if res = - ENOENT then outf buffer ''ls: cannot access '%s': No such file or directory'' [word_arg path] s
         else if res = - ENOTDIR then outf buffer ''ls: '%s': Not a directory'' [word_arg path] s
         else if res \<noteq> 0 then outf buffer ''ls: error reading directory '%s' (%d)'' [word_arg path, VaInt res] s
         else Some s) })"

text \<open>Bytes of the buffer nothing was stored into are whatever the memory held, \<open>junk\<close>.\<close>

definition cmd_cat :: "chararr \<Rightarrow> (addr \<Rightarrow> u8) \<Rightarrow> u8 list list \<Rightarrow> os \<Rightarrow> cmd_end option" where
  "cmd_cat buffer junk args s =
     (case args of
        [path] \<Rightarrow> do {
          r \<leftarrow> fat16_load_file path (lend s);
          (case r of
             Inl p \<Rightarrow> Some (Crashed p)
           | Inr (None, v) \<Rightarrow> map_option Finished (outf buffer (''cat: cannot open '%s'' @ [CHR 0x27]) [word_arg path] (take_back v s))
           | Inr (Some (content, bytes, sz), v) \<Rightarrow>
               let s1 = outb (map (\<lambda>i. case bytes ! i of Some b \<Rightarrow> b | None \<Rightarrow> junk (content + of_nat i)) [0..<unat sz]) (take_back v s);
                   s2 = out newline s1
               in map_option (\<lambda>x. case x of Inl p \<Rightarrow> Crashed p | Inr h \<Rightarrow> Finished (on_mach (\<lambda>m. m\<lparr>kern := (kern m)\<lparr>heap := h\<rparr>\<rparr>) s2))
                    (kfree content (heap (kern (mach s2))))) }
      | _ \<Rightarrow> Some (Finished (outln ''Usage: cat <path>'' s)))"

definition cmd_touch :: "chararr \<Rightarrow> u8 list list \<Rightarrow> os \<Rightarrow> os option" where
  "cmd_touch buffer args s =
     (case args of
        [path] \<Rightarrow> do {
          (res, s) \<leftarrow> on_volume (fat16_create_file path) s;
          (if res = - EEXIST then outf buffer ''touch: '%s': File exists'' [word_arg path] s
           else if res = - ENOENT then outf buffer ''touch: cannot touch '%s': No such parent directory'' [word_arg path] s
           else if res \<noteq> 0 then outf buffer ''touch: failed to create file '%s' (%d)'' [word_arg path, VaInt res] s
           else Some s) }
      | _ \<Rightarrow> Some (outln ''Usage: touch <path>'' s))"

definition cmd_mkdir :: "chararr \<Rightarrow> u8 list list \<Rightarrow> os \<Rightarrow> os option" where
  "cmd_mkdir buffer args s =
     (case args of
        [path] \<Rightarrow> do {
          (res, s) \<leftarrow> on_volume (fat16_make_directory path) s;
          (if res = - EEXIST then outf buffer ''mkdir: cannot create directory '%s': File exists'' [word_arg path] s
           else if res = - ENOENT then outf buffer ''mkdir: cannot create directory '%s': No such parent directory'' [word_arg path] s
           else if res \<noteq> 0 then outf buffer ''mkdir: failed to create '%s' (%d)'' [word_arg path, VaInt res] s
           else Some s) }
      | _ \<Rightarrow> Some (outln ''Usage: mkdir <path>'' s))"

definition cmd_rm :: "chararr \<Rightarrow> u8 list list \<Rightarrow> os \<Rightarrow> os option" where
  "cmd_rm buffer args s =
     (case args of
        [path] \<Rightarrow> do {
          (res, s) \<leftarrow> on_volume (fat16_delete_file path) s;
          (if res = - ENOENT then outf buffer ''rm: cannot remove '%s': No such file'' [word_arg path] s
           else if res = - EISDIR then outf buffer ''rm: cannot remove '%s': Is a directory (use rmdir)'' [word_arg path] s
           else if res \<noteq> 0 then outf buffer ''rm: failed to remove '%s' (%d)'' [word_arg path, VaInt res] s
           else Some s) }
      | _ \<Rightarrow> Some (outln ''Usage: rm <path>'' s))"

definition cmd_rmdir :: "chararr \<Rightarrow> u8 list list \<Rightarrow> os \<Rightarrow> os option" where
  "cmd_rmdir buffer args s =
     (case args of
        [path] \<Rightarrow> do {
          (res, s) \<leftarrow> on_volume (fat16_remove_directory path) s;
          (if res = - ENOENT then outf buffer ''rmdir: failed to remove '%s': No such directory'' [word_arg path] s
           else if res = - ENOTDIR then outf buffer ''rmdir: failed to remove '%s': Not a directory'' [word_arg path] s
           else if res = - ENOTEMPTY then outf buffer ''rmdir: failed to remove '%s': Directory not empty'' [word_arg path] s
           else if res \<noteq> 0 then outf buffer ''rmdir: failed to remove '%s' (%d)'' [word_arg path, VaInt res] s
           else Some s) }
      | _ \<Rightarrow> Some (outln ''Usage: rmdir <path>'' s))"

definition cmd_write :: "chararr \<Rightarrow> u8 list list \<Rightarrow> os \<Rightarrow> os option" where
  "cmd_write buffer args s =
     (case args of
        content # path # _ \<Rightarrow> do {
          (res, s) \<leftarrow> on_volume (fat16_write_file path content True) s;
          (if res = - ENOENT then outf buffer ''write: '%s': No such file'' [word_arg path] s
           else if res = - EISDIR then outf buffer ''write: '%s': Is a directory'' [word_arg path] s
           else if res \<noteq> 0 then outf buffer ''write: failed writing to '%s' (%d)'' [word_arg path, VaInt res] s
           else Some (outln ''Written.'' s)) }
      | _ \<Rightarrow> Some (outln ''Usage: write <text> <path>'' s))"

section \<open>The dispatcher\<close>

definition shell_exit :: "os \<Rightarrow> os" where
  "shell_exit s = (let s1 = outln ''Shutting down BenmoshOS... Goodbye!'' (out newline s)
     in set_flags (cpu_eflags (kern (mach s1)) AND NOT interrupt_flag) s1)"

definition unknown_command :: "u8 list \<Rightarrow> os \<Rightarrow> os" where
  "unknown_command w s = outln ([CHR 0x27] @ '' (use 'help' for available commands)'') (outb w (out (''Unknown command: '' @ [CHR 0x27]) s))"

definition run_command ::
  "task_layout \<Rightarrow> chararr \<Rightarrow> (addr \<Rightarrow> u8) \<Rightarrow> (os \<Rightarrow> cmd_end option) \<Rightarrow> u8 list \<Rightarrow> u8 list list \<Rightarrow> os \<Rightarrow> cmd_end option" where
  "run_command L buffer junk run_all_tests name args s =
     (let is = (\<lambda>str. name = map of_char str); ends = map_option Finished
      in if is ''echo'' then Some (Finished (cmd_echo args s))
         else if is ''clear'' then Some (Finished (on_mach (\<lambda>m. let c = screen_clear ((screen m)\<lparr>con_flags := cpu_eflags (kern m)\<rparr>)
                in m\<lparr>screen := c, kern := set_eflags (con_flags c) (kern m)\<rparr>) s))
         else if is ''color'' then ends (cmd_color args s)
         else if is ''sysinfo'' then Some (Finished (cmd_sysinfo s))
         else if is ''help'' then Some (Finished (cmd_help s))
         else if is ''activate'' then Some (Finished (cmd_activate args s))
         else if is ''exit'' then Some (Stopped (shell_exit s))
         else if is ''vaddr_decode'' then ends (cmd_vaddr_decode buffer args s)
         else if is ''heapdump'' then ends (cmd_heapdump buffer s)
         else if is ''meminfo'' then ends (cmd_meminfo buffer s)
         else if is ''ps'' then ends (cmd_ps L buffer s)
         else if is ''kill'' then cmd_kill L buffer args s
         else if is ''ls'' then ends (cmd_ls buffer args s)
         else if is ''cat'' then cmd_cat buffer junk args s
         else if is ''touch'' then ends (cmd_touch buffer args s)
         else if is ''mkdir'' then ends (cmd_mkdir buffer args s)
         else if is ''rm'' then ends (cmd_rm buffer args s)
         else if is ''rmdir'' then ends (cmd_rmdir buffer args s)
         else if is ''write'' then ends (cmd_write buffer args s)
         else if is ''test'' then run_all_tests s
         else Some (Finished (unknown_command name s)))"

definition execute_command ::
  "task_layout \<Rightarrow> chararr \<Rightarrow> (addr \<Rightarrow> u8) \<Rightarrow> (os \<Rightarrow> cmd_end option) \<Rightarrow> u8 list \<Rightarrow> os \<Rightarrow> cmd_end option" where
  "execute_command L buffer junk run_all_tests command s =
     (case tokenize command of
        None \<Rightarrow> Some (Finished (outln ''shell: too many arguments'' s))
      | Some [] \<Rightarrow> Some (Finished s)
      | Some (name # args) \<Rightarrow> run_command L buffer junk run_all_tests name args s)"

text \<open>
  One call of \<open>shell_keyboard\<close>, with the shell's own variables.  With no key waiting the task yields; if that
  switches, the shell goes on when it is scheduled again.
\<close>

datatype key_end = Back shell os | Yielded shell os | Ended cmd_end

definition after_command :: "shell \<Rightarrow> cmd_end \<Rightarrow> key_end" where
  "after_command sh r = (case r of
     Finished s \<Rightarrow> Back sh (on_mach (\<lambda>m. let c = shell_prompt ((screen m)\<lparr>con_flags := cpu_eflags (kern m)\<rparr>)
       in m\<lparr>screen := c, kern := set_eflags (con_flags c) (kern m)\<rparr>) s) | _ \<Rightarrow> Ended r)"

definition shell_keyboard ::
  "task_layout \<Rightarrow> chararr \<Rightarrow> (addr \<Rightarrow> u8) \<Rightarrow> (os \<Rightarrow> cmd_end option) \<Rightarrow> shell \<Rightarrow> os \<Rightarrow> key_end option" where
  "shell_keyboard L buffer junk run_all_tests sh s =
     (let m = mach s; (c, k) = kbd_getchar (keys m); s1 = on_mach (\<lambda>m. m\<lparr>keys := k\<rparr>) s
      in if c = 0
         then map_option (\<lambda>x. case x of Inl p \<Rightarrow> Ended (Crashed p)
                | Inr (b, kk) \<Rightarrow> (if b then Yielded else Back) sh (on_mach (\<lambda>m. m\<lparr>kern := kk\<rparr>) s1)) (task_yield L (kern m))
         else let (r, sh', con') = shell_key c (sh, (screen m)\<lparr>con_flags := cpu_eflags (kern m)\<rparr>);
                  s2 = on_mach (\<lambda>m. m\<lparr>screen := con', kern := set_eflags (con_flags con') (kern m)\<rparr>) s1
              in (case r of
                    None \<Rightarrow> Some (Back sh' s2)
                  | Some cmd \<Rightarrow> map_option (after_command sh') (execute_command L buffer junk run_all_tests cmd s2)))"

text \<open>The first \<open>n\<close> turns of the endless loop, up to the first that does not come back.\<close>

fun shell_loop ::
  "nat \<Rightarrow> task_layout \<Rightarrow> chararr \<Rightarrow> (addr \<Rightarrow> u8) \<Rightarrow> (os \<Rightarrow> cmd_end option) \<Rightarrow> shell \<Rightarrow> os \<Rightarrow> key_end option" where
  "shell_loop 0 L buffer junk run_all_tests sh s = Some (Back sh s)"
| "shell_loop (Suc n) L buffer junk run_all_tests sh s = do {
     r \<leftarrow> shell_keyboard L buffer junk run_all_tests sh s;
     (case r of Back sh' s' \<Rightarrow> shell_loop n L buffer junk run_all_tests sh' (color 0x0F s') | _ \<Rightarrow> Some r) }"

definition shell_run ::
  "nat \<Rightarrow> task_layout \<Rightarrow> chararr \<Rightarrow> (addr \<Rightarrow> u8) \<Rightarrow> (os \<Rightarrow> cmd_end option) \<Rightarrow> shell \<Rightarrow> os \<Rightarrow> key_end option" where
  "shell_run turns L buffer junk run_all_tests sh s =
     shell_loop turns L buffer junk run_all_tests sh (color 0x0F (out ''BenmoshOS> '' (color 0x0E s)))"

end
