(* ===== verification/Shell_Files.thy ===== *)
theory Shell_Files
  imports Shell_Commands
begin

text \<open>
  What the shell's commands on files do to the whole system: the composition of the tokenizer, the
  dispatcher, the file system, the heap and the console.
\<close>

unbundle bit_operations_syntax

section \<open>A file of the root directory\<close>

definition file_in :: "fat_sys \<Rightarrow> u8 list \<Rightarrow> u16 list \<Rightarrow> u8 list \<Rightarrow> bool" where
  "file_in v name cs content \<longleftrightarrow> dir_ready v 0 [] \<and>
     (\<exists>e l i. fat16_find_in_dir 0 name v = Some (Some (e, l, i), v) \<and> e_attributes e AND FAT_ATTR_DIRECTORY = 0 \<and>
        file_at v (e_starting_cluster e) cs content \<and> unat (e_file_size e) = length content)"

text \<open>The volume does not depend on the console and the heap lent to it.\<close>

lemma fat_chain_lend: "dev v' = dev v \<Longrightarrow> fs_cache v' = fs_cache v \<Longrightarrow> fat_chain v' c cs \<longleftrightarrow> fat_chain v c cs"
  by (induction cs arbitrary: c) (simp_all add: valid_cluster_def fat_entry_def fat_sector_of_def)

lemma dir_ready_lend: "dev v' = dev v \<Longrightarrow> fs_cache v' = fs_cache v \<Longrightarrow> dir_ready v' 0 [] \<longleftrightarrow> dir_ready v 0 []"
  by (simp add: dir_ready_def dir_chain_def fat_ok_def disk_ok_def)

lemma file_in_lend:
  assumes "dev v' = dev v" "fs_cache v' = fs_cache v"
  shows "file_in v' name cs content \<longleftrightarrow> file_in v name cs content"
proof (cases "dir_ready v 0 []")
  case True
  then have r: "dir_ready v' 0 []" using dir_ready_lend [OF assms] by simp
  have n: "dir_names v' 0 [] = dir_names v 0 []" using assms by (simp add: dir_names_def)
  have "file_at v' f cs content \<longleftrightarrow> file_at v f cs content" for f
    using assms fat_chain_lend [OF assms] by (simp add: file_at_def cluster_bytes_def)
  then show ?thesis using r True by (simp add: file_in_def find_ready [OF r] find_ready [OF True] n)
next
  case False
  then show ?thesis using dir_ready_lend [OF assms] by (simp add: file_in_def)
qed

lemma file_in_append:
  assumes "file_in v name cs content" "root_path path name" "length (content @ data) < 2 ^ 32"
    and "length (content @ data) \<le> (length cs + card (free_clusters v)) * cluster_bytes v"
  obtains v' cs' where "fat16_write_file path data True v = Some (0, v')" "file_in v' name cs' (content @ data)" "fheap v' = fheap v"
proof -
  from assms(1) obtain e l i where f: "dir_ready v 0 []" "fat16_find_in_dir 0 name v = Some (Some (e, l, i), v)"
    "e_attributes e AND FAT_ATTR_DIRECTORY = 0" "file_at v (e_starting_cluster e) cs content" "unat (e_file_size e) = length content"
    by (auto simp: file_in_def)
  obtain b where b: "find (entry_matches name) (dir_names v 0 []) = Some ((l, i, e), b)" "((l, i, e), b) \<in> set (dir_names v 0 [])"
    using found_named [OF f(1,2)] by blast
  have wf: "fat16_write_file path data True v = write_entry e l i data True v"
    using find_locate [OF f(1) assms(2) f(2)] by (simp add: fat16_write_file_def)
  let ?new = "content @ data"
  have wr: "written True content data = ?new" by (simp add: written_def)
  have "set cs \<inter> set [] = {}" by simp
  from write_entry_ok [OF f(1) b(2) f(3-5) this, of True data, folded wf, unfolded wr] assms(4)
  obtain v' first' cs' where w: "fat16_write_file path data True v = Some (0, v')" "dir_ready v' 0 []"
    "dir_names v' 0 [] = replace_slot (l, i, e) (set_entry first' (of_nat (length ?new)) e) (dir_names v 0 [])"
    "file_at v' first' cs' ?new" "fheap v' = fheap v" by auto
  let ?e = "set_entry first' (of_nat (length ?new)) e"
  have "length e = 32" using slot_replace [OF f(1) b(2)] by blast
  note F = set_entry_fields [OF this, of first' "of_nat (length ?new)"]
  have "fat16_find_in_dir 0 name v' = Some (Some (?e, l, i), v')"
    unfolding find_ready [OF w(2)] w(3) find_replace [OF F(4)] using b(1) by (simp add: found_slot_def)
  moreover have "unat (e_file_size ?e) = length ?new" unfolding F(6) using assms(3) by (intro unat_of_nat_u32) simp
  ultimately have "file_in v' name cs' ?new" using w(2,4) F(3,5) f(3) by (auto simp: file_in_def)
  with that w(1,5) show thesis by blast
qed

lemma file_in_load:
  assumes "file_in v name cs content" "root_path path name" "content \<noteq> []"
    and "kmalloc (of_nat (length content)) (fheap v) = Some (p, h)"
  shows "fat16_load_file path v = Some (Inr (if p = 0 then None else Some (p, map Some content, of_nat (length content)), v\<lparr>fheap := h\<rparr>))"
proof -
  from assms(1) obtain e l i where f: "dir_ready v 0 []" "fat16_find_in_dir 0 name v = Some (Some (e, l, i), v)"
    "e_attributes e AND FAT_ATTR_DIRECTORY = 0" "file_at v (e_starting_cluster e) cs content" "unat (e_file_size e) = length content"
    by (auto simp: file_in_def)
  have "e_file_size e = of_nat (length content)" using f(5) by (metis of_nat_unat ucast_id)
  then show ?thesis using load_file_ok [OF f(1) assms(2) f(2-5), of p h] assms(3,4) by (simp add: loaded_def)
qed

section \<open>Command lines\<close>

text \<open>A word: not empty, without blanks and zeros.\<close>

definition plain_word :: "u8 list \<Rightarrow> bool" where
  "plain_word w \<longleftrightarrow> w \<noteq> [] \<and> (\<forall>c \<in> set w. \<not> is_blank c \<and> c \<noteq> 0)"

lemma line_words_word:
  assumes "plain_word w" "rest = [] \<or> is_blank (hd rest)"
  shows "line_words (w @ rest) = w # line_words rest"
proof -
  obtain x xs where w: "w = x # xs" "\<not> is_blank x" using assms(1) by (cases w) (auto simp: plain_word_def)
  have "takeWhile (\<lambda>c. \<not> is_blank c) (xs @ rest) = xs" "dropWhile (\<lambda>c. \<not> is_blank c) (xs @ rest) = rest"
    using assms w(1) by (cases rest; simp add: plain_word_def takeWhile_append dropWhile_append)+
  then show ?thesis using w by (simp add: line_words_simps)
qed

text \<open>The line of words separated by single blanks.\<close>

fun join :: "u8 list list \<Rightarrow> u8 list" where
  "join [] = []"
| "join [w] = w"
| "join (w # ws) = w @ 32 # join ws"

lemma tokenize_join:
  assumes "\<forall>w \<in> set ws. plain_word w" "length ws \<le> 31"
  shows "tokenize (join ws) = Some ws"
proof -
  have "line_words (join ws) = ws \<and> 0 \<notin> set (join ws)" using assms(1)
  proof (induction ws rule: join.induct)
    case (2 w)
    then show ?case using line_words_word [of w "[]"] by (auto simp: line_words_simps plain_word_def)
  next
    case (3 w v vs)
    then show ?case using line_words_word [of w "32 # join (v # vs)"] by (auto simp: line_words_simps is_blank_def plain_word_def)
  qed (simp add: line_words_simps)
  then have "closed_words [] []" "length (line_words (join ws)) \<le> 31" "line_words (join ws) = ws" "0 \<notin> set (join ws)"
    using assms(2) by (auto simp: closed_words_def)
  with between_words [of "join ws" "[]" "[]"] show ?thesis by (auto simp: tokenize_def words_of_def)
qed

lemma run_words:
  assumes "plain_word name" "\<forall>w \<in> set args. plain_word w" "length args \<le> 30"
  shows "execute_command L buffer junk tests (join (name # args)) s = run_command L buffer junk tests name args s"
  using tokenize_join [of "name # args"] assms by (simp add: execute_command_def)

lemma run_write: "run_command L buffer junk tests (map of_char ''write'') args s = map_option Finished (cmd_write buffer args s)"
  by (simp add: run_command_def)

lemma run_cat: "run_command L buffer junk tests (map of_char ''cat'') args s = cmd_cat buffer junk args s"
  by (simp add: run_command_def)

lemma command_words: "plain_word (map of_char ''write'')" "plain_word (map of_char ''cat'')"
  by (simp_all add: plain_word_def is_blank_def)

section \<open>What output leaves alone\<close>

lemma echo_fields [simp]:
  "screen (echo xs m) = fold print_char xs ((screen m)\<lparr>con_flags := cpu_eflags (kern m)\<rparr>)"
  "hmem (heap (kern (echo xs m))) = hmem (heap (kern m))" "cpu_eflags (kern (echo xs m)) = con_flags (screen (echo xs m))"
  by (simp_all add: echo_def Let_def set_eflags_def cpu_eflags_def)

lemma lend_fields [simp]: "dev (lend s) = dev (volume s)" "fs_cache (lend s) = fs_cache (volume s)" "fheap (lend s) = heap (kern (mach s))"
  by (simp_all add: lend_def)

lemma outb_fields [simp]: "volume (outb xs s) = volume s" "mach (outb xs s) = echo xs (mach s)"
  by (simp_all add: outb_def on_mach_def)

lemma out_outb: "out str = outb (map of_char str)"
  by (simp add: out_def outb_def)

lemma take_back_fields [simp]:
  "volume (take_back v s) = v" "screen (mach (take_back v s)) = con v" "hmem (heap (kern (mach (take_back v s)))) = hmem (fheap v)"
  "cpu_eflags (kern (mach (take_back v s))) = con_flags (con v)"
  by (simp_all add: take_back_def set_eflags_def cpu_eflags_def)

lemma heap_ok_hmem: "hmem h = hmem h' \<Longrightarrow> heap_ok h \<longleftrightarrow> heap_ok h'"
  by (simp add: heap_ok_def)

lemma live_regions_hmem: "hmem h = hmem h' \<Longrightarrow> live_regions h = live_regions h'"
  by (simp add: live_regions_def)

lemma echo_twice: "echo ys (echo xs m) = echo (xs @ ys) m"
proof -
  have "fold print_char ys ((screen (echo xs m))\<lparr>con_flags := con_flags (screen (echo xs m))\<rparr>) = fold print_char (xs @ ys) ((screen m)\<lparr>con_flags := cpu_eflags (kern m)\<rparr>)"
    by simp
  then show ?thesis by (simp add: echo_def Let_def set_eflags_def cpu_eflags_def)
qed

section \<open>Writing and printing a file\<close>

lemma cmd_write_file:
  assumes "file_in (lend s) name cs content" "root_path path name" "length (content @ data) < 2 ^ 32"
    and "length (content @ data) \<le> (length cs + card (free_clusters (lend s))) * cluster_bytes (lend s)"
  obtains s1 cs' where "cmd_write buffer [data, path] s = Some s1" "file_in (lend s1) name cs' (content @ data)"
    "hmem (heap (kern (mach s1))) = hmem (heap (kern (mach s)))"
proof -
  obtain v' cs' where w: "fat16_write_file path data True (lend s) = Some (0, v')" "file_in v' name cs' (content @ data)"
    "fheap v' = fheap (lend s)"
    using file_in_append [OF assms] by blast
  let ?s1 = "outln ''Written.'' (take_back v' s)"
  have "cmd_write buffer [data, path] s = Some ?s1"
    using w(1) by (simp add: cmd_write_def on_volume_def ENOENT_def EISDIR_def)
  moreover have "file_in (lend ?s1) name cs' (content @ data)"
    using w(2) file_in_lend [of "lend ?s1" v'] by (simp add: outln_def out_outb)
  moreover have "hmem (heap (kern (mach ?s1))) = hmem (heap (kern (mach s)))" using w(3) by (simp add: outln_def out_outb)
  ultimately show thesis using that by blast
qed

lemma cmd_cat_file:
  assumes "file_in (lend s) name cs content" "root_path path name" "content \<noteq> []" "length content \<le> 0xFFFFFFFC"
    and "heap_ok (heap (kern (mach s)))" "kmalloc (of_nat (length content)) (heap (kern (mach s))) = Some (p, h)" "p \<noteq> 0"
  obtains s2 where "cmd_cat buffer junk [path] s = Some (Finished s2)"
    "screen (mach s2) = fold print_char (content @ [10]) ((screen (mach s))\<lparr>con_flags := cpu_eflags (kern (mach s))\<rparr>)"
    "heap_ok (heap (kern (mach s2)))" "live_regions (heap (kern (mach s2))) = live_regions (heap (kern (mach s)))" "volume s2 = (lend s)\<lparr>fheap := h\<rparr>"
proof -
  let ?v = "(lend s)\<lparr>fheap := h\<rparr>" and ?n = "of_nat (length content) :: u32"
  have n: "unat ?n = length content" using assms(4) by (intro unat_of_nat_u32) simp
  have ld: "fat16_load_file path (lend s) = Some (Inr (Some (p, map Some content, ?n), ?v))"
    using file_in_load [OF assms(1-3), of p h] assms(6,7) by simp
  have bytes: "map (\<lambda>i. case map Some content ! i of Some b \<Rightarrow> b | None \<Rightarrow> junk (p + of_nat i)) [0..<unat ?n] = content"
    unfolding n by (rule nth_equalityI) simp_all
  let ?s = "outb [10] (outb content (take_back ?v s))" let ?h = "heap (kern (mach ?s))"
  have hm: "hmem ?h = hmem h" by simp
  obtain h1 where "kmalloc ?n (heap (kern (mach s))) = Some (p, h1) \<and> heap_ok h1" using kmalloc_total [OF assms(5), of ?n] assms(6) by auto
  then have hok: "heap_ok ?h" using assms(6) heap_ok_hmem [OF hm] by simp
  have "unat ?n \<le> 0xFFFFFFFC" using n assms(4) by simp
  from kmalloc_region [OF assms(5,6,7) this] obtain k where k: "unat ?n \<le> k"
    "live_regions h = insert (unat p, k) (live_regions (heap (kern (mach s))))" "(unat p, k) \<notin> live_regions (heap (kern (mach s)))" by blast
  have "0 < length content" using assms(3) by simp
  then have "0 < k" using k(1) n by linarith
  have "(unat p, k) \<in> live_regions ?h" unfolding live_regions_hmem [OF hm] k(2) by simp
  from kfree_live [OF hok this \<open>0 < k\<close>] obtain h2 where f: "kfree p ?h = Some (Inr h2)" "heap_ok h2" "live_regions h2 = live_regions ?h - {(unat p, k)}" by blast
  let ?s2 = "on_mach (\<lambda>m. m\<lparr>kern := (kern m)\<lparr>heap := h2\<rparr>\<rparr>) ?s"
  have run: "cmd_cat buffer junk [path] s = Some (Finished ?s2)"
    using ld f(1) bytes by (simp add: cmd_cat_def out_outb newline_def)
  have live: "live_regions h2 = live_regions (heap (kern (mach s)))"
    unfolding f(3) live_regions_hmem [OF hm] k(2) using k(3) by auto
  have scr: "screen (mach ?s2) = fold print_char (content @ [10]) ((screen (mach s))\<lparr>con_flags := cpu_eflags (kern (mach s))\<rparr>)"
    by (simp add: on_mach_def echo_twice lend_def)
  show thesis by (rule that [OF run scr]) (simp_all add: on_mach_def f(2) live)
qed

text \<open>
  C8: at the prompt, \<open>write text path\<close> appends the word to a file of the root directory and \<open>cat path\<close> then
  prints exactly the old contents followed by the word and a newline; printing gives back all the heap
  memory it took.
\<close>

theorem shell_write_then_cat:
  assumes "file_in (lend s) name cs content" "root_path path name" "plain_word data" "plain_word path"
    and "length (content @ data) \<le> (length cs + card (free_clusters (lend s))) * cluster_bytes (lend s)"
    and "length (content @ data) \<le> 0xFFFFFFFC" "heap_ok (heap (kern (mach s)))"
  shows "\<exists>s1 cs'. execute_command L buffer junk tests (join [map of_char ''write'', data, path]) s = Some (Finished s1) \<and>
    file_in (lend s1) name cs' (content @ data) \<and>
    (\<forall>p h. kmalloc (of_nat (length (content @ data))) (heap (kern (mach s1))) = Some (p, h) \<and> p \<noteq> 0 \<longrightarrow>
      (\<exists>s2. execute_command L buffer junk tests (join [map of_char ''cat'', path]) s1 = Some (Finished s2) \<and>
        screen (mach s2) = fold print_char ((content @ data) @ [10]) ((screen (mach s1))\<lparr>con_flags := cpu_eflags (kern (mach s1))\<rparr>) \<and>
        live_regions (heap (kern (mach s2))) = live_regions (heap (kern (mach s1)))))"
proof -
  have "length (content @ data) < 2 ^ 32" using assms(6) by simp
  from cmd_write_file [OF assms(1,2) this assms(5), of buffer] obtain s1 cs' where
    w: "cmd_write buffer [data, path] s = Some s1" "file_in (lend s1) name cs' (content @ data)" "hmem (heap (kern (mach s1))) = hmem (heap (kern (mach s)))"
    by blast
  have ok: "heap_ok (heap (kern (mach s1)))" using assms(7) heap_ok_hmem [OF w(3)] by simp
  have ne: "content @ data \<noteq> []" using assms(3) by (simp add: plain_word_def)
  have r1: "execute_command L buffer junk tests (join [map of_char ''write'', data, path]) s = Some (Finished s1)"
    using run_words [OF command_words(1), of "[data, path]" L buffer junk tests s] assms(3,4) w(1) unfolding run_write by simp
  have r2: "execute_command L buffer junk tests (join [map of_char ''cat'', path]) s1 = cmd_cat buffer junk [path] s1"
    using run_words [OF command_words(2), of "[path]" L buffer junk tests s1] assms(4) unfolding run_cat by simp
  have "\<exists>s2. execute_command L buffer junk tests (join [map of_char ''cat'', path]) s1 = Some (Finished s2) \<and>
        screen (mach s2) = fold print_char ((content @ data) @ [10]) ((screen (mach s1))\<lparr>con_flags := cpu_eflags (kern (mach s1))\<rparr>) \<and>
        live_regions (heap (kern (mach s2))) = live_regions (heap (kern (mach s1)))"
    if "kmalloc (of_nat (length (content @ data))) (heap (kern (mach s1))) = Some (p, h)" "p \<noteq> 0" for p h
    unfolding r2 using cmd_cat_file [OF w(2) assms(2) ne assms(6) ok that, of buffer junk] by blast
  with r1 w(2) show ?thesis by blast
qed

text \<open>A system with the volume of one file.\<close>

definition file_os :: os where
  "file_os = \<lparr>mach = user_machine, volume = file_volume\<rparr>"

lemma file_os_file: "file_in (lend file_os) [97] [2, 3] (replicate 600 0)"
proof -
  have "e_attributes file_slot AND FAT_ATTR_DIRECTORY = 0"
    unfolding file_slot_fields by (simp add: FAT_ATTR_ARCHIVE_def FAT_ATTR_DIRECTORY_def)
  then have "file_in file_volume [97] [2, 3] (replicate 600 0)"
    using file_volume_root(2) file_volume_content(1,2) file_slot_fields(4,5) by (simp add: file_in_def)
  then show ?thesis using file_in_lend [of "lend file_os" file_volume] by (simp add: file_os_def)
qed

theorem shell_write_then_cat_witness:
  "\<exists>s1 cs'. execute_command boot_tasks (\<lambda>_. 0) (\<lambda>_. 0) (\<lambda>_. None) (map of_char ''write hi a'') file_os = Some (Finished s1) \<and>
     file_in (lend s1) [97] cs' (replicate 600 0 @ [104, 105])"
proof -
  have rp: "root_path [97] [97]" by (simp add: root_path_def)
  have w: "plain_word [104, 105]" "plain_word [97]" by (simp_all add: plain_word_def is_blank_def)
  have cb: "cluster_bytes (lend file_os) = cluster_bytes file_volume" by (simp add: cluster_bytes_def file_os_def)
  have c: "length (replicate 600 0 @ [104, 105 :: u8]) \<le> (length [2 :: u16, 3] + card (free_clusters (lend file_os))) * cluster_bytes (lend file_os)"
    unfolding cb file_volume_content(3) by simp
  have h: "heap_ok (heap (kern (mach file_os)))" by (simp add: file_os_def user_machine_def boot_ksys_def boot_heap_ok)
  have "join [map of_char ''write'', [104, 105], [97]] = map of_char ''write hi a''" by simp
  then show ?thesis
    using shell_write_then_cat [OF file_os_file rp w c _ h, of boot_tasks "\<lambda>_. 0" "\<lambda>_. 0" "\<lambda>_. None"] by auto
qed

section \<open>The dump of the heap\<close>

fun dump_text :: "nat \<Rightarrow> nat \<Rightarrow> block list \<Rightarrow> u8 list" where
  "dump_text i a [] = []"
| "dump_text i a ((n, f) # bs) =
     (if n = 0 then []
      else map of_char ''['' @ decimal (int i) @ map of_char ''] 0x'' @ hex_text (of_nat a) @ map of_char '' size='' @ decimal (int n) @
        map of_char '' '' @ map of_char (if f then ''FREE'' else ''USED'') @ [10] @ dump_text (Suc i) (a + 8 + n) bs)"

lemma outf_lit:
  assumes "list_all (\<lambda>c. c \<noteq> 0) (map of_char (str @ newline) :: u8 list)" "list_all2 arg_text args targs"
    and "format_text (map of_char (str @ newline)) targs = Some text"
  shows "outf buffer str args s = Some (outb text s)"
  using printf_lit [OF nonzero_text [OF assms(1)] assms(2,3)]
  by (simp add: outf_def on_screen_def outb_def on_mach_def echo_def Let_def)

lemma sint_small: "n < 2 ^ 31 \<Longrightarrow> sint (of_nat n :: u32) = int n"
  by (simp add: signed_of_nat signed_take_bit_int_eq_self)

lemma heapdump_line:
  assumes "i < 2 ^ 31" "n < 2 ^ 31"
  shows "outf buffer ''[%d] 0x%x size=%d %s''
      [as_arg (of_nat i), as_arg (of_nat a), as_arg (of_nat n), VaStr (Some (lit (if f then ''FREE'' else ''USED'')))] s =
    Some (outb (map of_char ''['' @ decimal (int i) @ map of_char ''] 0x'' @ hex_text (of_nat a) @ map of_char '' size='' @ decimal (int n) @
        map of_char '' '' @ map of_char (if f then ''FREE'' else ''USED'') @ [10]) s)"
proof (rule outf_lit)
  let ?t = "[TInt (int i), TInt (sint (of_nat a :: u32)), TInt (int n), TStr (Some (map of_char (if f then ''FREE'' else ''USED'')))]"
  show "list_all (\<lambda>c. c \<noteq> 0) (map of_char (''[%d] 0x%x size=%d %s'' @ newline) :: u8 list)" by code_simp
  have "arg_text (VaStr (Some (lit (if f then ''FREE'' else ''USED'')))) (TStr (Some (map of_char (if f then ''FREE'' else ''USED''))))"
    by (rule arg_text_lit) simp
  then show "list_all2 arg_text [as_arg (of_nat i), as_arg (of_nat a), as_arg (of_nat n), VaStr (Some (lit (if f then ''FREE'' else ''USED'')))] ?t"
    using sint_small assms by simp
  show "format_text (map of_char (''[%d] 0x%x size=%d %s'' @ newline)) ?t = Some (map of_char ''['' @ decimal (int i) @ map of_char ''] 0x'' @
      hex_text (of_nat a) @ map of_char '' size='' @ decimal (int n) @ map of_char '' '' @ map of_char (if f then ''FREE'' else ''USED'') @ [10])"
    using assms by (simp add: newline_def directive_text_def)
qed

lemma heapdump_loop_text:
  assumes "blocks_at (hmem (heap (kern (mach s)))) a bs" "i + length bs < 2 ^ 31"
  shows "heapdump_loop buffer (of_nat a) (of_nat i) s = Some (if dump_text i a bs = [] then s else outb (dump_text i a bs) s)"
  using assms
proof (induction bs arbitrary: a i s)
  case Nil
  then show ?case by (subst heapdump_loop.simps) simp
next
  case (Cons b bs)
  obtain n f where b: "b = (n, f)" by (cases b)
  let ?m = "hmem (heap (kern (mach s)))"
  have h: "?m (of_nat a) = hdr n f" "4 dvd n" "blocks_at ?m (a + 8 + n) bs" using Cons.prems(1) b by simp_all
  have e: "a + 8 + n \<le> 0x800000" using blocks_at_end [OF h(3)] by simp
  then have a: "(of_nat a :: u32) < 0x800000" "n < 2 ^ 31" by (simp_all add: word_less_nat_alt unat_of_nat_u32)
  have z: "(of_nat n :: u32) = 0 \<longleftrightarrow> n = 0" using e unat_of_nat_u32 [of n] by (auto simp flip: unat_eq_0)
  show ?case
  proof (cases "n = 0")
    case True
    then show ?thesis using a h b by (subst heapdump_loop.simps) (simp add: Let_def)
  next
    case False
    let ?l = "map of_char ''['' @ decimal (int i) @ map of_char ''] 0x'' @ hex_text (of_nat a) @ map of_char '' size='' @ decimal (int n) @
        map of_char '' '' @ map of_char (if f then ''FREE'' else ''USED'') @ [10]"
    have l: "outf buffer ''[%d] 0x%x size=%d %s''
      [as_arg (of_nat i), as_arg (of_nat a), as_arg (of_nat n), VaStr (Some (lit (if f then ''FREE'' else ''USED'')))] s = Some (outb ?l s)"
      by (rule heapdump_line) (use Cons.prems(2) a(2) in simp_all)
    have next': "heapdump_loop buffer (of_nat (a + 8 + n)) (of_nat (Suc i)) (outb ?l s) =
        Some (if dump_text (Suc i) (a + 8 + n) bs = [] then outb ?l s else outb (dump_text (Suc i) (a + 8 + n) bs) (outb ?l s))"
      by (rule Cons.IH) (use h(3) Cons.prems(2) in simp_all)
    have two: "outb ys (outb xs s) = outb (xs @ ys) s" for xs ys by (simp add: outb_def on_mach_def echo_twice)
    have t: "dump_text i a (b # bs) = ?l @ dump_text (Suc i) (a + 8 + n) bs" using b False by simp
    have g: "(hdr n f AND 1 \<noteq> 0) = f" using h(2) by simp
    have "heapdump_loop buffer (of_nat a) (of_nat i) s = heapdump_loop buffer (of_nat (a + 8 + n)) (of_nat (Suc i)) (outb ?l s)"
      unfolding heapdump_loop.simps [of buffer "of_nat a"] Let_def h(1) g
      using a(1) z False h(2) l by (simp add: ac_simps)
    then show ?thesis unfolding next' t two by simp
  qed
qed

text \<open>
  C34: \<open>heapdump\<close> always ends on a heap in order and prints one line per block, in address order, with its
  header address, its size and whether it is free, up to the first block of size zero.
\<close>

theorem heapdump_lists_blocks:
  assumes "heap_blocks (hmem (heap (kern (mach s)))) bs"
  shows "\<exists>s'. execute_command L buffer junk tests (map of_char ''heapdump'') s = Some (Finished s') \<and>
    mach s' = (if dump_text 0 0x400000 bs = [] then mach s else echo (dump_text 0 0x400000 bs) (mach s))"
proof -
  have b: "blocks_at (hmem (heap (kern (mach s)))) 0x400000 bs" using assms by (simp add: heap_blocks_def)
  have "8 * length bs \<le> span bs" by (induction bs) (simp_all add: span_def)
  then have len: "0 + length bs < 2 ^ 31" using blocks_at_end [OF b] by simp
  have w: "plain_word (map of_char ''heapdump'')" by (simp add: plain_word_def is_blank_def)
  have "execute_command L buffer junk tests (map of_char ''heapdump'') s = map_option Finished (cmd_heapdump buffer s)"
    using run_words [OF w, of "[]" L buffer junk tests s] by (simp add: run_command_def)
  then show ?thesis using heapdump_loop_text [OF b len, of buffer] by (simp add: cmd_heapdump_def HEAP_START_def)
qed

theorem heapdump_lists_blocks_witness:
  "\<exists>s'. execute_command boot_tasks (\<lambda>_. 0) (\<lambda>_. 0) (\<lambda>_. None) (map of_char ''heapdump'') file_os = Some (Finished s') \<and>
     mach s' = echo (map of_char (''[0] 0x400000 size=4194296 FREE'' @ newline)) user_machine"
proof -
  have h: "heap_blocks (hmem (heap (kern (mach file_os)))) [(4194296, True)]"
    by (simp add: heap_blocks_def file_os_def user_machine_def boot_ksys_def boot_heap_def heap_init_def HEAP_START_def HEAP_SIZE_def hdr_def)
  have t: "decimal 4194296 = [52, 49, 57, 52, 50, 57, 54]" "decimal 0 = [48]" by (simp_all add: decimal_def dchar_def rdigits.simps)
  have x: "hex_text 0x400000 = [52, 48, 48, 48, 48, 48]" by code_simp
  from heapdump_lists_blocks [OF h, of boot_tasks "\<lambda>_. 0" "\<lambda>_. 0" "\<lambda>_. None"] show ?thesis
    by (simp add: file_os_def newline_def t x)
qed

end
