(* ===== verification/Boot.thy ===== *)
theory Boot
  imports Syscalls Descriptors
begin

text \<open>
  The start of the kernel, src/src/kernel/kernel.c: \<open>KernelMain\<close> and \<open>launch_user_process\<close>, which set up the
  tables, the memory managers and the console, map the first user program and enter it.  Arguments are
  what the linker and the boot loader provide, and the machine words of the user program.  Interrupts that
  arrive between \<open>sti\<close> and the jump are not part of the sequence; theory \<open>Interrupts\<close> has their effect.
\<close>

unbundle bit_operations_syntax

section \<open>The kernel before the first task\<close>

record kernel_image =
  mach_of :: machine
  idt_of :: idt
  idtr :: idt_ptr
  gdt_of :: "u8 list"
  g_tss :: tss_entry_t
  task_register :: u16

text \<open>
  Addresses and tables from outside: the interrupt stubs, the IDT and TSS, the end of the kernel image,
  the memory map, and what the memory of the scrollback held before.
\<close>

record boot_env =
  stub_table :: "nat \<Rightarrow> u32"
  stub_128 :: u32
  idt_addr :: u32
  tss_addr :: u32
  kernel_end :: addr
  memory_map :: "nat \<Rightarrow> memorymap_entry"
  old_cells :: "addr \<Rightarrow> nat \<Rightarrow> u16"
  old_lengths :: "addr \<Rightarrow> nat \<Rightarrow> u8"

text \<open>The frame \<open>jump_usermode\<close> returns through.\<close>

record iret_frame =
  fr_eip :: u32
  fr_cs :: u32
  fr_eflags :: u32
  fr_esp :: u32
  fr_ss :: u32

datatype boot_end = UserMode kernel_image iret_frame | BootHalted kernel_image | BootPanic panic

definition on_machine :: "(machine \<Rightarrow> machine) \<Rightarrow> kernel_image \<Rightarrow> kernel_image" where
  "on_machine f s = s\<lparr>mach_of := f (mach_of s)\<rparr>"

definition on_kern :: "(ksys \<Rightarrow> ksys) \<Rightarrow> kernel_image \<Rightarrow> kernel_image" where
  "on_kern f = on_machine (\<lambda>m. m\<lparr>kern := f (kern m)\<rparr>)"

abbreviation vm :: "kernel_image \<Rightarrow> vmm_state" where
  "vm s \<equiv> vmm_of (kern (mach_of s))"

definition set_vm :: "vmm_state \<Rightarrow> kernel_image \<Rightarrow> kernel_image" where
  "set_vm v = on_kern (with_vmm v)"

section \<open>Set-up\<close>

text \<open>The descriptor tables, the timer and the interrupt controllers.\<close>

definition boot_cpu :: "boot_env \<Rightarrow> task_layout \<Rightarrow> kernel_image \<Rightarrow> kernel_image option" where
  "boot_cpu B L s =
     (let s = on_kern (task_init L) s;
          (t, p) = load_idt (stub_table B) (stub_128 B) (idt_addr B) (idt_of s);
          s = s\<lparr>idt_of := t, idtr := p\<rparr>
      in map_option (\<lambda>c. on_machine (\<lambda>m. m\<lparr>chips := pic_remap c\<rparr>) s) (init_timer 100 (chips (mach_of s))))"

text \<open>The memory managers and the task state segment.\<close>

definition boot_memory :: "boot_env \<Rightarrow> task_layout \<Rightarrow> kernel_image \<Rightarrow> kernel_image option" where
  "boot_memory B L s =
     map_option (\<lambda>p.
       let s = set_vm (vmm_init (vmm_lay L) ((vm s)\<lparr>pmm_st := p\<rparr>)) s;
           s = on_kern (\<lambda>k. k\<lparr>heap := heap_init (heap k)\<rparr>) s;
           (t, g, r) = init_tss (tss_addr B) (gdt_of s)
       in on_kern (\<lambda>k. k\<lparr>tss_esp0 := tss_esp0_field t\<rparr>) (s\<lparr>g_tss := t, gdt_of := g, task_register := r\<rparr>))
       (pmm_init (kernel_end B) (memory_map B) (pmm_st (vm s)))"

definition boot_stack :: "task_layout \<Rightarrow> kernel_image \<Rightarrow> kernel_image kres" where
  "boot_stack L s =
     (let (user_stack_phys, p) = pmm_alloc_frame (pmm_st (vm s))
      in kbind (vmm_map_page (vmm_lay L) user_stack_phys 0x009FF000 7 ((vm s)\<lparr>pmm_st := p\<rparr>)) (\<lambda>v. Inr (set_vm v s)))"

definition banner :: "(u16 \<times> string) list" where
  "banner =
    [(0x0A, ''  ____                                 _      ___  ____'' @ newline @
       '' | __ )  ___ _ __  _ __ ___   ___  ___| |__  / _ '' @ [CHR 0x5C] @ ''/ ___|'' @ newline @
       '' |  _ '' @ [CHR 0x5C] @ '' / _ '' @ [CHR 0x5C] @ '' '_ '' @ [CHR 0x5C] @ ''| '_ ` _ '' @ [CHR 0x5C] @ '' / _ '' @ [CHR 0x5C] @
         ''/ __| '_ '' @ [CHR 0x5C] @ ''| | | '' @ [CHR 0x5C] @ ''___ '' @ [CHR 0x5C] @ newline @
       '' | |_) |  __/ | | | | | | | | (_) '' @ [CHR 0x5C] @ ''__ '' @ [CHR 0x5C] @ '' | | | |_| |___) |'' @ newline @
       '' |____/ '' @ [CHR 0x5C] @ ''___|_| |_|_| |_| |_|'' @ [CHR 0x5C] @ ''___/|___/_| |_|'' @ [CHR 0x5C] @ ''___/|____/'' @ newline),
     (0x0B, newline @ ''  BenmoshOS v0.3  |  x86 bare-metal  |  Ring0 + Ring3'' @ newline),
     (0x07, ''  Type 'help' for help'' @ newline @ newline)]"

definition boot_screen :: "boot_env \<Rightarrow> kernel_image \<Rightarrow> kernel_image option" where
  "boot_screen B s =
     (let m = mach_of s
      in map_option (\<lambda>(c, h).
           let c1 = screen_clear c;
               m1 = m\<lparr>screen := c1, kern := set_eflags (con_flags c1) ((kern m)\<lparr>heap := h\<rparr>)\<rparr>
           in s\<lparr>mach_of := fold (\<lambda>(col, str) m. echo (map of_char str) (paint col m)) banner m1\<rparr>)
         (enable_dynamic_history 1000 (old_cells B) (old_lengths B)
            ((screen m)\<lparr>con_flags := cpu_eflags (kern m)\<rparr>, heap (kern m))))"

section \<open>Entering the user program\<close>

text \<open>\<open>memcpy\<close> to a virtual address, word by word; \<open>None\<close> is a page fault.\<close>

fun copy_words :: "u32 list \<Rightarrow> addr \<Rightarrow> vmm_state \<Rightarrow> vmm_state option" where
  "copy_words [] va v = Some v"
| "copy_words (w # ws) va v =
     (case translate (pmem v) (cr3 v) va of None \<Rightarrow> None | Some pa \<Rightarrow> copy_words ws (va + 4) (store pa w v))"

definition jump_usermode :: "u32 \<Rightarrow> kernel_image \<Rightarrow> boot_end" where
  "jump_usermode entry s =
     (let e = cpu_eflags (kern (mach_of s)) AND NOT interrupt_flag
      in UserMode (on_kern (set_eflags e) s)
           \<lparr>fr_eip = entry, fr_cs = 0x1B, fr_eflags = e OR 0x200, fr_esp = 0x00A00000, fr_ss = 0x23\<rparr>)"

text \<open>A frame mapped at a page of the current directory, or a panic with the message.\<close>

definition give_page :: "task_layout \<Rightarrow> chararr \<Rightarrow> string \<Rightarrow> addr \<Rightarrow> (kernel_image \<Rightarrow> boot_end option) \<Rightarrow> kernel_image \<Rightarrow> boot_end option" where
  "give_page L buffer message va cont s =
     (let (frame, p) = pmm_alloc_frame (pmm_st (vm s));
          s = on_kern (\<lambda>k. k\<lparr>vmm := (vmm k)\<lparr>pmm_st := p\<rparr>\<rparr>) s
      in if frame = 0
         then map_option (\<lambda>m. BootHalted (s\<lparr>mach_of := m\<rparr>)) (kernel_panic buffer message [] (mach_of s))
         else (case vmm_map_page_current (vmm_lay L) frame va 7 (vm s) of
                 Inl e \<Rightarrow> Some (BootPanic e)
               | Inr v \<Rightarrow> cont (set_vm v s)))"

definition launch_user_process :: "task_layout \<Rightarrow> chararr \<Rightarrow> u32 list \<Rightarrow> kernel_image \<Rightarrow> boot_end option" where
  "launch_user_process L buffer code =
     give_page L buffer ''No memory for user code frame!'' 0x00800000 (\<lambda>s.
       Option.bind (copy_words code 0x00800000 (vm s)) (\<lambda>v.
         give_page L buffer ''No memory for user stack frame!'' 0x009FF000 (\<lambda>s. Some (jump_usermode 0x00800000 s)) (set_vm v s)))"

definition KernelMain :: "boot_env \<Rightarrow> task_layout \<Rightarrow> chararr \<Rightarrow> u32 list \<Rightarrow> kernel_image \<Rightarrow> boot_end option" where
  "KernelMain B L buffer code s =
     Option.bind (boot_cpu B L s) (\<lambda>s.
     Option.bind (boot_memory B L s) (\<lambda>s.
       case boot_stack L s of
         Inl p \<Rightarrow> Some (BootPanic p)
       | Inr s \<Rightarrow>
           Option.bind (boot_screen B s) (\<lambda>s.
             launch_user_process L buffer code (on_kern (\<lambda>k. set_eflags (cpu_eflags k OR interrupt_flag) k) s))))"

section \<open>Words of one page\<close>

lemma cell_offset:
  assumes "page_aligned a" "i < 1024"
  shows "page_offset (cell a i) = of_nat (4 * i)" "pdi (cell a i) = pdi a" "pti (cell a i) = pti a"
proof -
  have "4096 dvd unat a" using assms(1) by (simp add: page_aligned_dvd)
  then obtain q where q: "unat a = 4096 * q" by auto
  have u: "unat (cell a i) = 4096 * q + 4 * i" using unat_cell [OF assms] q by simp
  then have d: "unat (cell a i) div 4096 = unat a div 4096" using q assms(2) by simp
  then show "pdi (cell a i) = pdi a" "pti (cell a i) = pti a" by (simp_all add: pdi_eq pti_eq)
  have "unat (page_offset (cell a i)) = 4 * i"
    unfolding page_offset_def mask_12 using u assms(2) by (simp only: unsigned_take_bit_eq flip: take_bit_eq_mask) (simp add: take_bit_eq_mod)
  moreover have "unat (of_nat (4 * i) :: u32) = 4 * i" using assms(2) by (subst unat_of_nat_u32) simp_all
  ultimately show "page_offset (cell a i) = of_nat (4 * i)" by (simp only: word_unat_eq_iff)
qed

lemma frame_cell:
  assumes "page_aligned f" "page_aligned a" "i < 1024"
  shows "f OR page_offset (cell a i) = cell f i"
proof -
  have "frame_of f = f" using assms(1) by (simp add: page_aligned_def)
  then have "f OR page_offset (cell a i) = frame_of f OR page_offset (cell f i)" using cell_offset(1) assms by simp
  also have "frame_of f = frame_of (cell f i)"
  proof -
    have "unat (cell f i) div 4096 = unat f div 4096"
      using unat_cell [OF assms(1,3)] assms(1,3) by (auto simp: page_aligned_dvd)
    then show ?thesis by (simp add: word_unat_eq_iff unat_frame_of minus_mod_eq_mult_div)
  qed
  finally show ?thesis by (simp add: frame_or_offset)
qed

text \<open>Words copied to a mapped page end up in its frame and nowhere else.\<close>

lemma copy_words_page:
  assumes f: "page_aligned f" "page_aligned a" "page_aligned (cr3 v)" "f \<noteq> cr3 v"
    and tr: "present (pmem v) (cr3 v) (pdi a)" "table (pmem v) (cr3 v) (pdi a) = t" "t \<noteq> f" "pmem v (cell t (pti a)) = f OR 7"
    and n: "i + length ws \<le> 1024"
  shows "\<exists>m'. copy_words ws (cell a i) v = Some (v\<lparr>pmem := m'\<rparr>) \<and> (\<forall>k < length ws. m' (cell f (i + k)) = ws ! k) \<and>
    (\<forall>x. (\<forall>k < 1024. x \<noteq> cell f k) \<longrightarrow> m' x = pmem v x) \<and> (\<forall>k < i. m' (cell f k) = pmem v (cell f k))"
  using f tr n
proof (induction ws arbitrary: i v)
  case (Cons w ws)
  have i: "i < 1024" using Cons.prems by simp
  have ta: "page_aligned t" using Cons.prems(6) by (auto simp: table_def)
  have "translate (pmem v) (cr3 v) (cell a i) = Some (cell f i)"
    using Cons.prems i cell_offset(2,3) [OF Cons.prems(2) i] frame_of_or [of f 7] frame_cell [OF Cons.prems(1,2) i] unfolding translate_table by simp
  moreover have "cell a i + 4 = cell a (Suc i)" by (simp add: cell_def)
  ultimately have run: "copy_words (w # ws) (cell a i) v = copy_words ws (cell a (Suc i)) (store (cell f i) w v)" by simp
  let ?v = "store (cell f i) w v"
  have c: "pmem ?v (cell b j) = pmem v (cell b j)" if "page_aligned b" "b \<noteq> f" "j < 1024" for b j
    using that i Cons.prems(1) by (simp add: cell_inj)
  have "present (pmem ?v) (cr3 ?v) (pdi a)" "table (pmem ?v) (cr3 ?v) (pdi a) = t" "pmem ?v (cell t (pti a)) = f OR 7"
    using Cons.prems c [of "cr3 v" "pdi a"] c [of t "pti a"] ta by (simp_all add: present_def table_def)
  from Cons.IH [OF Cons.prems(1,2) _ _ this(1,2) Cons.prems(7) this(3), of "Suc i"] Cons.prems obtain m' where m': "copy_words ws (cell a (Suc i)) ?v = Some (?v\<lparr>pmem := m'\<rparr>)"
    "\<forall>k < length ws. m' (cell f (Suc i + k)) = ws ! k" "\<forall>x. (\<forall>k < 1024. x \<noteq> cell f k) \<longrightarrow> m' x = pmem ?v x"
    "\<forall>k < Suc i. m' (cell f k) = pmem ?v (cell f k)" by (simp del: store_simps(1)) blast
  have "m' (cell f (i + k)) = (w # ws) ! k" if "k < length (w # ws)" for k
    using that m'(2,4) i by (cases k) auto
  moreover have "m' x = pmem v x" if "\<forall>k < 1024. x \<noteq> cell f k" for x using that m'(3) i by auto
  moreover have "m' (cell f k) = pmem v (cell f k)" if "k < i" for k using that m'(4) i Cons.prems(1) by (simp add: cell_inj)
  moreover have "?v\<lparr>pmem := m'\<rparr> = v\<lparr>pmem := m'\<rparr>" by (simp add: store_def)
  ultimately show ?case using run m'(1) by auto
next
  case Nil
  show ?case by (rule exI [of _ "pmem v"]) simp
qed

section \<open>The user program in place\<close>

lemma vm_simps [simp]:
  "vm (set_vm v s) = v" "set_vm v (set_vm w s) = set_vm v s"
  "vm (on_kern (set_eflags e) s) = (vm s)\<lparr>cpu_flags := e\<rparr>"
  by (simp_all add: set_vm_def on_kern_def on_machine_def vmm_of_def with_vmm_def set_eflags_def)

text \<open>What \<open>give_page\<close> does while there is a frame: the page is mapped to a frame that was free, in a page table that exists.\<close>

lemma give_page_maps:
  assumes v: "vm s = v" "cr3 v = pd" "pdi va = d" "pti va = t"
    and ok: "vmm_ok (vmm_lay L) v" and dir: "dir_ok (vmm_lay L) (pmem v) (pmm_st v) pd"
    and va: "page_offset va = 0" "\<not> scratch_page va" and pr: "present (pmem v) pd d"
    and free: "free_frames (pmm_st v) - {0} \<noteq> {}"
  obtains f p v' where "pmm_alloc_frame (pmm_st v) = (f, p)" "f \<noteq> 0" "give_page L buffer message va cont s = cont (set_vm v' s)"
    "v' = v\<lparr>pmm_st := p, pmem := (pmem v)(cell (table (pmem v) pd d) t := f OR 7)\<rparr>"
    "vmm_ok (vmm_lay L) v'" "dir_ok (vmm_lay L) (pmem v') (pmm_st v') pd" "frame_number f \<in> free_frames (pmm_st v) - {0}"
    "free_frames (pmm_st v') = free_frames (pmm_st v) - {frame_number f}"
    "\<forall>x. translate (pmem v') pd x = (if same_page va x then Some (f OR page_offset x) else translate (pmem v) pd x)"
proof -
  obtain f p where al: "pmm_alloc_frame (pmm_st v) = (f, p)" by fastforce
  have "pmm_inv (pmm_st v)" using ok by (simp add: vmm_ok_def)
  then have nz: "f \<noteq> 0" using frames.alloc_zero [of "pmm_st v" p] al free by auto
  let ?s2 = "on_kern (\<lambda>k. k\<lparr>vmm := (vmm k)\<lparr>pmm_st := p\<rparr>\<rparr>) s"
  have w: "v\<lparr>pmm_st := p, cpu_flags := cpu_flags v\<rparr> = v\<lparr>pmm_st := p\<rparr>" by simp
  have s2: "vm ?s2 = v\<lparr>pmm_st := p\<rparr>" "set_vm u ?s2 = set_vm u s" for u
    using v(1) by (auto simp: set_vm_def on_kern_def on_machine_def vmm_of_def with_vmm_def)
  note r = dir pr va
  show thesis
  proof (rule page_mapped [of "vmm_lay L" v va f p "cpu_flags v", unfolded w v(2-4)])
    fix v'
    assume m: "vmm_map_page_current (vmm_lay L) f va 7 (v\<lparr>pmm_st := p\<rparr>) = Inr v'"
      and r: "v' = v\<lparr>pmm_st := p, pmem := (pmem v)(cell (table (pmem v) pd d) t := f OR 7)\<rparr>" "vmm_ok (vmm_lay L) v'"
      and d: "dir_ok (vmm_lay L) (pmem v') (pmm_st v') (cr3 v')"
      and q: "frame_number f \<in> free_frames (pmm_st v) - {0}" "free_frames (pmm_st v') = free_frames (pmm_st v) - {frame_number f}"
        "\<forall>x. translate (pmem v') pd x = (if same_page va x then Some (f OR page_offset x) else translate (pmem v) pd x)"
    have "give_page L buffer message va cont s = cont (set_vm v' s)"
      using al nz m v(1) unfolding give_page_def Let_def by (simp only: s2 prod.case if_False sum.case)
    moreover have "dir_ok (vmm_lay L) (pmem v') (pmm_st v') pd" using d v(2) unfolding r(1) by simp
    ultimately show thesis using that [OF al nz _ r _ q] by simp
  qed (use ok dir va pr al nz in simp_all)
qed

text \<open>Words written into a frame that holds no page table change no translation.\<close>

lemma data_write:
  assumes ok: "vmm_ok L v" and dir: "dir_ok L (pmem v) (pmm_st v) pd" and f: "page_aligned f" "f \<noteq> pd" "f \<noteq> first_page_table L"
    and tab: "\<And>d. d < 1024 \<Longrightarrow> present (pmem v) pd d \<Longrightarrow> table (pmem v) pd d \<noteq> f"
    and m': "\<And>x. (\<forall>k < 1024. x \<noteq> cell f k) \<Longrightarrow> m' x = pmem v x"
  shows "vmm_ok L (v\<lparr>pmem := m'\<rparr>)" "dir_ok L m' (pmm_st v) pd" "translate m' pd x = translate (pmem v) pd x"
proof -
  have c: "m' (cell a j) = pmem v (cell a j)" if "page_aligned a" "a \<noteq> f" "j < 1024" for a j
    by (rule m') (use that f(1) in \<open>simp add: cell_inj\<close>)
  have al: "page_aligned (first_page_table L)" "page_aligned pd" using ok dir by (simp_all add: vmm_ok_def layout_ok_def dir_ok_def)
  then show "vmm_ok L (v\<lparr>pmem := m'\<rparr>)" using ok c f(3) by (simp add: vmm_ok_def)
  have d: "m' (cell pd e) = pmem v (cell pd e)" if "e < 1024" for e using c al(2) f(2) that by simp
  show "dir_ok L m' (pmm_st v) pd" by (rule dir_ok_keep [OF dir d]) (use dir in \<open>auto simp: dir_ok_def\<close>)
  have "present m' pd (pdi x) = present (pmem v) pd (pdi x)" "table m' pd (pdi x) = table (pmem v) pd (pdi x)"
    using d [of "pdi x"] by (simp_all add: present_def table_def)
  moreover have "m' (cell (table (pmem v) pd (pdi x)) (pti x)) = pmem v (cell (table (pmem v) pd (pdi x)) (pti x))" if "present (pmem v) pd (pdi x)"
    by (rule c) (use tab that in \<open>simp_all add: table_def\<close>)
  ultimately show "translate m' pd x = translate (pmem v) pd x" unfolding translate_table by auto
qed

lemma user_pages:
  "page_offset 0x00800000 = 0" "\<not> scratch_page 0x00800000" "pdi 0x00800000 = 2" "pti 0x00800000 = 0" "page_aligned 0x00800000"
  "page_offset 0x009FF000 = 0" "\<not> scratch_page 0x009FF000" "pdi 0x009FF000 = 2" "pti 0x009FF000 = 511" "\<not> same_page 0x00800000 0x009FF000"
  by (simp_all add: page_offset_def scratch_page_def pdi_eq pti_eq page_aligned_dvd same_page_iff)

text \<open>A write into one page table leaves the directory and the frame of another page alone.\<close>

lemma pte_write_keeps:
  assumes dir: "dir_ok L m p pd" and d: "d < 1024" "present m pd d" "i < 1024" and e: "e < 1024"
  shows "present (m(cell (table m pd d) i := x)) pd e = present m pd e" "table (m(cell (table m pd d) i := x)) pd e = table m pd e"
proof -
  have "table m pd d \<noteq> pd" "page_aligned pd" "page_aligned (table m pd d)" using dir d by (auto simp: dir_ok_def table_def)
  then have "cell pd e \<noteq> cell (table m pd d) i" using d e by (simp add: cell_inj)
  then show "present (m(cell (table m pd d) i := x)) pd e = present m pd e" "table (m(cell (table m pd d) i := x)) pd e = table m pd e"
    by (simp_all add: present_def table_def)
qed

lemma frames_left:
  assumes "Suc n \<le> card (A - {0 :: nat})"
  shows "A - {0} \<noteq> {}" "n \<le> card (A - {f} - {0})"
proof -
  show "A - {0} \<noteq> {}" using assms by (metis card.empty not_less_eq_eq zero_le)
  have "A - {f} - {0} = A - {0} - {f}" by blast
  then show "n \<le> card (A - {f} - {0})" using assms diff_card_le_card_Diff [of "{f}" "A - {0}"] by simp
qed

text \<open>
  The two pages of the user program: code words in one frame, a stack in another, every other
  translation as before.
\<close>

definition program_placed :: "u32 list \<Rightarrow> vmm_state \<Rightarrow> vmm_state \<Rightarrow> bool" where
  "program_placed code v v' \<longleftrightarrow> cr3 v' = cr3 v \<and> cpu_flags v' = cpu_flags v \<and>
     (\<exists>f g. f \<in> free_frames (pmm_st v) \<and> g \<in> free_frames (pmm_st v) \<and> f \<noteq> g \<and> f \<noteq> 0 \<and> g \<noteq> 0 \<and>
        free_frames (pmm_st v') = free_frames (pmm_st v) - {f, g} \<and>
        (\<forall>i < length code. pmem v' (cell (frame_addr f) i) = code ! i) \<and>
        (\<forall>x. translate (pmem v') (cr3 v) x =
           (if same_page 0x00800000 x then Some (frame_addr f OR page_offset x)
            else if same_page 0x009FF000 x then Some (frame_addr g OR page_offset x) else translate (pmem v) (cr3 v) x)))"

text \<open>The page of the code with the program in it.\<close>

lemma code_placed:
  assumes ok: "vmm_ok (vmm_lay L) (vm s)" and dir: "dir_ok (vmm_lay L) (pmem (vm s)) (pmm_st (vm s)) (cr3 (vm s))"
    and pr: "present (pmem (vm s)) (cr3 (vm s)) 2" and free: "free_frames (pmm_st (vm s)) - {0} \<noteq> {}" and n: "length code \<le> 1024"
  obtains f v2 where "give_page L buffer message 0x00800000 (\<lambda>s. Option.bind (copy_words code 0x00800000 (vm s)) (\<lambda>v. cont (set_vm v s))) s = cont (set_vm v2 s)"
    "vmm_ok (vmm_lay L) v2" "dir_ok (vmm_lay L) (pmem v2) (pmm_st v2) (cr3 (vm s))" "cr3 v2 = cr3 (vm s)" "cpu_flags v2 = cpu_flags (vm s)"
    "page_aligned f" "frame_number f \<in> free_frames (pmm_st (vm s)) - {0}" "free_frames (pmm_st v2) = free_frames (pmm_st (vm s)) - {frame_number f}"
    "\<forall>k < length code. pmem v2 (cell f k) = code ! k" "present (pmem v2) (cr3 (vm s)) 2" "table (pmem v2) (cr3 (vm s)) 2 \<noteq> f"
    "\<forall>x. translate (pmem v2) (cr3 (vm s)) x = (if same_page 0x00800000 x then Some (f OR page_offset x) else translate (pmem (vm s)) (cr3 (vm s)) x)"
proof -
  let ?v = "vm s" and ?pd = "cr3 (vm s)" and ?t = "table (pmem (vm s)) (cr3 (vm s)) 2"
  let ?c2 = "\<lambda>s. Option.bind (copy_words code 0x00800000 (vm s)) (\<lambda>v. cont (set_vm v s))"
  have inv: "pmm_inv (pmm_st ?v)" using ok by (simp add: vmm_ok_def)
  obtain f p v1 where al: "pmm_alloc_frame (pmm_st ?v) = (f, p)" "f \<noteq> 0"
    and g1: "give_page L buffer message 0x00800000 ?c2 s = ?c2 (set_vm v1 s)"
    and v1: "v1 = ?v\<lparr>pmm_st := p, pmem := (pmem ?v)(cell ?t 0 := f OR 7)\<rparr>"
      "vmm_ok (vmm_lay L) v1" "dir_ok (vmm_lay L) (pmem v1) (pmm_st v1) ?pd" "frame_number f \<in> free_frames (pmm_st ?v) - {0}"
      "free_frames (pmm_st v1) = free_frames (pmm_st ?v) - {frame_number f}"
      "\<forall>x. translate (pmem v1) ?pd x = (if same_page 0x00800000 x then Some (f OR page_offset x) else translate (pmem ?v) ?pd x)"
    by (rule give_page_maps [OF refl refl user_pages(3,4) ok dir user_pages(1,2) pr free])
  note fresh = alloc_fresh [OF inv al]
  have f: "page_aligned f" "f \<noteq> ?pd" "f \<noteq> first_page_table (vmm_lay L)"
    and tf: "\<And>d. d < 1024 \<Longrightarrow> present (pmem ?v) ?pd d \<Longrightarrow> table (pmem ?v) ?pd d \<noteq> f"
    using fresh(1,6) ok dir by (auto simp: vmm_ok_def dir_ok_def)
  have keep: "present (pmem v1) ?pd d = present (pmem ?v) ?pd d" "table (pmem v1) ?pd d = table (pmem ?v) ?pd d" if "d < 1024" for d
    using pte_write_keeps [OF dir _ pr _ that, of 0 "f OR 7"] unfolding v1(1) by simp_all
  have c1: "cr3 v1 = ?pd" "cpu_flags v1 = cpu_flags ?v" unfolding v1(1) by simp_all
  have pa: "page_aligned (cr3 v1)" using v1(3) c1 by (simp add: dir_ok_def)
  obtain m2 where cp: "copy_words code (cell 0x00800000 0) v1 = Some (v1\<lparr>pmem := m2\<rparr>)" "\<forall>k < length code. m2 (cell f (0 + k)) = code ! k"
    "\<forall>x. (\<forall>k < 1024. x \<noteq> cell f k) \<longrightarrow> m2 x = pmem v1 x"
    using copy_words_page [OF f(1) user_pages(5) pa, of ?t 0 code] f(2) tf [of 2] keep [of 2] pr n v1(1) by (auto simp: user_pages)
  define v2 where "v2 = v1\<lparr>pmem := m2\<rparr>"
  have v2: "pmem v2 = m2" "pmm_st v2 = pmm_st v1" "cr3 v2 = ?pd" "cpu_flags v2 = cpu_flags ?v" using c1 by (simp_all add: v2_def)
  have tf1: "\<And>d. d < 1024 \<Longrightarrow> present (pmem v1) ?pd d \<Longrightarrow> table (pmem v1) ?pd d \<noteq> f" using tf keep by simp
  note dw = data_write [OF v1(2) v1(3) f tf1, of m2] cp(3)
  have ok2: "vmm_ok (vmm_lay L) v2" "dir_ok (vmm_lay L) (pmem v2) (pmm_st v2) ?pd"
    and tr2: "\<And>x. translate (pmem v2) ?pd x = translate (pmem v1) ?pd x" using dw by (auto simp: v2_def)
  have pda: "page_aligned ?pd" and tnf: "?t \<noteq> f" using dir tf [OF _ pr] by (simp_all add: dir_ok_def)
  then have "pmem v2 (cell ?pd 2) = pmem v1 (cell ?pd 2)" using cp(3) f(1,2) unfolding v2(1) by (simp add: cell_inj)
  then have t2: "present (pmem v2) ?pd 2" "table (pmem v2) ?pd 2 = ?t" using keep [of 2] pr by (simp_all add: present_def table_def)
  show thesis
  proof (rule that [OF _ ok2 v2(3,4) f(1) v1(4)])
    show "give_page L buffer message 0x00800000 ?c2 s = cont (set_vm v2 s)" using g1 cp(1) unfolding v2_def by (simp add: cell_def)
  qed (use v1(5,6) v2 cp(2) t2 tnf tr2 in simp_all)
qed

lemma launch_places:
  assumes ok: "vmm_ok (vmm_lay L) (vm s)" and dir: "dir_ok (vmm_lay L) (pmem (vm s)) (pmm_st (vm s)) (cr3 (vm s))"
    and pr: "present (pmem (vm s)) (cr3 (vm s)) 2" and free: "2 \<le> card (free_frames (pmm_st (vm s)) - {0})" and n: "length code \<le> 1024"
  obtains v' where "launch_user_process L buffer code s = Some (jump_usermode 0x00800000 (set_vm v' s))"
    "vmm_ok (vmm_lay L) v'" "dir_ok (vmm_lay L) (pmem v') (pmm_st v') (cr3 v')" "program_placed code (vm s) v'"
proof -
  let ?v = "vm s" and ?pd = "cr3 (vm s)"
  let ?c3 = "\<lambda>s. Some (jump_usermode 0x00800000 s)"
  let ?c2 = "give_page L buffer ''No memory for user stack frame!'' 0x009FF000 ?c3"
  have free1: "free_frames (pmm_st ?v) - {0} \<noteq> {}" by (rule frames_left(1) [of 1]) (use free in simp)
  obtain f v2 where g2: "launch_user_process L buffer code s = ?c2 (set_vm v2 s)"
    and v2: "vmm_ok (vmm_lay L) v2" "dir_ok (vmm_lay L) (pmem v2) (pmm_st v2) ?pd" "cr3 v2 = ?pd" "cpu_flags v2 = cpu_flags ?v"
      "page_aligned f" "frame_number f \<in> free_frames (pmm_st ?v) - {0}" "free_frames (pmm_st v2) = free_frames (pmm_st ?v) - {frame_number f}"
      "\<forall>k < length code. pmem v2 (cell f k) = code ! k" "present (pmem v2) ?pd 2" "table (pmem v2) ?pd 2 \<noteq> f"
      "\<forall>x. translate (pmem v2) ?pd x = (if same_page 0x00800000 x then Some (f OR page_offset x) else translate (pmem ?v) ?pd x)"
    unfolding launch_user_process_def by (rule code_placed [OF ok dir pr free1 n])
  have "Suc 0 \<le> card (free_frames (pmm_st v2) - {0})" unfolding v2(7) by (rule frames_left(2)) (use free in simp)
  then have free2: "free_frames (pmm_st v2) - {0} \<noteq> {}" by (rule frames_left(1))
  obtain g p3 v3 where al3: "pmm_alloc_frame (pmm_st v2) = (g, p3)" "g \<noteq> 0"
    and g3: "?c2 (set_vm v2 s) = ?c3 (set_vm v3 (set_vm v2 s))"
    and v3: "v3 = v2\<lparr>pmm_st := p3, pmem := (pmem v2)(cell (table (pmem v2) ?pd 2) 511 := g OR 7)\<rparr>"
      "vmm_ok (vmm_lay L) v3" "dir_ok (vmm_lay L) (pmem v3) (pmm_st v3) ?pd" "frame_number g \<in> free_frames (pmm_st v2) - {0}"
      "free_frames (pmm_st v3) = free_frames (pmm_st v2) - {frame_number g}"
      "\<forall>x. translate (pmem v3) ?pd x = (if same_page 0x009FF000 x then Some (g OR page_offset x) else translate (pmem v2) ?pd x)"
    by (rule give_page_maps [OF vm_simps(1) v2(3) user_pages(8,9) v2(1,2) user_pages(6,7) v2(9) free2])
  have run: "launch_user_process L buffer code s = Some (jump_usermode 0x00800000 (set_vm v3 s))" using g2 g3 by simp
  have "page_aligned (table (pmem v2) ?pd 2)" by (simp add: table_def)
  then have "pmem v3 (cell f i) = code ! i" if "i < length code" for i
    using that v2(5,8,10) n unfolding v3(1) by (simp add: cell_inj)
  moreover have "frame_addr (frame_number f) = f" "frame_addr (frame_number g) = g"
    using frame_addr_number v2(1,5) alloc_fresh(1) [OF _ al3] by (simp_all add: vmm_ok_def)
  moreover have "translate (pmem v3) ?pd x = (if same_page 0x00800000 x then Some (f OR page_offset x)
      else if same_page 0x009FF000 x then Some (g OR page_offset x) else translate (pmem ?v) ?pd x)" for x
    using v3(6) v2(11) user_pages(10) by (auto simp: same_page_iff)
  moreover have "free_frames (pmm_st v3) = free_frames (pmm_st ?v) - {frame_number f, frame_number g}" using v3(5) v2(7) by auto
  moreover have c3: "cr3 v3 = ?pd" "cpu_flags v3 = cpu_flags ?v" using v2(3,4) unfolding v3(1) by simp_all
  ultimately have "program_placed code ?v v3" unfolding program_placed_def using v2(6,7) v3(4)
    by (intro conjI exI [of _ "frame_number f"] exI [of _ "frame_number g"]) simp_all
  then show thesis by (intro that [OF run v3(2)]) (use v3(3) c3 in simp_all)
qed

section \<open>The stages of the start\<close>

text \<open>A kernel with just its own task, a well-formed heap and some address space.\<close>

definition started :: "task_layout \<Rightarrow> ksys \<Rightarrow> ksys \<Rightarrow> bool" where
  "started L k0 k \<longleftrightarrow> heap_ok (heap k) \<and> pcb k = pcb (task_init L k0) \<and> links k = links (task_init L k0) \<and>
     current_task_ptr k = kernel_task L \<and> task_count k = 1 \<and> next_pid k = next_pid k0 + 1"

lemma heap_ok_eflags [simp]: "heap_ok (h\<lparr>eflags := e\<rparr>) = heap_ok h"
  by (simp add: heap_ok_def)

lemma started_keeps:
  "started L k0 k \<Longrightarrow> started L k0 (set_eflags e k)" "started L k0 k \<Longrightarrow> started L k0 (with_vmm v k)"
  "started L k0 k \<Longrightarrow> heap_ok h \<Longrightarrow> started L k0 (k\<lparr>heap := h\<rparr>)" "started L k0 k \<Longrightarrow> heap_ok (heap k)"
  by (simp_all add: started_def set_eflags_def with_vmm_def)

lemma started_task_inv:
  assumes "started L k0 k" "task_layout_ok L" "heads_initialised L (links k0)" "next_pid k0 = 1" "spaces_ok (vmm_lay L) (vmm k) {}"
  shows "task_inv L k"
proof -
  let ?k = "(task_init L (k0\<lparr>tss_esp0 := tss_esp0 k, regs := regs k, yield_flags := yield_flags k\<rparr>))\<lparr>heap := heap k, vmm := vmm k\<rparr>"
  have "task_inv L ?k" by (rule task_init_inv) (use assms in \<open>simp_all add: started_def\<close>)
  moreover have "?k = k" by (rule ksys.equality) (use assms(1) in \<open>simp_all add: started_def task_init_def Let_def\<close>)
  ultimately show ?thesis by simp
qed

lemma boot_cpu_effect:
  obtains s1 c where "boot_cpu B L s = Some s1" "kern (mach_of s1) = task_init L (kern (mach_of s))" "chips (mach_of s1) = pic_remap c"
    "idt_of s1 = fst (load_idt (stub_table B) (stub_128 B) (idt_addr B) (idt_of s))"
  by (rule that) (auto simp: boot_cpu_def init_timer_def Let_def on_kern_def on_machine_def case_prod_unfold)

lemma boot_memory_effect:
  assumes mm: "memory_map_ok (memory_map B) n" "kernel_end B \<le> 0x80000000" and k: "kern (mach_of s) = task_init L k0"
  obtains s' p where "boot_memory B L s = Some s'" "started L k0 (kern (mach_of s'))" "chips (mach_of s') = chips (mach_of s)"
    "idt_of s' = idt_of s" "vm s' = vmm_init (vmm_lay L) ((vm s)\<lparr>pmm_st := p\<rparr>)" "pmm_inv p"
    "free_frames p = (\<Union>j < n. region_frames (memory_map B j)) - reserved_frames (kernel_end B)"
proof -
  obtain p where p: "pmm_init (kernel_end B) (memory_map B) (pmm_st (vm s)) = Some p" "pmm_inv p"
    "free_frames p = (\<Union>j < n. region_frames (memory_map B j)) - reserved_frames (kernel_end B)"
    using pmm_init_effect [OF mm, of "pmm_st (vm s)"] by blast
  let ?v = "vmm_init (vmm_lay L) ((vm s)\<lparr>pmm_st := p\<rparr>)" and ?t = "init_tss (tss_addr B) (gdt_of s)"
  let ?k = "(with_vmm ?v (kern (mach_of s)))\<lparr>heap := heap_init (heap (with_vmm ?v (kern (mach_of s)))), tss_esp0 := tss_esp0_field (fst ?t)\<rparr>"
  let ?s' = "s\<lparr>mach_of := (mach_of s)\<lparr>kern := ?k\<rparr>, g_tss := fst ?t, gdt_of := fst (snd ?t), task_register := snd (snd ?t)\<rparr>"
  have e: "eflags (heap_init h) = eflags h" for h :: heap_state by (simp add: heap_init_def)
  have "boot_memory B L s = Some ?s'"
    unfolding boot_memory_def p(1) by (simp add: Let_def case_prod_unfold set_vm_def on_kern_def on_machine_def)
  moreover have "started L k0 ?k" unfolding started_def k with_vmm_def by (simp add: heap_init_ok) (simp add: task_init_def Let_def)
  moreover have "vm ?s' = ?v" by (simp add: vmm_of_def with_vmm_def e)
  ultimately show thesis using that [of ?s' p] p(2,3) by simp
qed

lemma banner_keeps:
  "chips (fold (\<lambda>(col, str) m. echo (map of_char str) (paint col m)) xs m) = chips m"
  "vmm (kern (fold (\<lambda>(col, str) m. echo (map of_char str) (paint col m)) xs m)) = vmm (kern m)"
  "started L k0 (kern m) \<Longrightarrow> started L k0 (kern (fold (\<lambda>(col, str) m. echo (map of_char str) (paint col m)) xs m))"
  by (induction xs arbitrary: m) (auto simp: echo_def paint_def Let_def started_keeps)

lemma boot_screen_effect:
  assumes "started L k0 (kern (mach_of s))"
  obtains s' where "boot_screen B s = Some s'" "started L k0 (kern (mach_of s'))" "chips (mach_of s') = chips (mach_of s)"
    "idt_of s' = idt_of s" "vmm (kern (mach_of s')) = vmm (kern (mach_of s))"
proof -
  let ?m = "mach_of s"
  have "\<exists>c h'. enable_dynamic_history 1000 cells lens (c0, heap (kern ?m)) = Some (c, h') \<and> heap_ok h'" for cells lens c0
  proof -
    obtain a h1 where a: "kmalloc (of_int (s32 (1000 * 80)) * 2) (heap (kern ?m)) = Some (a, h1)" "heap_ok h1"
      using kmalloc_total [OF started_keeps(4) [OF assms]] by blast
    obtain b h2 where b: "kmalloc (of_int 1000 * 1) h1 = Some (b, h2)" "heap_ok h2" using kmalloc_total [OF a(2)] by blast
    show ?thesis unfolding enable_dynamic_history_def prod.case a(1) bind.bind_lunit b(1) using b(2) by auto
  qed
  then obtain c h' where e: "enable_dynamic_history 1000 (old_cells B) (old_lengths B) ((screen ?m)\<lparr>con_flags := cpu_eflags (kern ?m)\<rparr>, heap (kern ?m)) = Some (c, h')"
    "heap_ok h'" by blast
  let ?m1 = "?m\<lparr>screen := screen_clear c, kern := set_eflags (con_flags (screen_clear c)) ((kern ?m)\<lparr>heap := h'\<rparr>)\<rparr>"
  have "started L k0 (kern ?m1)" using assms e(2) by (simp add: started_keeps)
  then show thesis
    using that [of "s\<lparr>mach_of := fold (\<lambda>(col, str) m. echo (map of_char str) (paint col m)) banner ?m1\<rparr>"] banner_keeps(1,2) [of banner ?m1]
      banner_keeps(3) [of L k0 ?m1 banner] by (simp add: boot_screen_def Let_def e(1))
qed

text \<open>The page table for the user pages is made when the first stack page is mapped.\<close>

lemma boot_stack_maps:
  assumes v: "vm s = v" "page_directory (vmm_lay L) = pd" "cr3 v = pd" and ready: "vmm_ready (vmm_lay L) v"
    and ab: "\<not> present (pmem v) pd 2" and free: "4 \<le> card (free_frames (pmm_st v) - {0})"
  obtains v' where "boot_stack L s = Inr (set_vm v' s)" "vmm_ok (vmm_lay L) v'" "dir_ok (vmm_lay L) (pmem v') (pmm_st v') pd" "cr3 v' = pd"
    "present (pmem v') pd 2" "2 \<le> card (free_frames (pmm_st v') - {0})"
    "\<And>x. \<not> scratch_page x \<Longrightarrow> \<not> same_page 0x009FF000 x \<Longrightarrow> translate (pmem v') pd x = translate (pmem v) pd x"
proof -
  let ?L = "vmm_lay L" and ?va = "0x009FF000 :: addr"
  obtain f p where al: "pmm_alloc_frame (pmm_st v) = (f, p)" by fastforce
  let ?w = "v\<lparr>pmm_st := p\<rparr>"
  let ?w0 = "set_scratch ?L 0 ?w"
  have lay: "layout_ok ?L" and inv: "pmm_inv (pmm_st v)" using ready by (simp_all add: vmm_ready_def vmm_ok_def)
  have nz: "f \<noteq> 0" using frames.alloc_zero [OF inv, of p] al frames_left(1) [of 3 "free_frames (pmm_st v)"] free by auto
  note fresh = alloc_fresh [OF inv al nz]
  have sc: "vmm_ok ?L (set_scratch ?L 0 v)" "dir_ok ?L (pmem (set_scratch ?L 0 v)) (pmm_st (set_scratch ?L 0 v)) pd"
    using ready v(2) by (simp_all add: vmm_ready_def del: set_scratch_simps(1))
  have al0: "pmm_alloc_frame (pmm_st (set_scratch ?L 0 v)) = (f, p)" using al by simp
  note ks = alloc_keeps_spaces(1) [OF sc al0 nz, of "cpu_flags v"] alloc_keeps_spaces(2) [OF sc al0 nz]
  have w0: "(set_scratch ?L 0 v)\<lparr>pmm_st := p, cpu_flags := cpu_flags v\<rparr> = ?w0" by (simp add: set_scratch_def store_def)
  have pm: "pmem ?w0 = pmem (set_scratch ?L 0 v)" "pmm_st ?w0 = p" "cr3 ?w0 = pd" using v(3) by (simp_all add: set_scratch_def store_def)
  have ok: "vmm_ok ?L ?w0" and dir: "dir_ok ?L (pmem ?w0) (pmm_st ?w0) pd" using ks unfolding w0 pm by simp_all
  have free1: "Suc 2 \<le> card (free_frames p - {0})" unfolding fresh(3) by (rule frames_left(2)) (use free in simp)
  have "pmm_inv (pmm_st ?w0)" "free_frames (pmm_st ?w0) - {0} \<noteq> {}" using frames_left(1) [OF free1] fresh(2) by simp_all
  then obtain m' p' where r: "spec_map pd ?va (f OR 7) (pmem ?w0, pmm_st ?w0) = Some (m', p')" by (rule spec_map_not_None)
  let ?v' = "?w0\<lparr>pmem := m', pmm_st := p'\<rparr>"
  have "\<not> pmm_is_frame_free (drop_bit 12 f) (pmm_st ?w0)"
    using fresh(5) by (simp add: is_frame_free_iff frame_used_def frame_number_def unat_drop_bit_u32)
  then have "vmm_map_page ?L f ?va 7 ?w0 = Inr ?v'"
    using vmm_map_page_refines [OF ok, of ?va f 7] dir user_pages r v(2) by (simp add: scratch_page_def lift_map_def del: set_scratch_simps)
  then have run: "boot_stack L s = Inr (set_vm ?v' s)"
    unfolding boot_stack_def v(1) al Let_def prod.case by (simp add: vmm_map_page_ready [OF lay])
  note sm = spec_map_vmm_ok [OF ok dir r user_pages(7)]
  have absent: "\<not> present (pmem ?w0) pd 2"
    using ab dir_cells(1) [OF lay dir, of 2] by (simp add: present_def)
  have pr: "present m' pd 2" using spec_map_directory(1) [OF dir _ r, of 2] fresh(2) user_pages by simp
  have "2 \<le> card (free_frames p' - {0})"
    using r
  proof (cases rule: spec_map_cases)
    case (new g)
    have "free_frames p' = free_frames p - {frame_number g}" using alloc_fresh(3) [OF fresh(2), of g p'] new by simp
    then show ?thesis using frames_left(2) [OF free1] by simp
  qed (use absent user_pages in simp)
  moreover have "translate m' pd x = translate (pmem v) pd x" if "\<not> scratch_page x" "\<not> same_page ?va x" for x
    using spec_map_translate [OF dir _ r, of x] that fresh(2) translate_scratch [OF lay dir, of x] by simp
  ultimately show thesis using that [OF run] sm pr pm(3) by simp
qed

section \<open>Properties\<close>

text \<open>
  What the processor can see when the user program starts: the first 8 MB in place (but for the scratch page), the
  program's words at 0x800000, a stack page below 0xA00000, and nothing else.
\<close>

definition user_view :: "u32 list \<Rightarrow> vmm_state \<Rightarrow> bool" where
  "user_view code v \<longleftrightarrow>
     (\<forall>i < length code. map_option (pmem v) (translate (pmem v) (cr3 v) (cell 0x00800000 i)) = Some (code ! i)) \<and>
     (\<forall>va. \<not> scratch_page va \<longrightarrow> unat va < 0x800000 \<longrightarrow> translate (pmem v) (cr3 v) va = Some va) \<and>
     (\<forall>va. 0x800000 \<le> unat va \<longrightarrow> (translate (pmem v) (cr3 v) va \<noteq> None \<longleftrightarrow> same_page 0x00800000 va \<or> same_page 0x009FF000 va))"

lemma program_placed_view:
  assumes pl: "program_placed code v v'" and n: "length code \<le> 1024" and c: "cr3 v = pd"
    and low: "\<And>va. \<not> scratch_page va \<Longrightarrow> unat va < 0x800000 \<Longrightarrow> translate (pmem v) pd va = Some va"
    and high: "\<And>va. 0x800000 \<le> unat va \<Longrightarrow> \<not> same_page 0x009FF000 va \<Longrightarrow> translate (pmem v) pd va = None"
  shows "user_view code v'"
proof -
  from pl obtain f g where fr: "cr3 v' = pd" "f \<in> free_frames (pmm_st v)" "\<forall>i < length code. pmem v' (cell (frame_addr f) i) = code ! i"
    and tr: "\<And>x. translate (pmem v') pd x = (if same_page 0x00800000 x then Some (frame_addr f OR page_offset x)
       else if same_page 0x009FF000 x then Some (frame_addr g OR page_offset x) else translate (pmem v) pd x)"
    unfolding program_placed_def c by blast
  have "f < 1048576" using fr(2) by (simp add: free_frames_def total_frames_def)
  then have fa: "page_aligned (frame_addr f)" by simp
  have sp: "same_page 0x00800000 va \<or> same_page 0x009FF000 va \<Longrightarrow> 0x800000 \<le> unat va" for va
    unfolding same_page_iff user_pages pdi_eq by (rule ccontr) (auto simp: div_le_mono dest: div_le_mono [of _ _ 4096])
  have "map_option (pmem v') (translate (pmem v') pd (cell 0x00800000 i)) = Some (code ! i)" if "i < length code" for i
  proof -
    have i: "i < 1024" using that n by simp
    have "same_page 0x00800000 (cell 0x00800000 i)" unfolding same_page_iff using cell_offset(2,3) [OF user_pages(5) i] by simp
    then show ?thesis unfolding tr using frame_cell [OF fa user_pages(5) i] fr(3) that by simp
  qed
  moreover have "translate (pmem v') pd va = Some va" if "\<not> scratch_page va" "unat va < 0x800000" for va
    unfolding tr using sp [of va] low [OF that] that(2) by auto
  moreover have "translate (pmem v') pd va \<noteq> None \<longleftrightarrow> same_page 0x00800000 va \<or> same_page 0x009FF000 va" if "0x800000 \<le> unat va" for va
    unfolding tr using high [OF that] by auto
  ultimately show ?thesis unfolding user_view_def fr(1) by blast
qed

text \<open>What the kernel image and the machine provide before the first instruction of \<open>KernelMain\<close>.\<close>

definition boot_ready :: "boot_env \<Rightarrow> task_layout \<Rightarrow> nat \<Rightarrow> kernel_image \<Rightarrow> bool" where
  "boot_ready B L n s \<longleftrightarrow> task_layout_ok L \<and> layout_ok (vmm_lay L) \<and> heads_initialised L (links (kern (mach_of s))) \<and>
     next_pid (kern (mach_of s)) = 1 \<and> memory_map_ok (memory_map B) n \<and> kernel_end B \<le> 0x80000000 \<and>
     frame_number ` {page_directory (vmm_lay L), first_page_table (vmm_lay L), heap_page_table (vmm_lay L)} \<subseteq> reserved_frames (kernel_end B) \<and>
     (\<forall>d. 2 \<le> d \<and> d < 1024 \<longrightarrow> \<not> present (pmem (vmm (kern (mach_of s)))) (page_directory (vmm_lay L)) d) \<and>
     4 \<le> card ((\<Union>j < n. region_frames (memory_map B j)) - reserved_frames (kernel_end B))"

lemma boot_paging:
  assumes rd: "boot_ready B L n s" and v: "pmem v = pmem (vmm (kern (mach_of s)))" and p: "pmm_inv p"
    "free_frames p = (\<Union>j < n. region_frames (memory_map B j)) - reserved_frames (kernel_end B)"
  shows "vmm_ready (vmm_lay L) (vmm_init (vmm_lay L) (v\<lparr>pmm_st := p\<rparr>))" "4 \<le> card (free_frames p - {0})"
    "2 \<le> d \<Longrightarrow> d < 1024 \<Longrightarrow> \<not> present (pmem (vmm_init (vmm_lay L) (v\<lparr>pmm_st := p\<rparr>))) (page_directory (vmm_lay L)) d"
    "0x800000 \<le> unat va \<Longrightarrow> translate (pmem (vmm_init (vmm_lay L) (v\<lparr>pmm_st := p\<rparr>))) (page_directory (vmm_lay L)) va = None"
proof -
  let ?L = "vmm_lay L"
  have lay: "layout_ok ?L" and abs: "\<forall>d. 2 \<le> d \<and> d < 1024 \<longrightarrow> \<not> present (pmem v) (page_directory ?L) d" using rd v by (simp_all add: boot_ready_def)
  show "vmm_ready ?L (vmm_init ?L (v\<lparr>pmm_st := p\<rparr>))"
    by (rule vmm_init_ready) (use rd p abs in \<open>auto simp: boot_ready_def frame_used_def\<close>)
  have "0 \<notin> free_frames p" using p(2) by (simp add: reserved_frames_def)
  then show "4 \<le> card (free_frames p - {0})" using rd p(2) by (simp add: boot_ready_def)
  show np: "\<not> present (pmem (vmm_init ?L (v\<lparr>pmm_st := p\<rparr>))) (page_directory ?L) d" if "2 \<le> d" "d < 1024" for d
    using vmm_init_cells(3) [OF lay that(2), of "v\<lparr>pmm_st := p\<rparr>"] abs that by (simp add: present_def)
  show "translate (pmem (vmm_init ?L (v\<lparr>pmm_st := p\<rparr>))) (page_directory ?L) va = None" if "0x800000 \<le> unat va"
  proof -
    have "2048 \<le> unat va div 4096" using div_le_mono [OF that, of 4096] by simp
    then have "2 \<le> pdi va" unfolding pdi_eq using div_le_mono [of 2048 "unat va div 4096" 1024] by simp
    then show ?thesis unfolding translate_table using np by simp
  qed
qed

text \<open>Everything up to the jump.\<close>

lemma boot_reaches_launch:
  assumes rd: "boot_ready B L n s"
  obtains s5 c where "\<And>buffer code. KernelMain B L buffer code s = launch_user_process L buffer code s5" "started L (kern (mach_of s)) (kern (mach_of s5))"
    "chips (mach_of s5) = pic_remap c" "idt_of s5 = fst (load_idt (stub_table B) (stub_128 B) (idt_addr B) (idt_of s))"
    "vmm_ok (vmm_lay L) (vm s5)" "cr3 (vm s5) = page_directory (vmm_lay L)" "dir_ok (vmm_lay L) (pmem (vm s5)) (pmm_st (vm s5)) (cr3 (vm s5))"
    "present (pmem (vm s5)) (cr3 (vm s5)) 2" "2 \<le> card (free_frames (pmm_st (vm s5)) - {0})"
    "\<And>va. \<not> scratch_page va \<Longrightarrow> unat va < 0x800000 \<Longrightarrow> translate (pmem (vm s5)) (cr3 (vm s5)) va = Some va"
    "\<And>va. 0x800000 \<le> unat va \<Longrightarrow> \<not> same_page 0x009FF000 va \<Longrightarrow> translate (pmem (vm s5)) (cr3 (vm s5)) va = None"
proof -
  let ?L = "vmm_lay L" and ?k0 = "kern (mach_of s)" and ?pd = "page_directory (vmm_lay L)"
  obtain s1 c where s1: "boot_cpu B L s = Some s1" "kern (mach_of s1) = task_init L ?k0" "chips (mach_of s1) = pic_remap c"
    "idt_of s1 = fst (load_idt (stub_table B) (stub_128 B) (idt_addr B) (idt_of s))" by (rule boot_cpu_effect)
  have mm: "memory_map_ok (memory_map B) n" "kernel_end B \<le> 0x80000000" and lay: "layout_ok ?L" using rd by (simp_all add: boot_ready_def)
  obtain s2 p where s2: "boot_memory B L s1 = Some s2" "started L ?k0 (kern (mach_of s2))" "chips (mach_of s2) = chips (mach_of s1)"
    "idt_of s2 = idt_of s1" "vm s2 = vmm_init ?L ((vm s1)\<lparr>pmm_st := p\<rparr>)" "pmm_inv p"
    "free_frames p = (\<Union>j < n. region_frames (memory_map B j)) - reserved_frames (kernel_end B)"
    by (rule boot_memory_effect [OF mm s1(2)])
  have "pmem (vm s1) = pmem (vmm ?k0)" unfolding s1(2) by (simp add: vmm_of_def task_init_def Let_def)
  note pg = boot_paging [OF rd this s2(6,7)]
  have st: "pmm_st (vm s2) = p" "cr3 (vm s2) = ?pd" unfolding s2(5) by (simp_all add: vmm_init_def Let_def)
  obtain v3 where s3: "boot_stack L s2 = Inr (set_vm v3 s2)" and v3: "vmm_ok ?L v3" "dir_ok ?L (pmem v3) (pmm_st v3) ?pd" "cr3 v3 = ?pd"
    "present (pmem v3) ?pd 2" "2 \<le> card (free_frames (pmm_st v3) - {0})"
    "\<And>x. \<not> scratch_page x \<Longrightarrow> \<not> same_page 0x009FF000 x \<Longrightarrow> translate (pmem v3) ?pd x = translate (pmem (vm s2)) ?pd x"
    by (rule boot_stack_maps [OF refl refl st(2)]) (use pg(1,2) pg(3) [of 2] st(1) s2(5) in simp_all)
  have "started L ?k0 (kern (mach_of (set_vm v3 s2)))" using s2(2) by (simp add: set_vm_def on_kern_def on_machine_def started_keeps)
  then obtain s4 where s4: "boot_screen B (set_vm v3 s2) = Some s4" "started L ?k0 (kern (mach_of s4))"
    "chips (mach_of s4) = chips (mach_of s2)" "idt_of s4 = idt_of s2" "vmm (kern (mach_of s4)) = v3"
    by (rule boot_screen_effect) (simp add: set_vm_def on_kern_def on_machine_def with_vmm_def)
  let ?s5 = "on_kern (\<lambda>k. set_eflags (cpu_eflags k OR interrupt_flag) k) s4"
  have v5: "pmem (vm ?s5) = pmem v3" "pmm_st (vm ?s5) = pmm_st v3" "cr3 (vm ?s5) = ?pd" "vmm_ok ?L (vm ?s5)"
    using s4(5) v3(1,3) by (simp_all add: on_kern_def on_machine_def vmm_of_def set_eflags_def vmm_ok_def)
  have run: "KernelMain B L buffer code s = launch_user_process L buffer code ?s5" for buffer code
    unfolding KernelMain_def s1(1) bind.bind_lunit s2(1) s3 sum.case s4(1) ..
  have low: "translate (pmem v3) ?pd va = Some va" if "\<not> scratch_page va" "unat va < 0x800000" for va
  proof -
    have "\<not> same_page 0x009FF000 va" using that(2) unfolding same_page_iff user_pages pdi_eq by auto
    then show ?thesis using vmm_init_translates [OF lay that(2), of "(vm s1)\<lparr>pmm_st := p\<rparr>"] v3(6) [OF that(1)] st(2) unfolding s2(5) by simp
  qed
  have high: "translate (pmem v3) ?pd va = None" if "0x800000 \<le> unat va" "\<not> same_page 0x009FF000 va" for va
  proof -
    have "\<not> scratch_page va" using that(1) unfolding scratch_page_def pdi_eq by auto
    then show ?thesis using v3(6) that(2) pg(4) [OF that(1)] unfolding s2(5) by simp
  qed
  have "started L ?k0 (kern (mach_of ?s5))" using s4(2) by (simp add: on_kern_def on_machine_def started_keeps)
  moreover have "chips (mach_of ?s5) = pic_remap c" "idt_of ?s5 = fst (load_idt (stub_table B) (stub_128 B) (idt_addr B) (idt_of s))"
    using s4 s2 s1 by (simp_all add: on_kern_def on_machine_def)
  ultimately show thesis by (rule that [OF run _ _ _ v5(4,3), unfolded v5]) (use v3(2,4,5) low high in blast)+
qed

lemma load_idt_handler: "n < 48 \<Longrightarrow> gate_handler (fst (load_idt stubs isr128 a t) n) = stubs n"
proof -
  assume n: "n < 48"
  have "fst (load_idt stubs isr128 a t) n = set_idt_gate n (stubs n) 0x08 0x8E t n"
    using n by (simp add: load_idt_def Let_def) (simp add: set_idt_gate_def [of "0x80"] fold_gates)
  then show ?thesis by (simp add: set_idt_gate_handler)
qed


definition cold_image :: kernel_image where
  "cold_image = \<lparr>mach_of = \<lparr>kern = boot_ksys\<lparr>links := \<lparr>l_next = id, l_prev = id\<rparr>, next_pid := 1,
        vmm := \<lparr>pmem = (\<lambda>_. 0), pmm_st = boot_pmm, cr0 = 0, cr3 = 0, cpu_flags = 2\<rparr>\<rparr>,
      screen = boot_console, keys = idle_keyboard, chips = busy_chips, global_ticks = 0\<rparr>,
    idt_of = (\<lambda>_. \<lparr>offset_low = 0, selector = 0, idt_zero = 0, type_attr = 0, offset_high = 0\<rparr>), idtr = \<lparr>idt_limit = 0, idt_base = 0\<rparr>,
    gdt_of = replicate 48 0, g_tss = fst (init_tss 0 []), task_register = 0\<rparr>"

definition boot_world :: boot_env where
  "boot_world = \<lparr>stub_table = (\<lambda>i. 0x101000 + 16 * of_nat i), stub_128 = 0x102000, idt_addr = 0x113000, tss_addr = 0x114000, kernel_end = 0x120000,
     memory_map = (\<lambda>_. \<lparr>mm_base = 0, mm_length = 0, mm_type = 0, mm_acpi_ext = 0\<rparr>)
       (0 := \<lparr>mm_base = 0x100000, mm_length = 0x700000, mm_type = 1, mm_acpi_ext = 0\<rparr>),
     old_cells = (\<lambda>_ _. 0), old_lengths = (\<lambda>_ _. 0)\<rparr>"

lemma cold_image_ready: "boot_ready boot_world boot_tasks 1 cold_image"
proof -
  have "(\<Union>j < 1. region_frames (memory_map boot_world j)) - reserved_frames (kernel_end boot_world) = {288..<1024}"
    by (auto simp: region_frames_def reserved_frames_def boot_world_def)
  moreover have "memory_map_ok (memory_map boot_world) 1" "kernel_end boot_world \<le> 0x80000000"
    by (simp_all add: memory_map_ok_def below_4g_def boot_world_def)
  moreover have "heads_initialised boot_tasks (links (kern (mach_of cold_image)))" "next_pid (kern (mach_of cold_image)) = 1"
    "\<not> present (pmem (vmm (kern (mach_of cold_image)))) x d" for x d
    by (simp_all add: heads_initialised_def cold_image_def present_def)
  moreover have "vmm_lay boot_tasks = boot_layout" by (simp add: boot_tasks_def)
  moreover have "frame_number ` {page_directory boot_layout, first_page_table boot_layout, heap_page_table boot_layout} \<subseteq> reserved_frames (kernel_end boot_world)"
    by (simp add: boot_layout_def boot_world_def reserved_frames_def frame_number_def)
  ultimately show ?thesis using boot_tasks_ok boot_layout_ok unfolding boot_ready_def by simp
qed


end
