(* ===== verification/Spec2Isabelle.thy ===== *)
theory Spec2Isabelle
  imports Klib_String Klib_Stdlib Klib_List Pmm Kheap Vmm Task Console Keyboard Fat16_Folders Shell_Line Descriptors Pic Crtc Shell_Files Boot
begin

text \<open>
  Verification of the BenmoshOS kernel, a 32-bit x86 kernel in C (sources under src/src).

  \<^bold>\<open>The program.\<close>  The boot code hands the E820 memory map to the physical memory manager
  (memory/pmm), which owns the page frames.  The virtual memory manager (memory/vmm) builds page
  tables in frames taken from it and reaches them through one scratch page.  The kernel heap
  (memory/heap) manages a fixed 4 MB range with a linked list of block headers.  Tasks
  (kernel/task) are PCBs on intrusive lists (klib/list.h) with stacks and PCBs from the heap and
  page directories from the virtual memory manager; the context switch is kernel/task/task.asm.
  The console (drivers/print, klib/stdio.c) keeps a ring of lines, the keyboard driver
  (drivers/keyboard) a ring of characters.  The FAT16 file system (fs) reads and writes sectors
  through the ATA driver (drivers/ata).  Interrupts enter \<open>isr_handler\<close> (cpu/idt) through the gates and
  the controllers (cpu/pic): page faults grow the user stack, the timer switches tasks, the keyboard
  fills its ring.  User code enters through the system call dispatcher (kernel/syscall).  The shell
  (shell) edits lines, splits them into words and runs commands on all of this.  \<open>KernelMain\<close>
  (kernel/kernel.c) sets everything up and enters the user program.

  \<^bold>\<open>The theories.\<close>
  \<^item> \<open>Prelude\<close>, \<open>Bytes\<close>: machine words, panics as the left summand of a result, little-endian
    integers in byte buffers, alignment.
  \<^item> \<open>Ports\<close>: \<open>irq_save\<close> and \<open>irq_restore\<close> of cpu/ports/ports.h on the EFLAGS register.
  \<^item> \<open>Klib_String\<close>, \<open>Klib_Stdlib\<close>: klib/string.c on a flat byte memory and klib/stdlib.c on character
    arrays; copies leave everything else alone, comparison orders strings, \<open>atoi\<close> inverts \<open>itoa\<close>;
    when \<open>sleep\<close> returns and when it never does.
  \<^item> \<open>Klib_List\<close>: klib/list.h on a store of links, with the lists read off as HOL lists.
  \<^item> \<open>Pmm\<close>: memory/pmm/pmm.c; the counter, the bitmap and the summary agree in every reachable
    state, allocation takes the lowest free frame, freeing inverts it.
  \<^item> \<open>Kheap\<close>, \<open>Kheap_Clients\<close>: memory/heap/heap.c on 32-bit cells; the headers tile the heap, live
    regions are disjoint, \<open>kmalloc\<close> refines first fit on a list of blocks, \<open>kfree\<close> releases exactly
    one region; what clients of the heap may rely on.
  \<^item> \<open>Vmm\<close>, \<open>Vmm_Spaces\<close>: memory/vmm/vmm.c on physical memory with the scratch page translated by
    hand; mapping, unmapping and lookup against what the MMU translates; any number of address
    spaces side by side.
  \<^item> \<open>Task\<close>: kernel/task/task.c and task.asm on top of the lists, the heap and the address spaces; one
    invariant for the three lists and for who owns which memory, kept by every operation; round
    robin; the frame of a new task and the round trip of the context switch.
  \<^item> \<open>Console\<close>, \<open>Keyboard\<close>: drivers/print/print.c with klib/stdio.c, and drivers/keyboard/keyboard.c;
    the ring of lines refines an unbounded scrollback, \<open>printf\<close> prints the text of its format, the
    character ring is a queue.
  \<^item> \<open>Crtc\<close>: the port writes of the cursor functions of drivers/print/print.c.
  \<^item> \<open>Ata\<close>: drivers/ata/ata.c port access by port access; a sector written is what is read.
  \<^item> \<open>Fat16_Table\<close>, \<open>Fat16_Names\<close>, \<open>Fat16_Dir\<close>: the lower layers of fs/fat16.c: table entries,
    allocation and chains; 8.3 names; directory visits, search and path resolution.
  \<^item> \<open>Fat16_Insert\<close>: \<open>fat16_insert_entry\<close> with its slots, long-name and 8.3 records; a search then finds
    the new entry and everything else as before.
  \<^item> \<open>Fat16_Files\<close>, \<open>Fat16_Content\<close>, \<open>Fat16_Entries\<close>: the operations on files and directories; the bytes of
    cluster chains and what the load and write loops do to them; replacing and removing entries.
  \<^item> \<open>Fat16_Ops\<close>, \<open>Fat16_Folders\<close>: what the operations promise: loading returns what was written or
    appended, creating, deleting, making and removing directories with all their error codes.
  \<^item> \<open>Descriptors\<close>, \<open>Pic\<close>: cpu/idt/idt.c (gates), cpu/gdt/gdt.c, kernel/tss/tss.c on the bytes the processor
    reads; cpu/pic/pic.c on a model of the 8259 and 8254 chips.
  \<^item> \<open>Interrupts\<close>: \<open>isr_handler\<close> of cpu/idt/idt.c and kernel/panic/panic.c on the machine made of the task
    system, the console, the keyboard and the controllers; stack growth, preemption, fatal exceptions.
  \<^item> \<open>Syscalls\<close>: kernel/syscall/syscall.c; the line that system call 4 returns.
  \<^item> \<open>Shell_Line\<close>, \<open>Shell_Commands\<close>, \<open>Shell_Files\<close>: shell/shell.c: the line editor refines an abstract one with
    history, the tokenizer gives the words of a line; all commands, the dispatcher and the key loop;
    a file written from the shell is what \<open>cat\<close> prints.
  \<^item> \<open>Boot\<close>: \<open>KernelMain\<close> and \<open>launch_user_process\<close> of kernel/kernel.c; from the state the loader leaves, the
    start ends in ring 3 with the program in place and every component in its invariant.

  \<^bold>\<open>How the model corresponds to the code.\<close>  Structures are records, enums are datatypes, integers
  are words of their width, and every function is a definition of the same name on explicit state.
  A call of \<open>kernel_panic\<close> is a left summand; a function whose loop may not end is a
  \<open>partial_function\<close> into \<open>option\<close>, where \<open>None\<close> is not returning, and the theorems prove that the value
  is \<open>Some\<close> wherever they claim something of the result.  Counted loops run over the range they
  count, with the bounds of the source (the poll loops of the ATA driver 1000000 times, the release
  of a chain once per cluster of the volume), so no other fuel is needed.  Addresses the
  linker chooses, the memory map, the arguments of interrupts and the answers of the disk are
  parameters.  Contents of uninitialised buffers are arguments where they could matter.

  \<^bold>\<open>Interfaces.\<close>  Components rely on each other through locales interpreted on the model: the
  frame allocator of \<open>Pmm\<close>, the region allocator of \<open>Kheap\<close>, the node queues of \<open>Klib_List\<close>, the
  address space manager of \<open>Vmm_Spaces\<close>, the bounded queue of \<open>Keyboard\<close>, the sector store of \<open>Ata\<close>.

  \<^bold>\<open>Not modelled.\<close>  The kernel's own test suite (kernel/test.c), the machine code of the user programs in
  kernel/kernel.c (an argument of \<open>KernelMain\<close>), the boot sector and the register saving of the
  interrupt stubs.  Functions run without interrupts between their statements except where the source
  waits for one (\<open>sleep\<close>, system call 4, the key loop of the shell), where what happens meanwhile is an
  argument.  The hardware is modelled as far as the code observes it: the interrupt flag, CR0 and CR3,
  page translation, video memory, interrupt controllers and timer, the registers and answers of the disk.
\<close>

end
